(* ===== verification/Prelude.thy ===== *)
theory Prelude
  imports Main
begin

text \<open>
  Shared vocabulary of the development: the 64-bit arithmetic of \<open>long\<close> (two's complement,
  as the Linux and Windows targets of the program compute it), the exceptions of the C++
  standard library as values of a sum type, decimal printing and parsing as \<open>operator<<\<close>,
  \<open>std::to_string\<close>, \<open>atol\<close> and \<open>std::stoi\<close> do it, and association lists, which model
  \<open>std::unordered_map\<close> wherever its iteration order can be seen.
\<close>

named_theorems long_simps \<open>rewriting of 64-bit arithmetic inside the representable range\<close>
named_theorems exn_simps \<open>unfolding of the exception combinators\<close>

section \<open>Machine integers\<close>

type_synonym long = int

definition LONG_MAX :: int where
  "LONG_MAX = 9223372036854775807"

definition LONG_MIN :: int where
  "LONG_MIN = - 9223372036854775808"

text \<open>Two's complement wrap-around of a mathematical result into a signed 64-bit \<open>long\<close>.\<close>

definition wrap64 :: "int \<Rightarrow> long" where
  "wrap64 x = (x + 9223372036854775808) mod 18446744073709551616 - 9223372036854775808"

definition is_long :: "int \<Rightarrow> bool" where
  "is_long x \<longleftrightarrow> LONG_MIN \<le> x \<and> x \<le> LONG_MAX"

lemma wrap64_id [long_simps]: "is_long x \<Longrightarrow> wrap64 x = x"
  unfolding wrap64_def is_long_def LONG_MIN_def LONG_MAX_def by simp

lemma is_long_wrap64: "is_long (wrap64 x)"
proof -
  have "0 \<le> (x + 9223372036854775808) mod 18446744073709551616"
    and "(x + 9223372036854775808) mod 18446744073709551616 < 18446744073709551616"
    by simp_all
  then show ?thesis
    unfolding wrap64_def is_long_def LONG_MIN_def LONG_MAX_def by linarith
qed

lemma is_longI: "0 \<le> x \<Longrightarrow> x \<le> LONG_MAX \<Longrightarrow> is_long x"
  unfolding is_long_def LONG_MIN_def LONG_MAX_def by simp

text \<open>C++ integer division truncates towards zero.\<close>

definition cdiv :: "int \<Rightarrow> int \<Rightarrow> int" where
  "cdiv a b = sgn a * sgn b * (\<bar>a\<bar> div \<bar>b\<bar>)"

lemma cdiv_nonneg: "0 \<le> a \<Longrightarrow> 0 < b \<Longrightarrow> cdiv a b = a div b"
  unfolding cdiv_def by (cases "a = 0") (simp_all add: sgn_if)

section \<open>Exceptions\<close>

text \<open>
  What the code can end with instead of a value: \<open>std::out_of_range\<close> from \<open>at\<close>,
  \<open>std::invalid_argument\<close> from \<open>stoi\<close>, \<open>std::bad_alloc\<close> from \<open>new\<close>, the failure of an \<open>assert\<close>, \<open>std::terminate\<close>,
  \<open>exit(2)\<close> from the lexer's \<open>LexerError\<close>, and behaviour the standard leaves undefined, such as
  the use of a null file or of a variable without a value. A statement that can fail returns a sum:
  \<open>Inl\<close> the failure.
\<close>

datatype cpp_exn =
    Out_of_range
  | Invalid_argument
  | Bad_alloc
  | Assertion_failed
  | Terminate
  | Undefined_behaviour
  | Exit_failure string

type_synonym 'a result = "cpp_exn + 'a"

fun bindE :: "'a result \<Rightarrow> ('a \<Rightarrow> 'b result) \<Rightarrow> 'b result" where
  "bindE (Inl e) f = Inl e"
| "bindE (Inr x) f = f x"

declare bindE.simps [exn_simps]

lemma bindE_assoc [exn_simps]: "bindE (bindE m f) g = bindE m (\<lambda>x. bindE (f x) g)"
  by (cases m) simp_all

lemma bindE_Inr_iff: "bindE m f = Inr y \<longleftrightarrow> (\<exists>x. m = Inr x \<and> f x = Inr y)"
  by (cases m) simp_all

lemma bindE_Inl_iff: "bindE m f = Inl e \<longleftrightarrow> m = Inl e \<or> (\<exists>x. m = Inr x \<and> f x = Inl e)"
  by (cases m) simp_all

text \<open>A loop \<open>for (auto \&\&x : xs)\<close> whose body threads a state and may throw.\<close>

fun foldE :: "('x \<Rightarrow> 's \<Rightarrow> 's result) \<Rightarrow> 'x list \<Rightarrow> 's \<Rightarrow> 's result" where
  "foldE f [] s = Inr s"
| "foldE f (x # xs) s = bindE (f x s) (foldE f xs)"

lemma foldE_append: "foldE f (xs @ ys) s = bindE (foldE f xs s) (foldE f ys)"
proof (induction xs arbitrary: s)
  case Nil
  then show ?case by simp
next
  case (Cons x xs)
  then show ?case by (cases "f x s") simp_all
qed

lemma foldE_invariant:
  assumes "\<And>x s. x \<in> set xs \<Longrightarrow> I s \<Longrightarrow> \<exists>s'. f x s = Inr s' \<and> I s'"
    and "I s"
  shows "\<exists>s'. foldE f xs s = Inr s' \<and> I s'"
  using assms
proof (induction xs arbitrary: s)
  case Nil
  then show ?case by simp
next
  case (Cons x xs)
  from Cons.prems obtain s1 where "f x s = Inr s1" and "I s1"
    by (meson list.set_intros(1))
  moreover from this Cons.IH [of s1] Cons.prems(1)
  obtain s2 where "foldE f xs s1 = Inr s2" and "I s2"
    by (meson list.set_intros(2))
  ultimately show ?case by simp
qed

text \<open>\<open>std::vector::at\<close>: a range check, then the element.\<close>

definition vec_at :: "'a list \<Rightarrow> int \<Rightarrow> 'a result" where
  "vec_at xs i = (if 0 \<le> i \<and> i < int (length xs) then Inr (xs ! nat i) else Inl Out_of_range)"

lemma vec_at_in [simp]: "i < length xs \<Longrightarrow> vec_at xs (int i) = Inr (xs ! i)"
  unfolding vec_at_def by simp

lemma vec_at_Inr_iff: "vec_at xs i = Inr x \<longleftrightarrow> 0 \<le> i \<and> i < int (length xs) \<and> x = xs ! nat i"
  unfolding vec_at_def by auto

section \<open>Association lists: \<open>std::unordered_map\<close> in its iteration order\<close>

text \<open>
  \<open>upsert eq k v m\<close> is \<open>m[k] = v\<close>: the element whose key is equivalent to \<open>k\<close> keeps its key and
  its place and gets the new value; otherwise a new element appears. \<open>eq\<close> is the map's key
  equality, which for \<open>LogType\<close> is not the equality of the structures.
\<close>

fun upsert :: "('k \<Rightarrow> 'k \<Rightarrow> bool) \<Rightarrow> 'k \<Rightarrow> 'v \<Rightarrow> ('k \<times> 'v) list \<Rightarrow> ('k \<times> 'v) list" where
  "upsert eq k v [] = [(k, v)]"
| "upsert eq k v ((k', v') # m) = (if eq k' k then (k', v) # m else (k', v') # upsert eq k v m)"

fun lookup_by :: "('k \<Rightarrow> 'k \<Rightarrow> bool) \<Rightarrow> 'k \<Rightarrow> ('k \<times> 'v) list \<Rightarrow> 'v option" where
  "lookup_by eq k [] = None"
| "lookup_by eq k ((k', v') # m) = (if eq k' k then Some v' else lookup_by eq k m)"

definition map_at :: "('k \<Rightarrow> 'k \<Rightarrow> bool) \<Rightarrow> ('k \<times> 'v) list \<Rightarrow> 'k \<Rightarrow> 'v result" where
  "map_at eq m k = (case lookup_by eq k m of None \<Rightarrow> Inl Out_of_range | Some v \<Rightarrow> Inr v)"

text \<open>No two elements of a map have equivalent keys.\<close>

fun keys_distinct :: "('k \<Rightarrow> 'k \<Rightarrow> bool) \<Rightarrow> ('k \<times> 'v) list \<Rightarrow> bool" where
  "keys_distinct eq [] \<longleftrightarrow> True"
| "keys_distinct eq ((k, v) # m) \<longleftrightarrow> (\<forall>(k', v') \<in> set m. \<not> eq k k') \<and> keys_distinct eq m"

lemma set_upsert_keys: "fst ` set (upsert eq k v m) \<subseteq> insert k (fst ` set m)"
proof (induction m)
  case Nil
  then show ?case by simp
next
  case (Cons p m)
  then show ?case by (cases p; cases "eq (fst p) k") auto
qed

lemma upsert_lookup_same: "eq k k \<Longrightarrow> lookup_by eq k (upsert eq k v m) = Some v"
  by (induction m) auto

lemma upsert_lookup_equiv:
  assumes "eq k j" and trans: "\<And>a b c. eq a b \<Longrightarrow> eq b c \<Longrightarrow> eq a c"
    and sym: "\<And>a b. eq a b \<Longrightarrow> eq b a"
  shows "lookup_by eq j (upsert eq k v m) = Some v"
  using assms(1)
proof (induction m)
  case Nil
  then show ?case by simp
next
  case (Cons p m)
  obtain k' v' where p: "p = (k', v')" by (cases p)
  show ?case
  proof (cases "eq k' k")
    case True
    then have "eq k' j" using trans Cons.prems by blast
    with True p show ?thesis by simp
  next
    case False
    then have "\<not> eq k' j" using trans sym Cons.prems by blast
    with False Cons p show ?thesis by simp
  qed
qed

lemma upsert_lookup_other:
  assumes "\<not> eq k j" and trans: "\<And>a b c. eq a b \<Longrightarrow> eq b c \<Longrightarrow> eq a c"
    and sym: "\<And>a b. eq a b \<Longrightarrow> eq b a"
  shows "lookup_by eq j (upsert eq k v m) = lookup_by eq j m"
proof (induction m)
  case Nil
  then show ?case using assms(1) by simp
next
  case (Cons p m)
  obtain k' v' where p: "p = (k', v')" by (cases p)
  show ?case
  proof (cases "eq k' k")
    case True
    then have "\<not> eq k' j" using trans sym assms(1) by blast
    with True p show ?thesis by simp
  next
    case False
    with Cons p show ?thesis by simp
  qed
qed

lemma upsert_keys_distinct:
  assumes "keys_distinct eq m" and "\<And>a b. eq a b \<Longrightarrow> eq b a"
  shows "keys_distinct eq (upsert eq k v m)"
  using assms
proof (induction m)
  case Nil
  then show ?case by simp
next
  case (Cons p m)
  obtain k' v' where p: "p = (k', v')" by (cases p)
  have sub: "\<And>q. q \<in> set (upsert eq k v m) \<Longrightarrow> fst q = k \<or> fst q \<in> fst ` set m"
    using set_upsert_keys [of eq k v m] by blast
  show ?case
  proof (cases "eq k' k")
    case True
    with Cons p show ?thesis by simp
  next
    case False
    from Cons.prems p have m: "keys_distinct eq m" and fresh: "\<forall>q \<in> set m. \<not> eq k' (fst q)"
      by auto
    have "\<forall>q \<in> set (upsert eq k v m). \<not> eq k' (fst q)"
    proof
      fix q assume "q \<in> set (upsert eq k v m)"
      then show "\<not> eq k' (fst q)" using sub [of q] False fresh by auto
    qed
    with False Cons.IH [OF m Cons.prems(2)] p show ?thesis by auto
  qed
qed

section \<open>Decimal text\<close>

definition digit_char :: "nat \<Rightarrow> char" where
  "digit_char d = char_of (48 + d)"

definition is_digit :: "char \<Rightarrow> bool" where
  "is_digit c \<longleftrightarrow> 48 \<le> (of_char c :: nat) \<and> (of_char c :: nat) \<le> 57"

definition digit_val :: "char \<Rightarrow> nat" where
  "digit_val c = of_char c - 48"

fun show_nat :: "nat \<Rightarrow> string" where
  "show_nat n = (if n < 10 then [digit_char n] else show_nat (n div 10) @ [digit_char (n mod 10)])"

declare show_nat.simps [simp del]

text \<open>Decimal text of a signed integer: \<open>operator<<\<close> on \<open>long\<close>, \<open>std::to_string\<close>.\<close>

definition show_int :: "int \<Rightarrow> string" where
  "show_int i = (if i < 0 then CHR ''-'' # show_nat (nat (- i)) else show_nat (nat i))"

text \<open>The value of the leading digits of a text, and what follows them.\<close>

fun read_digits :: "nat \<Rightarrow> string \<Rightarrow> nat \<times> string" where
  "read_digits acc [] = (acc, [])"
| "read_digits acc (c # cs) =
     (if is_digit c then read_digits (10 * acc + digit_val c) cs else (acc, c # cs))"

lemma of_char_digit_char: "d < 10 \<Longrightarrow> (of_char (digit_char d) :: nat) = 48 + d"
  unfolding digit_char_def by simp

lemma is_digit_digit_char [simp]: "d < 10 \<Longrightarrow> is_digit (digit_char d)"
  unfolding is_digit_def by (simp add: of_char_digit_char)

lemma digit_val_digit_char [simp]: "d < 10 \<Longrightarrow> digit_val (digit_char d) = d"
  unfolding digit_val_def by (simp add: of_char_digit_char)

lemma show_nat_digits: "list_all is_digit (show_nat n)"
  by (induction n rule: show_nat.induct) (subst show_nat.simps, simp)

lemma show_nat_not_Nil: "show_nat n \<noteq> []"
  by (subst show_nat.simps) simp

lemma read_digits_append:
  "list_all is_digit ds \<Longrightarrow> read_digits acc (ds @ rest) = read_digits (fst (read_digits acc ds)) rest"
  by (induction ds arbitrary: acc) auto

lemma read_digits_show_nat: "fst (read_digits 0 (show_nat n)) = n"
proof (induction n rule: show_nat.induct)
  case (1 n)
  show ?case
  proof (cases "n < 10")
    case True
    then show ?thesis by (simp add: show_nat.simps [of n])
  next
    case False
    have "fst (read_digits 0 (show_nat (n div 10) @ [digit_char (n mod 10)])) = n"
      using "1" [OF False] by (simp add: read_digits_append show_nat_digits)
    with False show ?thesis by (simp add: show_nat.simps [of n])
  qed
qed

lemma show_nat_inj: "show_nat m = show_nat n \<Longrightarrow> m = n"
  using read_digits_show_nat by metis

lemma read_digits_all: "list_all is_digit ds \<Longrightarrow> snd (read_digits acc ds) = []"
  by (induction ds arbitrary: acc) auto

text \<open>\<open>isspace\<close> of the C locale.\<close>

definition is_space :: "char \<Rightarrow> bool" where
  "is_space c \<longleftrightarrow> c = CHR '' '' \<or> (9 \<le> (of_char c :: nat) \<and> (of_char c :: nat) \<le> 13)"

lemma is_digit_not_space: "is_digit c \<Longrightarrow> \<not> is_space c"
  unfolding is_digit_def is_space_def by auto

text \<open>
  \<open>strtol(s, _, 10)\<close>: white space, a sign, digits; the value saturates at the limits of \<open>long\<close>.
  The second component says whether any digit was read (\<open>stoi\<close> throws
  \<open>std::invalid_argument\<close> when none was).
\<close>

definition saturate :: "int \<Rightarrow> long" where
  "saturate x = max LONG_MIN (min LONG_MAX x)"

fun strtol_unsigned :: "string \<Rightarrow> nat \<times> bool" where
  "strtol_unsigned [] = (0, False)"
| "strtol_unsigned (c # cs) =
     (if is_digit c then (fst (read_digits 0 (c # cs)), True) else (0, False))"

definition strtol10 :: "string \<Rightarrow> long \<times> bool" where
  "strtol10 s = (case dropWhile is_space s of
       [] \<Rightarrow> (0, False)
     | c # cs \<Rightarrow>
         if c = CHR ''-'' then (let (n, ok) = strtol_unsigned cs in (saturate (- int n), ok))
         else if c = CHR ''+'' then (let (n, ok) = strtol_unsigned cs in (saturate (int n), ok))
         else (let (n, ok) = strtol_unsigned (c # cs) in (saturate (int n), ok)))"

definition atol :: "string \<Rightarrow> long" where
  "atol s = fst (strtol10 s)"

definition stoi :: "string \<Rightarrow> int result" where
  "stoi s = (let (n, ok) = strtol10 s in
     if \<not> ok then Inl Invalid_argument
     else if - 2147483648 \<le> n \<and> n \<le> 2147483647 then Inr n else Inl Out_of_range)"

lemma digit_not_sign: "is_digit c \<Longrightarrow> c \<noteq> CHR ''-'' \<and> c \<noteq> CHR ''+''"
  unfolding is_digit_def by auto

lemma strtol10_digits:
  assumes "list_all is_digit ds" and "ds \<noteq> []"
  shows "strtol10 ds = (saturate (int (fst (read_digits 0 ds))), True)"
proof -
  from assms obtain c cs where ds: "ds = c # cs" and c: "is_digit c" by (cases ds) auto
  then show ?thesis
    using digit_not_sign [OF c] is_digit_not_space [OF c] by (simp add: strtol10_def)
qed

lemma saturate_id: "is_long x \<Longrightarrow> saturate x = x"
  unfolding saturate_def is_long_def by simp

lemma atol_show_nat: "int n \<le> LONG_MAX \<Longrightarrow> atol (show_nat n) = int n"
  unfolding atol_def
  by (simp add: strtol10_digits show_nat_digits show_nat_not_Nil read_digits_show_nat
      saturate_id is_longI)

end
