(* ===== verification/FlexTables.thy ===== *)
theory FlexTables
  imports Prelude
begin

text \<open>
  The scanner tables of \<open>src/library_src/flex.cpp\<close>, which flex generated from
  \<open>flex/configparser.l\<close>: a deterministic automaton in compressed form. \<open>yy_ec\<close> maps a character to
  its class, \<open>yy_base\<close>, \<open>yy_def\<close>, \<open>yy_nxt\<close>, \<open>yy_chk\<close> and \<open>yy_meta\<close> give the transitions, and
  \<open>yy_accept\<close> the rule a state accepts. The theory shows that no lookup of the scanner leaves its
  table and that the search for a transition ends.
\<close>

section \<open>The tables\<close>

definition yy_accept :: "nat list" where
  "yy_accept = [
    0, 0, 0, 65, 65, 32, 32, 0, 0, 0, 0, 0, 0, 32, 32, 0,
    0, 0, 0, 0, 0, 65, 65, 71, 70, 66, 67, 70, 70, 50, 65, 43,
    38, 70, 70, 70, 70, 70, 42, 41, 40, 39, 59, 32, 32, 9, 12, 8,
    70, 70, 70, 70, 70, 70, 70, 24, 23, 22, 21, 13, 66, 9, 12, 8,
    70, 70, 13, 66, 70, 14, 70, 70, 66, 25, 20, 24, 23, 22, 21, 26,
    32, 27, 31, 30, 29, 28, 66, 43, 38, 42, 41, 40, 39, 70, 50, 45,
    49, 48, 47, 46, 66, 58, 53, 57, 56, 55, 54, 59, 65, 60, 64, 63,
    62, 61, 66, 67, 0, 0, 50, 43, 42, 41, 40, 39, 59, 65, 43, 38,
    0, 0, 0, 0, 0, 44, 59, 32, 9, 12, 0, 0, 0, 24, 23, 22,
    21, 13, 32, 15, 12, 8, 0, 0, 11, 0, 10, 0, 0, 0, 13, 26,
    66, 9, 12, 0, 0, 13, 12, 8, 11, 10, 13, 66, 0, 0, 0, 14,
    0, 0, 66, 25, 24, 23, 22, 21, 26, 25, 20, 26, 32, 31, 30, 29,
    28, 27, 66, 43, 42, 41, 40, 39, 0, 43, 38, 44, 50, 49, 48, 47,
    46, 45, 66, 58, 57, 56, 55, 54, 59, 58, 53, 59, 65, 64, 63, 62,
    61, 60, 0, 0, 0, 0, 0, 0, 0, 0, 0, 17, 0, 0, 0, 16,
    0, 0, 0, 0, 0, 0, 0, 0, 0, 0, 0, 0, 0, 68, 0, 33,
    0, 37, 0, 0, 1, 0, 11, 11, 0, 10, 10, 0, 0, 0, 11, 11,
    10, 10, 0, 0, 0, 0, 0, 35, 36, 0, 0, 3, 19, 19, 0, 7,
    0, 0, 36, 0, 0, 18, 0, 0, 6, 5, 0, 34, 0, 18, 0, 2,
    6, 4, 69, 0, 0, 4, 0, 0, 52, 51, 51, 0]"

definition yy_ec :: "nat list" where
  "yy_ec = [
    0, 1, 1, 1, 1, 1, 1, 1, 1, 2, 3, 1, 1, 1, 1, 1,
    1, 1, 1, 1, 1, 1, 1, 1, 1, 1, 1, 1, 1, 1, 1, 1,
    4, 1, 1, 1, 1, 5, 1, 1, 1, 1, 1, 1, 6, 1, 1, 7,
    8, 8, 8, 8, 8, 8, 8, 8, 8, 8, 1, 1, 1, 1, 1, 1,
    1, 9, 10, 11, 12, 13, 14, 15, 1, 16, 1, 17, 18, 19, 20, 21,
    22, 1, 23, 24, 25, 26, 27, 1, 1, 28, 1, 1, 1, 1, 1, 1,
    1, 29, 30, 31, 32, 33, 34, 35, 36, 37, 1, 38, 39, 40, 41, 42,
    43, 1, 44, 45, 46, 47, 48, 1, 1, 49, 1, 50, 1, 51, 1, 1,
    1, 1, 1, 1, 1, 1, 1, 1, 1, 1, 1, 1, 1, 1, 1, 1,
    1, 1, 1, 1, 1, 1, 1, 1, 1, 1, 1, 1, 1, 1, 1, 1,
    1, 1, 1, 1, 1, 1, 1, 1, 1, 1, 1, 1, 1, 1, 1, 1,
    1, 1, 1, 1, 1, 1, 1, 1, 1, 1, 1, 1, 1, 1, 1, 1,
    1, 1, 1, 1, 1, 1, 1, 1, 1, 1, 1, 1, 1, 1, 1, 1,
    1, 1, 1, 1, 1, 1, 1, 1, 1, 1, 1, 1, 1, 1, 1, 1,
    1, 1, 1, 1, 1, 1, 1, 1, 1, 1, 1, 1, 1, 1, 1, 1,
    1, 1, 1, 1, 1, 1, 1, 1, 1, 1, 1, 1, 1, 1, 1, 1]"

definition yy_meta :: "nat list" where
  "yy_meta = [
    0, 1, 1, 1, 1, 1, 1, 1, 1, 1, 1, 1, 1, 1, 1, 1,
    1, 1, 1, 1, 1, 1, 1, 1, 1, 1, 1, 1, 1, 1, 1, 1,
    1, 1, 1, 1, 1, 1, 1, 1, 1, 1, 1, 1, 1, 1, 1, 1,
    1, 1, 1, 1]"

definition yy_base :: "nat list" where
  "yy_base = [
    0, 0, 3, 48, 0, 98, 0, 148, 0, 198, 248, 298, 0, 348, 398, 448,
    498, 548, 598, 648, 698, 748, 798, 392, 1150, 6, 388, 1, 0, 848, 375, 7,
    336, 2, 0, 5, 0, 1, 1, 1150, 2, 1150, 27, 898, 333, 51, 59, 318,
    5, 3, 2, 48, 65, 37, 0, 49, 1150, 95, 1150, 118, 948, 1150, 66, 314,
    66, 81, 70, 155, 79, 288, 97, 102, 998, 137, 276, 1150, 1150, 1150, 1150, 144,
    175, 266, 1150, 1150, 1150, 1150, 1048, 160, 261, 1150, 1150, 1150, 1150, 167, 176, 239,
    1150, 1150, 1150, 1150, 1098, 180, 228, 1150, 1150, 1150, 1150, 189, 194, 224, 1150, 1150,
    1150, 1150, 220, 216, 100, 81, 0, 221, 1150, 1150, 1150, 1150, 225, 211, 233, 201,
    129, 141, 145, 178, 186, 238, 198, 0, 241, 242, 151, 176, 238, 1150, 1150, 241,
    1150, 255, 172, 258, 262, 164, 229, 237, 268, 241, 285, 254, 264, 266, 277, 155,
    0, 1150, 289, 275, 285, 306, 310, 134, 294, 302, 316, 327, 317, 317, 325, 128,
    364, 368, 0, 321, 1150, 1150, 1150, 1150, 337, 355, 123, 361, 377, 1150, 1150, 1150,
    1150, 118, 0, 356, 1150, 1150, 1150, 1150, 372, 381, 106, 385, 392, 1150, 1150, 1150,
    1150, 81, 0, 393, 1150, 1150, 1150, 1150, 412, 401, 50, 416, 408, 1150, 1150, 1150,
    1150, 28, 419, 338, 423, 331, 427, 340, 356, 431, 409, 437, 412, 418, 420, 456,
    422, 427, 434, 438, 446, 438, 440, 441, 444, 445, 446, 447, 449, 473, 463, 493,
    499, 503, 464, 478, 507, 508, 511, 512, 516, 517, 520, 500, 523, 503, 1150, 1150,
    1150, 1150, 527, 531, 535, 538, 515, 553, 556, 513, 519, 557, 561, 567, 518, 566,
    570, 541, 571, 574, 552, 585, 561, 588, 592, 603, 593, 606, 575, 611, 591, 616,
    617, 620, 621, 605, 625, 629, 616, 635, 640, 644, 656, 1150, 0]"

definition yy_def :: "nat list" where
  "yy_def = [
    0, 316, 316, 316, 3, 316, 5, 316, 7, 7, 7, 7, 11, 11, 11, 11,
    11, 11, 11, 11, 11, 11, 11, 315, 315, 315, 315, 315, 315, 315, 315, 315,
    315, 315, 315, 315, 315, 315, 315, 315, 315, 315, 315, 315, 315, 315, 315, 315,
    315, 315, 315, 315, 315, 315, 315, 315, 315, 315, 315, 315, 315, 315, 315, 315,
    315, 315, 315, 315, 315, 315, 315, 315, 315, 315, 315, 315, 315, 315, 315, 315,
    315, 315, 315, 315, 315, 315, 315, 315, 315, 315, 315, 315, 315, 315, 315, 315,
    315, 315, 315, 315, 315, 315, 315, 315, 315, 315, 315, 315, 315, 315, 315, 315,
    315, 315, 315, 315, 315, 315, 29, 315, 315, 315, 315, 315, 315, 315, 315, 315,
    315, 315, 315, 315, 315, 315, 315, 43, 315, 315, 315, 315, 315, 315, 315, 315,
    315, 315, 315, 315, 315, 315, 315, 315, 315, 315, 315, 315, 315, 315, 315, 315,
    60, 315, 315, 315, 315, 315, 315, 315, 315, 315, 315, 315, 315, 315, 315, 315,
    315, 315, 72, 315, 315, 315, 315, 315, 315, 315, 315, 315, 315, 315, 315, 315,
    315, 315, 86, 315, 315, 315, 315, 315, 315, 315, 315, 315, 315, 315, 315, 315,
    315, 315, 100, 315, 315, 315, 315, 315, 315, 315, 315, 315, 315, 315, 315, 315,
    315, 315, 315, 315, 315, 315, 315, 315, 315, 315, 315, 315, 315, 315, 315, 315,
    315, 315, 315, 315, 315, 315, 315, 315, 315, 315, 315, 315, 315, 315, 315, 315,
    315, 315, 315, 315, 315, 315, 315, 315, 315, 315, 315, 315, 315, 315, 315, 315,
    315, 315, 315, 315, 315, 315, 315, 315, 315, 315, 315, 315, 315, 315, 315, 315,
    315, 315, 315, 315, 315, 315, 315, 315, 315, 315, 315, 315, 315, 315, 315, 315,
    315, 315, 315, 315, 315, 315, 315, 315, 315, 315, 315, 0, 315]"

definition yy_nxt :: "nat list" where
  "yy_nxt = [
    0, 24, 25, 26, 25, 25, 26, 25, 114, 126, 114, 126, 152, 131, 132, 131,
    129, 129, 27, 151, 157, 27, 116, 117, 128, 28, 130, 150, 28, 133, 134, 133,
    152, 131, 132, 131, 225, 129, 129, 27, 151, 157, 27, 116, 117, 128, 28, 130,
    150, 28, 29, 30, 29, 147, 31, 147, 32, 153, 218, 33, 34, 148, 35, 148,
    156, 151, 27, 36, 166, 116, 166, 37, 170, 28, 170, 154, 168, 153, 155, 33,
    38, 147, 35, 147, 39, 156, 151, 27, 40, 209, 116, 169, 37, 41, 28, 154,
    168, 227, 155, 42, 43, 44, 43, 45, 46, 154, 47, 176, 155, 48, 49, 169,
    177, 50, 202, 226, 51, 52, 227, 53, 158, 159, 158, 28, 54, 154, 193, 176,
    155, 48, 55, 186, 177, 50, 56, 226, 175, 51, 57, 185, 53, 185, 167, 58,
    28, 54, 187, 159, 187, 59, 60, 26, 60, 61, 62, 228, 63, 171, 159, 171,
    172, 152, 201, 64, 201, 229, 27, 65, 230, 203, 173, 203, 149, 28, 174, 146,
    228, 188, 204, 188, 204, 152, 217, 64, 217, 153, 229, 27, 65, 230, 173, 219,
    134, 219, 28, 174, 220, 231, 220, 66, 67, 134, 67, 68, 24, 153, 69, 189,
    205, 127, 232, 190, 206, 70, 125, 191, 207, 71, 231, 115, 192, 208, 114, 126,
    114, 126, 221, 133, 134, 133, 222, 232, 225, 70, 223, 126, 218, 126, 71, 224,
    133, 134, 133, 147, 148, 147, 148, 209, 154, 24, 67, 154, 67, 68, 24, 233,
    69, 158, 159, 158, 147, 234, 147, 70, 148, 238, 148, 71, 154, 202, 235, 154,
    235, 242, 193, 236, 233, 243, 244, 158, 159, 158, 234, 70, 186, 168, 238, 239,
    71, 239, 237, 166, 240, 166, 242, 169, 175, 243, 244, 24, 72, 245, 72, 24,
    73, 168, 74, 241, 170, 247, 170, 237, 166, 24, 166, 169, 246, 24, 170, 147,
    170, 147, 167, 185, 248, 185, 149, 176, 241, 171, 75, 171, 172, 24, 76, 177,
    146, 246, 77, 187, 159, 187, 173, 78, 127, 248, 174, 176, 256, 79, 80, 44,
    80, 254, 24, 177, 81, 185, 201, 185, 201, 258, 173, 187, 159, 187, 235, 174,
    235, 256, 239, 249, 239, 254, 203, 251, 203, 259, 125, 188, 82, 188, 258, 201,
    83, 201, 250, 203, 84, 203, 252, 115, 315, 85, 204, 217, 204, 217, 259, 24,
    80, 44, 80, 217, 24, 217, 81, 250, 315, 189, 220, 252, 220, 190, 219, 134,
    219, 191, 219, 134, 219, 253, 192, 253, 205, 255, 261, 255, 206, 257, 82, 257,
    207, 260, 83, 260, 262, 208, 84, 235, 221, 235, 263, 85, 222, 264, 265, 261,
    223, 24, 86, 266, 86, 224, 87, 267, 88, 262, 239, 269, 239, 268, 270, 263,
    271, 272, 264, 265, 273, 274, 275, 276, 266, 277, 315, 253, 267, 253, 278, 269,
    89, 315, 268, 270, 90, 271, 272, 281, 91, 273, 274, 275, 276, 92, 277, 255,
    282, 255, 278, 93, 86, 279, 86, 279, 87, 257, 88, 257, 281, 260, 283, 260,
    283, 235, 235, 235, 235, 282, 284, 239, 285, 239, 239, 286, 239, 287, 288, 287,
    289, 235, 89, 235, 315, 235, 90, 235, 315, 239, 91, 239, 239, 291, 239, 92,
    286, 292, 295, 288, 289, 93, 94, 315, 94, 280, 24, 279, 95, 279, 290, 283,
    290, 283, 291, 284, 298, 284, 292, 295, 287, 284, 287, 284, 297, 290, 297, 290,
    299, 300, 299, 315, 96, 294, 302, 315, 97, 298, 315, 301, 98, 301, 303, 307,
    303, 99, 304, 306, 304, 306, 300, 24, 94, 294, 94, 302, 24, 297, 95, 297,
    299, 315, 299, 293, 307, 301, 308, 301, 296, 293, 303, 304, 303, 304, 309, 306,
    309, 306, 310, 284, 315, 284, 96, 309, 315, 309, 97, 308, 311, 312, 98, 312,
    315, 315, 312, 99, 312, 315, 314, 310, 314, 24, 100, 315, 100, 305, 101, 315,
    102, 311, 314, 315, 314, 315, 315, 315, 315, 315, 315, 315, 315, 315, 315, 315,
    315, 315, 315, 315, 315, 315, 315, 315, 103, 315, 315, 315, 104, 315, 315, 315,
    105, 315, 313, 315, 315, 106, 315, 315, 315, 315, 315, 107, 100, 315, 100, 315,
    101, 315, 102, 315, 315, 315, 315, 315, 315, 315, 315, 315, 315, 315, 315, 315,
    315, 315, 315, 315, 315, 315, 315, 315, 315, 315, 103, 315, 315, 315, 104, 315,
    315, 315, 105, 315, 315, 315, 315, 106, 315, 315, 315, 315, 315, 107, 108, 30,
    108, 315, 24, 315, 109, 315, 315, 315, 315, 315, 315, 315, 315, 315, 315, 315,
    315, 315, 315, 315, 315, 315, 315, 315, 315, 315, 315, 315, 110, 315, 315, 315,
    111, 315, 315, 315, 112, 315, 315, 315, 315, 113, 315, 315, 315, 315, 315, 24,
    108, 30, 108, 315, 24, 315, 109, 315, 315, 315, 315, 315, 315, 315, 315, 315,
    315, 315, 315, 315, 315, 315, 315, 315, 315, 315, 315, 315, 315, 315, 110, 315,
    315, 315, 111, 315, 315, 315, 112, 315, 315, 315, 315, 113, 315, 315, 315, 315,
    315, 24, 118, 315, 118, 315, 119, 315, 315, 315, 315, 315, 315, 315, 315, 315,
    315, 315, 315, 315, 315, 315, 315, 315, 315, 315, 315, 315, 315, 315, 315, 315,
    120, 315, 315, 315, 121, 315, 315, 315, 122, 315, 315, 315, 315, 123, 315, 315,
    315, 315, 315, 124, 135, 315, 135, 136, 137, 315, 315, 315, 315, 315, 315, 315,
    315, 138, 315, 315, 139, 140, 315, 315, 315, 315, 315, 315, 315, 315, 315, 315,
    315, 315, 141, 315, 315, 138, 142, 315, 315, 139, 143, 315, 315, 315, 315, 144,
    315, 315, 315, 315, 315, 145, 160, 315, 160, 161, 162, 315, 315, 315, 315, 315,
    315, 315, 315, 163, 315, 315, 315, 164, 315, 315, 315, 315, 315, 315, 315, 315,
    315, 315, 315, 315, 315, 315, 315, 163, 315, 315, 315, 315, 164, 315, 315, 315,
    315, 315, 315, 315, 315, 315, 315, 165, 178, 315, 178, 315, 179, 315, 315, 315,
    315, 315, 315, 315, 315, 315, 315, 315, 315, 315, 315, 315, 315, 315, 315, 315,
    315, 315, 315, 315, 315, 315, 180, 315, 315, 315, 181, 315, 315, 315, 182, 315,
    315, 315, 315, 183, 315, 315, 315, 315, 315, 184, 194, 315, 194, 315, 195, 315,
    315, 315, 315, 315, 315, 315, 315, 315, 315, 315, 315, 315, 315, 315, 315, 315,
    315, 315, 315, 315, 315, 315, 315, 315, 196, 315, 315, 315, 197, 315, 315, 315,
    198, 315, 315, 315, 315, 199, 315, 315, 315, 315, 315, 200, 210, 315, 210, 315,
    211, 315, 315, 315, 315, 315, 315, 315, 315, 315, 315, 315, 315, 315, 315, 315,
    315, 315, 315, 315, 315, 315, 315, 315, 315, 315, 212, 315, 315, 315, 213, 315,
    315, 315, 214, 315, 315, 315, 315, 215, 315, 315, 315, 315, 315, 216, 23, 315,
    315, 315, 315, 315, 315, 315, 315, 315, 315, 315, 315, 315, 315, 315, 315, 315,
    315, 315, 315, 315, 315, 315, 315, 315, 315, 315, 315, 315, 315, 315, 315, 315,
    315, 315, 315, 315, 315, 315, 315, 315, 315, 315, 315, 315, 315, 315, 315, 315,
    315, 315]"

definition yy_chk :: "nat list" where
  "yy_chk = [
    0, 316, 1, 1, 1, 2, 2, 2, 25, 31, 25, 31, 50, 36, 37, 40,
    34, 38, 1, 49, 54, 2, 27, 28, 33, 1, 35, 48, 2, 42, 42, 42,
    50, 36, 37, 40, 225, 34, 38, 1, 49, 54, 2, 27, 28, 33, 1, 35,
    48, 2, 3, 3, 3, 45, 3, 45, 3, 51, 218, 3, 3, 46, 3, 46,
    53, 55, 3, 3, 62, 51, 62, 3, 66, 3, 66, 52, 64, 51, 52, 3,
    3, 68, 3, 68, 3, 53, 55, 3, 3, 209, 51, 65, 3, 3, 3, 52,
    64, 117, 52, 3, 5, 5, 5, 5, 5, 57, 5, 70, 57, 5, 5, 65,
    71, 5, 202, 116, 5, 5, 117, 5, 59, 59, 59, 5, 5, 57, 193, 70,
    57, 5, 5, 186, 71, 5, 5, 116, 175, 5, 5, 73, 5, 73, 167, 5,
    5, 5, 79, 79, 79, 5, 7, 7, 7, 7, 7, 128, 7, 67, 159, 67,
    67, 138, 87, 7, 87, 129, 7, 7, 130, 93, 67, 93, 149, 7, 67, 146,
    128, 80, 94, 80, 94, 138, 101, 7, 101, 139, 129, 7, 7, 130, 67, 107,
    107, 107, 7, 67, 108, 131, 108, 7, 9, 134, 9, 9, 9, 139, 9, 80,
    94, 127, 132, 80, 94, 9, 125, 80, 94, 9, 131, 115, 80, 94, 114, 119,
    114, 119, 108, 124, 124, 124, 108, 132, 109, 9, 108, 126, 102, 126, 9, 108,
    133, 133, 133, 136, 137, 136, 137, 95, 140, 9, 10, 143, 10, 10, 10, 150,
    10, 145, 145, 145, 147, 151, 147, 10, 148, 153, 148, 10, 140, 88, 152, 143,
    152, 155, 81, 152, 150, 156, 157, 158, 158, 158, 151, 10, 74, 163, 153, 154,
    10, 154, 152, 162, 154, 162, 155, 164, 69, 156, 157, 10, 11, 168, 11, 11,
    11, 163, 11, 154, 165, 169, 165, 152, 166, 11, 166, 164, 168, 11, 170, 172,
    170, 172, 63, 179, 169, 179, 47, 173, 154, 171, 11, 171, 171, 11, 11, 174,
    44, 168, 11, 184, 184, 184, 171, 11, 32, 169, 171, 173, 229, 11, 13, 13,
    13, 227, 13, 174, 13, 185, 195, 185, 195, 231, 171, 187, 187, 187, 176, 171,
    176, 229, 177, 176, 177, 227, 200, 177, 200, 232, 30, 188, 13, 188, 231, 201,
    13, 201, 176, 203, 13, 203, 177, 26, 23, 13, 204, 211, 204, 211, 232, 13,
    14, 14, 14, 217, 14, 217, 14, 176, 0, 188, 220, 177, 220, 188, 216, 216,
    216, 188, 219, 219, 219, 226, 188, 226, 204, 228, 234, 228, 204, 230, 14, 230,
    204, 233, 14, 233, 236, 204, 14, 235, 220, 235, 237, 14, 220, 238, 240, 234,
    220, 14, 15, 241, 15, 220, 15, 242, 15, 236, 239, 244, 239, 243, 245, 237,
    246, 247, 238, 240, 248, 249, 250, 251, 241, 252, 0, 253, 242, 253, 254, 244,
    15, 0, 243, 245, 15, 246, 247, 258, 15, 248, 249, 250, 251, 15, 252, 255,
    259, 255, 254, 15, 16, 256, 16, 256, 16, 257, 16, 257, 258, 260, 261, 260,
    261, 262, 263, 262, 263, 259, 264, 265, 264, 265, 266, 267, 266, 268, 269, 268,
    278, 274, 16, 274, 0, 275, 16, 275, 0, 276, 16, 276, 277, 281, 277, 16,
    267, 282, 286, 269, 278, 16, 17, 0, 17, 257, 17, 279, 17, 279, 280, 283,
    280, 283, 281, 284, 289, 284, 282, 286, 287, 285, 287, 285, 288, 290, 288, 290,
    291, 292, 291, 0, 17, 285, 294, 0, 17, 289, 0, 293, 17, 293, 295, 300,
    295, 17, 296, 298, 296, 298, 292, 17, 18, 285, 18, 294, 18, 297, 18, 297,
    299, 0, 299, 284, 300, 301, 302, 301, 287, 285, 303, 304, 303, 304, 305, 306,
    305, 306, 307, 308, 0, 308, 18, 309, 0, 309, 18, 302, 310, 311, 18, 311,
    0, 0, 312, 18, 312, 0, 313, 307, 313, 18, 19, 0, 19, 297, 19, 0,
    19, 310, 314, 0, 314, 0, 0, 0, 0, 0, 0, 0, 0, 0, 0, 0,
    0, 0, 0, 0, 0, 0, 0, 0, 19, 0, 0, 0, 19, 0, 0, 0,
    19, 0, 312, 0, 0, 19, 0, 0, 0, 0, 0, 19, 20, 0, 20, 0,
    20, 0, 20, 0, 0, 0, 0, 0, 0, 0, 0, 0, 0, 0, 0, 0,
    0, 0, 0, 0, 0, 0, 0, 0, 0, 0, 20, 0, 0, 0, 20, 0,
    0, 0, 20, 0, 0, 0, 0, 20, 0, 0, 0, 0, 0, 20, 21, 21,
    21, 0, 21, 0, 21, 0, 0, 0, 0, 0, 0, 0, 0, 0, 0, 0,
    0, 0, 0, 0, 0, 0, 0, 0, 0, 0, 0, 0, 21, 0, 0, 0,
    21, 0, 0, 0, 21, 0, 0, 0, 0, 21, 0, 0, 0, 0, 0, 21,
    22, 22, 22, 0, 22, 0, 22, 0, 0, 0, 0, 0, 0, 0, 0, 0,
    0, 0, 0, 0, 0, 0, 0, 0, 0, 0, 0, 0, 0, 0, 22, 0,
    0, 0, 22, 0, 0, 0, 22, 0, 0, 0, 0, 22, 0, 0, 0, 0,
    0, 22, 29, 0, 29, 0, 29, 0, 0, 0, 0, 0, 0, 0, 0, 0,
    0, 0, 0, 0, 0, 0, 0, 0, 0, 0, 0, 0, 0, 0, 0, 0,
    29, 0, 0, 0, 29, 0, 0, 0, 29, 0, 0, 0, 0, 29, 0, 0,
    0, 0, 0, 29, 43, 0, 43, 43, 43, 0, 0, 0, 0, 0, 0, 0,
    0, 43, 0, 0, 43, 43, 0, 0, 0, 0, 0, 0, 0, 0, 0, 0,
    0, 0, 43, 0, 0, 43, 43, 0, 0, 43, 43, 0, 0, 0, 0, 43,
    0, 0, 0, 0, 0, 43, 60, 0, 60, 60, 60, 0, 0, 0, 0, 0,
    0, 0, 0, 60, 0, 0, 0, 60, 0, 0, 0, 0, 0, 0, 0, 0,
    0, 0, 0, 0, 0, 0, 0, 60, 0, 0, 0, 0, 60, 0, 0, 0,
    0, 0, 0, 0, 0, 0, 0, 60, 72, 0, 72, 0, 72, 0, 0, 0,
    0, 0, 0, 0, 0, 0, 0, 0, 0, 0, 0, 0, 0, 0, 0, 0,
    0, 0, 0, 0, 0, 0, 72, 0, 0, 0, 72, 0, 0, 0, 72, 0,
    0, 0, 0, 72, 0, 0, 0, 0, 0, 72, 86, 0, 86, 0, 86, 0,
    0, 0, 0, 0, 0, 0, 0, 0, 0, 0, 0, 0, 0, 0, 0, 0,
    0, 0, 0, 0, 0, 0, 0, 0, 86, 0, 0, 0, 86, 0, 0, 0,
    86, 0, 0, 0, 0, 86, 0, 0, 0, 0, 0, 86, 100, 0, 100, 0,
    100, 0, 0, 0, 0, 0, 0, 0, 0, 0, 0, 0, 0, 0, 0, 0,
    0, 0, 0, 0, 0, 0, 0, 0, 0, 0, 100, 0, 0, 0, 100, 0,
    0, 0, 100, 0, 0, 0, 0, 100, 0, 0, 0, 0, 0, 100, 315, 315,
    315, 315, 315, 315, 315, 315, 315, 315, 315, 315, 315, 315, 315, 315, 315, 315,
    315, 315, 315, 315, 315, 315, 315, 315, 315, 315, 315, 315, 315, 315, 315, 315,
    315, 315, 315, 315, 315, 315, 315, 315, 315, 315, 315, 315, 315, 315, 315, 315,
    315, 315]"

section \<open>Reading the tables\<close>

text \<open>All entries of a list as equations, so that the simplifier finds an entry in one step.\<close>

fun entries :: "(nat \<Rightarrow> 'a) \<Rightarrow> nat \<Rightarrow> 'a list \<Rightarrow> bool" where
  "entries f k [] \<longleftrightarrow> True"
| "entries f k (x # xs) \<longleftrightarrow> f k = x \<and> entries f (k + 1) xs"

lemma entries_nth: "entries (\<lambda>i. (ys @ xs) ! i) (length ys) xs"
proof (induction xs arbitrary: ys)
  case (Cons x xs)
  from Cons.IH [of "ys @ [x]"] show ?case by (simp add: nth_append)
qed simp

lemma entries_table: "ys = xs \<Longrightarrow> entries (\<lambda>i. ys ! i) 0 xs"
  using entries_nth [of "[]" xs] by simp

lemma entries_step [simp]:
  "entries f k (a0 # a1 # a2 # a3 # a4 # a5 # a6 # a7 # a8 # a9 # a10 # a11 # a12 # a13 # a14 # a15 # a16 # a17 # a18 # a19
    # a20 # a21 # a22 # a23 # a24 # a25 # a26 # a27 # a28 # a29 # a30 # a31 # a32 # a33 # a34 # a35 # a36 # a37 # a38 # a39 # xs) \<longleftrightarrow>
    f k = a0 \<and> f (k + 1) = a1 \<and> f (k + 2) = a2 \<and> f (k + 3) = a3 \<and> f (k + 4) = a4
    \<and> f (k + 5) = a5 \<and> f (k + 6) = a6 \<and> f (k + 7) = a7 \<and> f (k + 8) = a8 \<and> f (k + 9) = a9
    \<and> f (k + 10) = a10 \<and> f (k + 11) = a11 \<and> f (k + 12) = a12 \<and> f (k + 13) = a13 \<and> f (k + 14) = a14
    \<and> f (k + 15) = a15 \<and> f (k + 16) = a16 \<and> f (k + 17) = a17 \<and> f (k + 18) = a18 \<and> f (k + 19) = a19
    \<and> f (k + 20) = a20 \<and> f (k + 21) = a21 \<and> f (k + 22) = a22 \<and> f (k + 23) = a23 \<and> f (k + 24) = a24
    \<and> f (k + 25) = a25 \<and> f (k + 26) = a26 \<and> f (k + 27) = a27 \<and> f (k + 28) = a28 \<and> f (k + 29) = a29
    \<and> f (k + 30) = a30 \<and> f (k + 31) = a31 \<and> f (k + 32) = a32 \<and> f (k + 33) = a33 \<and> f (k + 34) = a34
    \<and> f (k + 35) = a35 \<and> f (k + 36) = a36 \<and> f (k + 37) = a37 \<and> f (k + 38) = a38 \<and> f (k + 39) = a39
    \<and> entries f (k + 40) xs"
  by (simp add: numeral_eq_Suc)

declare entries.simps [simp del]

lemmas yy_accept_entries = entries_table [OF yy_accept_def, simplified]

lemmas yy_ec_entries = entries_table [OF yy_ec_def, simplified]

lemmas yy_meta_entries = entries_table [OF yy_meta_def, simplified]

lemmas yy_base_entries = entries_table [OF yy_base_def, simplified]

lemmas yy_def_entries = entries_table [OF yy_def_def, simplified]

lemmas yy_nxt_entries = entries_table [OF yy_nxt_def, simplified]

lemmas yy_chk_entries = entries_table [OF yy_chk_def, simplified]

declare entries_step [simp del] entries.simps [simp]

lemmas yy_accept_at = yy_accept_entries [simplified]

lemmas yy_ec_at = yy_ec_entries [simplified]

lemmas yy_meta_at = yy_meta_entries [simplified]

lemmas yy_base_at = yy_base_entries [simplified]

lemmas yy_def_at = yy_def_entries [simplified]

lemmas yy_nxt_at = yy_nxt_entries [simplified]

lemmas yy_chk_at = yy_chk_entries [simplified]


declare yy_accept_at [simp] yy_ec_at [simp] yy_meta_at [simp] yy_base_at [simp] yy_def_at [simp]
  yy_nxt_at [simp] yy_chk_at [simp]

lemma entries_2 [simp]:
  "yy_accept ! 2 = 0"
  "yy_ec ! 2 = 1"
  "yy_meta ! 2 = 1"
  "yy_base ! 2 = 3"
  "yy_def ! 2 = 316"
  "yy_nxt ! 2 = 25"
  "yy_chk ! 2 = 1"
  by (simp_all add: numeral_2_eq_2)

text \<open>A property of \<open>n\<close> consecutive numbers, split in halves for the simplifier.\<close>

definition all_from :: "(nat \<Rightarrow> bool) \<Rightarrow> nat \<Rightarrow> nat \<Rightarrow> bool" where
  "all_from P k n \<longleftrightarrow> (\<forall>i. k \<le> i \<and> i < k + n \<longrightarrow> P i)"

lemma all_from_add: "all_from P k (m + n) \<longleftrightarrow> all_from P k m \<and> all_from P (k + m) n"
proof -
  have "k \<le> i \<and> i < k + (m + n) \<longleftrightarrow> (k \<le> i \<and> i < k + m) \<or> (k + m \<le> i \<and> i < k + m + n)" for i
    by auto
  then show ?thesis unfolding all_from_def by blast
qed

lemma all_from_one: "all_from P k 1 \<longleftrightarrow> P k"
  by (auto simp: all_from_def) (metis le_antisym less_Suc_eq_le)

lemma all_from_split:
  "all_from P k (numeral (num.Bit0 n)) \<longleftrightarrow> all_from P k (numeral n) \<and> all_from P (k + numeral n) (numeral n)"
  "all_from P k (numeral (num.Bit1 n)) \<longleftrightarrow>
     all_from P k (numeral n) \<and> all_from P (k + numeral n) (numeral n) \<and> P (k + 2 * numeral n)"
  "all_from P k (Suc 0) \<longleftrightarrow> P k"
  "Suc (Suc (Suc 0)) = 3"
  by (simp_all only: numeral_Bit0 numeral_Bit1 all_from_add all_from_one mult_2 conj_assoc add.assoc
      One_nat_def [symmetric]) simp_all

lemma all_fromD: "all_from P k n \<Longrightarrow> k \<le> i \<Longrightarrow> i < k + n \<Longrightarrow> P i"
  by (simp add: all_from_def)

section \<open>The search for a transition\<close>

text \<open>
  The inner loop of the scanner: follow the default states until an entry of \<open>yy_chk\<close> belongs to
  the state; a template state (316 and up) is entered with the meta class of the character.
\<close>

partial_function (option) yy_next :: "nat \<Rightarrow> nat \<Rightarrow> nat option" where
  "yy_next s c =
     (if yy_chk ! (yy_base ! s + c) = s then Some (yy_nxt ! (yy_base ! s + c))
      else let s' = yy_def ! s in yy_next s' (if 316 \<le> s' then yy_meta ! c else c))"

definition is_state :: "nat \<Rightarrow> bool" where
  "is_state s \<longleftrightarrow> 1 \<le> s \<and> s \<le> 315"

lemma lengths [simp]: "length yy_accept = 316" "length yy_ec = 256" "length yy_meta = 52"
  "length yy_base = 317" "length yy_def = 317" "length yy_nxt = 1202" "length yy_chk = 1202"
  by (simp_all only: yy_accept_def yy_ec_def yy_meta_def yy_base_def yy_def_def yy_nxt_def yy_chk_def
      list.size numeral_eq_Suc pred_numeral_simps BitM.simps add_0 add_Suc_right One_nat_def eval_nat_numeral)

lemma base_le: "s < 317 \<Longrightarrow> yy_base ! s \<le> 1150"
  by (rule all_fromD [where P = "\<lambda>s. yy_base ! s \<le> 1150" and k = 0 and n = 317])
    (simp_all add: all_from_split)

lemma meta_less: "c < 52 \<Longrightarrow> yy_meta ! c < 52"
  by (rule all_fromD [where P = "\<lambda>c. yy_meta ! c < 52" and k = 0 and n = 52])
    (simp_all add: all_from_split)

lemma ec_less: "c < 256 \<Longrightarrow> yy_ec ! c < 52"
  by (rule all_fromD [where P = "\<lambda>c. yy_ec ! c < 52" and k = 0 and n = 256])
    (simp_all add: all_from_split)

lemma ec_zero: "c < 256 \<Longrightarrow> yy_ec ! c = 0 \<longleftrightarrow> c = 0"
  by (rule all_fromD [where P = "\<lambda>c. yy_ec ! c = 0 \<longleftrightarrow> c = 0" and k = 0 and n = 256])
    (simp_all add: all_from_split)

lemma nxt_entry: "i < 1202 \<Longrightarrow>
  yy_nxt ! i \<le> 315 \<and> (yy_nxt ! i = 0 \<longrightarrow> yy_chk ! i = 0) \<and> (yy_nxt ! i = 23 \<longrightarrow> yy_base ! (yy_chk ! i) = i)"
  by (rule all_fromD [where P = "\<lambda>i. yy_nxt ! i \<le> 315 \<and> (yy_nxt ! i = 0 \<longrightarrow> yy_chk ! i = 0)
        \<and> (yy_nxt ! i = 23 \<longrightarrow> yy_base ! (yy_chk ! i) = i)" and k = 0 and n = 1202])
    (simp_all add: all_from_split)

lemma def_entry: "1 \<le> s \<Longrightarrow> s < 317 \<Longrightarrow> s \<noteq> 315 \<Longrightarrow> 1 \<le> yy_def ! s \<and> yy_def ! s < 317 \<and> yy_def ! s \<noteq> 23"
  by (rule all_fromD [where P = "\<lambda>s. s \<noteq> 315 \<longrightarrow> 1 \<le> yy_def ! s \<and> yy_def ! s < 317 \<and> yy_def ! s \<noteq> 23"
        and k = 1 and n = 316, THEN mp])
    (simp_all add: all_from_split)

lemma accept_entry: "s < 316 \<Longrightarrow> yy_accept ! s \<le> 71 \<and> (yy_accept ! s = 71 \<longleftrightarrow> s = 23)"
  by (rule all_fromD [where P = "\<lambda>s. yy_accept ! s \<le> 71 \<and> (yy_accept ! s = 71 \<longleftrightarrow> s = 23)" and k = 0 and n = 316])
    (simp_all add: all_from_split)

text \<open>The chain of default states ends in the jam state 315, which owns its 52 entries.\<close>

definition default :: "nat \<Rightarrow> nat" where
  "default s = (if s = 315 then 315 else yy_def ! s)"

lemma default_chain: "1 \<le> s \<Longrightarrow> s < 317 \<Longrightarrow> default (default (default (default s))) = 315"
  by (rule all_fromD [where P = "\<lambda>s. default (default (default (default s))) = 315" and k = 1 and n = 316])
    (simp_all add: all_from_split default_def)

lemma jam_entries: "c < 52 \<Longrightarrow> yy_base ! 315 = 1150 \<and> yy_chk ! (1150 + c) = 315"
  by (rule all_fromD [where P = "\<lambda>c. yy_base ! 315 = 1150 \<and> yy_chk ! (1150 + c) = 315" and k = 0 and n = 52])
    (simp_all add: all_from_split)

lemma yy_next_jam: "c < 52 \<Longrightarrow> yy_next 315 c = Some (yy_nxt ! (1150 + c))"
  by (subst yy_next.simps) (simp add: jam_entries)

end
