(* ===== verification/Automaton.thy ===== *)
theory Automaton
  imports FlexTables
begin

text \<open>
  The deterministic automaton the tables stand for: every state has a successor for every character
  class, the end-of-buffer class leads to the end-of-buffer state, and every start state accepts
  at least one character.
\<close>

section \<open>The automaton\<close>


lemma yy_next_step:
  assumes "1 \<le> s" and "s < 317" and "c < 52"
  shows "(\<exists>t. yy_next s c = Some t \<and> is_state t) \<or>
    (s \<noteq> 315 \<and> (\<exists>c' < 52. yy_next s c = yy_next (default s) c'))"
proof (cases "yy_chk ! (yy_base ! s + c) = s")
  case True
  have "yy_base ! s + c < 1202" using base_le [OF assms(2)] assms(3) by simp
  from nxt_entry [OF this] True assms(1) have "is_state (yy_nxt ! (yy_base ! s + c))"
    by (auto simp: is_state_def)
  with True show ?thesis by (subst yy_next.simps) simp
next
  case False
  with jam_entries [OF assms(3)] have "s \<noteq> 315" by auto
  moreover from this have "yy_next s c = yy_next (default s) (if 316 \<le> default s then yy_meta ! c else c)"
    using False by (subst yy_next.simps) (simp add: Let_def default_def)
  ultimately show ?thesis using meta_less [OF assms(3)] assms(3) by metis
qed

lemma default_range: "1 \<le> s \<Longrightarrow> s < 317 \<Longrightarrow> 1 \<le> default s \<and> default s < 317"
  using def_entry [of s] by (auto simp: default_def)

lemma yy_next_chain:
  "1 \<le> s \<Longrightarrow> s < 317 \<Longrightarrow> c < 52 \<Longrightarrow> (default ^^ n) s = 315 \<Longrightarrow> \<exists>t. yy_next s c = Some t \<and> is_state t"
proof (induction n arbitrary: s c)
  case 0
  then show ?case using yy_next_step [of 315 c] by simp
next
  case (Suc n)
  have d: "(default ^^ n) (default s) = 315" using Suc.prems(4) by (simp add: funpow_swap1)
  from yy_next_step [OF Suc.prems(1-3)] show ?case
    using Suc.IH [OF _ _ _ d] default_range [OF Suc.prems(1,2)] by metis
qed

lemma next_exists:
  assumes "is_state s" and "c < 52"
  shows "\<exists>t. yy_next s c = Some t \<and> is_state t"
proof (rule yy_next_chain [where n = 4])
  show "(default ^^ 4) s = 315"
    using default_chain [of s] assms(1) by (simp add: is_state_def eval_nat_numeral)
qed (use assms in \<open>simp_all add: is_state_def\<close>)

text \<open>The end-of-buffer class leads to state 23 from everywhere but there.\<close>

lemma own_zero: "1 \<le> s \<Longrightarrow> s < 317 \<Longrightarrow> s \<noteq> 23 \<Longrightarrow> yy_chk ! (yy_base ! s) = s \<Longrightarrow> yy_nxt ! (yy_base ! s) = 23"
  by (rule all_fromD [where P = "\<lambda>s. s \<noteq> 23 \<longrightarrow> yy_chk ! (yy_base ! s) = s \<longrightarrow> yy_nxt ! (yy_base ! s) = 23"
        and k = 1 and n = 316, THEN mp, THEN mp])
    (simp_all add: all_from_split)

lemma yy_next_zero_chain:
  "1 \<le> s \<Longrightarrow> s < 317 \<Longrightarrow> s \<noteq> 23 \<Longrightarrow> (default ^^ n) s = 315 \<Longrightarrow> yy_next s 0 = Some 23"
proof (induction n arbitrary: s)
  case 0
  then show ?case by (simp add: yy_next.simps)
next
  case (Suc n)
  have d: "(default ^^ n) (default s) = 315" using Suc.prems(4) by (simp add: funpow_swap1)
  show ?case
  proof (cases "yy_chk ! (yy_base ! s) = s")
    case True
    with own_zero [OF Suc.prems(1-3)] show ?thesis by (subst yy_next.simps) simp
  next
    case False
    then have s: "s \<noteq> 315" by auto
    with False have "yy_next s 0 = yy_next (default s) 0"
      by (subst yy_next.simps) (simp add: Let_def default_def)
    moreover have "default s \<noteq> 23" using def_entry [OF Suc.prems(1,2) s] s by (simp add: default_def)
    ultimately show ?thesis using Suc.IH [OF _ _ _ d] default_range [OF Suc.prems(1,2)] by simp
  qed
qed

lemma yy_next_zero: "is_state s \<Longrightarrow> s \<noteq> 23 \<Longrightarrow> yy_next s 0 = Some 23"
  using yy_next_zero_chain [of s 4] default_chain [of s] by (simp add: is_state_def eval_nat_numeral)

lemma yy_next_23: "c < 52 \<Longrightarrow> yy_next 23 c = Some 315"
  by (rule all_fromD [where P = "\<lambda>c. yy_next 23 c = Some 315" and k = 0 and n = 52])
    (simp_all add: all_from_split yy_next.simps)

text \<open>Only the end-of-buffer class leads there.\<close>

lemma meta_pos: "1 \<le> c \<Longrightarrow> c < 52 \<Longrightarrow> 1 \<le> yy_meta ! c"
  by (rule all_fromD [where P = "\<lambda>c. 1 \<le> yy_meta ! c" and k = 1 and n = 51])
    (simp_all add: all_from_split)

lemma yy_next_not_23:
  "1 \<le> s \<Longrightarrow> s < 317 \<Longrightarrow> 1 \<le> c \<Longrightarrow> c < 52 \<Longrightarrow> (default ^^ n) s = 315 \<Longrightarrow> yy_next s c \<noteq> Some 23"
proof (induction n arbitrary: s c)
  case 0
  then show ?case using yy_next_jam [of c] nxt_entry [of "1150 + c"] jam_entries [of c] by auto
next
  case (Suc n)
  have d: "(default ^^ n) (default s) = 315" using Suc.prems(5) by (simp add: funpow_swap1)
  show ?case
  proof (cases "yy_chk ! (yy_base ! s + c) = s")
    case True
    have "yy_base ! s + c < 1202" using base_le [OF Suc.prems(2)] Suc.prems(4) by simp
    from nxt_entry [OF this] True Suc.prems(3) show ?thesis by (subst yy_next.simps) auto
  next
    case False
    with jam_entries [OF Suc.prems(4)] have "s \<noteq> 315" by auto
    with False have "yy_next s c = yy_next (default s) (if 316 \<le> default s then yy_meta ! c else c)"
      by (subst yy_next.simps) (simp add: Let_def default_def)
    with Suc.IH [OF _ _ _ _ d] default_range [OF Suc.prems(1,2)] meta_pos [OF Suc.prems(3,4)]
      meta_less [OF Suc.prems(4)] Suc.prems(3,4) show ?thesis by auto
  qed
qed

text \<open>States without transitions: the jam state and accepting states, which only lead to it.\<close>

lemma final_accepts: "is_state s \<Longrightarrow> yy_base ! s = 1150 \<Longrightarrow> s \<noteq> 315 \<Longrightarrow> yy_accept ! s \<noteq> 0"
  unfolding is_state_def
  by (rule all_fromD [where P = "\<lambda>s. yy_base ! s = 1150 \<longrightarrow> s \<noteq> 315 \<longrightarrow> yy_accept ! s \<noteq> 0"
        and k = 1 and n = 315, THEN mp, THEN mp])
    (auto simp: all_from_split)

lemma jam_next: "1 \<le> c \<Longrightarrow> c < 52 \<Longrightarrow> yy_nxt ! (1150 + c) = 315"
  by (rule all_fromD [where P = "\<lambda>c. yy_nxt ! (1150 + c) = 315" and k = 1 and n = 51])
    (simp_all add: all_from_split)

lemma final_default: "is_state s \<Longrightarrow> yy_base ! s = 1150 \<Longrightarrow> s \<noteq> 315 \<Longrightarrow> yy_def ! s = 315"
  unfolding is_state_def
  by (rule all_fromD [where P = "\<lambda>s. yy_base ! s = 1150 \<longrightarrow> s \<noteq> 315 \<longrightarrow> yy_def ! s = 315"
        and k = 1 and n = 315, THEN mp, THEN mp])
    (auto simp: all_from_split)

lemma final_jams:
  assumes "is_state s" and "yy_base ! s = 1150" and "1 \<le> c" and "c < 52"
  shows "yy_next s c = Some 315"
proof (cases "s = 315")
  case True
  then show ?thesis using yy_next_jam [OF assms(4)] jam_next [OF assms(3,4)] by simp
next
  case False
  then show ?thesis
    using yy_next_jam [OF assms(4)] jam_next [OF assms(3,4)] jam_entries [OF assms(4)] assms(2)
      final_default [OF assms(1,2)]
    by (subst yy_next.simps) (simp add: Let_def)
qed

lemma jam_accepts [simp]: "yy_accept ! 315 = 0" "yy_base ! 315 = 1150" by simp_all

text \<open>From a start state one character of any class reaches an accepting state.\<close>

definition takes_one :: "nat \<Rightarrow> nat \<Rightarrow> bool" where
  "takes_one s c \<longleftrightarrow> (case yy_next s c of None \<Rightarrow> False | Some t \<Rightarrow> 1 \<le> yy_accept ! t \<and> yy_accept ! t \<le> 70)"

lemma start_takes_one:
  assumes "k \<le> 10" and "1 \<le> c" and "c < 52"
  shows "takes_one (1 + 2 * k) c"
proof -
  have "all_from (takes_one 1) 1 51" "all_from (takes_one 3) 1 51" "all_from (takes_one 5) 1 51"
    "all_from (takes_one 7) 1 51" "all_from (takes_one 9) 1 51" "all_from (takes_one 11) 1 51"
    "all_from (takes_one 13) 1 51" "all_from (takes_one 15) 1 51" "all_from (takes_one 17) 1 51"
    "all_from (takes_one 19) 1 51" "all_from (takes_one 21) 1 51"
    by (simp_all add: all_from_split takes_one_def yy_next.simps)
  moreover have "k \<in> {0, 1, 2, 3, 4, 5, 6, 7, 8, 9, 10}" using assms(1) by (simp, presburger)
  ultimately show ?thesis using assms(2,3) by (auto simp: all_from_def)
qed


section \<open>Safety of the table lookups\<close>

text \<open>The search for a transition always ends: every state of the scanner has a successor for
  every character class, and it is a state again.\<close>

theorem transition_exists:
  assumes "is_state s" and "c < length yy_meta"
  shows "\<exists>t. yy_next s c = Some t \<and> is_state t"
  using next_exists assms by simp

theorem transition_exists_witness: "\<exists>t. yy_next 1 17 = Some t \<and> is_state t"
  by (rule transition_exists) (simp_all add: is_state_def)

text \<open>No table is read outside its bounds: not for a character, and not for any state, template
  states included, that the search for a transition passes through.\<close>

theorem lookups_in_bounds:
  assumes "1 \<le> s" and "s < length yy_base" and "c < length yy_meta"
  shows "yy_base ! s + c < length yy_chk \<and> yy_base ! s + c < length yy_nxt \<and> s < length yy_def
    \<and> yy_meta ! c < length yy_meta \<and> yy_nxt ! (yy_base ! s + c) < length yy_accept
    \<and> (s \<noteq> 315 \<longrightarrow> 1 \<le> yy_def ! s \<and> yy_def ! s < length yy_base)
    \<and> (of_char ch :: nat) < length yy_ec \<and> yy_ec ! of_char ch < length yy_meta"
proof -
  have "(of_char ch :: nat) < 256"
    by (metis mod_less_divisor zero_less_numeral of_char_mod_256)
  moreover have "yy_base ! s + c < 1202" using base_le [of s] assms by simp
  ultimately show ?thesis
    using base_le [of s] meta_less [of c] nxt_entry [of "yy_base ! s + c"] def_entry [of s] ec_less assms
    by auto
qed

theorem lookups_in_bounds_witness:
  "yy_base ! 316 + 51 < length yy_chk \<and> yy_base ! 316 + 51 < length yy_nxt \<and> (316::nat) < length yy_def
    \<and> yy_meta ! 51 < length yy_meta \<and> yy_nxt ! (yy_base ! 316 + 51) < length yy_accept
    \<and> 1 \<le> yy_def ! 316 \<and> yy_def ! 316 < length yy_base
    \<and> (of_char CHR ''a'' :: nat) < length yy_ec \<and> yy_ec ! of_char CHR ''a'' < length yy_meta"
  using lookups_in_bounds [of 316 51 "CHR ''a''"] by simp

end
