(* ===== verification/ConfigData.thy ===== *)
theory ConfigData
  imports Prelude
begin

text \<open>
  The configuration records of \<open>include/configrawdata.hpp\<close> and their printing in
  \<open>src/library_src/configrawdata.cpp\<close>: what a trigger is, what a log is, when two of them are
  the same key of a hash map, and the text the web page and the notification mail show.
\<close>

section \<open>The records\<close>

datatype ResourceUnit = PERCENT | MB | GB

record ResourceValue =
  unitType :: ResourceUnit
  rvalue :: long

datatype Resource = CPU | MEMORY | DISK

datatype FluctuationType = UNDER | OVER

record TriggerType =
  resource :: Resource
  fluctuationType :: FluctuationType
  triggerValue :: ResourceValue
  duration :: long

datatype LogResource = LOG_CPU | LOG_MEMORY | LOG_DISK

record LogType =
  log_resource :: LogResource
  log_duration :: long
  log_resolution :: long

section \<open>Key equality and hashing\<close>

definition ResourceValue_eq :: "ResourceValue \<Rightarrow> ResourceValue \<Rightarrow> bool" where
  "ResourceValue_eq a b \<longleftrightarrow> unitType a = unitType b \<and> rvalue a = rvalue b"

definition TriggerType_eq :: "TriggerType \<Rightarrow> TriggerType \<Rightarrow> bool" where
  "TriggerType_eq a b \<longleftrightarrow>
     resource a = resource b \<and> fluctuationType a = fluctuationType b
     \<and> ResourceValue_eq (triggerValue a) (triggerValue b) \<and> duration a = duration b"

text \<open>The equality of \<open>LogType\<close> leaves the duration out.\<close>

definition LogType_eq :: "LogType \<Rightarrow> LogType \<Rightarrow> bool" where
  "LogType_eq a b \<longleftrightarrow> log_resource a = log_resource b \<and> log_resolution a = log_resolution b"

text \<open>\<open>static_cast\<close> of the enumerations to their underlying integers.\<close>

primrec ResourceUnit_id :: "ResourceUnit \<Rightarrow> int" where
  "ResourceUnit_id PERCENT = 0" | "ResourceUnit_id MB = 1" | "ResourceUnit_id GB = 2"

primrec Resource_id :: "Resource \<Rightarrow> int" where
  "Resource_id CPU = 0" | "Resource_id MEMORY = 1" | "Resource_id DISK = 2"

primrec FluctuationType_id :: "FluctuationType \<Rightarrow> int" where
  "FluctuationType_id UNDER = 0" | "FluctuationType_id OVER = 1"

primrec LogResource_id :: "LogResource \<Rightarrow> int" where
  "LogResource_id LOG_CPU = 0" | "LogResource_id LOG_MEMORY = 1" | "LogResource_id LOG_DISK = 2"

text \<open>
  The hashes. \<open>boost::hash_combine\<close> is a library function: it is the parameter \<open>hc\<close>, which takes
  the seed and the value combined into it and returns the new seed.
\<close>

definition hash_LogType :: "(nat \<Rightarrow> int \<Rightarrow> nat) \<Rightarrow> LogType \<Rightarrow> nat" where
  "hash_LogType hc t = hc (hc 0 (LogResource_id (log_resource t))) (log_resolution t)"

definition hash_TriggerType :: "(nat \<Rightarrow> int \<Rightarrow> nat) \<Rightarrow> TriggerType \<Rightarrow> nat" where
  "hash_TriggerType hc t =
     (let resourceId = Resource_id (resource t);
          fluctuation = FluctuationType_id (fluctuationType t);
          resourceUnit = ResourceUnit_id (unitType (triggerValue t));
          resourceValue = rvalue (triggerValue t)
      in hc (hc (hc (hc (hc 0 resourceId) fluctuation) resourceUnit) resourceValue) (duration t))"

lemma TriggerType_eq_iff [simp]: "TriggerType_eq a b \<longleftrightarrow> a = b"
  unfolding TriggerType_eq_def ResourceValue_eq_def by auto

text \<open>What a hash map needs of a key equality.\<close>

locale key_equality =
  fixes eq :: "'k \<Rightarrow> 'k \<Rightarrow> bool" and hash :: "'k \<Rightarrow> nat"
  assumes eq_refl: "eq k k"
    and eq_sym: "eq a b \<Longrightarrow> eq b a"
    and eq_trans: "eq a b \<Longrightarrow> eq b c \<Longrightarrow> eq a c"
    and eq_hash: "eq a b \<Longrightarrow> hash a = hash b"
begin

lemma lookup_upsert: "lookup_by eq j (upsert eq k v m) = (if eq k j then Some v else lookup_by eq j m)"
proof (cases "eq k j")
  case True
  then have "lookup_by eq j (upsert eq k v m) = Some v"
    by (rule upsert_lookup_equiv) (blast intro: eq_trans eq_sym)+
  with True show ?thesis by simp
next
  case False
  then have "lookup_by eq j (upsert eq k v m) = lookup_by eq j m"
    by (rule upsert_lookup_other) (blast intro: eq_trans eq_sym)+
  with False show ?thesis by simp
qed

lemma distinct_upsert: "keys_distinct eq m \<Longrightarrow> keys_distinct eq (upsert eq k v m)"
  by (rule upsert_keys_distinct) (auto intro: eq_sym)

lemma lookup_cong:
  assumes "eq j k"
  shows "lookup_by eq j m = lookup_by eq k m"
proof (induction m)
  case Nil
  then show ?case by simp
next
  case (Cons p m)
  obtain k' v' where p: "p = (k', v')" by (cases p)
  have "eq k' j \<longleftrightarrow> eq k' k" using assms by (blast intro: eq_trans eq_sym)
  with Cons p show ?case by simp
qed

lemma map_at_upsert: "eq k j \<Longrightarrow> map_at eq (upsert eq k v m) j = Inr v"
  by (simp add: map_at_def lookup_upsert)

end

interpretation logkey: key_equality LogType_eq "hash_LogType hc" for hc
  by unfold_locales (auto simp: LogType_eq_def hash_LogType_def)

interpretation trigkey: key_equality TriggerType_eq "hash_TriggerType hc" for hc
  by unfold_locales auto

section \<open>Printing\<close>

fun put_FluctuationType :: "FluctuationType \<Rightarrow> string" where
  "put_FluctuationType UNDER = ''under''"
| "put_FluctuationType OVER = ''over''"

fun put_Resource :: "Resource \<Rightarrow> string" where
  "put_Resource CPU = ''CPU''"
| "put_Resource MEMORY = ''RAM''"
| "put_Resource DISK = ''HDD''"

fun put_ResourceUnit :: "ResourceUnit \<Rightarrow> string" where
  "put_ResourceUnit PERCENT = ''%''"
| "put_ResourceUnit MB = ''MB''"
| "put_ResourceUnit GB = ''GB''"

definition put_ResourceValue :: "ResourceValue \<Rightarrow> string" where
  "put_ResourceValue r = show_int (rvalue r) @ put_ResourceUnit (unitType r)"

definition put_TriggerType :: "TriggerType \<Rightarrow> string" where
  "put_TriggerType t =
     (let perSecond = (if resource t = DISK then ''/s'' else '''')
      in ''Trigger '' @ put_Resource (resource t) @ '' ''
         @ put_FluctuationType (fluctuationType t) @ '' ''
         @ put_ResourceValue (triggerValue t) @ perSecond @ '' ''
         @ ''last for '' @ show_int (duration t) @ ''s'')"

fun put_LogResource :: "LogResource \<Rightarrow> string" where
  "put_LogResource LOG_CPU = ''CPU''"
| "put_LogResource LOG_MEMORY = ''RAM''"
| "put_LogResource LOG_DISK = ''HDD''"

definition put_LogType :: "LogType \<Rightarrow> string" where
  "put_LogType t =
     ''Log '' @ put_LogResource (log_resource t) @ '' ''
     @ ''resolution '' @ show_int (log_resolution t) @ ''s ''
     @ ''last for '' @ show_int (log_duration t) @ ''s''"

section \<open>Sample triggers\<close>

text \<open>
  Triggers of the repository's own test configurations; the witnesses of the properties use them:
  \<open>trigger cpu over 80% last for 8s\<close>, \<open>trigger memory over 200MB last for 6s\<close>,
  \<open>trigger disk under 10MB/s last for 2s\<close>.
\<close>

definition ex_cpu :: TriggerType where
  "ex_cpu = \<lparr>resource = CPU, fluctuationType = OVER,
     triggerValue = \<lparr>unitType = PERCENT, rvalue = 80\<rparr>, duration = 8\<rparr>"

definition ex_mem :: TriggerType where
  "ex_mem = \<lparr>resource = MEMORY, fluctuationType = OVER,
     triggerValue = \<lparr>unitType = MB, rvalue = 200\<rparr>, duration = 6\<rparr>"

definition ex_disk :: TriggerType where
  "ex_disk = \<lparr>resource = DISK, fluctuationType = UNDER,
     triggerValue = \<lparr>unitType = MB, rvalue = 10\<rparr>, duration = 2\<rparr>"

lemma ex_distinct [simp]:
  "ex_cpu \<noteq> ex_mem" "ex_mem \<noteq> ex_cpu" "ex_cpu \<noteq> ex_disk" "ex_disk \<noteq> ex_cpu"
  "ex_mem \<noteq> ex_disk" "ex_disk \<noteq> ex_mem"
  by (simp_all add: ex_cpu_def ex_mem_def ex_disk_def)

end
