(* ===== verification/ParserActions.thy ===== *)
theory ParserActions
  imports ConfigData
begin

text \<open>
  The semantic part of the configuration parser: the file-scope variables at the top of
  \<open>src/library_src/flex.cpp\<close>, the start-condition stack, and the code of the 69 rules. The variables
  are shared by all lexers of the process, so they are one record that outlives a parse. Signed
  arithmetic on \<open>long\<close> wraps.
\<close>

section \<open>Variables\<close>

definition SEC_IN_MIN :: long where "SEC_IN_MIN = 60"
definition SEC_IN_HOUR :: long where "SEC_IN_HOUR = SEC_IN_MIN * 60"
definition SEC_IN_DAY :: long where "SEC_IN_DAY = SEC_IN_HOUR * 24"

text \<open>\<open>yy_start_stack\<close> lists the stored conditions, the top one first.\<close>

record parser =
  currentDurationTime :: long
  lastReadDurationElement :: long
  currentTriggerType :: TriggerType
  triggerTypes :: "TriggerType list"
  currentResourceValue :: ResourceValue
  triggerResourceValues :: "ResourceValue list"
  triggerDurationTimes :: "long list"
  currentLogType :: LogType
  logTypes :: "LogType list"
  logDurations :: "long list"
  logResolutions :: "long list"
  yy_start :: nat
  yy_start_stack :: "nat list"

text \<open>Static storage starts as zero, and the first enumerator of each enumeration is 0.\<close>

definition parser_init :: parser where
  "parser_init =
     \<lparr>currentDurationTime = 0, lastReadDurationElement = 0,
      currentTriggerType = \<lparr>resource = CPU, fluctuationType = UNDER,
        triggerValue = \<lparr>unitType = PERCENT, rvalue = 0\<rparr>, duration = 0\<rparr>,
      triggerTypes = [], currentResourceValue = \<lparr>unitType = PERCENT, rvalue = 0\<rparr>,
      triggerResourceValues = [], triggerDurationTimes = [],
      currentLogType = \<lparr>log_resource = LOG_CPU, log_duration = 0, log_resolution = 0\<rparr>,
      logTypes = [], logDurations = [], logResolutions = [], yy_start = 1, yy_start_stack = []\<rparr>"

section \<open>Cross products\<close>

text \<open>The body of the inner loop writes the loop variables into the current trigger and appends it.\<close>

definition push_trigger :: "ResourceValue \<Rightarrow> long \<Rightarrow> parser \<Rightarrow> parser" where
  "push_trigger res d g =
     (let t = (currentTriggerType g)\<lparr>triggerValue := res, duration := d\<rparr>
      in g\<lparr>currentTriggerType := t, triggerTypes := triggerTypes g @ [t]\<rparr>)"

definition produceTriggersCrossproduct :: "parser \<Rightarrow> parser" where
  "produceTriggersCrossproduct g =
     (fold (\<lambda>res. fold (push_trigger res) (triggerDurationTimes g)) (triggerResourceValues g) g)
       \<lparr>triggerResourceValues := [], triggerDurationTimes := []\<rparr>"

definition push_log :: "long \<Rightarrow> long \<Rightarrow> parser \<Rightarrow> parser" where
  "push_log d res g =
     (let l = (currentLogType g)\<lparr>log_resolution := res, log_duration := d\<rparr>
      in g\<lparr>currentLogType := l, logTypes := logTypes g @ [l]\<rparr>)"

definition produceLogsCrossproduct :: "parser \<Rightarrow> parser" where
  "produceLogsCrossproduct g =
     (fold (\<lambda>d. fold (push_log d) (logResolutions g)) (logDurations g) g)
       \<lparr>logDurations := [], logResolutions := []\<rparr>"

definition clearHelperVectors :: "parser \<Rightarrow> parser" where
  "clearHelperVectors g =
     g\<lparr>triggerResourceValues := [], triggerDurationTimes := [], logDurations := [], logResolutions := []\<rparr>"

section \<open>Start conditions\<close>

definition INITIAL :: nat where "INITIAL = 0"
definition logEnv :: nat where "logEnv = 1"
definition triggerEnv :: nat where "triggerEnv = 2"
definition resourceSetEnv :: nat where "resourceSetEnv = 3"
definition resourceSingleNoEnv :: nat where "resourceSingleNoEnv = 4"
definition triggerDurationSetEnv :: nat where "triggerDurationSetEnv = 5"
definition triggerDurationSingleNoEnv :: nat where "triggerDurationSingleNoEnv = 6"
definition logDurationSetEnv :: nat where "logDurationSetEnv = 7"
definition logDurationSingleNoEnv :: nat where "logDurationSingleNoEnv = 8"
definition logResolutionSetEnv :: nat where "logResolutionSetEnv = 9"
definition logResolutionSingleNoEnv :: nat where "logResolutionSingleNoEnv = 10"

lemmas conditions =
  INITIAL_def logEnv_def triggerEnv_def resourceSetEnv_def resourceSingleNoEnv_def
  triggerDurationSetEnv_def triggerDurationSingleNoEnv_def logDurationSetEnv_def
  logDurationSingleNoEnv_def logResolutionSetEnv_def logResolutionSingleNoEnv_def

text \<open>\<open>BEGIN\<close> and \<open>YY_START\<close>; the automaton starts in state \<open>1 + 2 * condition\<close>.\<close>

definition BEGIN :: "nat \<Rightarrow> parser \<Rightarrow> parser" where
  "BEGIN c g = g\<lparr>yy_start := 1 + 2 * c\<rparr>"

definition YY_START :: "parser \<Rightarrow> nat" where
  "YY_START g = (yy_start g - 1) div 2"

definition yy_push_state :: "nat \<Rightarrow> parser \<Rightarrow> parser" where
  "yy_push_state c g = BEGIN c (g\<lparr>yy_start_stack := YY_START g # yy_start_stack g\<rparr>)"

text \<open>An empty stack is a fatal error: \<open>LexerError\<close> prints the message and calls \<open>exit(2)\<close>.\<close>

definition underflow :: cpp_exn where
  "underflow = Exit_failure ''start-condition stack underflow''"

definition yy_pop_state :: "parser \<Rightarrow> parser result" where
  "yy_pop_state g = (case yy_start_stack g of
       [] \<Rightarrow> Inl underflow
     | c # cs \<Rightarrow> Inr (BEGIN c (g\<lparr>yy_start_stack := cs\<rparr>)))"

definition yy_top_state :: "parser \<Rightarrow> nat" where
  "yy_top_state g = hd (yy_start_stack g)"

section \<open>Pieces the rules share\<close>

definition set_value :: "string \<Rightarrow> parser \<Rightarrow> parser" where
  "set_value yytext g = g\<lparr>currentResourceValue := (currentResourceValue g)\<lparr>rvalue := atol yytext\<rparr>\<rparr>"

definition set_unit :: "ResourceUnit \<Rightarrow> parser \<Rightarrow> parser" where
  "set_unit u g = g\<lparr>currentResourceValue := (currentResourceValue g)\<lparr>unitType := u\<rparr>\<rparr>"

definition push_value :: "parser \<Rightarrow> parser" where
  "push_value g = g\<lparr>triggerResourceValues := triggerResourceValues g @ [currentResourceValue g]\<rparr>"

definition read_element :: "string \<Rightarrow> parser \<Rightarrow> parser" where
  "read_element yytext g = g\<lparr>lastReadDurationElement := atol yytext\<rparr>"

text \<open>An overflow of a \<open>long\<close>, in the product or in the sum, is undefined behaviour.\<close>

definition add_duration :: "long \<Rightarrow> parser \<Rightarrow> parser result" where
  "add_duration secs g =
     (let seconds = lastReadDurationElement g * secs; total = currentDurationTime g + seconds in
      if is_long seconds \<and> is_long total then Inr (g\<lparr>currentDurationTime := total\<rparr>) else Inl Undefined_behaviour)"

definition push_trigger_duration :: "parser \<Rightarrow> parser" where
  "push_trigger_duration g = g\<lparr>triggerDurationTimes := triggerDurationTimes g @ [currentDurationTime g],
     currentDurationTime := 0\<rparr>"

definition push_log_duration :: "parser \<Rightarrow> parser" where
  "push_log_duration g = g\<lparr>logDurations := logDurations g @ [currentDurationTime g],
     currentDurationTime := 0\<rparr>"

definition push_log_resolution :: "parser \<Rightarrow> parser" where
  "push_log_resolution g = g\<lparr>logResolutions := logResolutions g @ [currentDurationTime g],
     currentDurationTime := 0\<rparr>"

text \<open>Rules 26, 32 and 59, 65: the end of a definition.\<close>

definition end_trigger :: "parser \<Rightarrow> parser result" where
  "end_trigger g = bindE (yy_pop_state (push_trigger_duration g)) (\<lambda>g1.
     bindE (yy_pop_state g1) (\<lambda>g2. Inr (produceTriggersCrossproduct g2)))"

definition end_log :: "parser \<Rightarrow> parser result" where
  "end_log g = bindE (yy_pop_state (push_log_resolution g)) (\<lambda>g1.
     bindE (yy_pop_state g1) (\<lambda>g2. Inr (produceLogsCrossproduct g2)))"

section \<open>The rules\<close>

definition set_trigger_resource :: "Resource \<Rightarrow> parser \<Rightarrow> parser" where
  "set_trigger_resource r g = g\<lparr>currentTriggerType := (currentTriggerType g)\<lparr>resource := r\<rparr>\<rparr>"

definition set_fluctuation :: "FluctuationType \<Rightarrow> parser \<Rightarrow> parser" where
  "set_fluctuation f g = g\<lparr>currentTriggerType := (currentTriggerType g)\<lparr>fluctuationType := f\<rparr>\<rparr>"

definition set_log_resource :: "LogResource \<Rightarrow> parser \<Rightarrow> parser" where
  "set_log_resource r g = g\<lparr>currentLogType := (currentLogType g)\<lparr>log_resource := r\<rparr>\<rparr>"

text \<open>The action switch of \<open>yylex\<close>: triggers (rules 1 to 32).\<close>

definition trigger_action :: "nat \<Rightarrow> string \<Rightarrow> parser \<Rightarrow> parser result" where
  "trigger_action act yytext g =
     (if act = 1 then Inr (set_trigger_resource CPU g)
      else if act = 2 then Inr (set_trigger_resource MEMORY g)
      else if act = 3 then Inr (set_trigger_resource DISK g)
      else if act = 4 then Inr (yy_push_state resourceSetEnv (set_fluctuation UNDER g))
      else if act = 5 then Inr (yy_push_state resourceSingleNoEnv (set_fluctuation UNDER g))
      else if act = 6 then Inr (yy_push_state resourceSetEnv (set_fluctuation OVER g))
      else if act = 7 then Inr (yy_push_state resourceSingleNoEnv (set_fluctuation OVER g))
      else if act = 8 then Inr (set_value yytext g)
      else if act = 9 then Inr (set_unit PERCENT g)
      else if act = 10 then Inr (set_unit MB g)
      else if act = 11 then Inr (set_unit GB g)
      else if act = 12 then Inr (push_value g)
      else if act = 13 then yy_pop_state (push_value g)
      else if act = 14 then Inr (set_value yytext g)
      else if act = 15 then yy_pop_state (push_value (set_unit PERCENT g))
      else if act = 16 then yy_pop_state (push_value (set_unit MB g))
      else if act = 17 then yy_pop_state (push_value (set_unit GB g))
      else if act = 18 then Inr (yy_push_state triggerDurationSetEnv g)
      else if act = 19 then Inr (yy_push_state triggerDurationSingleNoEnv g)
      else if act = 20 \<or> act = 27 then Inr (read_element yytext g)
      else if act = 21 \<or> act = 28 then add_duration 1 g
      else if act = 22 \<or> act = 29 then add_duration SEC_IN_MIN g
      else if act = 23 \<or> act = 30 then add_duration SEC_IN_HOUR g
      else if act = 24 \<or> act = 31 then add_duration SEC_IN_DAY g
      else if act = 25 then Inr (push_trigger_duration g)
      else end_trigger g)"

text \<open>Logs (rules 33 to 65).\<close>

definition log_action :: "nat \<Rightarrow> string \<Rightarrow> parser \<Rightarrow> parser result" where
  "log_action act yytext g =
     (if act = 33 then Inr (set_log_resource LOG_CPU g)
      else if act = 34 then Inr (set_log_resource LOG_MEMORY g)
      else if act = 35 then Inr (set_log_resource LOG_DISK g)
      else if act = 36 then Inr (yy_push_state logDurationSetEnv g)
      else if act = 37 then Inr (yy_push_state logDurationSingleNoEnv g)
      else if act = 38 \<or> act = 45 \<or> act = 53 \<or> act = 60 then Inr (read_element yytext g)
      else if act = 39 \<or> act = 46 \<or> act = 54 \<or> act = 61 then add_duration 1 g
      else if act = 40 \<or> act = 47 \<or> act = 55 \<or> act = 62 then add_duration SEC_IN_MIN g
      else if act = 41 \<or> act = 48 \<or> act = 56 \<or> act = 63 then add_duration SEC_IN_HOUR g
      else if act = 42 \<or> act = 49 \<or> act = 57 \<or> act = 64 then add_duration SEC_IN_DAY g
      else if act = 43 then Inr (push_log_duration g)
      else if act = 44 \<or> act = 50 then yy_pop_state (push_log_duration g)
      else if act = 51 then Inr (yy_push_state logResolutionSetEnv g)
      else if act = 52 then Inr (yy_push_state logResolutionSingleNoEnv g)
      else if act = 58 then Inr (push_log_resolution g)
      else end_log g)"

text \<open>The remaining rules: white space, \<open>log\<close> and \<open>trigger\<close>.\<close>

definition action :: "nat \<Rightarrow> string \<Rightarrow> parser \<Rightarrow> parser result" where
  "action act yytext g =
     (if act \<le> 32 then trigger_action act yytext g
      else if act \<le> 65 then log_action act yytext g
      else if act = 68 then Inr (yy_push_state logEnv g)
      else if act = 69 then Inr (yy_push_state triggerEnv g)
      else Inr g)"


section \<open>What the cross products compute\<close>

definition trigger_product :: "TriggerType \<Rightarrow> ResourceValue list \<Rightarrow> long list \<Rightarrow> TriggerType list" where
  "trigger_product t rs ds = concat (map (\<lambda>r. map (\<lambda>d. t\<lparr>triggerValue := r, duration := d\<rparr>) ds) rs)"

definition log_product :: "LogType \<Rightarrow> long list \<Rightarrow> long list \<Rightarrow> LogType list" where
  "log_product l ds rs = concat (map (\<lambda>d. map (\<lambda>r. l\<lparr>log_resolution := r, log_duration := d\<rparr>) rs) ds)"

text \<open>Two triggers that differ in value and duration only give the same products.\<close>

definition same_head :: "TriggerType \<Rightarrow> TriggerType \<Rightarrow> bool" where
  "same_head t u \<longleftrightarrow> resource t = resource u \<and> fluctuationType t = fluctuationType u"

lemma same_head_product: "same_head t u \<Longrightarrow> trigger_product t rs ds = trigger_product u rs ds"
  by (cases t; cases u) (simp add: same_head_def trigger_product_def)

lemma log_head_product: "log_resource l = log_resource k \<Longrightarrow> log_product l ds rs = log_product k ds rs"
  by (cases l; cases k) (simp add: log_product_def)

text \<open>A state with a new current trigger and a longer list.\<close>

definition trigger_run :: "TriggerType \<Rightarrow> TriggerType list \<Rightarrow> parser \<Rightarrow> parser \<Rightarrow> bool" where
  "trigger_run t new g g' \<longleftrightarrow> same_head t (currentTriggerType g') \<and>
     g' = g\<lparr>currentTriggerType := currentTriggerType g', triggerTypes := triggerTypes g @ new\<rparr>"

lemma trigger_run_trans:
  "trigger_run t new g g' \<Longrightarrow> trigger_run t new' g' g'' \<Longrightarrow> trigger_run t (new @ new') g g''"
  unfolding trigger_run_def by (cases g; cases g'; cases g'') auto

lemma push_trigger_run:
  "same_head t (currentTriggerType g) \<Longrightarrow>
    trigger_run t (map (\<lambda>d. t\<lparr>triggerValue := r, duration := d\<rparr>) ds) g (fold (push_trigger r) ds g)"
proof (induction ds arbitrary: g)
  case Nil
  then show ?case by (simp add: trigger_run_def)
next
  case (Cons d ds)
  have "(currentTriggerType g)\<lparr>triggerValue := r, duration := d\<rparr> = t\<lparr>triggerValue := r, duration := d\<rparr>"
    using Cons.prems by (cases t; cases "currentTriggerType g") (simp add: same_head_def)
  then have "trigger_run t [t\<lparr>triggerValue := r, duration := d\<rparr>] g (push_trigger r d g)"
    by (simp add: trigger_run_def push_trigger_def Let_def same_head_def)
  moreover have "same_head t (currentTriggerType (push_trigger r d g))"
    using calculation by (simp add: trigger_run_def)
  from Cons.IH [OF this] have "trigger_run t (map (\<lambda>d. t\<lparr>triggerValue := r, duration := d\<rparr>) ds)
      (push_trigger r d g) (fold (push_trigger r) ds (push_trigger r d g))" .
  ultimately have "trigger_run t ([t\<lparr>triggerValue := r, duration := d\<rparr>] @
      map (\<lambda>d. t\<lparr>triggerValue := r, duration := d\<rparr>) ds) g (fold (push_trigger r) ds (push_trigger r d g))"
    by (rule trigger_run_trans)
  then show ?case by simp
qed

lemma triggers_run:
  "same_head t (currentTriggerType g) \<Longrightarrow>
    trigger_run t (trigger_product t rs ds) g (fold (\<lambda>r. fold (push_trigger r) ds) rs g)"
proof (induction rs arbitrary: g)
  case Nil
  then show ?case by (simp add: trigger_run_def trigger_product_def)
next
  case (Cons r rs)
  note one = push_trigger_run [OF Cons.prems, of r ds]
  then have "same_head t (currentTriggerType (fold (push_trigger r) ds g))"
    by (simp add: trigger_run_def)
  from trigger_run_trans [OF one Cons.IH [OF this]] show ?case by (simp add: trigger_product_def)
qed

lemma produce_triggers:
  "\<exists>t. same_head (currentTriggerType g) t \<and> produceTriggersCrossproduct g =
    g\<lparr>currentTriggerType := t,
      triggerTypes := triggerTypes g @
        trigger_product (currentTriggerType g) (triggerResourceValues g) (triggerDurationTimes g),
      triggerResourceValues := [], triggerDurationTimes := []\<rparr>"
proof -
  let ?g' = "fold (\<lambda>res. fold (push_trigger res) (triggerDurationTimes g)) (triggerResourceValues g) g"
  have "trigger_run (currentTriggerType g)
      (trigger_product (currentTriggerType g) (triggerResourceValues g) (triggerDurationTimes g)) g ?g'"
    by (rule triggers_run) (simp add: same_head_def)
  then have h: "same_head (currentTriggerType g) (currentTriggerType ?g')"
    and eq: "?g' = g\<lparr>currentTriggerType := currentTriggerType ?g', triggerTypes := triggerTypes g @
      trigger_product (currentTriggerType g) (triggerResourceValues g) (triggerDurationTimes g)\<rparr>"
    unfolding trigger_run_def by blast+
  show ?thesis
    by (rule exI [where x = "currentTriggerType ?g'"], rule conjI [OF h],
        subst produceTriggersCrossproduct_def, subst eq) simp
qed


definition log_run :: "LogResource \<Rightarrow> LogType list \<Rightarrow> parser \<Rightarrow> parser \<Rightarrow> bool" where
  "log_run r new g g' \<longleftrightarrow> log_resource (currentLogType g') = r \<and>
     g' = g\<lparr>currentLogType := currentLogType g', logTypes := logTypes g @ new\<rparr>"

lemma log_run_trans: "log_run r new g g' \<Longrightarrow> log_run r new' g' g'' \<Longrightarrow> log_run r (new @ new') g g''"
  unfolding log_run_def by (cases g; cases g'; cases g'') auto

lemma log_run_cur: "log_run r new g g' \<Longrightarrow> log_resource (currentLogType g') = r"
  by (simp add: log_run_def)

lemma push_log_run:
  "log_resource (currentLogType g) = log_resource l \<Longrightarrow>
    log_run (log_resource l) (map (\<lambda>r. l\<lparr>log_resolution := r, log_duration := d\<rparr>) rs) g (fold (push_log d) rs g)"
proof (induction rs arbitrary: g)
  case Nil
  then show ?case by (simp add: log_run_def)
next
  case (Cons r rs)
  have "(currentLogType g)\<lparr>log_resolution := r, log_duration := d\<rparr> = l\<lparr>log_resolution := r, log_duration := d\<rparr>"
    using Cons.prems by (cases l; cases "currentLogType g") simp
  then have one: "log_run (log_resource l) [l\<lparr>log_resolution := r, log_duration := d\<rparr>] g (push_log d r g)"
    by (simp add: log_run_def push_log_def Let_def)
  from log_run_trans [OF one Cons.IH [OF log_run_cur [OF one]]] show ?case by simp
qed

lemma logs_run:
  "log_resource (currentLogType g) = log_resource l \<Longrightarrow>
    log_run (log_resource l) (log_product l ds rs) g (fold (\<lambda>d. fold (push_log d) rs) ds g)"
proof (induction ds arbitrary: g)
  case Nil
  then show ?case by (simp add: log_run_def log_product_def)
next
  case (Cons d ds)
  note one = push_log_run [OF Cons.prems, of d rs]
  from log_run_trans [OF one Cons.IH [OF log_run_cur [OF one]]] show ?case
    by (simp add: log_product_def)
qed

lemma produce_logs:
  "\<exists>l. log_resource l = log_resource (currentLogType g) \<and> produceLogsCrossproduct g =
    g\<lparr>currentLogType := l,
      logTypes := logTypes g @ log_product (currentLogType g) (logDurations g) (logResolutions g),
      logDurations := [], logResolutions := []\<rparr>"
proof -
  let ?g' = "fold (\<lambda>d. fold (push_log d) (logResolutions g)) (logDurations g) g"
  have run: "log_run (log_resource (currentLogType g))
      (log_product (currentLogType g) (logDurations g) (logResolutions g)) g ?g'"
    by (rule logs_run) simp
  then have eq: "?g' = g\<lparr>currentLogType := currentLogType ?g', logTypes := logTypes g @
      log_product (currentLogType g) (logDurations g) (logResolutions g)\<rparr>"
    unfolding log_run_def by blast
  show ?thesis
    by (rule exI [where x = "currentLogType ?g'"], rule conjI [OF log_run_cur [OF run]],
        subst produceLogsCrossproduct_def, subst eq) simp
qed

text \<open>At the end of a trigger definition the parser appends one trigger for every pair of a value
  and a duration, values first, and empties both lists; nothing but the scratch trigger changes.\<close>

theorem trigger_crossproduct:
  "\<exists>t. same_head (currentTriggerType g) t \<and> produceTriggersCrossproduct g =
    g\<lparr>currentTriggerType := t,
      triggerTypes := triggerTypes g @
        trigger_product (currentTriggerType g) (triggerResourceValues g) (triggerDurationTimes g),
      triggerResourceValues := [], triggerDurationTimes := []\<rparr>"
  by (rule produce_triggers)

text \<open>At the end of a log definition the parser appends one log for every pair of a duration and
  a resolution, durations first, and empties both lists.\<close>

theorem log_crossproduct:
  "\<exists>l. log_resource l = log_resource (currentLogType g) \<and> produceLogsCrossproduct g =
    g\<lparr>currentLogType := l,
      logTypes := logTypes g @ log_product (currentLogType g) (logDurations g) (logResolutions g),
      logDurations := [], logResolutions := []\<rparr>"
  by (rule produce_logs)

section \<open>Start states\<close>

text \<open>The automaton is always started in one of the eleven states of the conditions.\<close>

definition start_ok :: "parser \<Rightarrow> bool" where
  "start_ok g \<longleftrightarrow> (\<exists>c \<le> 10. yy_start g = 1 + 2 * c) \<and> (\<forall>c \<in> set (yy_start_stack g). c \<le> 10)"

lemma start_ok_init [simp]: "start_ok parser_init"
  by (simp add: start_ok_def parser_init_def)

lemma start_ok_cong:
  "yy_start g' = yy_start g \<Longrightarrow> yy_start_stack g' = yy_start_stack g \<Longrightarrow> start_ok g' = start_ok g"
  by (simp add: start_ok_def)

lemma start_ok_push: "start_ok g \<Longrightarrow> c \<le> 10 \<Longrightarrow> start_ok (yy_push_state c g)"
  by (auto simp: start_ok_def yy_push_state_def BEGIN_def YY_START_def)

lemma start_ok_pop: "start_ok g \<Longrightarrow> yy_pop_state g = Inr g' \<Longrightarrow> start_ok g'"
  by (auto simp: start_ok_def yy_pop_state_def BEGIN_def split: list.splits)

lemma start_simple [simp]:
  "start_ok (set_value x g) = start_ok g" "start_ok (set_unit u g) = start_ok g"
  "start_ok (push_value g) = start_ok g" "start_ok (read_element x g) = start_ok g"
  "start_ok (push_trigger_duration g) = start_ok g"
  "start_ok (push_log_duration g) = start_ok g" "start_ok (push_log_resolution g) = start_ok g"
  "start_ok (set_trigger_resource r g) = start_ok g" "start_ok (set_fluctuation f g) = start_ok g"
  "start_ok (set_log_resource lr g) = start_ok g"
  by (simp_all add: start_ok_def set_value_def set_unit_def push_value_def read_element_def
      push_trigger_duration_def push_log_duration_def push_log_resolution_def set_trigger_resource_def
      set_fluctuation_def set_log_resource_def)

lemma start_ok_triggers [simp]: "start_ok (produceTriggersCrossproduct g) = start_ok g"
proof -
  have "start_ok (fold (push_trigger r) ds g) = start_ok g" for r ds and g :: parser
    by (induction ds arbitrary: g) (simp_all add: push_trigger_def Let_def start_ok_def)
  then have "start_ok (fold (\<lambda>r. fold (push_trigger r) ds) rs g) = start_ok g" for rs ds
    by (induction rs arbitrary: g) simp_all
  then show ?thesis by (simp add: produceTriggersCrossproduct_def start_ok_def)
qed

lemma start_ok_logs [simp]: "start_ok (produceLogsCrossproduct g) = start_ok g"
proof -
  have "start_ok (fold (push_log d) rs g) = start_ok g" for d rs and g :: parser
    by (induction rs arbitrary: g) (simp_all add: push_log_def Let_def start_ok_def)
  then have "start_ok (fold (\<lambda>d. fold (push_log d) rs) ds g) = start_ok g" for rs ds
    by (induction ds arbitrary: g) simp_all
  then show ?thesis by (simp add: produceLogsCrossproduct_def start_ok_def)
qed

lemma start_ok_ends:
  "start_ok g \<Longrightarrow> end_trigger g = Inr g' \<Longrightarrow> start_ok g'"
  "start_ok g \<Longrightarrow> end_log g = Inr g' \<Longrightarrow> start_ok g'"
  unfolding end_trigger_def end_log_def bindE_Inr_iff
  by (metis Inr_inject start_ok_pop start_ok_triggers start_simple(5),
      metis Inr_inject start_ok_pop start_ok_logs start_simple(7))

text \<open>The two ways to fail, and a result that keeps the start states good and fails in no other way.\<close>

definition parse_error :: "cpp_exn \<Rightarrow> bool" where
  "parse_error e \<longleftrightarrow> e = underflow \<or> e = Undefined_behaviour"

definition good_result :: "parser result \<Rightarrow> bool" where
  "good_result r \<longleftrightarrow> (case r of Inl e \<Rightarrow> parse_error e | Inr g \<Rightarrow> start_ok g)"

lemma good_if: "good_result a \<Longrightarrow> good_result b \<Longrightarrow> good_result (if c then a else b)"
  by simp

lemma pop_fails: "yy_pop_state g = Inl e \<Longrightarrow> e = underflow"
  by (auto simp: yy_pop_state_def split: list.splits)

lemma good_resultI:
  "(\<And>g. r = Inr g \<Longrightarrow> start_ok g) \<Longrightarrow> (\<And>e. r = Inl e \<Longrightarrow> e = underflow) \<Longrightarrow> good_result r"
  by (simp add: good_result_def parse_error_def split: sum.split)

lemma end_fails: "end_trigger g = Inl e \<Longrightarrow> e = underflow" "end_log g = Inl e \<Longrightarrow> e = underflow"
  by (auto simp: end_trigger_def end_log_def bindE_Inl_iff dest: pop_fails)

lemma good_results:
  assumes "start_ok g"
  shows "good_result (Inr g)" and "good_result (yy_pop_state g)"
    and "c \<le> 10 \<Longrightarrow> good_result (Inr (yy_push_state c g))"
    and "good_result (end_trigger g)" and "good_result (end_log g)" and "good_result (add_duration n g)"
proof -
  show "good_result (Inr g)" using assms by (simp add: good_result_def)
  show "good_result (yy_pop_state g)"
    by (rule good_resultI) (erule start_ok_pop [OF assms], erule pop_fails)
  show "c \<le> 10 \<Longrightarrow> good_result (Inr (yy_push_state c g))"
    using start_ok_push [OF assms] by (simp add: good_result_def)
  show "good_result (end_trigger g)"
    by (rule good_resultI) (erule start_ok_ends(1) [OF assms], erule end_fails(1))
  show "good_result (end_log g)"
    by (rule good_resultI) (erule start_ok_ends(2) [OF assms], erule end_fails(2))
  show "good_result (add_duration n g)"
    using assms by (simp add: good_result_def add_duration_def Let_def parse_error_def start_ok_def)
qed

lemma good_trigger_action: "start_ok g \<Longrightarrow> good_result (trigger_action act x g)"
  unfolding trigger_action_def
  by (intro good_if good_results) (simp_all add: conditions)

lemma good_log_action: "start_ok g \<Longrightarrow> good_result (log_action act x g)"
  unfolding log_action_def
  by (intro good_if good_results) (simp_all add: conditions)

lemma good_action: "start_ok g \<Longrightarrow> good_result (action act x g)"
  unfolding action_def
  by (intro good_if good_results good_trigger_action good_log_action) (simp_all add: conditions)

lemma start_ok_action: "start_ok g \<Longrightarrow> action act x g = Inr g' \<Longrightarrow> start_ok g'"
  using good_action [of g act x] by (simp add: good_result_def)

lemma action_fails: "start_ok g \<Longrightarrow> action act x g = Inl e \<Longrightarrow> parse_error e"
  using good_action [of g act x] by (simp add: good_result_def)

end
