(* ===== verification/Scanner.thy ===== *)
theory Scanner
  imports Automaton ParserActions
begin

text \<open>
  The scanner \<open>yyFlexLexer::yylex\<close> of \<open>src/library_src/flex.cpp\<close> as a machine: its labels are the
  jump targets of the function, its state the lexer object with the input buffer, and one step runs
  from one label to the next. The scanner is interactive: it reads one character at a time and, at
  the end of the buffer, moves the current token to the front, reads on and scans the token again.
  The character that \<open>YY_DO_BEFORE_ACTION\<close> overwrites with a NUL and restores is not modelled: the
  text of a token is the slice of the buffer. Memory never runs out.
\<close>

section \<open>State\<close>

datatype buffer_status = YY_BUFFER_NEW | YY_BUFFER_NORMAL | YY_BUFFER_EOF_PENDING

text \<open>The \<open>yy_n_chars\<close> characters of \<open>yy_ch_buf\<close>; pointers into it are indices.\<close>

record lexer =
  yyin :: string
  yyout :: string
  yy_ch_buf :: string
  yy_buf_size :: nat
  yy_buffer_status :: buffer_status
  yytext_ptr :: nat
  yy_c_buf_p :: nat
  yy_last_accepting_state :: nat
  yy_last_accepting_cpos :: nat
  yy_current_state :: nat
  yy_cp :: nat
  yy_bp :: nat
  yy_act :: nat
  vars :: parser

datatype label = Next_token | Yy_match | Yy_find_action | Do_action | Returned

abbreviation NUL :: char where "NUL \<equiv> CHR 0x00"

definition yy_n_chars :: "lexer \<Rightarrow> nat" where
  "yy_n_chars lx = length (yy_ch_buf lx)"

text \<open>The buffer with the two end-of-buffer characters behind it.\<close>

definition buffer :: "lexer \<Rightarrow> string" where
  "buffer lx = yy_ch_buf lx @ [NUL, NUL]"

text \<open>The result of a function of the scanner: \<open>None\<close> if it does not return.\<close>

type_synonym 'a run = "'a result option"

section \<open>The match loop\<close>

definition ec :: "char \<Rightarrow> nat" where
  "ec ch = yy_ec ! of_char ch"

text \<open>
  The loop at \<open>yy_match\<close>, on the characters from \<open>yy_cp\<close> on: the state and position where it stops
  and the last accepting state and position.
\<close>

fun match_loop :: "nat \<Rightarrow> nat \<Rightarrow> nat \<times> nat \<Rightarrow> string \<Rightarrow> (nat \<times> nat \<times> nat \<times> nat) option" where
  "match_loop s cp la [] = None"
| "match_loop s cp la (ch # rest) =
     (let la' = (if yy_accept ! s \<noteq> 0 then (s, cp) else la) in
      case yy_next s (ec ch) of
        None \<Rightarrow> None
      | Some t \<Rightarrow> if yy_base ! t = 1150 then Some (t, cp + 1, la')
                  else match_loop t (cp + 1) la' rest)"

text \<open>\<open>yy_get_previous_state\<close>: the state before the end-of-buffer character, a NUL in class 1.\<close>

definition ec1 :: "char \<Rightarrow> nat" where
  "ec1 ch = (if ch = NUL then 1 else ec ch)"

fun previous_loop :: "nat \<Rightarrow> nat \<Rightarrow> nat \<times> nat \<Rightarrow> string \<Rightarrow> (nat \<times> nat \<times> nat) option" where
  "previous_loop s cp la [] = Some (s, la)"
| "previous_loop s cp la (ch # rest) =
     (let la' = (if yy_accept ! s \<noteq> 0 then (s, cp) else la) in
      case yy_next s (ec1 ch) of
        None \<Rightarrow> None
      | Some t \<Rightarrow> previous_loop t (cp + 1) la' rest)"

definition last_accepting :: "lexer \<Rightarrow> nat \<times> nat" where
  "last_accepting lx = (yy_last_accepting_state lx, yy_last_accepting_cpos lx)"

definition set_last :: "nat \<times> nat \<Rightarrow> lexer \<Rightarrow> lexer" where
  "set_last l lx = lx\<lparr>yy_last_accepting_state := fst l, yy_last_accepting_cpos := snd l\<rparr>"

definition yy_get_previous_state :: "lexer \<Rightarrow> (nat \<times> lexer) option" where
  "yy_get_previous_state lx =
     (case previous_loop (yy_start (vars lx)) (yytext_ptr lx) (last_accepting lx)
         (take (yy_c_buf_p lx - yytext_ptr lx) (drop (yytext_ptr lx) (yy_ch_buf lx))) of
        None \<Rightarrow> None
      | Some (s, l) \<Rightarrow> Some (s, set_last l lx))"

text \<open>\<open>yy_try_NUL_trans\<close>: 0 when the automaton jams.\<close>

definition yy_try_NUL_trans :: "nat \<Rightarrow> lexer \<Rightarrow> (nat \<times> lexer) option" where
  "yy_try_NUL_trans s lx =
     (let lx1 = (if yy_accept ! s \<noteq> 0 then set_last (s, yy_c_buf_p lx) lx else lx) in
      case yy_next s 1 of
        None \<Rightarrow> None
      | Some t \<Rightarrow> Some (if t = 315 then 0 else t, lx1))"

section \<open>Refilling the buffer\<close>

text \<open>\<open>LexerInput\<close> with \<open>YY_INTERACTIVE\<close>: one character, or none at the end of the stream.\<close>

definition LexerInput :: "lexer \<Rightarrow> string \<times> lexer" where
  "LexerInput lx = (case yyin lx of [] \<Rightarrow> ([], lx) | c # cs \<Rightarrow> ([c], lx\<lparr>yyin := cs\<rparr>))"

definition yy_flush_buffer :: "lexer \<Rightarrow> lexer" where
  "yy_flush_buffer lx =
     lx\<lparr>yy_ch_buf := [], yytext_ptr := 0, yy_c_buf_p := 0, yy_buffer_status := YY_BUFFER_NEW\<rparr>"

definition yyrestart :: "lexer \<Rightarrow> lexer" where
  "yyrestart lx = yy_flush_buffer lx"

datatype eob_act = EOB_ACT_CONTINUE_SCAN | EOB_ACT_END_OF_FILE | EOB_ACT_LAST_MATCH

text \<open>
  The loop that doubles the buffer while \<open>yy_buf_size - number_to_move - 1\<close>, an unsigned number, is 0:
  one turn suffices.
\<close>

definition grow :: "nat \<Rightarrow> nat \<Rightarrow> nat" where
  "grow number_to_move sz = (if number_to_move + 1 = sz then sz * 2 else sz)"

definition yy_get_next_buffer :: "lexer \<Rightarrow> (eob_act \<times> lexer) result" where
  "yy_get_next_buffer lx =
     (if yy_c_buf_p lx > yy_n_chars lx + 1
      then Inl (Exit_failure ''fatal flex scanner internal error--end of buffer missed'')
      else
        let number_to_move = yy_c_buf_p lx - yytext_ptr lx - 1;
            moved = take number_to_move (drop (yytext_ptr lx) (yy_ch_buf lx));
            (got, lx1) =
              (if yy_buffer_status lx = YY_BUFFER_EOF_PENDING then ([], lx)
               else LexerInput (lx\<lparr>yy_buf_size := grow number_to_move (yy_buf_size lx)\<rparr>));
            (ret_val, lx2) =
              (if got = [] then
                 if number_to_move = 0 then (EOB_ACT_END_OF_FILE, yyrestart lx1)
                 else (EOB_ACT_LAST_MATCH, lx1\<lparr>yy_buffer_status := YY_BUFFER_EOF_PENDING\<rparr>)
               else (EOB_ACT_CONTINUE_SCAN, lx1))
        in Inr (ret_val, lx2\<lparr>yy_ch_buf := moved @ got, yytext_ptr := 0\<rparr>))"

section \<open>The steps\<close>

definition next_token_step :: "lexer \<Rightarrow> (label \<times> lexer) run" where
  "next_token_step lx = Some (Inr (Yy_match,
     lx\<lparr>yy_cp := yy_c_buf_p lx, yy_bp := yy_c_buf_p lx, yy_current_state := yy_start (vars lx)\<rparr>))"

definition match_step :: "lexer \<Rightarrow> (label \<times> lexer) run" where
  "match_step lx =
     (case match_loop (yy_current_state lx) (yy_cp lx) (last_accepting lx) (drop (yy_cp lx) (buffer lx)) of
        None \<Rightarrow> None
      | Some (s, cp, l) \<Rightarrow>
          Some (Inr (Yy_find_action, set_last l (lx\<lparr>yy_current_state := s, yy_cp := cp\<rparr>))))"

text \<open>\<open>yy_find_action\<close> with the back-up, and \<open>YY_DO_BEFORE_ACTION\<close>.\<close>

definition back_up :: "lexer \<Rightarrow> lexer" where
  "back_up lx = lx\<lparr>yy_cp := yy_last_accepting_cpos lx, yy_current_state := yy_last_accepting_state lx\<rparr>"

definition find_action_step :: "lexer \<Rightarrow> (label \<times> lexer) run" where
  "find_action_step lx =
     (let lx1 = (if yy_accept ! yy_current_state lx = 0 then back_up lx else lx)
      in Some (Inr (Do_action, lx1\<lparr>yy_act := yy_accept ! yy_current_state lx1,
           yytext_ptr := yy_bp lx1, yy_c_buf_p := yy_cp lx1\<rparr>)))"

definition yytext :: "lexer \<Rightarrow> string" where
  "yytext lx = take (yy_cp lx - yytext_ptr lx) (drop (yytext_ptr lx) (buffer lx))"

text \<open>\<open>yywrap\<close> returns 1: there is never another input.\<close>

definition end_of_buffer_step :: "lexer \<Rightarrow> (label \<times> lexer) run" where
  "end_of_buffer_step lx0 =
     (let yy_amount_of_matched_text = yy_cp lx0 - yytext_ptr lx0 - 1;
          lx = (if yy_buffer_status lx0 = YY_BUFFER_NEW
                then lx0\<lparr>yy_buffer_status := YY_BUFFER_NORMAL\<rparr> else lx0) in
      if yy_c_buf_p lx \<le> yy_n_chars lx then
        case yy_get_previous_state (lx\<lparr>yy_c_buf_p := yytext_ptr lx + yy_amount_of_matched_text\<rparr>) of
          None \<Rightarrow> None
        | Some (s, lx1) \<Rightarrow>
            (case yy_try_NUL_trans s lx1 of
               None \<Rightarrow> None
             | Some (t, lx2) \<Rightarrow>
                 let lx3 = lx2\<lparr>yy_bp := yytext_ptr lx2\<rparr> in
                 if t \<noteq> 0
                 then Some (Inr (Yy_match, lx3\<lparr>yy_c_buf_p := yy_c_buf_p lx3 + 1,
                        yy_cp := yy_c_buf_p lx3 + 1, yy_current_state := t\<rparr>))
                 else Some (Inr (Yy_find_action, lx3\<lparr>yy_cp := yy_c_buf_p lx3, yy_current_state := s\<rparr>)))
      else
        case yy_get_next_buffer lx of
          Inl e \<Rightarrow> Some (Inl e)
        | Inr (EOB_ACT_END_OF_FILE, lx1) \<Rightarrow>
            Some (Inr (Do_action, lx1\<lparr>yy_c_buf_p := yytext_ptr lx1, yy_act := 72 + YY_START (vars lx1)\<rparr>))
        | Inr (EOB_ACT_CONTINUE_SCAN, lx1) \<Rightarrow>
            (case yy_get_previous_state (lx1\<lparr>yy_c_buf_p := yytext_ptr lx1 + yy_amount_of_matched_text\<rparr>) of
               None \<Rightarrow> None
             | Some (s, lx2) \<Rightarrow>
                 Some (Inr (Yy_match, lx2\<lparr>yy_current_state := s, yy_cp := yy_c_buf_p lx2,
                   yy_bp := yytext_ptr lx2\<rparr>)))
        | Inr (EOB_ACT_LAST_MATCH, lx1) \<Rightarrow>
            (case yy_get_previous_state (lx1\<lparr>yy_c_buf_p := yy_n_chars lx1\<rparr>) of
               None \<Rightarrow> None
             | Some (s, lx2) \<Rightarrow>
                 Some (Inr (Yy_find_action, lx2\<lparr>yy_current_state := s, yy_cp := yy_c_buf_p lx2,
                   yy_bp := yytext_ptr lx2\<rparr>))))"

text \<open>The action switch: rules, the default rule \<open>ECHO\<close>, the end of the buffer, and \<open>yyterminate\<close>.\<close>

definition do_action_step :: "lexer \<Rightarrow> (label \<times> lexer) run" where
  "do_action_step lx =
     (if yy_act lx = 0 then Some (Inr (Yy_find_action, back_up lx))
      else if yy_act lx \<le> 69 then
        (case action (yy_act lx) (yytext lx) (vars lx) of
           Inl e \<Rightarrow> Some (Inl e)
         | Inr g \<Rightarrow> Some (Inr (Next_token, lx\<lparr>vars := g\<rparr>)))
      else if yy_act lx = 70 then Some (Inr (Next_token, lx\<lparr>yyout := yyout lx @ yytext lx\<rparr>))
      else if yy_act lx = 71 then end_of_buffer_step lx
      else if yy_act lx \<le> 82 then Some (Inr (Returned, lx))
      else Some (Inl (Exit_failure ''fatal flex scanner internal error--no action found'')))"

definition step :: "label \<Rightarrow> lexer \<Rightarrow> (label \<times> lexer) run" where
  "step lab lx = (case lab of
       Next_token \<Rightarrow> next_token_step lx
     | Yy_match \<Rightarrow> match_step lx
     | Yy_find_action \<Rightarrow> find_action_step lx
     | Do_action \<Rightarrow> do_action_step lx
     | Returned \<Rightarrow> Some (Inr (Returned, lx)))"

partial_function (option) run_from :: "label \<Rightarrow> lexer \<Rightarrow> lexer run" where
  "run_from lab lx =
     (if lab = Returned then Some (Inr lx)
      else case step lab lx of
        None \<Rightarrow> None
      | Some (Inl e) \<Rightarrow> Some (Inl e)
      | Some (Inr (lab', lx')) \<Rightarrow> run_from lab' lx')"

text \<open>A new lexer on a stream; the first call of \<open>yylex\<close> creates a buffer of 16384 characters.\<close>

definition yyFlexLexer :: "string \<Rightarrow> parser \<Rightarrow> lexer" where
  "yyFlexLexer input g =
     \<lparr>yyin = input, yyout = [], yy_ch_buf = [], yy_buf_size = 16384, yy_buffer_status = YY_BUFFER_NEW,
      yytext_ptr = 0, yy_c_buf_p = 0, yy_last_accepting_state = 0, yy_last_accepting_cpos = 0,
      yy_current_state = 0, yy_cp = 0, yy_bp = 0, yy_act = 0,
      vars = g\<lparr>yy_start := 1, yy_start_stack := []\<rparr>\<rparr>"

definition yylex :: "lexer \<Rightarrow> lexer run" where
  "yylex lx = run_from Next_token lx"

end
