(* ===== verification/ScannerRefinement.thy ===== *)
theory ScannerRefinement
  imports Scanner
begin

text \<open>
  What the scanner computes: the sequence of longest matches of its automaton on the whole input.
  The specification \<open>scan\<close> works on the remaining input alone; the machine of \<open>Scanner\<close> with its
  one-character reads, its moves of the token to the front of the buffer and its rescans is shown
  to agree with it on every input, and so to terminate.
\<close>

section \<open>Specification: the longest match\<close>

text \<open>
  The scanner on the whole remaining input: follow the transitions until the automaton jams or the
  input ends, and take the last accepting state on the way. Among rules that match the same text
  the table holds the first.
\<close>

definition nx :: "nat \<Rightarrow> char \<Rightarrow> nat" where
  "nx s ch = the (yy_next s (ec1 ch))"

fun longest :: "nat \<Rightarrow> nat \<Rightarrow> nat \<times> nat \<Rightarrow> string \<Rightarrow> nat \<times> nat" where
  "longest s p la [] =
     (if yy_accept ! s \<noteq> 0 then (yy_accept ! s, p) else (yy_accept ! fst la, snd la))"
| "longest s p la (ch # rest) =
     (let la' = (if yy_accept ! s \<noteq> 0 then (s, p) else la); t = nx s ch
      in if t = 315 then (yy_accept ! fst la', snd la') else longest t (p + 1) la' rest)"

text \<open>The rule and the length of the first token of a non-empty input.\<close>

definition token :: "nat \<Rightarrow> string \<Rightarrow> nat \<times> nat" where
  "token s input = longest s 0 (0, 0) input"

partial_function (option) scan :: "string \<Rightarrow> parser \<Rightarrow> string \<Rightarrow> (parser \<times> string) run" where
  "scan input g out =
     (if input = [] then Some (Inr (g, out))
      else let act = fst (token (yy_start g) input); n = snd (token (yy_start g) input) in
        if act = 70 then scan (drop n input) g (out @ take n input)
        else case action act (take n input) g of
          Inl e \<Rightarrow> Some (Inl e)
        | Inr g' \<Rightarrow> scan (drop n input) g' out)"

section \<open>Facts about characters and transitions\<close>

lemma of_char_less: "(of_char ch :: nat) < 256"
  by (metis mod_less_divisor zero_less_numeral of_char_mod_256)

lemma ec_range: "ec ch < 52" "ec ch = 0 \<longleftrightarrow> ch = NUL"
proof -
  show "ec ch < 52" unfolding ec_def by (rule ec_less [OF of_char_less])
  have "ec ch = 0 \<longleftrightarrow> (of_char ch :: nat) = 0" unfolding ec_def by (rule ec_zero [OF of_char_less])
  moreover have "(of_char NUL :: nat) = 0" by simp
  ultimately show "ec ch = 0 \<longleftrightarrow> ch = NUL" by (metis of_char_eq_iff)
qed

lemma ec1_range: "1 \<le> ec1 ch" "ec1 ch < 52"
  using ec_range [of ch] by (auto simp: ec1_def)

lemma nx_next: "is_state s \<Longrightarrow> yy_next s (ec1 ch) = Some (nx s ch) \<and> is_state (nx s ch) \<and> nx s ch \<noteq> 23"
  using next_exists [of s "ec1 ch"] ec1_range [of ch]
    yy_next_not_23 [of s "ec1 ch" 4] default_chain [of s]
  by (auto simp: nx_def is_state_def eval_nat_numeral)

lemma nx_jam: "is_state s \<Longrightarrow> yy_base ! s = 1150 \<Longrightarrow> nx s ch = 315"
  using final_jams [of s "ec1 ch"] ec1_range [of ch] by (simp add: nx_def)


section \<open>Facts about the longest match\<close>

lemma longest_indep: "yy_accept ! s \<noteq> 0 \<Longrightarrow> longest s p la cs = longest s p la' cs"
  by (cases cs) simp_all

lemma longest_shift:
  "longest s (p + k) (a, b + k) cs = (fst (longest s p (a, b) cs), snd (longest s p (a, b) cs) + k)"
proof (induction cs arbitrary: s p a b)
  case (Cons c cs)
  from Cons.IH [of "nx s c" "p + 1" s p] Cons.IH [of "nx s c" "p + 1" a b]
  show ?case by (simp add: Let_def algebra_simps)
qed simp

definition rule :: "nat \<Rightarrow> bool" where
  "rule a \<longleftrightarrow> 1 \<le> a \<and> a \<le> 70"

lemma accept_rule: "is_state s \<Longrightarrow> s \<noteq> 23 \<Longrightarrow> yy_accept ! s \<noteq> 0 \<Longrightarrow> rule (yy_accept ! s)"
  using accept_entry [of s] by (auto simp: rule_def is_state_def)

lemma longest_bounds:
  assumes "is_state s" and "s \<noteq> 23" and "q \<le> p"
    and "yy_accept ! s \<noteq> 0 \<or> rule (yy_accept ! fst la) \<and> q \<le> snd la \<and> snd la \<le> p"
  shows "rule (fst (longest s p la cs)) \<and> q \<le> snd (longest s p la cs) \<and> snd (longest s p la cs) \<le> p + length cs"
  using assms
proof (induction cs arbitrary: s p la)
  case Nil
  then show ?case using accept_rule [of s] by auto
next
  case (Cons c cs)
  let ?la = "if yy_accept ! s \<noteq> 0 then (s, p) else la"
  have la: "rule (yy_accept ! fst ?la) \<and> q \<le> snd ?la \<and> snd ?la \<le> p"
    using Cons.prems accept_rule [of s] by auto
  show ?case
  proof (cases "nx s c = 315")
    case True
    with la show ?thesis by (auto simp: Let_def)
  next
    case False
    from la Cons.prems(3) nx_next [OF Cons.prems(1), of c]
      Cons.IH [of "nx s c" "p + 1" "?la"]
    show ?thesis by (simp add: Let_def False)
  qed
qed

definition is_start :: "nat \<Rightarrow> bool" where
  "is_start s \<longleftrightarrow> (\<exists>k \<le> 10. s = 1 + 2 * k)"

lemma is_startD: "is_start s \<Longrightarrow> is_state s \<and> s \<noteq> 23 \<and> s \<noteq> 315"
  by (auto simp: is_start_def is_state_def)

lemma start_accepts: "is_start s \<Longrightarrow> yy_accept ! nx s c \<noteq> 0 \<and> nx s c \<noteq> 315"
  using start_takes_one [of "(s - 1) div 2" "ec1 c"] ec1_range [of c]
  by (auto simp: is_start_def takes_one_def nx_def split: option.splits)

text \<open>The first token does not depend on what an earlier match left behind, nor on the position.\<close>

lemma token_longest:
  assumes "is_start s" and "input \<noteq> []"
  shows "longest s p la input = (fst (token s input), p + snd (token s input))"
proof -
  obtain c cs where input: "input = c # cs" using assms(2) by (cases input) auto
  let ?t = "nx s c"
  have t: "yy_accept ! ?t \<noteq> 0" "?t \<noteq> 315" using start_accepts [OF assms(1)] by simp_all
  define la2 :: "nat \<times> nat" where "la2 = (if yy_accept ! s \<noteq> 0 then (s, 0) else (0, 0))"
  have "longest s p la input = longest ?t (1 + p) (fst la2, snd la2 + p) cs"
    using t longest_indep [OF t(1)] by (simp add: input Let_def)
  also have "\<dots> = (fst (longest ?t 1 la2 cs), snd (longest ?t 1 la2 cs) + p)"
    using longest_shift [of ?t 1 p "fst la2" "snd la2" cs] by simp
  also have "longest ?t 1 la2 cs = token s input"
    using t by (simp add: token_def input la2_def Let_def)
  finally show ?thesis by simp
qed

lemma token_bounds:
  assumes "is_start s" and "input \<noteq> []"
  shows "rule (fst (token s input))" and "1 \<le> snd (token s input)" and "snd (token s input) \<le> length input"
proof -
  obtain c cs where input: "input = c # cs" using assms(2) by (cases input) auto
  have t: "yy_accept ! nx s c \<noteq> 0" "nx s c \<noteq> 315" using start_accepts [OF assms(1)] by simp_all
  have st: "is_state (nx s c)" "nx s c \<noteq> 23" using nx_next is_startD [OF assms(1)] by blast+
  from longest_bounds [OF st, of 1 1 "if yy_accept ! s \<noteq> 0 then (s, 0) else (0, 0)" cs] t
  show "rule (fst (token s input))" and "1 \<le> snd (token s input)" and "snd (token s input) \<le> length input"
    by (simp_all add: token_def input Let_def)
qed

section \<open>The loops of the scanner\<close>

lemma nx_315: "nx 315 c = 315"
  by (rule nx_jam) (simp_all add: is_state_def)

lemma previous_315: "previous_loop 315 p la u = Some (s, la') \<Longrightarrow> s = 315"
proof (induction u arbitrary: p la)
  case (Cons c u)
  have "yy_next 315 (ec1 c) = Some 315"
    using nx_next [of 315 c] nx_315 [of c] by (simp add: is_state_def)
  with Cons show ?case by (simp add: Let_def)
qed simp

lemma previous_total:
  "is_state s \<Longrightarrow> s \<noteq> 23 \<Longrightarrow> \<exists>t la'. previous_loop s p la u = Some (t, la') \<and> is_state t \<and> t \<noteq> 23"
proof (induction u arbitrary: s p la)
  case (Cons c u)
  from nx_next [OF Cons.prems(1), of c] Cons.IH [of "nx s c"] show ?case
    by (simp add: Let_def)
qed simp

lemma previous_longest:
  assumes "is_state s" and "previous_loop s p la u = Some (t, la')" and "t \<noteq> 315"
  shows "longest s p la (u @ w) = longest t (p + length u) la' w"
  using assms
proof (induction u arbitrary: s p la)
  case (Cons c u)
  note n = nx_next [OF Cons.prems(1), of c]
  from n Cons.prems(2) have rest:
    "previous_loop (nx s c) (p + 1) (if yy_accept ! s \<noteq> 0 then (s, p) else la) u = Some (t, la')"
    by (simp add: Let_def)
  then have "nx s c \<noteq> 315" using previous_315 Cons.prems(3) by metis
  with Cons.IH [OF _ rest Cons.prems(3)] n show ?case by (simp add: Let_def)
qed simp

lemma previous_append:
  "previous_loop s p la u = Some (t, la') \<Longrightarrow> previous_loop s p la (u @ v) = previous_loop t (p + length u) la' v"
proof (induction u arbitrary: s p la)
  case (Cons c u)
  then show ?case
    by (cases "yy_next s (ec1 c)"; cases la) (auto simp: Let_def split: if_splits)
qed simp

text \<open>The state does not depend on positions and stale accepting states.\<close>

lemma previous_state:
  "previous_loop s p la u = Some (t, la') \<Longrightarrow> \<exists>la2. previous_loop s p' la1 u = Some (t, la2)"
proof (induction u arbitrary: s p la p' la1)
  case (Cons c u)
  then show ?case by (auto simp: Let_def split: option.splits)
qed simp

text \<open>What the match loop finds at its end.\<close>

definition found :: "nat \<Rightarrow> nat \<Rightarrow> nat \<times> nat \<Rightarrow> nat \<times> nat" where
  "found t cp la = (if yy_accept ! t \<noteq> 0 then (yy_accept ! t, cp) else (yy_accept ! fst la, snd la))"

lemma match_loop_cases:
  assumes "is_state s" and "s \<noteq> 23" and "s \<noteq> 315"
  shows "\<exists>t cp' la'. match_loop s cp la (v @ [NUL, NUL]) = Some (t, cp', la') \<and>
    ((v \<noteq> [] \<and> (\<forall>z. found t cp' la' = longest s cp la (v @ z))) \<or>
     (t = 315 \<and> (\<exists>x y s1 la1. v @ [NUL, NUL] = x @ NUL # y \<and> length x \<le> length v
       \<and> previous_loop s cp la x = Some (s1, la1) \<and> s1 \<noteq> 315 \<and> la' = (23, cp + length x + 1))))"
  using assms
proof (induction v arbitrary: s cp la)
  case Nil
  have "yy_next s (ec NUL) = Some 23" using yy_next_zero Nil.prems ec_range(2) [of NUL] by simp
  moreover have "yy_next 23 (ec NUL) = Some 315" by (rule yy_next_23 [OF ec_range(1)])
  ultimately show ?case using Nil.prems by (auto simp: Let_def)
next
  case (Cons c v)
  let ?la = "if yy_accept ! s \<noteq> 0 then (s, cp) else la"
  show ?case
  proof (cases "c = NUL")
    case True
    then have z: "yy_next s (ec c) = Some 23" using yy_next_zero Cons.prems ec_range(2) [of c] by simp
    obtain d r where d: "v @ [NUL, NUL] = d # r" by (cases v) auto
    have "yy_next 23 (ec d) = Some 315" by (rule yy_next_23 [OF ec_range(1)])
    with z d have "match_loop s cp la ((c # v) @ [NUL, NUL]) = Some (315, cp + 1 + 1, (23, cp + 1))"
      by (simp add: Let_def)
    moreover have "(c # v) @ [NUL, NUL] = [] @ NUL # (v @ [NUL, NUL])" using True by simp
    ultimately show ?thesis using Cons.prems(3) by fastforce
  next
    case False
    then have e: "ec c = ec1 c" by (simp add: ec1_def)
    note n = nx_next [OF Cons.prems(1), of c]
    show ?thesis
    proof (cases "yy_base ! nx s c = 1150")
      case True
      have "found (nx s c) (cp + 1) ?la = longest s cp la ((c # v) @ z)" for z
      proof (cases "nx s c = 315")
        case True
        then show ?thesis by (simp add: found_def Let_def)
      next
        case False
        then have "yy_accept ! nx s c \<noteq> 0" using final_accepts n True by blast
        with False nx_jam [OF _ True] n show ?thesis
          by (cases "v @ z") (simp_all add: found_def Let_def)
      qed
      with True n e show ?thesis by (auto simp: Let_def)
    next
      case False
      then have "nx s c \<noteq> 315" by auto
      with Cons.IH [of "nx s c" "cp + 1" ?la] n obtain t cp' la' where
        m: "match_loop (nx s c) (cp + 1) ?la (v @ [NUL, NUL]) = Some (t, cp', la')" and
        d: "(v \<noteq> [] \<and> (\<forall>z. found t cp' la' = longest (nx s c) (cp + 1) ?la (v @ z))) \<or>
         (t = 315 \<and> (\<exists>x y s1 la1. v @ [NUL, NUL] = x @ NUL # y \<and> length x \<le> length v
           \<and> previous_loop (nx s c) (cp + 1) ?la x = Some (s1, la1) \<and> s1 \<noteq> 315
           \<and> la' = (23, cp + 1 + length x + 1)))" by blast
      have m': "match_loop s cp la ((c # v) @ [NUL, NUL]) = Some (t, cp', la')"
        using m n e False by (simp add: Let_def)
      from d show ?thesis
      proof
        assume "v \<noteq> [] \<and> (\<forall>z. found t cp' la' = longest (nx s c) (cp + 1) ?la (v @ z))"
        with \<open>nx s c \<noteq> 315\<close> m' show ?thesis by (simp add: Let_def)
      next
        assume "t = 315 \<and> (\<exists>x y s1 la1. v @ [NUL, NUL] = x @ NUL # y \<and> length x \<le> length v
           \<and> previous_loop (nx s c) (cp + 1) ?la x = Some (s1, la1) \<and> s1 \<noteq> 315
           \<and> la' = (23, cp + 1 + length x + 1))"
        then obtain x y s1 la1 where x: "v @ [NUL, NUL] = x @ NUL # y" "length x \<le> length v"
          "previous_loop (nx s c) (cp + 1) ?la x = Some (s1, la1)" "s1 \<noteq> 315"
          "la' = (23, cp + 1 + length x + 1)" "t = 315" by blast
        then have "(c # v) @ [NUL, NUL] = (c # x) @ NUL # y" "length (c # x) \<le> length (c # v)"
          "previous_loop s cp la (c # x) = Some (s1, la1)" "la' = (23, cp + length (c # x) + 1)"
          using n by (simp_all add: Let_def)
        with m' x(4,6) show ?thesis by blast
      qed
    qed
  qed
qed


section \<open>The machine finds the longest match\<close>

definition moves :: "label \<times> lexer \<Rightarrow> label \<times> lexer \<Rightarrow> bool" where
  "moves a b \<longleftrightarrow> fst a \<noteq> Returned \<and> step (fst a) (snd a) = Some (Inr b)"

lemma run_from_moves: "moves\<^sup>*\<^sup>* a b \<Longrightarrow> run_from (fst a) (snd a) = run_from (fst b) (snd b)"
proof (induction rule: converse_rtranclp_induct)
  case (step a b)
  then show ?case
    by (subst run_from.simps) (cases b, simp add: moves_def)
qed simp

text \<open>After the end of the stream was seen nothing is left in it.\<close>

definition pending_ok :: "lexer \<Rightarrow> bool" where
  "pending_ok lx \<longleftrightarrow> (yy_buffer_status lx = YY_BUFFER_EOF_PENDING \<longrightarrow> yyin lx = [])"

text \<open>In the middle of a token: \<open>u\<close> is scanned, \<open>v\<close> is the rest of the buffer.\<close>

definition scanning :: "string \<Rightarrow> lexer \<Rightarrow> string \<Rightarrow> string \<Rightarrow> string \<Rightarrow> bool" where
  "scanning input lx pre u v \<longleftrightarrow>
     yy_ch_buf lx = pre @ u @ v \<and> yy_bp lx = length pre \<and> yy_cp lx = length pre + length u
     \<and> input = u @ v @ yyin lx \<and> pending_ok lx \<and> yy_current_state lx \<noteq> 315
     \<and> (\<exists>la0. previous_loop (yy_start (vars lx)) (length pre) la0 u =
          Some (yy_current_state lx, last_accepting lx))"

definition token_done :: "string \<Rightarrow> lexer \<Rightarrow> lexer \<Rightarrow> bool" where
  "token_done input lx lx' \<longleftrightarrow>
     (let n = snd (token (yy_start (vars lx)) input) in
      yy_act lx' = fst (token (yy_start (vars lx)) input) \<and> yytext lx' = take n input
      \<and> yy_c_buf_p lx' \<le> length (yy_ch_buf lx')
      \<and> drop (yy_c_buf_p lx') (yy_ch_buf lx') @ yyin lx' = drop n input
      \<and> pending_ok lx' \<and> vars lx' = vars lx \<and> yyout lx' = yyout lx)"

lemma find_done:
  assumes "yy_ch_buf lx1 = pre @ w" and "yy_bp lx1 = length pre" and "input = w @ yyin lx1"
    and "found (yy_current_state lx1) (yy_cp lx1) (last_accepting lx1) =
      (fst (token (yy_start (vars lx)) input), length pre + snd (token (yy_start (vars lx)) input))"
    and "snd (token (yy_start (vars lx)) input) \<le> length w"
    and "pending_ok lx1" and "vars lx1 = vars lx" and "yyout lx1 = yyout lx"
  shows "\<exists>lx'. moves\<^sup>*\<^sup>* (Yy_find_action, lx1) (Do_action, lx') \<and> token_done input lx lx'"
proof -
  let ?lx = "if yy_accept ! yy_current_state lx1 = 0 then back_up lx1 else lx1"
  let ?lx' = "?lx\<lparr>yy_act := yy_accept ! yy_current_state ?lx, yytext_ptr := yy_bp ?lx, yy_c_buf_p := yy_cp ?lx\<rparr>"
  have keep: "yy_ch_buf ?lx = pre @ w" "yy_bp ?lx = length pre" "yyin ?lx = yyin lx1" "vars ?lx = vars lx"
    "yyout ?lx = yyout lx" "yy_buffer_status ?lx = yy_buffer_status lx1"
    using assms by (simp_all add: back_up_def)
  have pos: "yy_accept ! yy_current_state ?lx = fst (token (yy_start (vars lx)) input)"
    "yy_cp ?lx = length pre + snd (token (yy_start (vars lx)) input)"
    using assms(4) by (auto simp: found_def back_up_def last_accepting_def split: if_splits)
  have "moves (Yy_find_action, lx1) (Do_action, ?lx')"
    by (simp add: moves_def step_def find_action_step_def Let_def del: if_split)
  moreover have "token_done input lx ?lx'"
    using assms(3,5,6) keep pos
    by (simp add: token_done_def Let_def yytext_def buffer_def pending_ok_def del: if_split)
  ultimately show ?thesis by blast
qed

text \<open>At the end of the buffer, or at a NUL, the action is 71.\<close>

definition at_end :: "lexer \<Rightarrow> nat \<Rightarrow> lexer" where
  "at_end lx k = lx\<lparr>yy_current_state := 23, yy_cp := k, yy_last_accepting_state := 23,
     yy_last_accepting_cpos := k, yy_act := 71, yytext_ptr := yy_bp lx, yy_c_buf_p := k\<rparr>"

lemma reaches_end:
  assumes "match_loop (yy_current_state lx) (yy_cp lx) (last_accepting lx) (drop (yy_cp lx) (buffer lx)) =
    Some (315, cp', (23, k))"
  shows "moves\<^sup>*\<^sup>* (Yy_match, lx) (Do_action, at_end lx k)"
proof -
  let ?lx1 = "set_last (23, k) (lx\<lparr>yy_current_state := 315, yy_cp := cp'\<rparr>)"
  have "moves (Yy_match, lx) (Yy_find_action, ?lx1)"
    using assms by (simp add: moves_def step_def match_step_def)
  moreover have "moves (Yy_find_action, ?lx1) (Do_action, at_end lx k)"
    by (simp add: moves_def step_def find_action_step_def back_up_def set_last_def at_end_def)
  ultimately show ?thesis by (meson converse_rtranclp_into_rtranclp rtranclp.rtrancl_refl)
qed


definition seen :: "lexer \<Rightarrow> lexer" where
  "seen lx = (if yy_buffer_status lx = YY_BUFFER_NEW then lx\<lparr>yy_buffer_status := YY_BUFFER_NORMAL\<rparr> else lx)"

lemma seen_sel [simp]:
  "yy_ch_buf (seen lx) = yy_ch_buf lx" "yy_c_buf_p (seen lx) = yy_c_buf_p lx"
  "yytext_ptr (seen lx) = yytext_ptr lx" "yyin (seen lx) = yyin lx" "yyout (seen lx) = yyout lx"
  "vars (seen lx) = vars lx" "last_accepting (seen lx) = last_accepting lx" "yy_bp (seen lx) = yy_bp lx"
  "yy_cp (seen lx) = yy_cp lx" "pending_ok (seen lx) = pending_ok lx" "yy_n_chars (seen lx) = yy_n_chars lx"
  "yy_buffer_status (seen lx) = YY_BUFFER_EOF_PENDING \<longleftrightarrow> yy_buffer_status lx = YY_BUFFER_EOF_PENDING"
  by (simp_all add: seen_def last_accepting_def pending_ok_def yy_n_chars_def)

lemma at_end_sel [simp]:
  "yy_ch_buf (at_end lx k) = yy_ch_buf lx" "yy_c_buf_p (at_end lx k) = k"
  "yytext_ptr (at_end lx k) = yy_bp lx" "yyin (at_end lx k) = yyin lx" "yyout (at_end lx k) = yyout lx"
  "vars (at_end lx k) = vars lx" "yy_bp (at_end lx k) = yy_bp lx"
  "yy_cp (at_end lx k) = k" "pending_ok (at_end lx k) = pending_ok lx" "yy_act (at_end lx k) = 71"
  "yy_n_chars (at_end lx k) = yy_n_chars lx"
  "yy_buffer_status (at_end lx k) = yy_buffer_status lx"
  by (simp_all add: at_end_def pending_ok_def yy_n_chars_def)

lemma set_last_sel [simp]:
  "yy_ch_buf (set_last l lx) = yy_ch_buf lx" "yy_c_buf_p (set_last l lx) = yy_c_buf_p lx"
  "yytext_ptr (set_last l lx) = yytext_ptr lx" "yyin (set_last l lx) = yyin lx" "yyout (set_last l lx) = yyout lx"
  "vars (set_last l lx) = vars lx" "yy_bp (set_last l lx) = yy_bp lx" "last_accepting (set_last l lx) = l"
  "yy_cp (set_last l lx) = yy_cp lx" "pending_ok (set_last l lx) = pending_ok lx"
  "yy_buffer_status (set_last l lx) = yy_buffer_status lx"
  "yy_current_state (set_last l lx) = yy_current_state lx"
  by (simp_all add: set_last_def pending_ok_def last_accepting_def)

lemma previous_state_is:
  assumes "is_state (yy_start (vars lx))" and "yytext_ptr lx + length w = yy_c_buf_p lx"
    and "yy_ch_buf lx = pre @ w @ z" and "yytext_ptr lx = length pre"
    and "previous_loop (yy_start (vars lx)) (length pre) la w = Some (s, la')"
  shows "\<exists>l. yy_get_previous_state lx = Some (s, set_last l lx)
    \<and> previous_loop (yy_start (vars lx)) (length pre) (last_accepting lx) w = Some (s, l)"
proof -
  from previous_state [OF assms(5)] obtain l where
    "previous_loop (yy_start (vars lx)) (length pre) (last_accepting lx) w = Some (s, l)" by blast
  moreover have "take (yy_c_buf_p lx - yytext_ptr lx) (drop (yytext_ptr lx) (yy_ch_buf lx)) = w"
    using assms(2-4) by (metis add_diff_cancel_left' append_eq_conv_conj)
  ultimately show ?thesis using assms(4) by (cases l) (simp add: yy_get_previous_state_def)
qed

text \<open>A NUL in the text: the scanner makes the transition the match loop could not make.\<close>

lemma nul_step:
  fixes lx :: lexer
  assumes st: "is_start (yy_start (vars lx))" and sc: "scanning input lx pre u v" and v: "v = x @ NUL # y"
    and x: "previous_loop (yy_current_state lx) (yy_cp lx) (last_accepting lx) x = Some (s1, la1)" "s1 \<noteq> 315"
  defines "lxe \<equiv> at_end lx (yy_cp lx + length x + 1)"
  shows "(\<exists>lx2. moves (Do_action, lxe) (Yy_match, lx2) \<and> scanning input lx2 pre (u @ x @ [NUL]) y
      \<and> vars lx2 = vars lx \<and> yyout lx2 = yyout lx \<and> yyin lx2 = yyin lx)
    \<or> (\<exists>lx2. moves (Do_action, lxe) (Yy_find_action, lx2) \<and> yy_ch_buf lx2 = pre @ (u @ v) \<and> yy_bp lx2 = length pre
      \<and> found (yy_current_state lx2) (yy_cp lx2) (last_accepting lx2) =
          (fst (token (yy_start (vars lx)) input), length pre + snd (token (yy_start (vars lx)) input))
      \<and> snd (token (yy_start (vars lx)) input) \<le> length (u @ v)
      \<and> pending_ok lx2 \<and> vars lx2 = vars lx \<and> yyout lx2 = yyout lx \<and> yyin lx2 = yyin lx)"
proof -
  let ?s = "yy_start (vars lx)" and ?q = "length pre + length (u @ x)"
  have b: "yy_ch_buf lx = pre @ (u @ x) @ NUL # y" "yy_bp lx = length pre" "yy_cp lx = length pre + length u"
    "input = (u @ x) @ NUL # y @ yyin lx" "pending_ok lx"
    using sc v by (simp_all add: scanning_def)
  have s: "is_state ?s" "?s \<noteq> 23" using is_startD [OF st] by blast+
  obtain la0 where "previous_loop ?s (length pre) la0 u = Some (yy_current_state lx, last_accepting lx)"
    using sc by (auto simp: scanning_def)
  from previous_append [OF this, of x] x(1) b(3)
  have ux: "previous_loop ?s (length pre) la0 (u @ x) = Some (s1, la1)" by simp
  define lx0 where "lx0 = (seen lxe)\<lparr>yy_c_buf_p := ?q\<rparr>"
  have "\<exists>l. yy_get_previous_state lx0 = Some (s1, set_last l lx0)
      \<and> previous_loop ?s (length pre) (last_accepting lx0) (u @ x) = Some (s1, l)"
    using previous_state_is [of lx0 "u @ x" pre "NUL # y" la0 s1 la1] s b ux
    by (simp add: lx0_def lxe_def)
  then obtain l where prev: "yy_get_previous_state lx0 = Some (s1, set_last l lx0)"
    and l: "previous_loop ?s (length pre) (last_accepting lx0) (u @ x) = Some (s1, l)" by blast
  have s1: "is_state s1" "s1 \<noteq> 23" using previous_total [OF s] l by (metis option.inject prod.inject)+
  let ?l' = "if yy_accept ! s1 \<noteq> 0 then (s1, ?q) else l"
  have nx: "yy_next s1 1 = Some (nx s1 NUL)" using nx_next [OF s1(1), of NUL] by (simp add: ec1_def)
  have l': "previous_loop ?s (length pre) (last_accepting lx0) (u @ x @ [NUL]) = Some (nx s1 NUL, ?l')"
    using previous_append [OF l, of "[NUL]"] nx by (simp add: ec1_def Let_def)
  have tr: "yy_try_NUL_trans s1 (set_last l lx0) = Some (if nx s1 NUL = 315 then 0 else nx s1 NUL, set_last ?l' lx0)"
    using nx by (simp add: yy_try_NUL_trans_def Let_def lx0_def set_last_def)
  have cond: "yy_c_buf_p (seen lxe) \<le> yy_n_chars (seen lxe)"
    using b by (simp add: lxe_def yy_n_chars_def)
  have amount: "yytext_ptr (seen lxe) + (yy_cp lxe - yytext_ptr lxe - 1) = ?q"
    using b by (simp add: lxe_def)
  let ?lx3 = "(set_last ?l' lx0)\<lparr>yy_bp := yytext_ptr (set_last ?l' lx0)\<rparr>"
  have stp: "end_of_buffer_step lxe =
      (if nx s1 NUL = 315
       then Some (Inr (Yy_find_action, ?lx3\<lparr>yy_cp := ?q, yy_current_state := s1\<rparr>))
       else Some (Inr (Yy_match, ?lx3\<lparr>yy_c_buf_p := ?q + 1, yy_cp := ?q + 1, yy_current_state := nx s1 NUL\<rparr>)))"
    unfolding end_of_buffer_step_def Let_def seen_def [symmetric] amount lx0_def [symmetric] prev
    using cond nx_next [OF s1(1), of NUL]
    by (simp add: tr is_state_def) (simp add: lx0_def)
  have mv: "moves (Do_action, lxe) c \<longleftrightarrow> end_of_buffer_step lxe = Some (Inr c)" for c
    by (simp add: moves_def step_def do_action_step_def lxe_def)
  show ?thesis
  proof (cases "nx s1 NUL = 315")
    case False
    let ?lx2 = "?lx3\<lparr>yy_c_buf_p := ?q + 1, yy_cp := ?q + 1, yy_current_state := nx s1 NUL\<rparr>"
    have "last_accepting ?lx2 = ?l'" by (simp add: last_accepting_def set_last_def)
    moreover have "\<exists>la0. previous_loop ?s (length pre) la0 (u @ x @ [NUL]) = Some (nx s1 NUL, ?l')"
      using l' by blast
    ultimately have "scanning input ?lx2 pre (u @ x @ [NUL]) y"
      using b False by (simp add: scanning_def lx0_def lxe_def pending_ok_def del: split_paired_Ex)
    then show ?thesis using stp False mv by (auto simp: lx0_def lxe_def)
  next
    case True
    let ?lx2 = "?lx3\<lparr>yy_cp := ?q, yy_current_state := s1\<rparr>"
    have la2: "last_accepting ?lx2 = ?l'" by (simp add: last_accepting_def set_last_def)
    have f: "found s1 ?q (last_accepting ?lx2) =
        (fst (token ?s ((u @ x) @ NUL # z)), length pre + snd (token ?s ((u @ x) @ NUL # z)))" for z
    proof -
      have "found s1 ?q ?l' = longest s1 ?q l (NUL # z)" using True by (simp add: found_def Let_def)
      also have "\<dots> = longest ?s (length pre) (last_accepting lx0) ((u @ x) @ NUL # z)"
        using previous_longest [OF s(1) l x(2), of "NUL # z"] by simp
      also have "\<dots> = (fst (token ?s ((u @ x) @ NUL # z)), length pre + snd (token ?s ((u @ x) @ NUL # z)))"
        by (rule token_longest [OF st]) simp
      finally show ?thesis unfolding la2 .
    qed
    from f [of "y @ yyin lx"] f [of y] have "snd (token ?s input) = snd (token ?s (u @ v))"
      using b(4) v by (simp del: prod.inject) (metis add_left_cancel prod.inject)
    with token_bounds(3) [OF st, of "u @ v"] v have "snd (token ?s input) \<le> length (u @ v)" by simp
    with f [of "y @ yyin lx"] b v stp True mv show ?thesis
      by (intro disjI2 exI [where x = ?lx2]) (simp add: lx0_def lxe_def pending_ok_def)
  qed
qed


text \<open>The end of the buffer: what \<open>yy_get_next_buffer\<close> does to a lexer whose token starts with \<open>w\<close>.\<close>

definition refilled :: "lexer \<Rightarrow> string \<Rightarrow> eob_act \<times> lexer" where
  "refilled lx w =
     (case (if yy_buffer_status lx = YY_BUFFER_EOF_PENDING then [] else yyin lx) of
        [] \<Rightarrow>
          (let lx1 = (if yy_buffer_status lx = YY_BUFFER_EOF_PENDING then lx
                      else lx\<lparr>yy_buf_size := grow (length w) (yy_buf_size lx)\<rparr>) in
           if w = [] then (EOB_ACT_END_OF_FILE, (yyrestart lx1)\<lparr>yy_ch_buf := [], yytext_ptr := 0\<rparr>)
           else (EOB_ACT_LAST_MATCH,
                 lx1\<lparr>yy_buffer_status := YY_BUFFER_EOF_PENDING, yy_ch_buf := w, yytext_ptr := 0\<rparr>))
      | c # cs \<Rightarrow> (EOB_ACT_CONTINUE_SCAN,
          lx\<lparr>yy_buf_size := grow (length w) (yy_buf_size lx), yyin := cs, yy_ch_buf := w @ [c], yytext_ptr := 0\<rparr>))"

lemma next_buffer:
  assumes "yy_ch_buf lx = pre @ w" and "yytext_ptr lx = length pre" and "yy_c_buf_p lx = length pre + length w + 1"
  shows "yy_get_next_buffer lx = Inr (refilled lx w)"
proof -
  have "yy_c_buf_p lx - yytext_ptr lx - 1 = length w" and "\<not> yy_c_buf_p lx > yy_n_chars lx + 1"
    using assms by (simp_all add: yy_n_chars_def)
  moreover have "take (length w) (drop (yytext_ptr lx) (yy_ch_buf lx)) = w" using assms by simp
  ultimately show ?thesis
    by (simp add: yy_get_next_buffer_def refilled_def LexerInput_def Let_def split: list.split)
qed

lemma eob_facts:
  assumes "is_start (yy_start (vars lx))" and "scanning input lx pre u v"
    and "previous_loop (yy_current_state lx) (yy_cp lx) (last_accepting lx) v = Some (s1, la1)"
  defines "lxe \<equiv> at_end lx (yy_cp lx + length v + 1)"
  shows "yy_get_next_buffer (seen lxe) = Inr (refilled (seen lxe) (u @ v))"
    and "yy_cp lxe - yytext_ptr lxe - 1 = length (u @ v)"
    and "\<not> yy_c_buf_p (seen lxe) \<le> yy_n_chars (seen lxe)"
    and "\<exists>la0 la1. previous_loop (yy_start (vars lx)) 0 la0 (u @ v) = Some (s1, la1)"
proof -
  let ?s = "yy_start (vars lx)"
  have b: "yy_ch_buf lx = pre @ (u @ v)" "yy_bp lx = length pre" "yy_cp lx = length pre + length u"
    using assms(2) by (simp_all add: scanning_def)
  show "yy_get_next_buffer (seen lxe) = Inr (refilled (seen lxe) (u @ v))"
    by (rule next_buffer [where pre = pre]) (use b in \<open>simp_all add: lxe_def\<close>)
  show "yy_cp lxe - yytext_ptr lxe - 1 = length (u @ v)" using b by (simp add: lxe_def)
  show "\<not> yy_c_buf_p (seen lxe) \<le> yy_n_chars (seen lxe)" using b by (simp add: lxe_def yy_n_chars_def)
  obtain la0 where "previous_loop ?s (length pre) la0 u = Some (yy_current_state lx, last_accepting lx)"
    using assms(2) by (auto simp: scanning_def)
  from previous_append [OF this, of v] assms(3) b(3)
  have "previous_loop ?s (length pre) la0 (u @ v) = Some (s1, la1)" by simp
  from previous_state [OF this, of 0 "(0, 0)"]
  show "\<exists>la0 la1. previous_loop ?s 0 la0 (u @ v) = Some (s1, la1)" by blast
qed

lemma eob_previous:
  assumes "is_start (yy_start (vars lx))" and "\<exists>la0 la1. previous_loop (yy_start (vars lx)) 0 la0 w = Some (s1, la1)"
    and "yy_ch_buf lx = w @ z" and "yytext_ptr lx = 0" and "yy_c_buf_p lx = length w"
  shows "\<exists>l. yy_get_previous_state lx = Some (s1, set_last l lx)
    \<and> previous_loop (yy_start (vars lx)) 0 (last_accepting lx) w = Some (s1, l)"
proof -
  obtain la0 la1 where "previous_loop (yy_start (vars lx)) (length ([] :: string)) la0 w = Some (s1, la1)"
    using assms(2) by auto
  with previous_state_is [of lx w "[]" z la0 s1 la1] is_startD [OF assms(1)] assms(3-5) show ?thesis by simp
qed

lemma eob_continue:
  assumes "is_start (yy_start (vars lx))" and "scanning input lx pre u v"
    and "previous_loop (yy_current_state lx) (yy_cp lx) (last_accepting lx) v = Some (s1, la1)" and "s1 \<noteq> 315"
    and "yyin lx = c # cs"
  shows "\<exists>lx2. moves (Do_action, at_end lx (yy_cp lx + length v + 1)) (Yy_match, lx2)
    \<and> scanning input lx2 [] (u @ v) [c] \<and> vars lx2 = vars lx \<and> yyout lx2 = yyout lx \<and> yyin lx2 = cs"
proof -
  let ?e = "at_end lx (yy_cp lx + length v + 1)" let ?s = "yy_start (vars lx)"
  note f = eob_facts [OF assms(1-3)]
  have np: "yy_buffer_status lx \<noteq> YY_BUFFER_EOF_PENDING"
    using assms(2,5) by (auto simp: scanning_def pending_ok_def)
  define lx1 where "lx1 = (seen ?e)\<lparr>yy_buf_size := grow (length (u @ v)) (yy_buf_size (seen ?e)), yyin := cs,
    yy_ch_buf := (u @ v) @ [c], yytext_ptr := 0, yy_c_buf_p := 0 + length (u @ v)\<rparr>"
  have r: "refilled (seen ?e) (u @ v) = (EOB_ACT_CONTINUE_SCAN, (seen ?e)\<lparr>yy_buf_size := grow (length (u @ v))
      (yy_buf_size (seen ?e)), yyin := cs, yy_ch_buf := (u @ v) @ [c], yytext_ptr := 0\<rparr>)"
    using np assms(5) by (simp add: refilled_def)
  have "\<exists>l. yy_get_previous_state lx1 = Some (s1, set_last l lx1)
      \<and> previous_loop (yy_start (vars lx1)) 0 (last_accepting lx1) (u @ v) = Some (s1, l)"
    by (rule eob_previous [where z = "[c]"]) (use assms(1) f(4) in \<open>simp_all add: lx1_def\<close>)
  then obtain l where l: "yy_get_previous_state lx1 = Some (s1, set_last l lx1)"
    "previous_loop ?s 0 (last_accepting lx1) (u @ v) = Some (s1, l)" by (auto simp: lx1_def)
  let ?lx2 = "(set_last l lx1)\<lparr>yy_current_state := s1, yy_cp := length (u @ v), yy_bp := 0\<rparr>"
  have "end_of_buffer_step ?e = Some (Inr (Yy_match, ?lx2))"
    unfolding end_of_buffer_step_def Let_def seen_def [symmetric] if_not_P [OF f(3)] f(1,2) r
    using l(1) by (simp add: lx1_def)
  then have "moves (Do_action, ?e) (Yy_match, ?lx2)" by (simp add: moves_def step_def do_action_step_def)
  moreover have "scanning input ?lx2 [] (u @ v) [c]"
  proof -
    have "last_accepting ?lx2 = l" by (simp add: last_accepting_def set_last_def)
    moreover have "\<exists>la0. previous_loop ?s 0 la0 (u @ v) = Some (s1, l)" using l(2) by blast
    ultimately show ?thesis
      using assms(2,4,5) np by (auto simp: scanning_def lx1_def pending_ok_def simp del: split_paired_Ex)
  qed
  ultimately show ?thesis by (intro exI [where x = ?lx2]) (simp add: lx1_def)
qed


lemma eob_last_match:
  assumes st: "is_start (yy_start (vars lx))" and sc: "scanning input lx pre u v"
    and v: "previous_loop (yy_current_state lx) (yy_cp lx) (last_accepting lx) v = Some (s1, la1)" "s1 \<noteq> 315"
    and "yyin lx = []" and "input \<noteq> []"
  shows "\<exists>lx2. moves (Do_action, at_end lx (yy_cp lx + length v + 1)) (Yy_find_action, lx2)
    \<and> yy_ch_buf lx2 = [] @ input \<and> yy_bp lx2 = length ([] :: string)
    \<and> found (yy_current_state lx2) (yy_cp lx2) (last_accepting lx2) =
        (fst (token (yy_start (vars lx)) input), length ([] :: string) + snd (token (yy_start (vars lx)) input))
    \<and> snd (token (yy_start (vars lx)) input) \<le> length input
    \<and> pending_ok lx2 \<and> vars lx2 = vars lx \<and> yyout lx2 = yyout lx \<and> yyin lx2 = []"
proof -
  let ?e = "at_end lx (yy_cp lx + length v + 1)" let ?s = "yy_start (vars lx)"
  note f = eob_facts [OF st sc v(1)]
  have uv: "u @ v = input" using sc assms(5) by (simp add: scanning_def)
  let ?x = "if yy_buffer_status lx = YY_BUFFER_EOF_PENDING then seen ?e
    else (seen ?e)\<lparr>yy_buf_size := grow (length (u @ v)) (yy_buf_size (seen ?e))\<rparr>"
  define lx0 where "lx0 = ?x\<lparr>yy_buffer_status := YY_BUFFER_EOF_PENDING, yy_ch_buf := u @ v, yytext_ptr := 0\<rparr>"
  define lx1 where "lx1 = lx0\<lparr>yy_c_buf_p := length (u @ v)\<rparr>"
  have r: "refilled (seen ?e) (u @ v) = (EOB_ACT_LAST_MATCH, lx0)"
    using assms(5,6) uv by (simp add: refilled_def Let_def lx0_def del: if_split)
  have sel: "yyin lx0 = []" "vars lx0 = vars lx" "yyout lx0 = yyout lx" "yy_n_chars lx0 = length (u @ v)"
    "yytext_ptr lx0 = 0" "yy_buffer_status lx0 = YY_BUFFER_EOF_PENDING" "yy_ch_buf lx0 = u @ v"
    using assms(5) by (simp_all add: lx0_def yy_n_chars_def)
  have "\<exists>l. yy_get_previous_state lx1 = Some (s1, set_last l lx1)
      \<and> previous_loop (yy_start (vars lx1)) 0 (last_accepting lx1) (u @ v) = Some (s1, l)"
    by (rule eob_previous [where z = "[]"]) (use st f(4) sel in \<open>simp_all add: lx1_def\<close>)
  then obtain l where l: "yy_get_previous_state lx1 = Some (s1, set_last l lx1)"
    "previous_loop ?s 0 (last_accepting lx1) (u @ v) = Some (s1, l)" using sel by (auto simp: lx1_def)
  let ?lx2 = "(set_last l lx1)\<lparr>yy_current_state := s1, yy_cp := length (u @ v), yy_bp := 0\<rparr>"
  have "end_of_buffer_step ?e = Some (Inr (Yy_find_action, ?lx2))"
    unfolding end_of_buffer_step_def Let_def seen_def [symmetric] if_not_P [OF f(3)] f(1,2) r
    using l(1) sel by (simp add: lx1_def)
  then have "moves (Do_action, ?e) (Yy_find_action, ?lx2)" by (simp add: moves_def step_def do_action_step_def)
  moreover have la: "last_accepting ?lx2 = l" by (simp add: last_accepting_def set_last_def)
  have "found s1 (length (u @ v)) l = longest ?s 0 (last_accepting lx1) ((u @ v) @ [])"
    using previous_longest [OF _ l(2) v(2), of "[]"] is_startD [OF st] by (simp add: found_def)
  then have "found s1 (length (u @ v)) (last_accepting ?lx2) = (fst (token ?s input), snd (token ?s input))"
    unfolding la using token_longest [OF st assms(6), of 0 "last_accepting lx1"] uv by simp
  ultimately show ?thesis
    using token_bounds(3) [OF st assms(6)] uv sel
    by (intro exI [where x = ?lx2]) (simp add: lx1_def pending_ok_def)
qed

lemma eob_end:
  assumes "is_start (yy_start (vars lx))" and sc: "scanning [] lx pre u v"
  shows "\<exists>lx2. moves\<^sup>*\<^sup>* (Do_action, at_end lx (yy_cp lx + length v + 1)) (Returned, lx2)
    \<and> vars lx2 = vars lx \<and> yyout lx2 = yyout lx"
proof -
  let ?e = "at_end lx (yy_cp lx + length v + 1)"
  have uv: "u = []" "v = []" "yyin lx = []" using sc by (simp_all add: scanning_def)
  then have "previous_loop (yy_current_state lx) (yy_cp lx) (last_accepting lx) v =
      Some (yy_current_state lx, last_accepting lx)" by simp
  note f = eob_facts [OF assms(1) sc this]
  have "\<exists>lx0. refilled (seen ?e) (u @ v) = (EOB_ACT_END_OF_FILE, lx0) \<and> vars lx0 = vars lx \<and> yyout lx0 = yyout lx"
    by (cases "yy_buffer_status lx = YY_BUFFER_EOF_PENDING")
      (use uv in \<open>simp_all add: refilled_def Let_def yyrestart_def yy_flush_buffer_def\<close>)
  then obtain lx0 where r: "refilled (seen ?e) (u @ v) = (EOB_ACT_END_OF_FILE, lx0)"
    and sel: "vars lx0 = vars lx" "yyout lx0 = yyout lx" by blast
  let ?lx2 = "lx0\<lparr>yy_c_buf_p := yytext_ptr lx0, yy_act := 72 + YY_START (vars lx0)\<rparr>"
  have "end_of_buffer_step ?e = Some (Inr (Do_action, ?lx2))"
    unfolding end_of_buffer_step_def Let_def seen_def [symmetric] if_not_P [OF f(3)] f(1,2) r by simp
  then have "moves (Do_action, ?e) (Do_action, ?lx2)" by (simp add: moves_def step_def do_action_step_def)
  moreover have "YY_START (vars lx0) \<le> 10" using assms(1) sel by (auto simp: is_start_def YY_START_def)
  then have "moves (Do_action, ?lx2) (Returned, ?lx2)"
    by (simp add: moves_def step_def do_action_step_def)
  ultimately show ?thesis using sel
    by (intro exI [where x = ?lx2]) (simp add: converse_rtranclp_into_rtranclp)
qed

lemma split_inside: "v @ w = x @ c # y \<Longrightarrow> length x < length v \<Longrightarrow> \<exists>y'. v = x @ c # y'"
proof (induction x arbitrary: v)
  case Nil
  then show ?case by (cases v) auto
next
  case (Cons d x)
  then show ?case by (cases v) auto
qed

lemma scan_token:
  "is_start (yy_start (vars lx)) \<Longrightarrow> scanning input lx pre u v \<Longrightarrow> input \<noteq> [] \<Longrightarrow>
    \<exists>lx'. moves\<^sup>*\<^sup>* (Yy_match, lx) (Do_action, lx') \<and> token_done input lx lx'"
proof (induction "2 * length (yyin lx) + length v" arbitrary: lx pre u v rule: less_induct)
  case less
  let ?s = "yy_start (vars lx)" and ?cs = "yy_current_state lx" and ?la = "last_accepting lx"
  note st = less.prems(1) and sc = less.prems(2)
  have b: "yy_ch_buf lx = pre @ (u @ v)" "yy_bp lx = length pre" "yy_cp lx = length pre + length u"
    "input = (u @ v) @ yyin lx" "pending_ok lx" "?cs \<noteq> 315"
    using sc by (simp_all add: scanning_def)
  obtain la0 where u: "previous_loop ?s (length pre) la0 u = Some (?cs, ?la)"
    using sc by (auto simp: scanning_def)
  note s = is_startD [OF st]
  have cs: "is_state ?cs" "?cs \<noteq> 23" using previous_total [of ?s "length pre" la0 u] u s by auto
  have buf: "drop (yy_cp lx) (buffer lx) = v @ [NUL, NUL]" using b by (simp add: buffer_def)
  have same: "token_done input lx1 lx' \<Longrightarrow> vars lx1 = vars lx \<Longrightarrow> yyout lx1 = yyout lx \<Longrightarrow> token_done input lx lx'"
    for lx1 lx' by (simp add: token_done_def)
  from match_loop_cases [OF cs b(6), of "yy_cp lx" ?la v] obtain t cp' la' where
    m: "match_loop ?cs (yy_cp lx) ?la (v @ [NUL, NUL]) = Some (t, cp', la')" and
    c: "(v \<noteq> [] \<and> (\<forall>z. found t cp' la' = longest ?cs (yy_cp lx) ?la (v @ z))) \<or>
     (t = 315 \<and> (\<exists>x y s1 la1. v @ [NUL, NUL] = x @ NUL # y \<and> length x \<le> length v
       \<and> previous_loop ?cs (yy_cp lx) ?la x = Some (s1, la1) \<and> s1 \<noteq> 315 \<and> la' = (23, yy_cp lx + length x + 1)))"
    by blast
  from c show ?case
  proof
    assume stop: "v \<noteq> [] \<and> (\<forall>z. found t cp' la' = longest ?cs (yy_cp lx) ?la (v @ z))"
    let ?lx1 = "set_last la' (lx\<lparr>yy_current_state := t, yy_cp := cp'\<rparr>)"
    have mv: "moves (Yy_match, lx) (Yy_find_action, ?lx1)"
      using m buf by (simp add: moves_def step_def match_step_def)
    have f: "found t cp' la' = (fst (token ?s ((u @ v) @ z)), length pre + snd (token ?s ((u @ v) @ z)))" for z
    proof -
      have "found t cp' la' = longest ?s (length pre) la0 (u @ v @ z)"
        using stop previous_longest [OF _ u b(6), of "v @ z"] s b(3) by simp
      also have "\<dots> = (fst (token ?s (u @ v @ z)), length pre + snd (token ?s (u @ v @ z)))"
        by (rule token_longest [OF st]) (use stop in simp)
      finally show ?thesis by simp
    qed
    have "snd (token ?s input) = snd (token ?s (u @ v))"
      using f [of "yyin lx"] f [of "[]"] b(4) by simp
    then have "snd (token ?s input) \<le> length (u @ v)"
      using token_bounds(3) [OF st, of "u @ v"] stop by simp
    moreover have "found (yy_current_state ?lx1) (yy_cp ?lx1) (last_accepting ?lx1) =
        (fst (token ?s input), length pre + snd (token ?s input))"
      using f [of "yyin lx"] b(4) by (simp add: last_accepting_def set_last_def)
    ultimately obtain lx' where "moves\<^sup>*\<^sup>* (Yy_find_action, ?lx1) (Do_action, lx')" "token_done input lx lx'"
      using find_done [of ?lx1 pre "u @ v" input lx] b by (auto simp: pending_ok_def)
    with mv show ?thesis by (meson converse_rtranclp_into_rtranclp)
  next
    assume "t = 315 \<and> (\<exists>x y s1 la1. v @ [NUL, NUL] = x @ NUL # y \<and> length x \<le> length v
       \<and> previous_loop ?cs (yy_cp lx) ?la x = Some (s1, la1) \<and> s1 \<noteq> 315 \<and> la' = (23, yy_cp lx + length x + 1))"
    then obtain x y s1 la1 where x: "v @ [NUL, NUL] = x @ NUL # y" "length x \<le> length v"
      "previous_loop ?cs (yy_cp lx) ?la x = Some (s1, la1)" "s1 \<noteq> 315"
      and t: "t = 315" "la' = (23, yy_cp lx + length x + 1)" by blast
    have e: "moves\<^sup>*\<^sup>* (Yy_match, lx) (Do_action, at_end lx (yy_cp lx + length x + 1))"
      using m buf t by (intro reaches_end) simp
    show ?thesis
    proof (cases "length x = length v")
      case True
      with x(1) have xv: "x = v" by (metis append_eq_append_conv)
      show ?thesis
      proof (cases "yyin lx")
        case Nil
        from eob_last_match [OF st sc x(3) [unfolded xv] x(4) Nil less.prems(3)] obtain lx2 where
          mv: "moves (Do_action, at_end lx (yy_cp lx + length v + 1)) (Yy_find_action, lx2)" and
          p: "yy_ch_buf lx2 = [] @ input" "yy_bp lx2 = length ([] :: string)"
            "found (yy_current_state lx2) (yy_cp lx2) (last_accepting lx2) =
              (fst (token ?s input), length ([] :: string) + snd (token ?s input))"
            "snd (token ?s input) \<le> length input" "pending_ok lx2" "vars lx2 = vars lx" "yyout lx2 = yyout lx"
            "yyin lx2 = []" by blast
        from find_done [OF p(1,2) _ p(3,4,5,6,7)] p(8) obtain lx' where
          "moves\<^sup>*\<^sup>* (Yy_find_action, lx2) (Do_action, lx')" "token_done input lx lx'" by auto
        with e mv xv show ?thesis by (metis converse_rtranclp_into_rtranclp rtranclp_trans)
      next
        case (Cons c cs)
        from eob_continue [OF st sc x(3) [unfolded xv] x(4) Cons] obtain lx2 where
          mv: "moves (Do_action, at_end lx (yy_cp lx + length v + 1)) (Yy_match, lx2)" and
          p: "scanning input lx2 [] (u @ v) [c]" "vars lx2 = vars lx" "yyout lx2 = yyout lx" "yyin lx2 = cs"
          by blast
        have "2 * length (yyin lx2) + length [c] < 2 * length (yyin lx) + length v" using p(4) Cons by simp
        from less.hyps [OF this _ p(1) less.prems(3)] st p(2) obtain lx' where
          "moves\<^sup>*\<^sup>* (Yy_match, lx2) (Do_action, lx')" "token_done input lx2 lx'" by auto
        with e mv xv same [OF _ p(2,3)] show ?thesis
          by (metis converse_rtranclp_into_rtranclp rtranclp_trans)
      qed
    next
      case False
      with x(2) have "length x < length v" by simp
      from split_inside [OF x(1) this] obtain y' where v: "v = x @ NUL # y'" by blast
      from nul_step [OF st sc v x(3,4)] show ?thesis
      proof (elim disjE exE conjE)
        fix lx2 assume mv: "moves (Do_action, at_end lx (yy_cp lx + length x + 1)) (Yy_match, lx2)"
          and p: "scanning input lx2 pre (u @ x @ [NUL]) y'" "vars lx2 = vars lx" "yyout lx2 = yyout lx"
            "yyin lx2 = yyin lx"
        have "2 * length (yyin lx2) + length y' < 2 * length (yyin lx) + length v" using p(4) v by simp
        from less.hyps [OF this _ p(1) less.prems(3)] st p(2) obtain lx' where
          "moves\<^sup>*\<^sup>* (Yy_match, lx2) (Do_action, lx')" "token_done input lx2 lx'" by auto
        with e mv same [OF _ p(2,3)] show ?thesis
          by (metis converse_rtranclp_into_rtranclp rtranclp_trans)
      next
        fix lx2 assume mv: "moves (Do_action, at_end lx (yy_cp lx + length x + 1)) (Yy_find_action, lx2)"
          and p: "yy_ch_buf lx2 = pre @ u @ v" "yy_bp lx2 = length pre"
            "found (yy_current_state lx2) (yy_cp lx2) (last_accepting lx2) =
              (fst (token ?s input), length pre + snd (token ?s input))"
            "snd (token ?s input) \<le> length (u @ v)" "pending_ok lx2" "vars lx2 = vars lx" "yyout lx2 = yyout lx"
            "yyin lx2 = yyin lx"
        from find_done [OF p(1,2) _ p(3,4,5,6,7)] p(8) b(4) obtain lx' where
          "moves\<^sup>*\<^sup>* (Yy_find_action, lx2) (Do_action, lx')" "token_done input lx lx'" by auto
        with e mv show ?thesis by (metis converse_rtranclp_into_rtranclp rtranclp_trans)
      qed
    qed
  qed
qed


section \<open>The whole input\<close>

definition at_token :: "string \<Rightarrow> lexer \<Rightarrow> bool" where
  "at_token input lx \<longleftrightarrow> yy_c_buf_p lx \<le> length (yy_ch_buf lx)
     \<and> drop (yy_c_buf_p lx) (yy_ch_buf lx) @ yyin lx = input \<and> pending_ok lx"

lemma at_token_starts:
  assumes "at_token input lx" and "is_start (yy_start (vars lx))"
  defines "lx0 \<equiv> lx\<lparr>yy_cp := yy_c_buf_p lx, yy_bp := yy_c_buf_p lx, yy_current_state := yy_start (vars lx)\<rparr>"
  shows "moves (Next_token, lx) (Yy_match, lx0)"
    and "scanning input lx0 (take (yy_c_buf_p lx) (yy_ch_buf lx)) [] (drop (yy_c_buf_p lx) (yy_ch_buf lx))"
proof -
  show "moves (Next_token, lx) (Yy_match, lx0)"
    by (simp add: moves_def step_def next_token_step_def lx0_def)
  have "last_accepting lx0 = last_accepting lx" by (simp add: lx0_def last_accepting_def)
  then show "scanning input lx0 (take (yy_c_buf_p lx) (yy_ch_buf lx)) [] (drop (yy_c_buf_p lx) (yy_ch_buf lx))"
    using assms(1) is_startD [OF assms(2)]
    by (auto simp: at_token_def scanning_def lx0_def pending_ok_def last_accepting_def)
qed

lemma start_ok_is_start: "start_ok g \<Longrightarrow> is_start (yy_start g)"
  by (simp add: start_ok_def is_start_def)

lemma at_token_empty:
  assumes "at_token [] lx" and "is_start (yy_start (vars lx))"
  shows "\<exists>lx'. run_from Next_token lx = Some (Inr lx') \<and> vars lx' = vars lx \<and> yyout lx' = yyout lx"
proof -
  let ?lx0 = "lx\<lparr>yy_cp := yy_c_buf_p lx, yy_bp := yy_c_buf_p lx, yy_current_state := yy_start (vars lx)\<rparr>"
  note start = at_token_starts [OF assms]
  have v: "drop (yy_c_buf_p lx) (yy_ch_buf lx) = []" using assms(1) by (simp add: at_token_def)
  have buf: "drop (yy_cp ?lx0) (buffer ?lx0) = [] @ [NUL, NUL]"
    using assms(1) by (simp add: at_token_def buffer_def)
  from match_loop_cases [of "yy_start (vars lx)" "yy_cp ?lx0" "last_accepting ?lx0" "[]"] is_startD [OF assms(2)]
  obtain cp' where "match_loop (yy_current_state ?lx0) (yy_cp ?lx0) (last_accepting ?lx0)
      (drop (yy_cp ?lx0) (buffer ?lx0)) = Some (315, cp', (23, yy_cp ?lx0 + length ([] :: string) + 1))"
    unfolding buf by auto
  from reaches_end [OF this]
  have "moves\<^sup>*\<^sup>* (Yy_match, ?lx0) (Do_action, at_end ?lx0 (yy_cp ?lx0 + length ([] :: string) + 1))" .
  moreover obtain lx2 where
    "moves\<^sup>*\<^sup>* (Do_action, at_end ?lx0 (yy_cp ?lx0 + length ([] :: string) + 1)) (Returned, lx2)"
    "vars lx2 = vars lx" "yyout lx2 = yyout lx"
    using eob_end [OF _ start(2) [unfolded v]] assms(2) by auto
  moreover have "run_from Returned lx2 = Some (Inr lx2)" by (simp add: run_from.simps)
  ultimately show ?thesis
    using run_from_moves [of "(Next_token, lx)" "(Returned, lx2)"] start(1)
    by (auto intro: converse_rtranclp_into_rtranclp rtranclp_trans)
qed

lemma run_action:
  assumes "token_done input lx lx'" and "is_start (yy_start (vars lx))" and "input \<noteq> []"
  defines "act \<equiv> fst (token (yy_start (vars lx)) input)" and "n \<equiv> snd (token (yy_start (vars lx)) input)"
  shows "act = 70 \<Longrightarrow> \<exists>lx2. run_from Do_action lx' = run_from Next_token lx2 \<and> at_token (drop n input) lx2
      \<and> vars lx2 = vars lx \<and> yyout lx2 = yyout lx @ take n input"
    and "act \<noteq> 70 \<Longrightarrow> action act (take n input) (vars lx) = Inl e \<Longrightarrow> run_from Do_action lx' = Some (Inl e)"
    and "act \<noteq> 70 \<Longrightarrow> action act (take n input) (vars lx) = Inr g \<Longrightarrow>
      \<exists>lx2. run_from Do_action lx' = run_from Next_token lx2 \<and> at_token (drop n input) lx2
      \<and> vars lx2 = g \<and> yyout lx2 = yyout lx"
proof -
  have d: "yy_act lx' = act" "yytext lx' = take n input" "vars lx' = vars lx" "yyout lx' = yyout lx"
    "at_token (drop n input) lx'"
    using assms(1) by (auto simp: token_done_def Let_def act_def n_def at_token_def)
  have r: "1 \<le> act" "act \<le> 70" using token_bounds(1) [OF assms(2,3)] by (simp_all add: rule_def act_def)
  have keep: "at_token w (lx'\<lparr>vars := g\<rparr>) = at_token w lx'" "at_token w (lx'\<lparr>yyout := out\<rparr>) = at_token w lx'"
    for w g out by (simp_all add: at_token_def pending_ok_def)
  show "\<exists>lx2. run_from Do_action lx' = run_from Next_token lx2 \<and> at_token (drop n input) lx2
      \<and> vars lx2 = vars lx \<and> yyout lx2 = yyout lx @ take n input" if "act = 70"
    using d keep that by (subst run_from.simps)
      (intro exI [where x = "lx'\<lparr>yyout := yyout lx @ take n input\<rparr>"], simp add: step_def do_action_step_def)
  show "action act (take n input) (vars lx) = Inl e \<Longrightarrow> run_from Do_action lx' = Some (Inl e)" if "act \<noteq> 70"
    using d r that by (subst run_from.simps) (simp add: step_def do_action_step_def)
  show "action act (take n input) (vars lx) = Inr g \<Longrightarrow>
      \<exists>lx2. run_from Do_action lx' = run_from Next_token lx2 \<and> at_token (drop n input) lx2
      \<and> vars lx2 = g \<and> yyout lx2 = yyout lx" if "act \<noteq> 70"
    using d r keep that by (subst run_from.simps)
      (intro exI [where x = "lx'\<lparr>vars := g\<rparr>"], simp add: step_def do_action_step_def)
qed

definition agrees :: "(parser \<times> string) run \<Rightarrow> lexer run \<Rightarrow> bool" where
  "agrees r l \<longleftrightarrow> (case r of
       None \<Rightarrow> False
     | Some (Inl e) \<Rightarrow> parse_error e \<and> l = Some (Inl e)
     | Some (Inr (g, out)) \<Rightarrow> \<exists>lx'. l = Some (Inr lx') \<and> vars lx' = g \<and> yyout lx' = out)"

lemma scanner_agrees:
  "start_ok (vars lx) \<Longrightarrow> at_token input lx \<Longrightarrow> agrees (scan input (vars lx) (yyout lx)) (run_from Next_token lx)"
proof (induction "length input" arbitrary: input lx rule: less_induct)
  case less
  note st = start_ok_is_start [OF less.prems(1)]
  show ?case
  proof (cases "input = []")
    case True
    with at_token_empty [OF _ st] less.prems(2) show ?thesis
      by (subst scan.simps) (simp add: agrees_def)
  next
    case False
    let ?act = "fst (token (yy_start (vars lx)) input)" and ?n = "snd (token (yy_start (vars lx)) input)"
    note start = at_token_starts [OF less.prems(2) st]
    obtain lx' where m: "moves\<^sup>*\<^sup>* (Next_token, lx) (Do_action, lx')" and d: "token_done input lx lx'"
      using scan_token [OF _ start(2) False] start(1) st
      by (auto simp: token_done_def intro: converse_rtranclp_into_rtranclp)
    note run = run_from_moves [OF m, simplified]
    have shorter: "length (drop ?n input) < length input"
      using token_bounds(2) [OF st False] False by simp
    show ?thesis
    proof (cases "?act = 70")
      case True
      from run_action(1) [OF d st False True] obtain lx2 where
        r: "run_from Do_action lx' = run_from Next_token lx2" and a: "at_token (drop ?n input) lx2"
        and v: "vars lx2 = vars lx" "yyout lx2 = yyout lx @ take ?n input" by blast
      from less.hyps [OF shorter _ a] less.prems(1) v r run True False show ?thesis
        by (subst scan.simps) (simp add: Let_def)
    next
      case nr: False
      show ?thesis
      proof (cases "action ?act (take ?n input) (vars lx)")
        case (Inl e)
        with run_action(2) [OF d st False nr] run action_fails [OF less.prems(1) Inl] nr False show ?thesis
          by (subst scan.simps) (simp add: Let_def agrees_def)
      next
        case (Inr g)
        from run_action(3) [OF d st False nr Inr] obtain lx2 where
          r: "run_from Do_action lx' = run_from Next_token lx2" and a: "at_token (drop ?n input) lx2"
          and v: "vars lx2 = g" "yyout lx2 = yyout lx" by blast
        from less.hyps [OF shorter _ a] start_ok_action [OF less.prems(1) Inr] v r run Inr nr False show ?thesis
          by (subst scan.simps) (simp add: Let_def)
      qed
    qed
  qed
qed

section \<open>Properties of the scanner\<close>

text \<open>C3: The scanner terminates on every input, whatever an earlier parse left in the variables.
  With its buffer, its refills and its rescans it computes exactly the sequence of longest matches,
  and it fails where an action fails in that sequence: the start-condition stack underflows or the sum of
  a time span overflows.\<close>

theorem yylex_refines_scan:
  "agrees (scan input (g\<lparr>yy_start := 1, yy_start_stack := []\<rparr>) []) (yylex (yyFlexLexer input g))"
proof -
  have "start_ok (vars (yyFlexLexer input g))" by (simp add: yyFlexLexer_def start_ok_def)
  moreover have "at_token input (yyFlexLexer input g)"
    by (simp add: yyFlexLexer_def at_token_def pending_ok_def)
  ultimately show ?thesis
    using scanner_agrees [of "yyFlexLexer input g" input] by (simp add: yylex_def yyFlexLexer_def)
qed

text \<open>A refill never writes behind the buffer: the text in it stays shorter than \<open>yy_buf_size\<close>,
  which grows when only one place is left.\<close>

theorem refill_fits:
  assumes "length (yy_ch_buf lx) < yy_buf_size lx" and "yytext_ptr lx < yy_c_buf_p lx"
    and "yy_get_next_buffer lx = Inr (r, lx')"
  shows "length (yy_ch_buf lx') < yy_buf_size lx'"
proof -
  let ?k = "yy_c_buf_p lx - yytext_ptr lx - 1"
  let ?w = "take ?k (drop (yytext_ptr lx) (yy_ch_buf lx))"
  have c: "\<not> yy_c_buf_p lx > yy_n_chars lx + 1" using assms(3) by (auto simp: yy_get_next_buffer_def)
  then have k: "?k < yy_buf_size lx" "length ?w = ?k"
    using assms(1,2) by (simp_all add: yy_n_chars_def)
  show ?thesis
  proof (cases "yy_buffer_status lx = YY_BUFFER_EOF_PENDING \<or> yyin lx = []")
    case True
    with c k assms(3) have "length (yy_ch_buf lx') \<le> ?k" "yy_buf_size lx \<le> yy_buf_size lx'"
      by (auto simp: yy_get_next_buffer_def Let_def LexerInput_def yyrestart_def yy_flush_buffer_def
          grow_def split: if_splits)
    with k show ?thesis by simp
  next
    case False
    then obtain ch rest where "yyin lx = ch # rest" by (cases "yyin lx") auto
    with False c k assms(3) have "length (yy_ch_buf lx') = ?k + 1" "yy_buf_size lx' = grow ?k (yy_buf_size lx)"
      by (auto simp: yy_get_next_buffer_def Let_def LexerInput_def)
    with k show ?thesis by (auto simp: grow_def)
  qed
qed

theorem refill_fits_witness:
  "length (yy_ch_buf (snd (refilled (at_end (yyFlexLexer ''x'' parser_init) 1) []))) <
    yy_buf_size (snd (refilled (at_end (yyFlexLexer ''x'' parser_init) 1) []))"
proof (rule refill_fits)
  show "yy_get_next_buffer (at_end (yyFlexLexer ''x'' parser_init) 1) =
      Inr (fst (refilled (at_end (yyFlexLexer ''x'' parser_init) 1) []),
        snd (refilled (at_end (yyFlexLexer ''x'' parser_init) 1) []))"
    unfolding prod.collapse
    by (rule next_buffer [where pre = "[]"]) (simp_all only: at_end_sel yyFlexLexer_def lexer.simps list.size append_Nil add_0)
  show "length (yy_ch_buf (at_end (yyFlexLexer ''x'' parser_init) 1)) <
      yy_buf_size (at_end (yyFlexLexer ''x'' parser_init) 1)"
    by (simp add: at_end_def yyFlexLexer_def)
  show "yytext_ptr (at_end (yyFlexLexer ''x'' parser_init) 1) < yy_c_buf_p (at_end (yyFlexLexer ''x'' parser_init) 1)"
    by (simp add: at_end_def yyFlexLexer_def)
qed

end
