(* ===== verification/FlexBuffers.thy ===== *)
theory FlexBuffers
  imports ScannerRefinement
begin

text \<open>
  The memory behind the scanner of \<open>src/library_src/flex.cpp\<close>: the buffers that are allocated and freed, the
  stack of buffers, the pointers into them and the character that \<open>yy_hold_char\<close> keeps for the end of the token.
  Where \<open>Scanner\<close> has a text and positions in it, here every access is checked: a null or dangling pointer,
  an index outside its block and a byte without a value are undefined behaviour. Functions that \<open>Scanner\<close>
  has as well carry the suffix \<open>_m\<close>. Allocation never fails and never gives an address twice.
\<close>

section \<open>State\<close>

type_synonym char_ptr = "nat \<times> nat"

text \<open>\<open>struct yy_buffer_state\<close>: streambufs and blocks of memory are named by numbers, a pointer is a block and an
  index.\<close>

record yy_buffer_state =
  yy_input_file :: nat
  ch_buf :: nat
  buf_pos :: char_ptr
  buf_size :: nat
  buf_n_chars :: nat
  is_our_buffer :: bool
  is_interactive :: bool
  at_bol :: bool
  bs_lineno :: nat
  bs_column :: nat
  fill_buffer :: bool
  buf_status :: buffer_status

text \<open>
  The lexer object with the heap. A byte without a value is \<open>None\<close>. \<open>sources\<close> is what is left in each
  streambuf, \<open>stopped\<close> says that \<open>yyin\<close> has met the end of its streambuf.
\<close>

record flex =
  heap :: "nat \<rightharpoonup> yy_buffer_state"
  mem :: "nat \<rightharpoonup> char option list"
  lim :: nat
  sources :: "nat \<Rightarrow> string"
  yyin_rdbuf :: nat
  stopped :: bool
  yyout_rdbuf :: nat
  yy_hold_char :: char
  n_chars :: nat
  c_buf_p :: "char_ptr option"
  text_ptr :: "char_ptr option"
  yy_init :: bool
  yy_did_buffer_switch_on_eof :: bool
  yy_buffer_stack :: "nat option list option"
  yy_buffer_stack_top :: nat

text \<open>A reference to a stream: the member \<open>yyin\<close> itself, or another stream with its streambuf.\<close>

datatype stream_ref = Yyin | Stream nat

definition rdbuf :: "stream_ref \<Rightarrow> flex \<Rightarrow> nat" where
  "rdbuf r st = (case r of Yyin \<Rightarrow> yyin_rdbuf st | Stream n \<Rightarrow> n)"

section \<open>Pointers\<close>

definition pointer :: "char_ptr option \<Rightarrow> char_ptr result" where
  "pointer p = (case p of None \<Rightarrow> Inl Undefined_behaviour | Some q \<Rightarrow> Inr q)"

text \<open>\<open>*p\<close> and \<open>*p = c\<close>.\<close>

definition load :: "char_ptr \<Rightarrow> flex \<Rightarrow> char result" where
  "load p st = (case mem st (fst p) of
       None \<Rightarrow> Inl Undefined_behaviour
     | Some blk \<Rightarrow> (if snd p < length blk
         then (case blk ! snd p of None \<Rightarrow> Inl Undefined_behaviour | Some c \<Rightarrow> Inr c) else Inl Undefined_behaviour))"

definition store :: "char_ptr \<Rightarrow> char \<Rightarrow> flex \<Rightarrow> flex result" where
  "store p c st = (case mem st (fst p) of
       None \<Rightarrow> Inl Undefined_behaviour
     | Some blk \<Rightarrow> (if snd p < length blk
         then Inr (st\<lparr>mem := (mem st)(fst p \<mapsto> blk[snd p := Some c])\<rparr>) else Inl Undefined_behaviour))"

text \<open>The distance of a pointer from the start of a block; pointers into different blocks do not compare.\<close>

definition offset :: "nat \<Rightarrow> char_ptr option \<Rightarrow> nat result" where
  "offset m p = (case p of None \<Rightarrow> Inl Undefined_behaviour
     | Some q \<Rightarrow> if fst q = m then Inr (snd q) else Inl Undefined_behaviour)"

definition buffer_of :: "nat \<Rightarrow> flex \<Rightarrow> yy_buffer_state result" where
  "buffer_of b st = (case heap st b of None \<Rightarrow> Inl Undefined_behaviour | Some s \<Rightarrow> Inr s)"

definition set_buffer :: "nat \<Rightarrow> yy_buffer_state \<Rightarrow> flex \<Rightarrow> flex" where
  "set_buffer b s st = st\<lparr>heap := (heap st)(b \<mapsto> s)\<rparr>"

text \<open>\<open>YY_CURRENT_BUFFER\<close>, the access through \<open>YY_CURRENT_BUFFER_LVALUE\<close>, and the assignment to it.\<close>

definition current_buffer :: "flex \<Rightarrow> nat option result" where
  "current_buffer st = (case yy_buffer_stack st of
       None \<Rightarrow> Inr None
     | Some xs \<Rightarrow> if yy_buffer_stack_top st < length xs then Inr (xs ! yy_buffer_stack_top st)
                  else Inl Undefined_behaviour)"

definition lvalue :: "flex \<Rightarrow> (nat \<times> yy_buffer_state) result" where
  "lvalue st = bindE (current_buffer st) (\<lambda>c. case c of
       None \<Rightarrow> Inl Undefined_behaviour
     | Some b \<Rightarrow> bindE (buffer_of b st) (\<lambda>s. Inr (b, s)))"

definition set_current :: "nat option \<Rightarrow> flex \<Rightarrow> flex result" where
  "set_current v st = (case yy_buffer_stack st of
       None \<Rightarrow> Inl Undefined_behaviour
     | Some xs \<Rightarrow> if yy_buffer_stack_top st < length xs
         then Inr (st\<lparr>yy_buffer_stack := Some (xs[yy_buffer_stack_top st := v])\<rparr>) else Inl Undefined_behaviour)"

section \<open>Creating, loading and freeing buffers\<close>

definition yy_load_buffer_state :: "flex \<Rightarrow> flex result" where
  "yy_load_buffer_state st = bindE (lvalue st) (\<lambda>(b, s).
     let st1 = st\<lparr>n_chars := buf_n_chars s, text_ptr := Some (buf_pos s), c_buf_p := Some (buf_pos s),
                  yyin_rdbuf := yy_input_file s, stopped := False\<rparr>
     in bindE (load (buf_pos s) st1) (\<lambda>c. Inr (st1\<lparr>yy_hold_char := c\<rparr>)))"

definition yy_flush_buffer_m :: "nat option \<Rightarrow> flex \<Rightarrow> flex result" where
  "yy_flush_buffer_m buf st = (case buf of
       None \<Rightarrow> Inr st
     | Some b \<Rightarrow> bindE (buffer_of b st) (\<lambda>s.
         bindE (store (ch_buf s, 0) NUL st) (\<lambda>st1.
         bindE (store (ch_buf s, 1) NUL st1) (\<lambda>st2.
         let st3 = set_buffer b (s\<lparr>buf_n_chars := 0, buf_pos := (ch_buf s, 0), at_bol := True,
                                  buf_status := YY_BUFFER_NEW\<rparr>) st2
         in bindE (current_buffer st3) (\<lambda>c. if c = buf then yy_load_buffer_state st3 else Inr st3)))))"

definition yy_init_buffer :: "nat \<Rightarrow> stream_ref \<Rightarrow> flex \<Rightarrow> flex result" where
  "yy_init_buffer b r st = bindE (yy_flush_buffer_m (Some b) st) (\<lambda>st1.
     bindE (buffer_of b st1) (\<lambda>s. bindE (current_buffer st1) (\<lambda>c.
       let s1 = s\<lparr>yy_input_file := rdbuf r st1, fill_buffer := True, is_interactive := False\<rparr>
       in Inr (set_buffer b (if c = Some b then s1 else s1\<lparr>bs_lineno := 1, bs_column := 0\<rparr>) st1))))"

text \<open>The members that \<open>yy_create_buffer\<close> leaves without a value are set by \<open>yy_init_buffer\<close>.\<close>

definition yy_create_buffer :: "stream_ref \<Rightarrow> nat \<Rightarrow> flex \<Rightarrow> (nat \<times> flex) result" where
  "yy_create_buffer r sz st =
     (let a = lim st;
          s = \<lparr>yy_input_file = 0, ch_buf = a, buf_pos = (a, 0), buf_size = sz, buf_n_chars = 0, is_our_buffer = True,
               is_interactive = False, at_bol = True, bs_lineno = 1, bs_column = 0, fill_buffer = True,
               buf_status = YY_BUFFER_NEW\<rparr>
      in bindE (yy_init_buffer a r (st\<lparr>lim := Suc a, heap := (heap st)(a \<mapsto> s),
             mem := (mem st)(a \<mapsto> replicate (sz + 2) None)\<rparr>)) (\<lambda>st1. Inr (a, st1)))"

definition yy_free :: "nat \<Rightarrow> flex \<Rightarrow> flex result" where
  "yy_free m st = (if mem st m = None then Inl Undefined_behaviour else Inr (st\<lparr>mem := (mem st)(m := None)\<rparr>))"

definition yy_delete_buffer :: "nat option \<Rightarrow> flex \<Rightarrow> flex result" where
  "yy_delete_buffer buf st = (case buf of
       None \<Rightarrow> Inr st
     | Some b \<Rightarrow> bindE (current_buffer st) (\<lambda>c.
         bindE (if c = buf then set_current None st else Inr st) (\<lambda>st1.
         bindE (buffer_of b st1) (\<lambda>s.
         bindE (if is_our_buffer s then yy_free (ch_buf s) st1 else Inr st1) (\<lambda>st2.
           Inr (st2\<lparr>heap := (heap st2)(b := None)\<rparr>))))))"

section \<open>The stack of buffers\<close>

definition yyensure_buffer_stack :: "flex \<Rightarrow> flex" where
  "yyensure_buffer_stack st = (case yy_buffer_stack st of
       None \<Rightarrow> st\<lparr>yy_buffer_stack := Some [None], yy_buffer_stack_top := 0\<rparr>
     | Some xs \<Rightarrow> if length xs - 1 \<le> yy_buffer_stack_top st
         then st\<lparr>yy_buffer_stack := Some (xs @ replicate 8 None)\<rparr> else st)"

text \<open>What \<open>yy_switch_to_buffer\<close> and \<open>yypush_buffer_state\<close> do with the buffer they leave.\<close>

definition save_buffer :: "flex \<Rightarrow> flex result" where
  "save_buffer st = bindE (pointer (c_buf_p st)) (\<lambda>p. bindE (store p (yy_hold_char st) st) (\<lambda>st1.
     bindE (lvalue st1) (\<lambda>(b, s). Inr (set_buffer b (s\<lparr>buf_pos := p, buf_n_chars := n_chars st1\<rparr>) st1))))"

definition yy_switch_to_buffer :: "nat option \<Rightarrow> flex \<Rightarrow> flex result" where
  "yy_switch_to_buffer new st =
     (let st1 = yyensure_buffer_stack st in
      bindE (current_buffer st1) (\<lambda>c.
        if c = new then Inr st1
        else bindE (if c = None then Inr st1 else save_buffer st1) (\<lambda>st2.
          bindE (set_current new st2) (\<lambda>st3.
          bindE (yy_load_buffer_state st3) (\<lambda>st4. Inr (st4\<lparr>yy_did_buffer_switch_on_eof := True\<rparr>))))))"

definition yypush_buffer_state :: "nat option \<Rightarrow> flex \<Rightarrow> flex result" where
  "yypush_buffer_state new st =
     (if new = None then Inr st
      else let st1 = yyensure_buffer_stack st in
        bindE (current_buffer st1) (\<lambda>c.
        bindE (if c = None then Inr st1
               else bindE (save_buffer st1) (\<lambda>st2. Inr (st2\<lparr>yy_buffer_stack_top := yy_buffer_stack_top st2 + 1\<rparr>))) (\<lambda>st3.
        bindE (set_current new st3) (\<lambda>st4.
        bindE (yy_load_buffer_state st4) (\<lambda>st5. Inr (st5\<lparr>yy_did_buffer_switch_on_eof := True\<rparr>))))))"

definition yypop_buffer_state :: "flex \<Rightarrow> flex result" where
  "yypop_buffer_state st = bindE (current_buffer st) (\<lambda>c.
     if c = None then Inr st
     else bindE (yy_delete_buffer c st) (\<lambda>st1. bindE (set_current None st1) (\<lambda>st2.
       let st3 = (if 0 < yy_buffer_stack_top st2 then st2\<lparr>yy_buffer_stack_top := yy_buffer_stack_top st2 - 1\<rparr> else st2)
       in bindE (current_buffer st3) (\<lambda>c'.
         if c' = None then Inr st3
         else bindE (yy_load_buffer_state st3) (\<lambda>st4. Inr (st4\<lparr>yy_did_buffer_switch_on_eof := True\<rparr>))))))"

text \<open>The lines with which \<open>yyrestart\<close> and \<open>yylex\<close> make a first buffer.\<close>

definition first_buffer :: "flex \<Rightarrow> flex result" where
  "first_buffer st = bindE (current_buffer st) (\<lambda>c.
     if c \<noteq> None then Inr st
     else bindE (yy_create_buffer Yyin 16384 (yyensure_buffer_stack st)) (\<lambda>(b, st1). set_current (Some b) st1))"

definition yyrestart_m :: "stream_ref \<Rightarrow> flex \<Rightarrow> flex result" where
  "yyrestart_m r st = bindE (first_buffer st) (\<lambda>st1. bindE (lvalue st1) (\<lambda>(b, s).
     bindE (yy_init_buffer b r st1) yy_load_buffer_state))"

definition switch_streams :: "stream_ref \<Rightarrow> nat \<Rightarrow> flex \<Rightarrow> flex result" where
  "switch_streams new_in new_out st = bindE (current_buffer st) (\<lambda>c.
     bindE (yy_delete_buffer c st) (\<lambda>st1.
     bindE (yy_create_buffer new_in 16384 st1) (\<lambda>(b, st2).
     bindE (yy_switch_to_buffer (Some b) st2) (\<lambda>st3. Inr (st3\<lparr>yyout_rdbuf := new_out\<rparr>)))))"

text \<open>The constructor on a heap in which \<open>lim\<close> and what follows is free, and the destructor. The constructor
  leaves \<open>yy_hold_char\<close> and \<open>yy_n_chars\<close> as they are.\<close>

definition ctor_common :: "nat \<Rightarrow> nat \<Rightarrow> flex \<Rightarrow> flex" where
  "ctor_common arg_yyin arg_yyout st =
     st\<lparr>yyin_rdbuf := arg_yyin, stopped := False, yyout_rdbuf := arg_yyout, c_buf_p := None, text_ptr := None,
        yy_init := False, yy_did_buffer_switch_on_eof := False, yy_buffer_stack := None, yy_buffer_stack_top := 0\<rparr>"

definition yyFlexLexer_destroy :: "flex \<Rightarrow> flex result" where
  "yyFlexLexer_destroy st = bindE (current_buffer st) (\<lambda>c. bindE (yy_delete_buffer c st) (\<lambda>st1.
     Inr (st1\<lparr>yy_buffer_stack := None\<rparr>)))"

text \<open>The beginning of \<open>yylex\<close>. A \<open>yyin\<close> that has met its end is set to the streambuf of \<open>std::cin\<close>, which is
  \<open>cin\<close>. The state of \<open>yyout\<close> is not modelled.\<close>

definition std_input :: "nat \<Rightarrow> flex \<Rightarrow> flex" where
  "std_input cin st = (if stopped st then st\<lparr>yyin_rdbuf := cin, stopped := False\<rparr> else st)"

definition yylex_begin :: "nat \<Rightarrow> flex \<Rightarrow> flex result" where
  "yylex_begin cin st = (if yy_init st then Inr st
     else bindE (first_buffer (std_input cin (st\<lparr>yy_init := True\<rparr>))) yy_load_buffer_state)"

section \<open>Refilling\<close>

definition LexerInput_m :: "flex \<Rightarrow> string \<times> flex" where
  "LexerInput_m st = (if stopped st then ([], st)
     else case sources st (yyin_rdbuf st) of
       [] \<Rightarrow> ([], st\<lparr>stopped := True\<rparr>)
     | c # cs \<Rightarrow> ([c], st\<lparr>sources := (sources st)(yyin_rdbuf st := cs)\<rparr>))"

text \<open>\<open>*(dest++) = *(source++)\<close>, \<open>k\<close> times.\<close>

fun move_down :: "nat \<Rightarrow> nat \<Rightarrow> nat \<Rightarrow> nat \<Rightarrow> flex \<Rightarrow> flex result" where
  "move_down m dest source 0 st = Inr st"
| "move_down m dest source (Suc k) st =
     bindE (load (m, source) st) (\<lambda>c. bindE (store (m, dest) c st) (move_down m (Suc dest) (Suc source) k))"

text \<open>\<open>yyrealloc\<close>: a new block with the old bytes as far as they fit.\<close>

definition yy_realloc :: "nat \<Rightarrow> nat \<Rightarrow> flex \<Rightarrow> (nat \<times> flex) result" where
  "yy_realloc m sz st = (case mem st m of
       None \<Rightarrow> Inl Undefined_behaviour
     | Some blk \<Rightarrow> Inr (lim st, st\<lparr>lim := Suc (lim st),
         mem := (mem st)(m := None, lim st \<mapsto> take sz blk @ replicate (sz - length blk) None)\<rparr>))"

text \<open>The loop that doubles the buffer: after one turn there is room. Sizes stay below \<open>2 ^ 63\<close>.\<close>

definition grow_m :: "nat \<Rightarrow> nat \<Rightarrow> flex \<Rightarrow> flex result" where
  "grow_m number_to_move cp st = bindE (lvalue st) (\<lambda>(b, s).
     if number_to_move + 1 \<noteq> buf_size s then Inr st
     else if is_our_buffer s
     then bindE (yy_realloc (ch_buf s) (buf_size s * 2 + 2) st) (\<lambda>(m, st1).
       Inr (set_buffer b (s\<lparr>buf_size := buf_size s * 2, ch_buf := m\<rparr>) (st1\<lparr>c_buf_p := Some (m, cp)\<rparr>)))
     else Inl (Exit_failure ''fatal error - scanner input buffer overflow''))"

definition read_m :: "nat \<Rightarrow> flex \<Rightarrow> flex result" where
  "read_m number_to_move st = bindE (lvalue st) (\<lambda>(b, s).
     let (got, st1) = LexerInput_m st in
     bindE (case got of [] \<Rightarrow> Inr st1 | c # cs \<Rightarrow> store (ch_buf s, number_to_move) c st1) (\<lambda>st2.
       Inr (set_buffer b (s\<lparr>buf_n_chars := length got\<rparr>) (st2\<lparr>n_chars := length got\<rparr>))))"

definition extend_m :: "nat \<Rightarrow> flex \<Rightarrow> flex result" where
  "extend_m number_to_move st = bindE (lvalue st) (\<lambda>(b, s).
     if n_chars st + number_to_move > buf_size s
     then bindE (yy_realloc (ch_buf s) (n_chars st + number_to_move + n_chars st div 2) st) (\<lambda>(m, st1).
       Inr (set_buffer b (s\<lparr>ch_buf := m\<rparr>) st1))
     else Inr st)"

definition fill_m :: "nat \<Rightarrow> nat \<Rightarrow> flex \<Rightarrow> flex result" where
  "fill_m number_to_move cp st = bindE (lvalue st) (\<lambda>(b, s).
     if buf_status s = YY_BUFFER_EOF_PENDING
     then Inr (set_buffer b (s\<lparr>buf_n_chars := 0\<rparr>) (st\<lparr>n_chars := 0\<rparr>))
     else bindE (grow_m number_to_move cp st) (read_m number_to_move))"

definition ret_val_m :: "nat \<Rightarrow> flex \<Rightarrow> (eob_act \<times> flex) result" where
  "ret_val_m number_to_move st =
     (if n_chars st = 0
      then if number_to_move = 0
        then bindE (yyrestart_m Yyin st) (\<lambda>st1. Inr (EOB_ACT_END_OF_FILE, st1))
        else bindE (lvalue st) (\<lambda>(b, s).
          Inr (EOB_ACT_LAST_MATCH, set_buffer b (s\<lparr>buf_status := YY_BUFFER_EOF_PENDING\<rparr>) st))
      else Inr (EOB_ACT_CONTINUE_SCAN, st))"

definition end_m :: "nat \<Rightarrow> flex \<Rightarrow> flex result" where
  "end_m number_to_move st = bindE (lvalue st) (\<lambda>(b, s).
     let st1 = st\<lparr>n_chars := n_chars st + number_to_move\<rparr> in
     bindE (store (ch_buf s, n_chars st1) NUL st1) (\<lambda>st2.
     bindE (store (ch_buf s, n_chars st1 + 1) NUL st2) (\<lambda>st3.
       Inr (st3\<lparr>text_ptr := Some (ch_buf s, 0)\<rparr>))))"

definition yy_get_next_buffer_m :: "flex \<Rightarrow> (eob_act \<times> flex) result" where
  "yy_get_next_buffer_m st = bindE (lvalue st) (\<lambda>(b, s).
     bindE (offset (ch_buf s) (c_buf_p st)) (\<lambda>cp. bindE (offset (ch_buf s) (text_ptr st)) (\<lambda>tp.
     if cp > n_chars st + 1 then Inl (Exit_failure ''fatal flex scanner internal error--end of buffer missed'')
     else if \<not> fill_buffer s
     then Inr (if int cp - int tp = 1 then EOB_ACT_END_OF_FILE else EOB_ACT_LAST_MATCH, st)
     else if cp \<le> tp then Inl Undefined_behaviour
     else let number_to_move = cp - tp - 1 in
       bindE (move_down (ch_buf s) 0 tp number_to_move st) (\<lambda>st1.
       bindE (fill_m number_to_move cp st1) (\<lambda>st2.
       bindE (ret_val_m number_to_move st2) (\<lambda>(ret_val, st3).
       bindE (extend_m number_to_move st3) (\<lambda>st4.
       bindE (end_m number_to_move st4) (\<lambda>st5. Inr (ret_val, st5)))))))))"

section \<open>Reading and pushing back one character\<close>

text \<open>\<open>yyinput\<close>; \<open>yywrap\<close> returns 1, so the end of the file is \<open>EOF\<close>.\<close>

definition take_char :: "flex \<Rightarrow> (int \<times> flex) result" where
  "take_char st = bindE (pointer (c_buf_p st)) (\<lambda>p. bindE (load p st) (\<lambda>c.
     bindE (store p NUL st) (\<lambda>st1. bindE (load (fst p, Suc (snd p)) st1) (\<lambda>h.
       Inr (of_char c, st1\<lparr>c_buf_p := Some (fst p, Suc (snd p)), yy_hold_char := h\<rparr>)))))"

definition yyinput :: "flex \<Rightarrow> (int \<times> flex) result" where
  "yyinput st = bindE (pointer (c_buf_p st)) (\<lambda>p. bindE (store p (yy_hold_char st) st) (\<lambda>st1.
     if yy_hold_char st \<noteq> NUL then take_char st1
     else bindE (lvalue st1) (\<lambda>(b, s). bindE (offset (ch_buf s) (Some p)) (\<lambda>cp.
       if cp < n_chars st1 then bindE (store p NUL st1) take_char
       else bindE (offset (fst p) (text_ptr st1)) (\<lambda>tp.
         let off = int cp - int tp in
         bindE (yy_get_next_buffer_m (st1\<lparr>c_buf_p := Some (fst p, Suc cp)\<rparr>)) (\<lambda>(act, st2).
           case act of
             EOB_ACT_LAST_MATCH \<Rightarrow> bindE (yyrestart_m Yyin st2) (\<lambda>st3. Inr (- 1, st3))
           | EOB_ACT_END_OF_FILE \<Rightarrow> Inr (- 1, st2)
           | EOB_ACT_CONTINUE_SCAN \<Rightarrow> bindE (pointer (text_ptr st2)) (\<lambda>q.
               take_char (st2\<lparr>c_buf_p := Some (fst q, nat (int (snd q) + off))\<rparr>))))))))"

text \<open>\<open>*--dest = *--source\<close> while \<open>source\<close> is above the start of the block: where \<open>dest\<close> ends.\<close>

fun move_up :: "nat \<Rightarrow> nat \<Rightarrow> nat \<Rightarrow> flex \<Rightarrow> (nat \<times> flex) result" where
  "move_up m dest 0 st = Inr (dest, st)"
| "move_up m dest (Suc k) st = (if dest = 0 then Inl Undefined_behaviour
     else bindE (load (m, k) st) (\<lambda>c. bindE (store (m, dest - 1) c st) (move_up m (dest - 1) k)))"

definition yyunput :: "char \<Rightarrow> char_ptr \<Rightarrow> flex \<Rightarrow> flex result" where
  "yyunput c bp st = bindE (pointer (c_buf_p st)) (\<lambda>p. bindE (store p (yy_hold_char st) st) (\<lambda>st1.
     bindE (lvalue st1) (\<lambda>(b, s). bindE (offset (ch_buf s) (Some p)) (\<lambda>cp.
     bindE (if cp < 2
        then bindE (move_up (ch_buf s) (buf_size s + 2) (n_chars st1 + 2) st1) (\<lambda>(d, st2).
          let st3 = set_buffer b (s\<lparr>buf_n_chars := buf_size s\<rparr>) (st2\<lparr>n_chars := buf_size s\<rparr>) in
          if cp + d < 2 then Inl (Exit_failure ''flex scanner push-back overflow'')
          else Inr (cp + d, snd bp + d, st3))
        else Inr (cp, snd bp, st1)) (\<lambda>(cp', bp', st2).
     bindE (store (ch_buf s, cp' - 1) c st2) (\<lambda>st3.
       Inr (st3\<lparr>text_ptr := Some (fst bp, bp'), yy_hold_char := c, c_buf_p := Some (ch_buf s, cp' - 1)\<rparr>)))))))"

end
