(* ===== verification/FlexMemory.thy ===== *)
theory FlexMemory
  imports FlexBuffers
begin

text \<open>
  What holds of the memory behind the scanner: a refill stays inside the buffer and does what the refill of
  \<open>Scanner\<close> does; characters are read and pushed back as the text says; and the stack of buffers keeps every
  pointer good.
\<close>

section \<open>Accesses\<close>

lemma store_in: "mem st m = Some blk \<Longrightarrow> i < length blk \<Longrightarrow>
    store (m, i) c st = Inr (st\<lparr>mem := (mem st)(m \<mapsto> blk[i := Some c])\<rparr>)"
  by (simp add: store_def)

lemma load_in: "mem st m = Some blk \<Longrightarrow> i < length blk \<Longrightarrow> blk ! i = Some c \<Longrightarrow> load (m, i) st = Inr c"
  by (simp add: load_def)

lemma move_down_eq:
  assumes "mem st m = Some blk" and "source + k \<le> length blk" and "dest \<le> source"
    and "\<And>i. i < k \<Longrightarrow> blk ! (source + i) \<noteq> None"
  shows "move_down m dest source k st =
    Inr (st\<lparr>mem := (mem st)(m \<mapsto> take dest blk @ take k (drop source blk) @ drop (dest + k) blk)\<rparr>)"
  using assms
proof (induction k arbitrary: dest source st blk)
  case 0
  then have "(mem st)(m \<mapsto> blk) = mem st" by auto
  then show ?case by simp
next
  case (Suc k)
  let ?blk = "blk[dest := blk ! source]"
  obtain c where c: "blk ! source = Some c" using Suc.prems(4) [of 0] by auto
  have "drop source blk = blk ! source # drop (Suc source) blk" using Suc.prems(2) by (simp add: Cons_nth_drop_Suc)
  moreover have "take (Suc dest) ?blk = take dest blk @ [blk ! source]"
    using Suc.prems(2,3) by (simp add: take_Suc_conv_app_nth)
  ultimately have eq: "take (Suc dest) ?blk @ take k (drop (Suc source) ?blk) @ drop (Suc dest + k) ?blk =
      take dest blk @ take (Suc k) (drop source blk) @ drop (dest + Suc k) blk"
    using Suc.prems(3) by simp
  let ?st = "st\<lparr>mem := (mem st)(m \<mapsto> ?blk)\<rparr>"
  have "?blk ! (Suc source + i) \<noteq> None" if "i < k" for i
    using Suc.prems(4) [of "Suc i"] Suc.prems(3) that by simp
  with Suc.IH [of ?st ?blk "Suc source" "Suc dest"] Suc.prems(2,3)
  have "move_down m (Suc dest) (Suc source) k ?st =
      Inr (st\<lparr>mem := (mem st)(m \<mapsto> take dest blk @ take (Suc k) (drop source blk) @ drop (dest + Suc k) blk)\<rparr>)"
    unfolding eq by (simp add: fun_upd_def cong: if_cong)
  moreover have "load (m, source) st = Inr c" using Suc.prems(1,2) c by (simp add: load_in)
  moreover have "store (m, dest) c st = Inr ?st" using Suc.prems(1,2,3) c by (simp add: store_in)
  ultimately show ?case by (simp add: fun_upd_def)
qed

lemma move_up_eq:
  assumes "mem st m = Some blk" and "k + d \<le> length blk" and "\<And>i. i < k \<Longrightarrow> blk ! i \<noteq> None"
  shows "move_up m (k + d) k st = Inr (d, st\<lparr>mem := (mem st)(m \<mapsto> take d blk @ take k blk @ drop (d + k) blk)\<rparr>)"
  using assms
proof (induction k arbitrary: st blk)
  case 0
  then have "(mem st)(m \<mapsto> blk) = mem st" by auto
  then show ?case by simp
next
  case (Suc k)
  let ?blk = "blk[k + d := blk ! k]"
  obtain c where c: "blk ! k = Some c" using Suc.prems(3) [of k] by auto
  let ?st = "st\<lparr>mem := (mem st)(m \<mapsto> ?blk)\<rparr>"
  have "take k blk @ blk ! k # drop (d + Suc k) blk = take (Suc k) blk @ drop (d + Suc k) blk"
    using Suc.prems(2) by (simp add: take_Suc_conv_app_nth)
  moreover have "drop (d + k) ?blk = blk ! k # drop (d + Suc k) blk"
    using Suc.prems(2) by (simp add: drop_update_swap Cons_nth_drop_Suc [symmetric] add.commute)
  ultimately have eq: "take d ?blk @ take k ?blk @ drop (d + k) ?blk = take d blk @ take (Suc k) blk @ drop (d + Suc k) blk"
    by simp
  have "?blk ! i \<noteq> None" if "i < k" for i using Suc.prems(3) [of i] that by simp
  with Suc.IH [of ?st ?blk] Suc.prems(2)
  have "move_up m (k + d) k ?st = Inr (d, st\<lparr>mem := (mem st)(m \<mapsto> take d blk @ take (Suc k) blk @ drop (d + Suc k) blk)\<rparr>)"
    unfolding eq by (simp add: fun_upd_def cong: if_cong)
  moreover have "load (m, k) st = Inr c" using Suc.prems(1,2) c by (simp add: load_in)
  moreover have "store (m, k + d) c st = Inr ?st" using Suc.prems(1,2) c by (simp add: store_in)
  ultimately show ?case by (simp add: fun_upd_def)
qed

section \<open>The buffer in memory\<close>

definition fresh :: "flex \<Rightarrow> bool" where
  "fresh st \<longleftrightarrow> (\<forall>a \<ge> lim st. heap st a = None \<and> mem st a = None)"

definition on_buffer :: "flex \<Rightarrow> nat \<Rightarrow> yy_buffer_state \<Rightarrow> char option list \<Rightarrow> bool" where
  "on_buffer st b s blk \<longleftrightarrow> current_buffer st = Inr (Some b) \<and> heap st b = Some s \<and> mem st (ch_buf s) = Some blk
     \<and> length blk = buf_size s + 2 \<and> fill_buffer s \<and> is_our_buffer s \<and> fresh st"

text \<open>The input of the scanner: the streambuf of the buffer is that of \<open>yyin\<close>, and after its end nothing is left.\<close>

definition on_input :: "flex \<Rightarrow> yy_buffer_state \<Rightarrow> string \<Rightarrow> bool" where
  "on_input st s input \<longleftrightarrow> yy_input_file s = yyin_rdbuf st \<and> sources st (yyin_rdbuf st) = input
     \<and> (stopped st \<longrightarrow> input = [])"

text \<open>The memory shows the state of a lexer: the buffer has its text from the first of the two pointers on.\<close>

definition holding :: "flex \<Rightarrow> lexer \<Rightarrow> nat \<Rightarrow> yy_buffer_state \<Rightarrow> char option list \<Rightarrow> bool" where
  "holding st lx b s blk \<longleftrightarrow> on_buffer st b s blk \<and> on_input st s (yyin lx)
     \<and> n_chars st = yy_n_chars lx \<and> yy_n_chars lx \<le> buf_size s \<and> blk ! 0 \<noteq> None
     \<and> (\<forall>j. min (yytext_ptr lx) (yy_c_buf_p lx) \<le> j \<and> j < yy_n_chars lx + 2 \<longrightarrow> blk ! j = Some (buffer lx ! j))
     \<and> c_buf_p st = Some (ch_buf s, yy_c_buf_p lx) \<and> text_ptr st = Some (ch_buf s, yytext_ptr lx)
     \<and> buf_size s = yy_buf_size lx \<and> buf_status s = yy_buffer_status lx"

definition in_memory :: "flex \<Rightarrow> lexer \<Rightarrow> bool" where
  "in_memory st lx \<longleftrightarrow> (\<exists>b s blk. holding st lx b s blk)"

lemma current_buffer_simps [simp]:
  "current_buffer (st\<lparr>heap := h\<rparr>) = current_buffer st"
  "current_buffer (st\<lparr>mem := m\<rparr>) = current_buffer st"
  "current_buffer (st\<lparr>lim := l\<rparr>) = current_buffer st"
  "current_buffer (st\<lparr>sources := f\<rparr>) = current_buffer st"
  "current_buffer (st\<lparr>yyin_rdbuf := i\<rparr>) = current_buffer st"
  "current_buffer (st\<lparr>stopped := b\<rparr>) = current_buffer st"
  "current_buffer (st\<lparr>yyout_rdbuf := i\<rparr>) = current_buffer st"
  "current_buffer (st\<lparr>yy_hold_char := c\<rparr>) = current_buffer st"
  "current_buffer (st\<lparr>n_chars := n\<rparr>) = current_buffer st"
  "current_buffer (st\<lparr>c_buf_p := p\<rparr>) = current_buffer st"
  "current_buffer (st\<lparr>text_ptr := p\<rparr>) = current_buffer st"
  "current_buffer (st\<lparr>yy_init := b\<rparr>) = current_buffer st"
  "current_buffer (st\<lparr>yy_did_buffer_switch_on_eof := b\<rparr>) = current_buffer st"
  "current_buffer (set_buffer a s st) = current_buffer st"
  by (simp_all add: current_buffer_def set_buffer_def split: option.split)

lemma set_buffer_sel [simp]:
  "heap (set_buffer b s st) = (heap st)(b \<mapsto> s)" "mem (set_buffer b s st) = mem st" "lim (set_buffer b s st) = lim st"
  "sources (set_buffer b s st) = sources st" "yyin_rdbuf (set_buffer b s st) = yyin_rdbuf st"
  "stopped (set_buffer b s st) = stopped st" "yy_hold_char (set_buffer b s st) = yy_hold_char st"
  "n_chars (set_buffer b s st) = n_chars st" "c_buf_p (set_buffer b s st) = c_buf_p st"
  "text_ptr (set_buffer b s st) = text_ptr st" "yy_buffer_stack (set_buffer b s st) = yy_buffer_stack st"
  "yy_buffer_stack_top (set_buffer b s st) = yy_buffer_stack_top st"
  by (simp_all add: set_buffer_def)

lemma fresh_simps [simp]:
  "fresh (st\<lparr>n_chars := n\<rparr>) = fresh st" "fresh (st\<lparr>c_buf_p := p\<rparr>) = fresh st" "fresh (st\<lparr>text_ptr := p\<rparr>) = fresh st"
  "fresh (st\<lparr>sources := f\<rparr>) = fresh st" "fresh (st\<lparr>stopped := x\<rparr>) = fresh st" "fresh (st\<lparr>yyin_rdbuf := i\<rparr>) = fresh st"
  "fresh (st\<lparr>yy_hold_char := c\<rparr>) = fresh st"
  by (simp_all add: fresh_def)

lemma fresh_set [simp]: "heap st b = Some s \<Longrightarrow> fresh (set_buffer b s' st) = fresh st"
  by (auto simp: fresh_def)

lemma lvalue_on: "on_buffer st b s blk \<Longrightarrow> lvalue st = Inr (b, s)"
  by (simp add: on_buffer_def lvalue_def buffer_of_def)

lemma on_buffer_mem: "on_buffer st b s blk \<Longrightarrow> length blk' = length blk \<Longrightarrow>
    on_buffer (st\<lparr>mem := (mem st)(ch_buf s \<mapsto> blk')\<rparr>) b s blk'"
  by (auto simp: on_buffer_def fresh_def)

lemma on_buffer_set: "on_buffer st b s blk \<Longrightarrow> ch_buf s' = ch_buf s \<Longrightarrow> buf_size s' = buf_size s \<Longrightarrow> fill_buffer s' \<Longrightarrow>
    is_our_buffer s' \<Longrightarrow> on_buffer (set_buffer b s' st) b s' blk"
  by (auto simp: on_buffer_def fresh_def)

lemma on_buffer_simps [simp]:
  "on_buffer (st\<lparr>n_chars := n\<rparr>) b s blk = on_buffer st b s blk"
  "on_buffer (st\<lparr>c_buf_p := p\<rparr>) b s blk = on_buffer st b s blk"
  "on_buffer (st\<lparr>text_ptr := p\<rparr>) b s blk = on_buffer st b s blk"
  "on_buffer (st\<lparr>sources := f\<rparr>) b s blk = on_buffer st b s blk"
  "on_buffer (st\<lparr>stopped := x\<rparr>) b s blk = on_buffer st b s blk"
  "on_buffer (st\<lparr>yyin_rdbuf := i\<rparr>) b s blk = on_buffer st b s blk"
  "on_buffer (st\<lparr>yy_hold_char := c\<rparr>) b s blk = on_buffer st b s blk"
  by (simp_all add: on_buffer_def)

lemma grow_m_on:
  assumes "on_buffer st b s blk" and "c_buf_p st = Some (ch_buf s, cp)"
  shows "\<exists>st' s' blk'. grow_m k cp st = Inr st' \<and> on_buffer st' b s' blk' \<and> take (length blk) blk' = blk
    \<and> c_buf_p st' = Some (ch_buf s', cp) \<and> buf_size s' = grow k (buf_size s) \<and> yy_input_file s' = yy_input_file s
    \<and> buf_status s' = buf_status s \<and> sources st' = sources st \<and> yyin_rdbuf st' = yyin_rdbuf st \<and> stopped st' = stopped st"
proof (cases "k + 1 = buf_size s")
  case False
  with assms show ?thesis
    by (intro exI [of _ st] exI [of _ s] exI [of _ blk]) (auto simp: grow_m_def grow_def lvalue_on [OF assms(1)])
next
  case True
  let ?m = "lim st" and ?n = "buf_size s"
  let ?blk = "blk @ replicate ?n None"
  let ?s = "s\<lparr>buf_size := ?n * 2, ch_buf := ?m\<rparr>"
  let ?st = "set_buffer b ?s (st\<lparr>lim := Suc ?m, mem := (mem st)(ch_buf s := None, ?m \<mapsto> ?blk), c_buf_p := Some (?m, cp)\<rparr>)"
  note on = assms(1) [unfolded on_buffer_def]
  have "grow_m k cp st = Inr ?st" using True on
    by (simp add: grow_m_def lvalue_on [OF assms(1)] yy_realloc_def)
  moreover have "on_buffer ?st b ?s ?blk" using on by (auto simp: on_buffer_def fresh_def)
  ultimately show ?thesis using True by (fastforce simp: grow_def)
qed

lemma read_m_on:
  assumes "on_buffer st b s blk" and "on_input st s input" and "k < length blk"
  shows "\<exists>st' s'. read_m k st = Inr st' \<and> on_input st' s' (tl input) \<and> n_chars st' = length (take 1 input)
    \<and> on_buffer st' b s' (case input of [] \<Rightarrow> blk | c # cs \<Rightarrow> blk[k := Some c])
    \<and> ch_buf s' = ch_buf s \<and> buf_size s' = buf_size s \<and> buf_status s' = buf_status s \<and> c_buf_p st' = c_buf_p st"
proof -
  note on = assms(1) [unfolded on_buffer_def]
  let ?s = "s\<lparr>buf_n_chars := length (take 1 input)\<rparr>"
  show ?thesis
  proof (cases input)
    case Nil
    let ?st = "set_buffer b ?s (snd (LexerInput_m st)\<lparr>n_chars := 0\<rparr>)"
    have l: "LexerInput_m st = ([], if stopped st then st else st\<lparr>stopped := True\<rparr>)"
      using assms(2) Nil by (auto simp: LexerInput_m_def on_input_def)
    have "on_buffer ?st b ?s blk" using assms(1) by (auto intro!: on_buffer_set simp: l on_buffer_def)
    moreover have "on_input ?st ?s []" using assms(2) Nil by (auto simp: on_input_def l)
    ultimately show ?thesis using Nil
      by (intro exI [of _ ?st] exI [of _ ?s]) (simp add: read_m_def lvalue_on [OF assms(1)] l)
  next
    case (Cons c cs)
    let ?st1 = "st\<lparr>sources := (sources st)(yyin_rdbuf st := cs)\<rparr>"
    let ?st2 = "?st1\<lparr>mem := (mem st)(ch_buf s \<mapsto> blk[k := Some c])\<rparr>"
    let ?st = "set_buffer b ?s (?st2\<lparr>n_chars := 1\<rparr>)"
    have l: "LexerInput_m st = ([c], ?st1)" using assms(2) Cons by (auto simp: LexerInput_m_def on_input_def)
    have w: "store (ch_buf s, k) c ?st1 = Inr ?st2" using on assms(3) by (simp add: store_in)
    have "on_buffer ?st2 b s (blk[k := Some c])" using on_buffer_mem [of ?st1 b s blk "blk[k := Some c]"] assms(1) by simp
    then have "on_buffer ?st b ?s (blk[k := Some c])" by (intro on_buffer_set) (use on in simp_all)
    moreover have "on_input ?st ?s cs" using assms(2) Cons by (auto simp: on_input_def)
    ultimately show ?thesis using Cons
      by (intro exI [of _ ?st] exI [of _ ?s]) (simp add: read_m_def lvalue_on [OF assms(1)] l w)
  qed
qed

text \<open>What a refill reads: nothing when the end is known, else at most one character.\<close>

definition reads :: "buffer_status \<Rightarrow> string \<Rightarrow> string" where
  "reads status input = (if status = YY_BUFFER_EOF_PENDING then [] else take 1 input)"

definition grown :: "buffer_status \<Rightarrow> nat \<Rightarrow> nat \<Rightarrow> nat" where
  "grown status k sz = (if status = YY_BUFFER_EOF_PENDING then sz else grow k sz)"

lemma fill_m_on:
  assumes "on_buffer st b s blk" and "on_input st s input" and "c_buf_p st = Some (ch_buf s, cp)" and "k < buf_size s"
  shows "\<exists>st' s' blk'. fill_m k cp st = Inr st' \<and> on_buffer st' b s' blk'
    \<and> on_input st' s' (drop (length (reads (buf_status s) input)) input)
    \<and> n_chars st' = length (reads (buf_status s) input)
    \<and> (\<forall>j < k. blk' ! j = blk ! j) \<and> (\<forall>c \<in> set (reads (buf_status s) input). blk' ! k = Some c)
    \<and> buf_size s' = grown (buf_status s) k (buf_size s) \<and> buf_status s' = buf_status s \<and> c_buf_p st' = Some (ch_buf s', cp)"
proof (cases "buf_status s = YY_BUFFER_EOF_PENDING")
  case True
  let ?s = "s\<lparr>buf_n_chars := 0\<rparr>"
  let ?st = "set_buffer b ?s (st\<lparr>n_chars := 0\<rparr>)"
  have "on_buffer ?st b ?s blk" using assms(1) by (auto intro!: on_buffer_set simp: on_buffer_def)
  moreover have "on_input ?st ?s input" using assms(2) by (simp add: on_input_def)
  ultimately show ?thesis using True assms(3)
    by (intro exI [of _ ?st] exI [of _ ?s] exI [of _ blk]) (simp add: fill_m_def lvalue_on [OF assms(1)] reads_def grown_def)
next
  case False
  note on = assms(1) [unfolded on_buffer_def]
  from grow_m_on [OF assms(1,3), of k] obtain st1 s1 blk1 where
    g: "grow_m k cp st = Inr st1" "on_buffer st1 b s1 blk1" "take (length blk) blk1 = blk" "c_buf_p st1 = Some (ch_buf s1, cp)"
    "buf_size s1 = grow k (buf_size s)" "yy_input_file s1 = yy_input_file s" "buf_status s1 = buf_status s"
    "sources st1 = sources st" "yyin_rdbuf st1 = yyin_rdbuf st" "stopped st1 = stopped st" by blast
  have i: "on_input st1 s1 input" using assms(2) g by (simp add: on_input_def)
  have "length blk \<le> length blk1" using g(3) by (metis length_take min.cobounded1)
  then have k: "k < length blk" "k < length blk1" using assms(4) on by simp_all
  have same: "blk1 ! j = blk ! j" if "j < k" for j using g(3) k(1) that by (metis nth_take order_less_trans)
  from read_m_on [OF g(2) i k(2)] obtain st2 s2 where
    r: "read_m k st1 = Inr st2" "on_input st2 s2 (tl input)" "n_chars st2 = length (take 1 input)"
    "on_buffer st2 b s2 (case input of [] \<Rightarrow> blk1 | c # cs \<Rightarrow> blk1[k := Some c])" "ch_buf s2 = ch_buf s1"
    "buf_size s2 = buf_size s1" "buf_status s2 = buf_status s1" "c_buf_p st2 = c_buf_p st1" by blast
  show ?thesis
    using False g r k same
    by (intro exI [of _ st2] exI [of _ s2] exI [of _ "case input of [] \<Rightarrow> blk1 | c # cs \<Rightarrow> blk1[k := Some c]"])
      (cases input, simp_all add: fill_m_def lvalue_on [OF assms(1)] reads_def grown_def)
qed

text \<open>\<open>yyrestart (yyin)\<close> empties the current buffer.\<close>

lemma load_buffer_state_on:
  assumes "on_buffer st b s blk" and "buf_pos s = (ch_buf s, i)" and "i < length blk" and "blk ! i = Some c"
  shows "yy_load_buffer_state st = Inr (st\<lparr>n_chars := buf_n_chars s, text_ptr := Some (ch_buf s, i), c_buf_p := Some (ch_buf s, i),
    yyin_rdbuf := yy_input_file s, stopped := False, yy_hold_char := c\<rparr>)"
proof -
  have "mem st (ch_buf s) = Some blk" using assms(1) by (simp add: on_buffer_def)
  with assms show ?thesis by (simp add: yy_load_buffer_state_def lvalue_on [OF assms(1)] load_def Let_def)
qed

lemma store_NULs:
  assumes "on_buffer st b s blk"
  shows "bindE (store (ch_buf s, 0) NUL st) (store (ch_buf s, 1) NUL) =
    Inr (st\<lparr>mem := (mem st)(ch_buf s \<mapsto> blk[0 := Some NUL, 1 := Some NUL])\<rparr>)"
proof -
  have "mem st (ch_buf s) = Some blk" "1 < length blk" "0 < length blk" using assms by (simp_all add: on_buffer_def)
  then show ?thesis by (simp add: store_def del: length_greater_0_conv)
qed

lemma flush_on:
  assumes "on_buffer st b s blk"
  shows "\<exists>st' s'. yy_flush_buffer_m (Some b) st = Inr st' \<and> on_buffer st' b s' (blk[0 := Some NUL, 1 := Some NUL])
    \<and> s' = s\<lparr>buf_n_chars := 0, buf_pos := (ch_buf s, 0), at_bol := True, buf_status := YY_BUFFER_NEW\<rparr>
    \<and> st' = (set_buffer b s' (st\<lparr>mem := (mem st)(ch_buf s \<mapsto> blk[0 := Some NUL, 1 := Some NUL])\<rparr>))\<lparr>n_chars := 0,
      text_ptr := Some (ch_buf s, 0), c_buf_p := Some (ch_buf s, 0), yyin_rdbuf := yy_input_file s, stopped := False,
      yy_hold_char := NUL\<rparr>"
proof -
  let ?blk = "blk[0 := Some NUL, 1 := Some NUL]"
  let ?s = "s\<lparr>buf_n_chars := 0, buf_pos := (ch_buf s, 0), at_bol := True, buf_status := YY_BUFFER_NEW\<rparr>"
  let ?st1 = "st\<lparr>mem := (mem st)(ch_buf s \<mapsto> ?blk)\<rparr>"
  note on = assms [unfolded on_buffer_def]
  have on1: "on_buffer (set_buffer b ?s ?st1) b ?s ?blk"
    using on_buffer_mem [OF assms, of ?blk] on by (intro on_buffer_set) simp_all
  have two: "store (ch_buf s, 0) NUL st = Inr (st\<lparr>mem := (mem st)(ch_buf s \<mapsto> blk[0 := Some NUL])\<rparr>)"
    "store (ch_buf s, 1) NUL (st\<lparr>mem := (mem st)(ch_buf s \<mapsto> blk[0 := Some NUL])\<rparr>) = Inr ?st1"
    using on by (simp_all add: store_def del: length_greater_0_conv)
  have "yy_load_buffer_state (set_buffer b ?s ?st1) = Inr (set_buffer b ?s ?st1\<lparr>n_chars := 0, text_ptr := Some (ch_buf s, 0),
      c_buf_p := Some (ch_buf s, 0), yyin_rdbuf := yy_input_file s, stopped := False, yy_hold_char := NUL\<rparr>)"
    using load_buffer_state_on [OF on1, of 0 NUL] on by (simp add: nth_list_update)
  moreover have "yy_flush_buffer_m (Some b) st = yy_load_buffer_state (set_buffer b ?s ?st1)"
    using on two by (simp add: yy_flush_buffer_m_def buffer_of_def Let_def)
  ultimately show ?thesis using on1 by simp
qed

lemma restart_on:
  assumes "on_buffer st b s blk" and "on_input st s input"
  shows "\<exists>st' s'. yyrestart_m Yyin st = Inr st' \<and> on_buffer st' b s' (blk[0 := Some NUL, 1 := Some NUL])
    \<and> on_input st' s' input \<and> n_chars st' = 0 \<and> c_buf_p st' = Some (ch_buf s', 0) \<and> text_ptr st' = Some (ch_buf s', 0)
    \<and> ch_buf s' = ch_buf s \<and> buf_size s' = buf_size s \<and> buf_status s' = YY_BUFFER_NEW \<and> yy_hold_char st' = NUL"
proof -
  let ?blk = "blk[0 := Some NUL, 1 := Some NUL]"
  note on = assms(1) [unfolded on_buffer_def]
  from flush_on [OF assms(1)] obtain st1 s1 where f: "yy_flush_buffer_m (Some b) st = Inr st1" "on_buffer st1 b s1 ?blk"
    "s1 = s\<lparr>buf_n_chars := 0, buf_pos := (ch_buf s, 0), at_bol := True, buf_status := YY_BUFFER_NEW\<rparr>"
    "st1 = (set_buffer b s1 (st\<lparr>mem := (mem st)(ch_buf s \<mapsto> ?blk)\<rparr>))\<lparr>n_chars := 0, text_ptr := Some (ch_buf s, 0),
      c_buf_p := Some (ch_buf s, 0), yyin_rdbuf := yy_input_file s, stopped := False, yy_hold_char := NUL\<rparr>" by blast
  have rd: "yyin_rdbuf st1 = yy_input_file s" "sources st1 = sources st" by (simp_all add: f(4))
  let ?s = "s1\<lparr>yy_input_file := yyin_rdbuf st1, fill_buffer := True, is_interactive := False\<rparr>"
  have on2: "on_buffer (set_buffer b ?s st1) b ?s ?blk"
    by (rule on_buffer_set [OF f(2)]) (use f(3) on in simp_all)
  have i: "yy_init_buffer b Yyin st = Inr (set_buffer b ?s st1)"
    using f on on_buffer_def [of st1 b s1] by (simp add: yy_init_buffer_def buffer_of_def rdbuf_def Let_def)
  let ?st = "set_buffer b ?s st1\<lparr>n_chars := 0, text_ptr := Some (ch_buf s, 0), c_buf_p := Some (ch_buf s, 0),
      yyin_rdbuf := yyin_rdbuf st1, stopped := False, yy_hold_char := NUL\<rparr>"
  have "yy_load_buffer_state (set_buffer b ?s st1) = Inr ?st"
    using load_buffer_state_on [OF on2, of 0 NUL] on f(3) by (simp add: nth_list_update)
  moreover have "yyrestart_m Yyin st = yy_load_buffer_state (set_buffer b ?s st1)"
    using on i by (simp add: yyrestart_m_def first_buffer_def lvalue_on [OF assms(1)])
  ultimately have "yyrestart_m Yyin st = Inr ?st" by simp
  moreover have "on_input ?st ?s input" using assms(2) rd by (simp add: on_input_def)
  moreover have "on_buffer ?st b ?s ?blk" using on2 by simp
  ultimately show ?thesis using f(3) by (intro exI [of _ ?st] exI [of _ ?s]) simp
qed

text \<open>The end of a refill: nothing needs to be extended, and the two end-of-buffer characters fit.\<close>

lemma end_m_on:
  assumes "on_buffer st b s blk" and "n_chars st + k \<le> buf_size s"
  shows "extend_m k st = Inr st"
    and "end_m k st = Inr (st\<lparr>n_chars := n_chars st + k, text_ptr := Some (ch_buf s, 0),
      mem := (mem st)(ch_buf s \<mapsto> blk[n_chars st + k := Some NUL, n_chars st + k + 1 := Some NUL])\<rparr>)"
proof -
  have on: "mem st (ch_buf s) = Some blk" "length blk = buf_size s + 2" using assms(1) by (simp_all add: on_buffer_def)
  show "extend_m k st = Inr st" using assms(2) by (simp add: extend_m_def lvalue_on [OF assms(1)])
  show "end_m k st = Inr (st\<lparr>n_chars := n_chars st + k, text_ptr := Some (ch_buf s, 0),
      mem := (mem st)(ch_buf s \<mapsto> blk[n_chars st + k := Some NUL, n_chars st + k + 1 := Some NUL])\<rparr>)"
    using on assms(2) by (simp add: end_m_def lvalue_on [OF assms(1)] store_def)
qed

section \<open>A refill in memory\<close>

lemma in_memoryI:
  assumes "on_buffer st b s blk" and "on_input st s (yyin lx)" and "n_chars st = yy_n_chars lx" and "yy_n_chars lx \<le> buf_size s"
    and "\<And>j. j < yy_n_chars lx + 2 \<Longrightarrow> blk ! j = Some (buffer lx ! j)"
    and "c_buf_p st = Some (ch_buf s, yy_c_buf_p lx)" and "text_ptr st = Some (ch_buf s, yytext_ptr lx)"
    and "buf_size s = yy_buf_size lx" and "buf_status s = yy_buffer_status lx"
  shows "in_memory st lx"
proof -
  have "blk ! 0 \<noteq> None" using assms(5) [of 0] by simp
  with assms show ?thesis unfolding in_memory_def holding_def by blast
qed

lemma refill_memory:
  assumes "in_memory st lx" and "yytext_ptr lx < yy_c_buf_p lx" and "yy_c_buf_p lx \<le> yy_n_chars lx + 1"
    and "yy_c_buf_p lx - yytext_ptr lx \<le> yy_buf_size lx"
  shows "\<exists>r st' lx'. yy_get_next_buffer lx = Inr (r, lx') \<and> yy_get_next_buffer_m st = Inr (r, st') \<and> in_memory st' lx'
    \<and> yy_n_chars lx' < yy_buf_size lx' \<and> (r = EOB_ACT_END_OF_FILE \<longrightarrow> yy_hold_char st' = NUL)"
proof -
  from assms(1) obtain b s blk where h: "holding st lx b s blk" by (auto simp: in_memory_def)
  let ?cp = "yy_c_buf_p lx" and ?tp = "yytext_ptr lx"
  define k where "k = ?cp - ?tp - 1"
  have kd: "?cp - Suc ?tp = k" by (simp add: k_def)
  let ?w = "take k (drop ?tp (yy_ch_buf lx))"
  let ?got = "reads (yy_buffer_status lx) (yyin lx)"
  note on = h [unfolded holding_def, THEN conjunct1] and h = h [unfolded holding_def on_buffer_def]
  have k: "?tp + k \<le> yy_n_chars lx" "k < buf_size s" "length ?w = k"
    using assms(2-4) h by (auto simp: yy_n_chars_def k_def)
  have src: "blk ! (?tp + i) = Some (?w ! i)" if "i < k" for i
  proof -
    have "blk ! (?tp + i) = Some (buffer lx ! (?tp + i))" using h k(1) that by auto
    moreover have "?tp + i < length (yy_ch_buf lx)" using that k(1) by (simp add: yy_n_chars_def)
    ultimately show ?thesis using that by (simp add: buffer_def nth_append)
  qed
  let ?blk1 = "take k (drop ?tp blk) @ drop k blk"
  let ?st1 = "st\<lparr>mem := (mem st)(ch_buf s \<mapsto> ?blk1)\<rparr>"
  have tk: "?tp + k + 2 \<le> length blk" using h k(1) by linarith
  then have len: "length ?blk1 = length blk" by simp
  have mv: "move_down (ch_buf s) 0 ?tp k st = Inr ?st1"
    using move_down_eq [of st "ch_buf s" blk ?tp k 0] h tk src by simp
  have on1: "on_buffer ?st1 b s ?blk1" by (rule on_buffer_mem [OF on len])
  have w1: "?blk1 ! j = Some (?w ! j)" if "j < k" for j
    using src [OF that] that tk by (simp add: nth_append)
  have in1: "on_input ?st1 s (yyin lx)" using h by (simp add: on_input_def)
  have "c_buf_p ?st1 = Some (ch_buf s, ?cp)" using h by simp
  from fill_m_on [OF on1 in1 this k(2)] h obtain st2 s2 blk2 where
    f: "fill_m k ?cp ?st1 = Inr st2" "on_buffer st2 b s2 blk2" "on_input st2 s2 (drop (length ?got) (yyin lx))"
      "n_chars st2 = length ?got" "\<And>j. j < k \<Longrightarrow> blk2 ! j = ?blk1 ! j" "\<And>c. c \<in> set ?got \<Longrightarrow> blk2 ! k = Some c"
      "buf_size s2 = grown (yy_buffer_status lx) k (yy_buf_size lx)" "buf_status s2 = yy_buffer_status lx"
      "c_buf_p st2 = Some (ch_buf s2, ?cp)" by auto
  have got: "length ?got \<le> 1" by (simp add: reads_def)
  have room: "k < buf_size s2" "?got \<noteq> [] \<Longrightarrow> k + 1 < buf_size s2"
    using f(7) k(2) h by (auto simp: grown_def grow_def reads_def)
  have run: "yy_get_next_buffer_m st = bindE (ret_val_m k st2) (\<lambda>(r, st3). bindE (extend_m k st3) (\<lambda>st4.
      bindE (end_m k st4) (\<lambda>st5. Inr (r, st5))))"
    using h assms(2,3) mv f(1) by (simp add: yy_get_next_buffer_m_def lvalue_on [OF on] offset_def Let_def kd)
  consider (cont) c where "?got = [c]" | (eof) "?got = []" "k = 0" | (last) "?got = []" "k \<noteq> 0"
    using got by (cases ?got) auto
  then show ?thesis
  proof cases
    case cont
    note e = end_m_on [OF f(2), of k]
    have n: "n_chars st2 + k \<le> buf_size s2" "n_chars st2 = 1" using f(4) room(2) cont by simp_all
    let ?blk = "blk2[1 + k := Some NUL, 1 + k + 1 := Some NUL]"
    let ?st = "st2\<lparr>n_chars := 1 + k, text_ptr := Some (ch_buf s2, 0), mem := (mem st2)(ch_buf s2 \<mapsto> ?blk)\<rparr>"
    let ?lx = "lx\<lparr>yy_buf_size := buf_size s2, yyin := tl (yyin lx), yy_ch_buf := ?w @ ?got, yytext_ptr := 0\<rparr>"
    have ln: "length blk2 = buf_size s2 + 2" using f(2) by (simp add: on_buffer_def)
    have "yy_get_next_buffer_m st = Inr (EOB_ACT_CONTINUE_SCAN, ?st)"
      using run e [OF n(1)] n(2) by (simp add: ret_val_m_def)
    moreover have "yy_get_next_buffer lx = Inr (EOB_ACT_CONTINUE_SCAN, ?lx)"
      using cont assms(2,3) f(7) by (cases "yyin lx")
        (auto simp: kd yy_get_next_buffer_def Let_def LexerInput_def reads_def grown_def split: if_splits)
    moreover have "in_memory ?st ?lx"
    proof (rule in_memoryI [of _ b s2 ?blk])
      have "on_buffer (st2\<lparr>mem := (mem st2)(ch_buf s2 \<mapsto> ?blk)\<rparr>) b s2 ?blk" by (rule on_buffer_mem [OF f(2)]) simp
      then show "on_buffer ?st b s2 ?blk" by (simp add: on_buffer_def fresh_def)
      show "on_input ?st s2 (yyin ?lx)" using f(3) cont by (simp add: on_input_def drop_Suc)
      show "?blk ! j = Some (buffer ?lx ! j)" if "j < yy_n_chars ?lx + 2" for j
      proof -
        have "j < k + 3" using that cont k(3) by (simp add: yy_n_chars_def)
        then consider "j < k" | "j = k" | "j = 1 + k" | "j = 1 + k + 1" by linarith
        then show ?thesis
          by cases (use f(5) [of j] f(6) [of c] w1 [of j] cont k(3) n(1,2) ln in \<open>simp_all add: buffer_def nth_append nth_list_update\<close>)
      qed
    qed (use f(8,9) cont k(3) n in \<open>simp_all add: yy_n_chars_def\<close>)
    moreover have "yy_n_chars ?lx < yy_buf_size ?lx" using room(2) cont k(3) by (simp add: yy_n_chars_def)
    ultimately show ?thesis by (meson eob_act.distinct)
  next
    case last
    let ?s3 = "s2\<lparr>buf_status := YY_BUFFER_EOF_PENDING\<rparr>"
    let ?st3 = "set_buffer b ?s3 st2"
    have on3: "on_buffer ?st3 b ?s3 blk2" by (rule on_buffer_set [OF f(2)]) (use f(2) in \<open>simp_all add: on_buffer_def\<close>)
    have n: "n_chars ?st3 + k \<le> buf_size ?s3" "n_chars st2 = 0" using f(4) room(1) last by simp_all
    note e = end_m_on [OF on3 n(1)]
    let ?blk = "blk2[k := Some NUL, k + 1 := Some NUL]"
    let ?st = "?st3\<lparr>n_chars := k, text_ptr := Some (ch_buf s2, 0), mem := (mem st2)(ch_buf s2 \<mapsto> ?blk)\<rparr>"
    let ?lx = "lx\<lparr>yy_buf_size := buf_size s2, yy_buffer_status := YY_BUFFER_EOF_PENDING, yy_ch_buf := ?w, yytext_ptr := 0\<rparr>"
    have ln: "length blk2 = buf_size s2 + 2" using f(2) by (simp add: on_buffer_def)
    have "yy_get_next_buffer_m st = Inr (EOB_ACT_LAST_MATCH, ?st)"
      using run e n(2) last by (simp add: ret_val_m_def lvalue_on [OF f(2)])
    moreover have "yy_get_next_buffer lx = Inr (EOB_ACT_LAST_MATCH, ?lx)"
      using last assms(2,3) f(7) by (cases "yyin lx")
        (auto simp: kd yy_get_next_buffer_def Let_def LexerInput_def reads_def grown_def split: if_splits)
    moreover have "in_memory ?st ?lx"
    proof (rule in_memoryI [of _ b ?s3 ?blk])
      have "on_buffer (?st3\<lparr>mem := (mem ?st3)(ch_buf ?s3 \<mapsto> ?blk)\<rparr>) b ?s3 ?blk" by (rule on_buffer_mem [OF on3]) simp
      then show "on_buffer ?st b ?s3 ?blk" by (simp add: on_buffer_def fresh_def)
      show "on_input ?st ?s3 (yyin ?lx)" using f(3) last by (simp add: on_input_def)
      show "?blk ! j = Some (buffer ?lx ! j)" if "j < yy_n_chars ?lx + 2" for j
      proof -
        have "j < k + 2" using that k(3) by (simp add: yy_n_chars_def)
        then consider "j < k" | "j = k" | "j = k + 1" by linarith
        then show ?thesis
          by cases (use f(5) [of j] w1 [of j] k(3) n(1,2) ln in \<open>simp_all add: buffer_def nth_append nth_list_update\<close>)
      qed
    qed (use f(9) k(3) n in \<open>simp_all add: yy_n_chars_def\<close>)
    moreover have "yy_n_chars ?lx < yy_buf_size ?lx" using room(1) k(3) by (simp add: yy_n_chars_def)
    ultimately show ?thesis by (meson eob_act.distinct)
  next
    case eof
    from restart_on [OF f(2,3)] obtain st3 s3 where
      r: "yyrestart_m Yyin st2 = Inr st3" "on_buffer st3 b s3 (blk2[0 := Some NUL, 1 := Some NUL])"
        "on_input st3 s3 (drop (length ?got) (yyin lx))" "n_chars st3 = 0" "c_buf_p st3 = Some (ch_buf s3, 0)"
        "text_ptr st3 = Some (ch_buf s3, 0)" "buf_size s3 = buf_size s2" "buf_status s3 = YY_BUFFER_NEW" "yy_hold_char st3 = NUL" by blast
    have n: "n_chars st3 + k \<le> buf_size s3" using r(4) eof by simp
    note e = end_m_on [OF r(2) n]
    let ?blk = "blk2[0 := Some NUL, 1 := Some NUL]"
    let ?st = "st3\<lparr>n_chars := 0, text_ptr := Some (ch_buf s3, 0), mem := (mem st3)(ch_buf s3 \<mapsto> ?blk)\<rparr>"
    let ?lx = "lx\<lparr>yy_buf_size := buf_size s2, yy_ch_buf := [], yytext_ptr := 0, yy_c_buf_p := 0, yy_buffer_status := YY_BUFFER_NEW\<rparr>"
    have ln: "length blk2 = buf_size s2 + 2" using f(2) by (simp add: on_buffer_def)
    have "?blk[0 := Some NUL, Suc 0 := Some NUL] = ?blk" by (simp add: list_update_swap [of 0 "Suc 0"])
    then have "yy_get_next_buffer_m st = Inr (EOB_ACT_END_OF_FILE, ?st)"
      using run e f(4) r(1,4) eof by (simp add: ret_val_m_def)
    moreover have "yy_get_next_buffer lx = Inr (EOB_ACT_END_OF_FILE, ?lx)"
      using eof assms(2,3) f(7) by (cases "yyin lx")
        (auto simp: kd yy_get_next_buffer_def Let_def LexerInput_def reads_def grown_def yyrestart_def yy_flush_buffer_def split: if_splits)
    moreover have "in_memory ?st ?lx"
    proof (rule in_memoryI [of _ b s3 ?blk])
      have "on_buffer (st3\<lparr>mem := (mem st3)(ch_buf s3 \<mapsto> ?blk)\<rparr>) b s3 ?blk" by (rule on_buffer_mem [OF r(2)]) simp
      then show "on_buffer ?st b s3 ?blk" by (simp add: on_buffer_def fresh_def)
      show "on_input ?st s3 (yyin ?lx)" using r(3) eof by (simp add: on_input_def)
      show "?blk ! j = Some (buffer ?lx ! j)" if "j < yy_n_chars ?lx + 2" for j
        using that ln by (cases j) (simp_all add: yy_n_chars_def buffer_def nth_list_update)
    qed (use r in \<open>simp_all add: yy_n_chars_def\<close>)
    moreover have "yy_n_chars ?lx < yy_buf_size ?lx" using room(1) by (simp add: yy_n_chars_def)
    moreover have "yy_hold_char ?st = NUL" using r(9) by simp
    ultimately show ?thesis by blast
  qed
qed

text \<open>C35: In memory a refill does what it does to the text of the scanner: it reads and writes inside the buffer it
  has, which it makes larger in time, keeps the text of the token, and leaves the buffer with room for more.\<close>

theorem refill_in_memory:
  assumes "in_memory st lx" and "yytext_ptr lx < yy_c_buf_p lx" and "yy_c_buf_p lx - yytext_ptr lx \<le> yy_buf_size lx"
  shows "case yy_get_next_buffer lx of
      Inl e \<Rightarrow> yy_get_next_buffer_m st = Inl e
    | Inr (r, lx') \<Rightarrow> (\<exists>st'. yy_get_next_buffer_m st = Inr (r, st') \<and> in_memory st' lx' \<and> yy_n_chars lx' < yy_buf_size lx')"
proof (cases "yy_c_buf_p lx \<le> yy_n_chars lx + 1")
  case True
  from refill_memory [OF assms(1,2) True assms(3)] show ?thesis by auto
next
  case False
  from assms(1) obtain b s blk where h: "holding st lx b s blk" by (auto simp: in_memory_def)
  then have "lvalue st = Inr (b, s)" by (auto simp: holding_def intro: lvalue_on)
  with h False show ?thesis by (simp add: holding_def yy_get_next_buffer_m_def offset_def yy_get_next_buffer_def)
qed

section \<open>A new buffer\<close>

definition new_buffer :: "stream_ref \<Rightarrow> nat \<Rightarrow> flex \<Rightarrow> yy_buffer_state" where
  "new_buffer r sz st = \<lparr>yy_input_file = rdbuf r st, ch_buf = lim st, buf_pos = (lim st, 0), buf_size = sz, buf_n_chars = 0,
     is_our_buffer = True, is_interactive = False, at_bol = True, bs_lineno = 1, bs_column = 0, fill_buffer = True,
     buf_status = YY_BUFFER_NEW\<rparr>"

definition with_new :: "stream_ref \<Rightarrow> nat \<Rightarrow> flex \<Rightarrow> flex" where
  "with_new r sz st = st\<lparr>lim := Suc (lim st), heap := (heap st)(lim st \<mapsto> new_buffer r sz st),
     mem := (mem st)(lim st \<mapsto> Some NUL # Some NUL # replicate sz None)\<rparr>"

lemma create_eq:
  assumes "current_buffer st = Inr c" and "c \<noteq> Some (lim st)"
  shows "yy_create_buffer r sz st = Inr (lim st, with_new r sz st)"
proof -
  have "rdbuf r (st\<lparr>lim := l, heap := h, mem := m\<rparr>) = rdbuf r st" for l h m by (cases r) (simp_all add: rdbuf_def)
  then show ?thesis using assms
    by (simp add: yy_create_buffer_def yy_init_buffer_def yy_flush_buffer_m_def buffer_of_def store_def Let_def set_buffer_def
        with_new_def new_buffer_def rdbuf_def split: stream_ref.split)
qed

lemma with_new_sel [simp]:
  "yy_buffer_stack (with_new r sz st) = yy_buffer_stack st" "yy_buffer_stack_top (with_new r sz st) = yy_buffer_stack_top st"
  "lim (with_new r sz st) = Suc (lim st)" "heap (with_new r sz st) = (heap st)(lim st \<mapsto> new_buffer r sz st)"
  "mem (with_new r sz st) = (mem st)(lim st \<mapsto> Some NUL # Some NUL # replicate sz None)"
  "sources (with_new r sz st) = sources st" "yyin_rdbuf (with_new r sz st) = yyin_rdbuf st" "c_buf_p (with_new r sz st) = c_buf_p st"
  "text_ptr (with_new r sz st) = text_ptr st" "n_chars (with_new r sz st) = n_chars st"
  "yy_hold_char (with_new r sz st) = yy_hold_char st" "current_buffer (with_new r sz st) = current_buffer st"
  by (simp_all add: with_new_def current_buffer_def split: option.split)

lemma set_current_eq: "yy_buffer_stack st = Some xs \<Longrightarrow> yy_buffer_stack_top st < length xs \<Longrightarrow>
    set_current v st = Inr (st\<lparr>yy_buffer_stack := Some (xs[yy_buffer_stack_top st := v])\<rparr>)"
  by (simp add: set_current_def)

definition ex_buffer :: flex where
  "ex_buffer = \<lparr>heap = [0 \<mapsto> \<lparr>yy_input_file = 0, ch_buf = 0, buf_pos = (0, 0), buf_size = 4, buf_n_chars = 1, is_our_buffer = True,
       is_interactive = False, at_bol = True, bs_lineno = 1, bs_column = 0, fill_buffer = True, buf_status = YY_BUFFER_NORMAL\<rparr>],
     mem = [0 \<mapsto> [Some CHR ''a'', Some NUL, Some NUL, None, None, None]], lim = 1, sources = (\<lambda>n. ''bc''), yyin_rdbuf = 0,
     stopped = False, yyout_rdbuf = 0, yy_hold_char = NUL, n_chars = 1, c_buf_p = Some (0, 2), text_ptr = Some (0, 0), yy_init = True,
     yy_did_buffer_switch_on_eof = False, yy_buffer_stack = Some [Some 0], yy_buffer_stack_top = 0\<rparr>"

definition ex_lexer :: lexer where
  "ex_lexer = (yyFlexLexer ''bc'' parser_init)\<lparr>yy_ch_buf := ''a'', yy_buf_size := 4, yy_c_buf_p := 2,
     yy_buffer_status := YY_BUFFER_NORMAL\<rparr>"

theorem refill_in_memory_witness:
  "\<exists>st' lx'. yy_get_next_buffer_m ex_buffer = Inr (EOB_ACT_CONTINUE_SCAN, st') \<and> in_memory st' lx' \<and> yy_ch_buf lx' = ''ab''"
proof -
  let ?lx = "ex_lexer\<lparr>yyin := ''c'', yy_ch_buf := ''ab''\<rparr>"
  have "in_memory ex_buffer ex_lexer"
  proof (rule in_memoryI)
    show "on_buffer ex_buffer 0 (the (heap ex_buffer 0)) (the (mem ex_buffer 0))"
      by (simp add: on_buffer_def ex_buffer_def current_buffer_def fresh_def)
    show "on_input ex_buffer (the (heap ex_buffer 0)) (yyin ex_lexer)"
      by (simp add: on_input_def ex_buffer_def ex_lexer_def yyFlexLexer_def)
    show "the (mem ex_buffer 0) ! j = Some (buffer ex_lexer ! j)" if "j < yy_n_chars ex_lexer + 2" for j
    proof -
      from that have "j = 0 \<or> j = 1 \<or> j = 2" by (simp add: yy_n_chars_def ex_lexer_def) linarith
      then show ?thesis by (auto simp: ex_buffer_def ex_lexer_def buffer_def)
    qed
  qed (simp_all add: ex_buffer_def ex_lexer_def yyFlexLexer_def yy_n_chars_def)
  moreover have "yy_get_next_buffer ex_lexer = Inr (EOB_ACT_CONTINUE_SCAN, ?lx)"
    by (simp add: ex_lexer_def yyFlexLexer_def yy_get_next_buffer_def yy_n_chars_def LexerInput_def grow_def)
  moreover have "yytext_ptr ex_lexer < yy_c_buf_p ex_lexer" "yy_c_buf_p ex_lexer - yytext_ptr ex_lexer \<le> yy_buf_size ex_lexer"
    by (simp_all add: ex_lexer_def yyFlexLexer_def)
  ultimately show ?thesis using refill_in_memory [of ex_buffer ex_lexer] by force
qed

end
