(* ===== verification/FlexReading.thy ===== *)
theory FlexReading
  imports FlexMemory
begin

text \<open>
  Reading and pushing back single characters in the memory of the scanner: \<open>yyinput\<close> gives the rest of the
  buffer and then the stream, and \<open>yyunput\<close> puts a character in front of it.
\<close>

section \<open>Between two tokens\<close>

text \<open>Between tokens the character at \<open>yy_c_buf_p\<close> is in \<open>yy_hold_char\<close>.\<close>

definition between :: "flex \<Rightarrow> lexer \<Rightarrow> bool" where
  "between st lx \<longleftrightarrow> yy_c_buf_p lx \<le> yy_n_chars lx \<and> yytext_ptr lx \<le> yy_n_chars lx
     \<and> yy_n_chars lx < yy_buf_size lx + min (yytext_ptr lx) (yy_c_buf_p lx) \<and> pending_ok lx
     \<and> (\<exists>p st1. c_buf_p st = Some p \<and> store p (yy_hold_char st) st = Inr st1 \<and> in_memory st1 lx)"

definition rest_of :: "lexer \<Rightarrow> string" where
  "rest_of lx = drop (yy_c_buf_p lx) (yy_ch_buf lx) @ yyin lx"

lemma in_memory_mem:
  assumes "in_memory st lx"
  obtains b s blk where "holding st lx b s blk" "on_buffer st b s blk" "lvalue st = Inr (b, s)" "mem st (ch_buf s) = Some blk"
    "length blk = yy_buf_size lx + 2" "yy_n_chars lx \<le> yy_buf_size lx" "c_buf_p st = Some (ch_buf s, yy_c_buf_p lx)"
    "text_ptr st = Some (ch_buf s, yytext_ptr lx)" "n_chars st = yy_n_chars lx"
    "\<And>j. min (yytext_ptr lx) (yy_c_buf_p lx) \<le> j \<Longrightarrow> j < yy_n_chars lx + 2 \<Longrightarrow> blk ! j = Some (buffer lx ! j)"
proof -
  from assms obtain b s blk where h: "holding st lx b s blk" by (auto simp: in_memory_def)
  have on: "on_buffer st b s blk" using h by (simp add: holding_def)
  show thesis
    by (rule that [OF h on lvalue_on [OF on]]) (use h on in \<open>simp_all add: holding_def on_buffer_def\<close>)
qed

lemma first_byte_update [simp]: "blk ! 0 = Some y \<Longrightarrow> \<exists>y. blk[i := Some c] ! 0 = Some y"
  by (cases blk; cases i) auto

lemma holding_mem:
  assumes "holding st lx b s blk" and "length blk' = length blk" and "length cs = yy_n_chars lx" and "blk' ! 0 \<noteq> None"
    and "\<And>j. min (yytext_ptr lx) cp \<le> j \<Longrightarrow> j < yy_n_chars lx + 2 \<Longrightarrow> blk' ! j = Some ((cs @ [NUL, NUL]) ! j)"
  shows "in_memory (st\<lparr>mem := (mem st)(ch_buf s \<mapsto> blk'), c_buf_p := Some (ch_buf s, cp), yy_hold_char := h\<rparr>)
    (lx\<lparr>yy_ch_buf := cs, yy_c_buf_p := cp\<rparr>)"
proof -
  let ?st = "st\<lparr>mem := (mem st)(ch_buf s \<mapsto> blk'), c_buf_p := Some (ch_buf s, cp), yy_hold_char := h\<rparr>"
  have "on_buffer (st\<lparr>mem := (mem st)(ch_buf s \<mapsto> blk')\<rparr>) b s blk'"
    using assms(1,2) by (intro on_buffer_mem) (simp_all add: holding_def)
  then have "on_buffer ?st b s blk'" by (simp add: on_buffer_def fresh_def)
  with assms show ?thesis unfolding in_memory_def holding_def
    by (intro exI [of _ b] exI [of _ s] exI [of _ blk']) (simp add: on_input_def yy_n_chars_def buffer_def)
qed

text \<open>Writing the held character back and forth.\<close>

lemma betweenI:
  assumes "holding st lx b s blk" and "length blk' = length blk" and "length cs = yy_n_chars lx" and "blk' ! 0 \<noteq> None"
    and "\<And>j. min (yytext_ptr lx) cp \<le> j \<Longrightarrow> j < yy_n_chars lx + 2 \<Longrightarrow> blk'[cp := Some h] ! j = Some ((cs @ [NUL, NUL]) ! j)"
    and "cp \<le> yy_n_chars lx" and "yytext_ptr lx \<le> yy_n_chars lx" and "pending_ok lx"
    and "yy_n_chars lx < yy_buf_size lx + min (yytext_ptr lx) cp"
  shows "between (st\<lparr>mem := (mem st)(ch_buf s \<mapsto> blk'), c_buf_p := Some (ch_buf s, cp), yy_hold_char := h\<rparr>)
    (lx\<lparr>yy_ch_buf := cs, yy_c_buf_p := cp\<rparr>)"
proof -
  let ?st = "st\<lparr>mem := (mem st)(ch_buf s \<mapsto> blk'), c_buf_p := Some (ch_buf s, cp), yy_hold_char := h\<rparr>"
  have "cp < length blk'" using assms(1,2,6) by (simp add: holding_def on_buffer_def)
  then have "store (ch_buf s, cp) h ?st = Inr (st\<lparr>mem := (mem st)(ch_buf s \<mapsto> blk'[cp := Some h]),
      c_buf_p := Some (ch_buf s, cp), yy_hold_char := h\<rparr>)"
    by (simp add: store_def fun_upd_def cong: if_cong)
  moreover have "in_memory (st\<lparr>mem := (mem st)(ch_buf s \<mapsto> blk'[cp := Some h]), c_buf_p := Some (ch_buf s, cp), yy_hold_char := h\<rparr>)
      (lx\<lparr>yy_ch_buf := cs, yy_c_buf_p := cp\<rparr>)"
    by (rule holding_mem [OF assms(1)]) (use assms(2-5) in \<open>auto simp: nth_list_update\<close>)
  ultimately show ?thesis using assms(3,6-9) unfolding between_def
    by (auto simp: yy_n_chars_def pending_ok_def)
qed

lemma betweenD:
  assumes "between st lx"
  obtains b s blk st1 where "c_buf_p st = Some (ch_buf s, yy_c_buf_p lx)" "store (ch_buf s, yy_c_buf_p lx) (yy_hold_char st) st = Inr st1"
    "holding st1 lx b s blk" "yy_hold_char st = buffer lx ! yy_c_buf_p lx" "in_memory st1 lx"
proof -
  from assms obtain p st1 where p: "c_buf_p st = Some p" "store p (yy_hold_char st) st = Inr st1" "in_memory st1 lx"
    by (auto simp: between_def)
  from p(3) obtain b s blk where h: "holding st1 lx b s blk" by (auto simp: in_memory_def)
  from p(2) obtain blk0 where b0: "mem st (fst p) = Some blk0" "snd p < length blk0"
    "st1 = st\<lparr>mem := (mem st)(fst p \<mapsto> blk0[snd p := Some (yy_hold_char st)])\<rparr>"
    by (auto simp: store_def split: option.splits if_splits)
  have c: "Some p = Some (ch_buf s, yy_c_buf_p lx)" using h p(1) b0(3) by (simp add: holding_def)
  then have "blk = blk0[yy_c_buf_p lx := Some (yy_hold_char st)]" using h b0(3) by (auto simp: holding_def on_buffer_def)
  moreover have "blk ! yy_c_buf_p lx = Some (buffer lx ! yy_c_buf_p lx)"
    using h assms by (auto simp: holding_def between_def)
  ultimately have "yy_hold_char st = buffer lx ! yy_c_buf_p lx" using b0(2) c by simp
  with that p c h show thesis by auto
qed

lemma store_same:
  assumes "mem st m = Some blk" and "i < length blk" and "blk ! i = Some c"
  shows "store (m, i) c st = Inr st"
proof -
  have "(mem st)(m \<mapsto> blk) = mem st" using assms(1) by auto
  moreover have "blk[i := Some c] = blk" using assms(3) by (metis list_update_id)
  ultimately show ?thesis using assms by (simp add: store_def)
qed

lemma between_same:
  assumes "in_memory st lx" and "yy_c_buf_p lx \<le> yy_n_chars lx" and "yytext_ptr lx \<le> yy_n_chars lx" and "pending_ok lx"
    and "yy_n_chars lx < yy_buf_size lx + min (yytext_ptr lx) (yy_c_buf_p lx)" and "yy_hold_char st = buffer lx ! yy_c_buf_p lx"
  shows "between st lx"
proof -
  from assms(1) obtain b s blk where "holding st lx b s blk" and m: "mem st (ch_buf s) = Some blk" "length blk = yy_buf_size lx + 2"
    "yy_n_chars lx \<le> yy_buf_size lx" "c_buf_p st = Some (ch_buf s, yy_c_buf_p lx)"
    "\<And>j. min (yytext_ptr lx) (yy_c_buf_p lx) \<le> j \<Longrightarrow> j < yy_n_chars lx + 2 \<Longrightarrow> blk ! j = Some (buffer lx ! j)"
    by (rule in_memory_mem) blast
  have "store (ch_buf s, yy_c_buf_p lx) (yy_hold_char st) st = Inr st"
    by (rule store_same [OF m(1)]) (use m(2,3) m(5) [of "yy_c_buf_p lx"] assms(2,6) in simp_all)
  with m(4) assms show ?thesis by (auto simp: between_def)
qed

lemma restart_between:
  assumes "on_buffer st b s blk" and "on_input st s []" and "0 < buf_size s"
  shows "\<exists>st' lx'. yyrestart_m Yyin st = Inr st' \<and> between st' lx' \<and> rest_of lx' = []"
proof -
  fix lx :: lexer
  let ?lx = "lx\<lparr>yy_ch_buf := [], yy_buf_size := buf_size s, yytext_ptr := 0,
    yy_c_buf_p := 0, yy_buffer_status := YY_BUFFER_NEW, yyin := []\<rparr>"
  from restart_on [OF assms(1,2)] obtain st' s' where
    r: "yyrestart_m Yyin st = Inr st'" "on_buffer st' b s' (blk[0 := Some NUL, 1 := Some NUL])"
      "on_input st' s' []" "n_chars st' = 0" "c_buf_p st' = Some (ch_buf s', 0)"
      "text_ptr st' = Some (ch_buf s', 0)" "buf_size s' = buf_size s" "buf_status s' = YY_BUFFER_NEW" "yy_hold_char st' = NUL"
    by blast
  have len: "length blk = buf_size s + 2" using assms(1) by (simp add: on_buffer_def)
  have "in_memory st' ?lx"
  proof (rule in_memoryI [OF r(2)])
    show "blk[0 := Some NUL, 1 := Some NUL] ! j = Some (buffer ?lx ! j)" if "j < yy_n_chars ?lx + 2" for j
      using that len by (cases j) (simp_all add: yy_n_chars_def buffer_def nth_list_update)
  qed (use r in \<open>simp_all add: yy_n_chars_def\<close>)
  then have "between st' ?lx" using r(9) assms(3)
    by (intro between_same) (simp_all add: yy_n_chars_def pending_ok_def buffer_def)
  moreover have "rest_of ?lx = []" by (simp add: rest_of_def)
  ultimately show ?thesis using r(1) by blast
qed

section \<open>Reading\<close>

lemma take_char_on:
  assumes "in_memory st lx" and "yy_c_buf_p lx < yy_n_chars lx" and "yytext_ptr lx \<le> yy_n_chars lx"
    and "yy_n_chars lx < yy_buf_size lx + min (yytext_ptr lx) (yy_c_buf_p lx)" and "pending_ok lx"
  shows "\<exists>st' lx'. take_char st = Inr (of_char (yy_ch_buf lx ! yy_c_buf_p lx), st') \<and> between st' lx'
    \<and> rest_of lx' = drop (Suc (yy_c_buf_p lx)) (yy_ch_buf lx) @ yyin lx"
proof -
  from assms(1) obtain b s blk where h: "holding st lx b s blk" and m: "mem st (ch_buf s) = Some blk"
    "length blk = yy_buf_size lx + 2" "yy_n_chars lx \<le> yy_buf_size lx" "c_buf_p st = Some (ch_buf s, yy_c_buf_p lx)"
    and known: "\<And>j. min (yytext_ptr lx) (yy_c_buf_p lx) \<le> j \<Longrightarrow> j < yy_n_chars lx + 2 \<Longrightarrow> blk ! j = Some (buffer lx ! j)"
    by (rule in_memory_mem) blast
  let ?cp = "yy_c_buf_p lx"
  let ?c = "yy_ch_buf lx ! ?cp" and ?h = "buffer lx ! Suc ?cp"
  let ?blk = "blk[?cp := Some NUL]" and ?cs = "(yy_ch_buf lx)[?cp := NUL]"
  let ?st = "st\<lparr>mem := (mem st)(ch_buf s \<mapsto> ?blk), c_buf_p := Some (ch_buf s, Suc ?cp), yy_hold_char := ?h\<rparr>"
  have cs: "?cp < length (yy_ch_buf lx)" using assms(2) by (simp add: yy_n_chars_def)
  have "blk ! ?cp = Some ?c" using known [of ?cp] assms(2) cs by (simp add: buffer_def nth_append)
  moreover have "blk ! Suc ?cp = Some ?h" using known [of "Suc ?cp"] assms(2) by simp
  ultimately have "take_char st = Inr (of_char ?c, ?st)" using m assms(2)
    by (simp add: take_char_def pointer_def load_def store_def)
  moreover have "between ?st (lx\<lparr>yy_ch_buf := ?cs, yy_c_buf_p := Suc ?cp\<rparr>)"
  proof (rule betweenI [OF h])
    show "?blk[Suc ?cp := Some ?h] ! j = Some ((?cs @ [NUL, NUL]) ! j)"
      if "min (yytext_ptr lx) (Suc ?cp) \<le> j" "j < yy_n_chars lx + 2" for j
    proof -
      have j: "min (yytext_ptr lx) ?cp \<le> j" "j < length blk" using that m(2,3) by simp_all
      consider "j = ?cp" | "j \<noteq> ?cp" by blast
      then show ?thesis
      proof cases
        case 1
        then show ?thesis using j(2) cs by (simp add: nth_append)
      next
        case 2
        then have "(?cs @ [NUL, NUL]) ! j = buffer lx ! j" by (simp add: buffer_def nth_append)
        with 2 known [OF j(1) that(2)] j(2) show ?thesis by (cases "j = Suc ?cp") simp_all
      qed
    qed
  qed (use assms cs h in \<open>auto simp: yy_n_chars_def holding_def nth_list_update\<close>)
  moreover have "rest_of (lx\<lparr>yy_ch_buf := ?cs, yy_c_buf_p := Suc ?cp\<rparr>) = drop (Suc ?cp) (yy_ch_buf lx) @ yyin lx"
    by (simp add: rest_of_def)
  ultimately show ?thesis by blast
qed

text \<open>\<open>yyinput\<close> gives the next character of the rest, and -1 at its end.\<close>

lemma yyinput_rest:
  assumes "between st lx"
  shows "\<exists>st' lx'. between st' lx' \<and> rest_of lx' = tl (rest_of lx)
    \<and> yyinput st = Inr (case rest_of lx of [] \<Rightarrow> - 1 | c # cs \<Rightarrow> of_char c, st')"
proof -
  from assms obtain b s blk st1 where p: "c_buf_p st = Some (ch_buf s, yy_c_buf_p lx)"
    "store (ch_buf s, yy_c_buf_p lx) (yy_hold_char st) st = Inr st1" "holding st1 lx b s blk"
    "yy_hold_char st = buffer lx ! yy_c_buf_p lx" "in_memory st1 lx" by (rule betweenD)
  note bt = assms [unfolded between_def]
  let ?cp = "yy_c_buf_p lx" and ?n = "yy_n_chars lx" and ?tp = "yytext_ptr lx"
  have on: "on_buffer st1 b s blk" "lvalue st1 = Inr (b, s)" using p(3) lvalue_on by (auto simp: holding_def)
  have st1: "mem st1 (ch_buf s) = Some blk" "length blk = yy_buf_size lx + 2" "?n \<le> yy_buf_size lx" "n_chars st1 = ?n"
    "text_ptr st1 = Some (ch_buf s, ?tp)" "c_buf_p st1 = Some (ch_buf s, ?cp)"
    using p(3) by (simp_all add: holding_def on_buffer_def)
  show ?thesis
  proof (cases "?cp < ?n")
    case True
    then have c: "?cp < length (yy_ch_buf lx)" "buffer lx ! ?cp = yy_ch_buf lx ! ?cp"
      by (simp_all add: yy_n_chars_def buffer_def nth_append)
    then have r: "rest_of lx = yy_ch_buf lx ! ?cp # drop (Suc ?cp) (yy_ch_buf lx) @ yyin lx"
      by (simp add: rest_of_def Cons_nth_drop_Suc)
    have same: "store (ch_buf s, ?cp) NUL st1 = Inr st1" if "yy_hold_char st = NUL"
      by (rule store_same [OF st1(1)]) (use p(3,4) that True st1(2,3) in \<open>simp_all add: holding_def\<close>)
    have "yyinput st = take_char st1"
      using p(1,2) same st1(4) True on(2) by (auto simp: yyinput_def pointer_def offset_def)
    with take_char_on [OF p(5) True] bt r show ?thesis by fastforce
  next
    case False
    then have cp: "?cp = ?n" using bt by simp
    have room: "?tp < Suc ?n" "Suc ?n - ?tp \<le> yy_buf_size lx" using bt cp by auto
    let ?lxE = "lx\<lparr>yy_c_buf_p := Suc ?n\<rparr>" and ?stE = "st1\<lparr>c_buf_p := Some (ch_buf s, Suc ?n)\<rparr>"
    let ?w = "drop ?tp (yy_ch_buf lx)"
    have E: "in_memory ?stE ?lxE"
    proof -
      have "holding ?stE ?lxE b s blk" using p(3) bt cp
        by (auto simp: holding_def on_input_def yy_n_chars_def buffer_def min_def split: if_splits)
      then show ?thesis by (auto simp: in_memory_def)
    qed
    have ref: "yy_get_next_buffer ?lxE = Inr (refilled ?lxE ?w)"
      by (rule next_buffer [of _ "take ?tp (yy_ch_buf lx)"]) (use bt in \<open>simp_all add: yy_n_chars_def\<close>)
    have "\<exists>r st' lx'. yy_get_next_buffer ?lxE = Inr (r, lx') \<and> yy_get_next_buffer_m ?stE = Inr (r, st') \<and> in_memory st' lx'
        \<and> yy_n_chars lx' < yy_buf_size lx' \<and> (r = EOB_ACT_END_OF_FILE \<longrightarrow> yy_hold_char st' = NUL)"
      by (rule refill_memory [OF E]) (use room in \<open>simp_all add: yy_n_chars_def\<close>)
    with ref obtain st2 where g: "yy_get_next_buffer_m ?stE = Inr (fst (refilled ?lxE ?w), st2)"
      "in_memory st2 (snd (refilled ?lxE ?w))" "yy_n_chars (snd (refilled ?lxE ?w)) < yy_buf_size (snd (refilled ?lxE ?w))"
      "fst (refilled ?lxE ?w) = EOB_ACT_END_OF_FILE \<longrightarrow> yy_hold_char st2 = NUL"
      by (metis Inr_inject fst_conv snd_conv)
    have "yy_hold_char st = NUL" using p(4) cp by (simp add: buffer_def yy_n_chars_def)
    then have run: "yyinput st = (case fst (refilled ?lxE ?w) of
             EOB_ACT_LAST_MATCH \<Rightarrow> bindE (yyrestart_m Yyin st2) (\<lambda>st3. Inr (- 1, st3))
           | EOB_ACT_END_OF_FILE \<Rightarrow> Inr (- 1, st2)
           | EOB_ACT_CONTINUE_SCAN \<Rightarrow> bindE (pointer (text_ptr st2)) (\<lambda>q.
               take_char (st2\<lparr>c_buf_p := Some (fst q, nat (int (snd q) + (int ?n - int ?tp)))\<rparr>)))"
      using p(1,2) cp st1(4,5) on(2) g(1) by (simp add: yyinput_def pointer_def offset_def)
    have w: "length ?w = ?n - ?tp" "nat (int ?n - int ?tp) = ?n - ?tp" by (simp add: yy_n_chars_def, linarith)
    have r: "rest_of lx = yyin lx" using cp by (simp add: rest_of_def yy_n_chars_def)
    show ?thesis
    proof (cases "yy_buffer_status lx = YY_BUFFER_EOF_PENDING \<or> yyin lx = []")
      case True
      then have e: "yyin lx = []" using bt by (auto simp: pending_ok_def)
      show ?thesis
      proof (cases "?w = []")
        case True
        then have f: "fst (refilled ?lxE ?w) = EOB_ACT_END_OF_FILE" using e by (simp add: refilled_def Let_def)
        let ?lx = "snd (refilled ?lxE ?w)"
        have lx: "yy_ch_buf ?lx = []" "yytext_ptr ?lx = 0" "yy_c_buf_p ?lx = 0" "yyin ?lx = []" "yy_buffer_status ?lx = YY_BUFFER_NEW"
          using True e by (simp_all add: refilled_def Let_def yyrestart_def yy_flush_buffer_def)
        have "between st2 ?lx"
          by (rule between_same [OF g(2)]) (use g(3,4) f lx in \<open>simp_all add: pending_ok_def buffer_def\<close>)
        moreover have "rest_of ?lx = []" using lx by (simp add: rest_of_def)
        ultimately show ?thesis using run f e r by auto
      next
        case False
        then have f: "fst (refilled ?lxE ?w) = EOB_ACT_LAST_MATCH" "yyin (snd (refilled ?lxE ?w)) = []"
          using e by (simp_all add: refilled_def Let_def)
        from g(2) obtain b2 s2 blk2 where h2: "holding st2 (snd (refilled ?lxE ?w)) b2 s2 blk2" by (auto simp: in_memory_def)
        have "\<exists>st3 lx3. yyrestart_m Yyin st2 = Inr st3 \<and> between st3 lx3 \<and> rest_of lx3 = []"
          by (rule restart_between) (use h2 g(3) f(2) in \<open>auto simp: holding_def\<close>)
        with run f e r show ?thesis by auto
      qed
    next
      case False
      then obtain c cs where c: "yyin lx = c # cs" by (cases "yyin lx") auto
      let ?lx = "snd (refilled ?lxE ?w)"
      have f: "fst (refilled ?lxE ?w) = EOB_ACT_CONTINUE_SCAN" "yy_ch_buf ?lx = ?w @ [c]" "yytext_ptr ?lx = 0" "yyin ?lx = cs"
        "yy_buffer_status ?lx = yy_buffer_status lx" using c False by (simp_all add: refilled_def)
      from g(2) obtain b2 s2 blk2 where h2: "holding st2 ?lx b2 s2 blk2" by (auto simp: in_memory_def)
      let ?st3 = "st2\<lparr>c_buf_p := Some (ch_buf s2, length ?w)\<rparr>" and ?lx3 = "?lx\<lparr>yy_c_buf_p := length ?w\<rparr>"
      have "holding ?st3 ?lx3 b2 s2 blk2" using h2 f(3)
        by (auto simp: holding_def on_input_def yy_n_chars_def buffer_def)
      then have "in_memory ?st3 ?lx3" by (auto simp: in_memory_def)
      moreover have "yyinput st = take_char ?st3"
        using run f(1,3) h2 w by (simp add: holding_def pointer_def)
      moreover have "pending_ok ?lx3" using False f(5) by (simp add: pending_ok_def)
      ultimately show ?thesis using take_char_on [of ?st3 ?lx3] f g(3) r c
        by (simp add: yy_n_chars_def nth_append) blast
    qed
  qed
qed

text \<open>Calling \<open>yyinput\<close> \<open>n\<close> times.\<close>

fun inputs :: "nat \<Rightarrow> flex \<Rightarrow> (int list \<times> flex) result" where
  "inputs 0 st = Inr ([], st)"
| "inputs (Suc n) st = bindE (yyinput st) (\<lambda>(c, st1). bindE (inputs n st1) (\<lambda>(cs, st2). Inr (c # cs, st2)))"

lemma inputs_rest:
  assumes "between st lx" and "rest_of lx = u @ v"
  shows "\<exists>st' lx'. inputs (length u) st = Inr (map of_char u, st') \<and> between st' lx' \<and> rest_of lx' = v"
  using assms
proof (induction u arbitrary: st lx)
  case (Cons c u)
  from yyinput_rest [OF Cons.prems(1)] Cons.prems(2) obtain st1 lx1 where
    "between st1 lx1" "rest_of lx1 = u @ v" "yyinput st = Inr (of_char c, st1)" by auto
  with Cons.IH [of st1 lx1] show ?case by auto
qed auto

text \<open>The constructor and the beginning of \<open>yylex\<close> make the empty buffer that \<open>Scanner\<close> starts with.\<close>

lemma first_buffer_between:
  assumes "fresh st"
  shows "\<exists>st'. yylex_begin cin (ctor_common i out st) = Inr st' \<and> between st' (yyFlexLexer (sources st i) g)"
proof -
  define st0 where "st0 = yyensure_buffer_stack (ctor_common i out st\<lparr>yy_init := True\<rparr>)"
  let ?s = "new_buffer Yyin 16384 st0"
  let ?blk = "Some NUL # Some NUL # replicate 16384 None"
  let ?st1 = "with_new Yyin 16384 st0\<lparr>yy_buffer_stack := Some [Some (lim st)]\<rparr>"
  let ?lx = "yyFlexLexer (sources st i) g"
  have e: "yy_buffer_stack st0 = Some [None]" "yy_buffer_stack_top st0 = 0" "lim st0 = lim st" "heap st0 = heap st"
    "mem st0 = mem st" "yyin_rdbuf st0 = i" "sources st0 = sources st"
    by (simp_all add: st0_def yyensure_buffer_stack_def ctor_common_def)
  have "current_buffer st0 = Inr None" using e by (simp add: current_buffer_def)
  from create_eq [OF this, of Yyin 16384] have "yy_create_buffer Yyin 16384 st0 = Inr (lim st, with_new Yyin 16384 st0)"
    by (simp add: e(3))
  moreover have "current_buffer (ctor_common i out st\<lparr>yy_init := True\<rparr>) = Inr None"
    by (simp add: current_buffer_def ctor_common_def)
  ultimately have f: "first_buffer (ctor_common i out st\<lparr>yy_init := True\<rparr>) = Inr ?st1"
    using e(1,2) by (simp add: first_buffer_def set_current_eq flip: st0_def)
  have on: "on_buffer ?st1 (lim st) ?s ?blk"
    using assms e by (auto simp: on_buffer_def current_buffer_def new_buffer_def fresh_def)
  let ?st = "?st1\<lparr>n_chars := 0, text_ptr := Some (lim st, 0), c_buf_p := Some (lim st, 0), yyin_rdbuf := i, stopped := False,
    yy_hold_char := NUL\<rparr>"
  have "yy_load_buffer_state ?st1 = Inr ?st"
    using load_buffer_state_on [OF on, of 0 NUL] e by (simp add: new_buffer_def rdbuf_def)
  with f have run: "yylex_begin cin (ctor_common i out st) = Inr ?st" by (simp add: yylex_begin_def std_input_def ctor_common_def)
  have "in_memory ?st ?lx"
  proof (rule in_memoryI)
    show "on_buffer ?st (lim st) ?s ?blk" using on by simp
    show "on_input ?st ?s (yyin ?lx)"
      using e by (simp add: on_input_def new_buffer_def rdbuf_def yyFlexLexer_def)
    show "?blk ! j = Some (buffer ?lx ! j)" if "j < yy_n_chars ?lx + 2" for j
      using that by (cases j) (simp_all add: yy_n_chars_def buffer_def yyFlexLexer_def)
  qed (use e in \<open>simp_all add: yy_n_chars_def yyFlexLexer_def new_buffer_def\<close>)
  then have "between ?st ?lx"
    by (rule between_same) (simp_all add: yy_n_chars_def yyFlexLexer_def pending_ok_def buffer_def)
  with run show ?thesis by blast
qed

text \<open>A new lexer gives with \<open>yyinput\<close> the characters of its stream in order, refilling and growing its buffer on
  the way without a bad access, and then the end of the file.\<close>

theorem yyinput_reads_stream:
  assumes "fresh st"
  shows "\<exists>st1 st2 st3. yylex_begin cin (ctor_common i out st) = Inr st1
    \<and> inputs (length (sources st i)) st1 = Inr (map of_char (sources st i), st2) \<and> yyinput st2 = Inr (- 1, st3)"
proof -
  from first_buffer_between [OF assms] obtain st1 where
    1: "yylex_begin cin (ctor_common i out st) = Inr st1" "between st1 (yyFlexLexer (sources st i) undefined)" by blast
  have "rest_of (yyFlexLexer (sources st i) undefined) = sources st i @ []" by (simp add: rest_of_def yyFlexLexer_def)
  from inputs_rest [OF 1(2) this] obtain st2 lx2 where
    2: "inputs (length (sources st i)) st1 = Inr (map of_char (sources st i), st2)" "between st2 lx2" "rest_of lx2 = []" by blast
  from yyinput_rest [OF 2(2)] 2(3) obtain st3 where "yyinput st2 = Inr (- 1, st3)" by auto
  with 1 2 show ?thesis by blast
qed

section \<open>Pushing back\<close>

lemma put_back:
  assumes "holding (st\<lparr>text_ptr := Some (ch_buf s, yytext_ptr lx), c_buf_p := Some (ch_buf s, yy_c_buf_p lx)\<rparr>) lx b s blk"
    and "2 \<le> yy_c_buf_p lx" and "yy_c_buf_p lx \<le> yy_n_chars lx" and "yytext_ptr lx \<le> yy_n_chars lx" and "pending_ok lx"
    and "yy_n_chars lx < yy_buf_size lx + min (yytext_ptr lx) (yy_c_buf_p lx)"
  shows "\<exists>st' lx'. bindE (store (ch_buf s, yy_c_buf_p lx - 1) c st) (\<lambda>st3. Inr (st3\<lparr>text_ptr := Some (ch_buf s, yytext_ptr lx),
      yy_hold_char := c, c_buf_p := Some (ch_buf s, yy_c_buf_p lx - 1)\<rparr>)) = Inr st'
    \<and> between st' lx' \<and> rest_of lx' = c # rest_of lx"
proof -
  let ?m = "ch_buf s" and ?i = "yy_c_buf_p lx - 1" and ?tp = "yytext_ptr lx"
  let ?blk = "blk[?i := Some c]" and ?cs = "(yy_ch_buf lx)[?i := c]"
  let ?st = "st\<lparr>text_ptr := Some (?m, ?tp), c_buf_p := Some (?m, yy_c_buf_p lx)\<rparr>"
  let ?st' = "?st\<lparr>mem := (mem ?st)(?m \<mapsto> ?blk), c_buf_p := Some (?m, ?i), yy_hold_char := c\<rparr>"
  let ?lx = "lx\<lparr>yy_ch_buf := ?cs, yy_c_buf_p := ?i\<rparr>"
  have m: "mem st ?m = Some blk" "length blk = yy_buf_size lx + 2" "yy_n_chars lx \<le> yy_buf_size lx"
    "\<And>j. min ?tp (yy_c_buf_p lx) \<le> j \<Longrightarrow> j < yy_n_chars lx + 2 \<Longrightarrow> blk ! j = Some (buffer lx ! j)"
    using assms(1) by (simp_all add: holding_def on_buffer_def)
  have i: "?i < length (yy_ch_buf lx)" "?i < length blk" using assms(2,3) m(2,3) by (simp_all add: yy_n_chars_def)
  have "between ?st' ?lx"
  proof (rule betweenI [OF assms(1)])
    show "?blk[?i := Some c] ! j = Some ((?cs @ [NUL, NUL]) ! j)" if "min ?tp ?i \<le> j" "j < yy_n_chars lx + 2" for j
    proof (cases "j = ?i")
      case True
      then show ?thesis using i by (simp add: nth_append)
    next
      case False
      then have "min ?tp (yy_c_buf_p lx) \<le> j" using that(1) assms(2) by (auto simp: min_def split: if_splits)
      then have "blk ! j = Some (buffer lx ! j)" using m(4) that(2) by blast
      with False show ?thesis by (simp add: buffer_def nth_append)
    qed
  qed (use assms m(3) in \<open>auto simp: yy_n_chars_def holding_def min_def split: if_splits\<close>)
  moreover have "bindE (store (?m, ?i) c st) (\<lambda>st3. Inr (st3\<lparr>text_ptr := Some (?m, ?tp),
      yy_hold_char := c, c_buf_p := Some (?m, ?i)\<rparr>)) = Inr ?st'"
    using m(1) i(2) by (simp add: store_in)
  moreover have "rest_of ?lx = c # rest_of lx"
  proof -
    have "drop ?i ?cs = c # drop (Suc ?i) (yy_ch_buf lx)" using i(1) by (simp add: Cons_nth_drop_Suc [symmetric])
    with assms(2) show ?thesis by (simp add: rest_of_def)
  qed
  ultimately show ?thesis by blast
qed

text \<open>At the start of the buffer everything is moved to its end first.\<close>

lemma shift_up:
  assumes "holding st lx b s blk" and "yy_c_buf_p lx < 2" and "yy_c_buf_p lx \<le> yy_n_chars lx"
  defines "d \<equiv> yy_buf_size lx - yy_n_chars lx"
  shows "\<exists>st'. move_up (ch_buf s) (buf_size s + 2) (n_chars st + 2) st = Inr (d, st')
    \<and> n_chars st' = n_chars st \<and> c_buf_p st' = c_buf_p st
    \<and> (2 \<le> yy_c_buf_p lx + d \<longrightarrow>
      holding ((set_buffer b (s\<lparr>buf_n_chars := buf_size s\<rparr>) (st'\<lparr>n_chars := buf_size s\<rparr>))
          \<lparr>text_ptr := Some (ch_buf s, yytext_ptr lx + d), c_buf_p := Some (ch_buf s, yy_c_buf_p lx + d)\<rparr>)
        (lx\<lparr>yy_ch_buf := replicate d NUL @ yy_ch_buf lx, yytext_ptr := yytext_ptr lx + d, yy_c_buf_p := yy_c_buf_p lx + d\<rparr>)
        b (s\<lparr>buf_n_chars := buf_size s\<rparr>) (take d blk @ take (n_chars st + 2) blk))"
proof -
  let ?n = "yy_n_chars lx"
  have m: "mem st (ch_buf s) = Some blk" "length blk = yy_buf_size lx + 2" "?n \<le> yy_buf_size lx" "n_chars st = ?n" "buf_size s = yy_buf_size lx"
    "blk ! 0 \<noteq> None" "\<And>j. min (yytext_ptr lx) (yy_c_buf_p lx) \<le> j \<Longrightarrow> j < ?n + 2 \<Longrightarrow> blk ! j = Some (buffer lx ! j)"
    using assms(1) by (simp_all add: holding_def on_buffer_def)
  have known: "blk ! j \<noteq> None" if "j < ?n + 2" for j
    using m(6) m(7) [of j] that assms(2) by (cases j) (auto simp: min_def split: if_splits)
  have d: "?n + 2 + d = yy_buf_size lx + 2" using m(3) by (simp add: d_def)
  let ?blk = "take d blk @ take (?n + 2) blk"
  have len: "length ?blk = length blk" using d m(2) by simp
  let ?st' = "st\<lparr>mem := (mem st)(ch_buf s \<mapsto> ?blk)\<rparr>"
  have "move_up (ch_buf s) (?n + 2 + d) (?n + 2) st =
      Inr (d, st\<lparr>mem := (mem st)(ch_buf s \<mapsto> take d blk @ take (?n + 2) blk @ drop (d + (?n + 2)) blk)\<rparr>)"
    by (rule move_up_eq [OF m(1)]) (use d m(2) known in simp_all)
  moreover have "drop (d + (?n + 2)) blk = []" using d m(2) by simp
  ultimately have mv: "move_up (ch_buf s) (buf_size s + 2) (n_chars st + 2) st = Inr (d, ?st')"
    by (simp only: append_Nil2 m(4,5) flip: d)
  let ?s = "s\<lparr>buf_n_chars := buf_size s\<rparr>"
  let ?st2 = "set_buffer b ?s (?st'\<lparr>n_chars := buf_size s\<rparr>)"
  let ?st3 = "?st2\<lparr>text_ptr := Some (ch_buf s, yytext_ptr lx + d), c_buf_p := Some (ch_buf s, yy_c_buf_p lx + d)\<rparr>"
  let ?lx = "lx\<lparr>yy_ch_buf := replicate d NUL @ yy_ch_buf lx, yytext_ptr := yytext_ptr lx + d, yy_c_buf_p := yy_c_buf_p lx + d\<rparr>"
  have "holding ?st3 ?lx b ?s ?blk" if "2 \<le> yy_c_buf_p lx + d"
  proof -
    have "on_buffer ?st' b s ?blk" by (rule on_buffer_mem) (use assms(1) len in \<open>simp_all add: holding_def\<close>)
    then have "on_buffer (?st'\<lparr>n_chars := buf_size s\<rparr>) b s ?blk" by simp
    then have "on_buffer ?st2 b ?s ?blk" by (rule on_buffer_set) (use assms(1) in \<open>simp_all add: holding_def on_buffer_def\<close>)
    then have "on_buffer ?st3 b ?s ?blk" by simp
    moreover have "?blk ! j = Some (buffer ?lx ! j)"
      if "min (yytext_ptr lx) (yy_c_buf_p lx) + d \<le> j" "j < yy_n_chars ?lx + 2" for j
    proof -
      have j: "d \<le> j" "j - d < ?n + 2" "min (yytext_ptr lx) (yy_c_buf_p lx) \<le> j - d"
        using that by (simp_all add: yy_n_chars_def)
      have "d \<le> length blk" using d m(2) by simp
      then have "?blk ! j = blk ! (j - d)" using j by (simp add: nth_append)
      moreover have "buffer ?lx ! j = buffer lx ! (j - d)" using j(1) by (simp add: buffer_def nth_append)
      ultimately show ?thesis using m(7) [OF j(3,2)] by simp
    qed
    moreover have "?blk ! 0 \<noteq> None"
    proof -
      have "0 < d" "0 < length blk" using that assms(2) m(2) by simp_all
      with m(6) show ?thesis by (simp add: nth_append)
    qed
    ultimately show ?thesis using assms(1) d m
      by (simp add: holding_def on_input_def yy_n_chars_def min_add_distrib_left)
  qed
  with mv m(4) show ?thesis by simp
qed

text \<open>\<open>unput\<close> puts a character in front of what \<open>yyinput\<close> will read; it fails, and ends the program, only if
  the buffer is full.\<close>

theorem yyunput_rest:
  assumes "between st lx" and "text_ptr st = Some q"
  shows "if 2 \<le> yy_c_buf_p lx + (yy_buf_size lx - yy_n_chars lx)
    then \<exists>st' lx'. yyunput c q st = Inr st' \<and> between st' lx' \<and> rest_of lx' = c # rest_of lx
    else yyunput c q st = Inl (Exit_failure ''flex scanner push-back overflow'')"
proof -
  from assms(1) obtain b s blk st1 where p: "c_buf_p st = Some (ch_buf s, yy_c_buf_p lx)"
    "store (ch_buf s, yy_c_buf_p lx) (yy_hold_char st) st = Inr st1" "holding st1 lx b s blk" "in_memory st1 lx"
    by (rule betweenD) blast
  note bt = assms(1) [unfolded between_def]
  let ?cp = "yy_c_buf_p lx" and ?tp = "yytext_ptr lx" and ?d = "yy_buf_size lx - yy_n_chars lx"
  have lv: "lvalue st1 = Inr (b, s)" using p(3) lvalue_on by (auto simp: holding_def)
  have st1: "n_chars st1 = yy_n_chars lx" "buf_size s = yy_buf_size lx" "c_buf_p st1 = Some (ch_buf s, ?cp)"
    "text_ptr st1 = Some (ch_buf s, ?tp)" "yy_n_chars lx \<le> yy_buf_size lx" using p(3) by (simp_all add: holding_def)
  have "text_ptr st1 = text_ptr st" using p(2) by (auto simp: store_def split: option.splits if_splits)
  then have q: "q = (ch_buf s, ?tp)" using st1(4) assms(2) by simp
  show ?thesis
  proof (cases "?cp < 2")
    case False
    have "st1\<lparr>text_ptr := Some (ch_buf s, ?tp), c_buf_p := Some (ch_buf s, ?cp)\<rparr> = st1" using st1(3,4) by simp
    with p(3) have "holding (st1\<lparr>text_ptr := Some (ch_buf s, ?tp), c_buf_p := Some (ch_buf s, ?cp)\<rparr>) lx b s blk" by simp
    from put_back [OF this] False bt obtain st' lx' where
      "bindE (store (ch_buf s, ?cp - 1) c st1) (\<lambda>st3. Inr (st3\<lparr>text_ptr := Some (ch_buf s, ?tp),
        yy_hold_char := c, c_buf_p := Some (ch_buf s, ?cp - 1)\<rparr>)) = Inr st'" "between st' lx'" "rest_of lx' = c # rest_of lx"
      by (metis not_less)
    with False p(1,2) lv q show ?thesis by (auto simp: yyunput_def pointer_def offset_def)
  next
    case True
    define d where "d = ?d"
    from shift_up [OF p(3) True] bt obtain st2 where s2:
      "move_up (ch_buf s) (buf_size s + 2) (n_chars st1 + 2) st1 = Inr (d, st2)" and
      h: "2 \<le> ?cp + d \<longrightarrow>
        holding ((set_buffer b (s\<lparr>buf_n_chars := buf_size s\<rparr>) (st2\<lparr>n_chars := buf_size s\<rparr>))
            \<lparr>text_ptr := Some (ch_buf s, ?tp + d), c_buf_p := Some (ch_buf s, ?cp + d)\<rparr>)
          (lx\<lparr>yy_ch_buf := replicate d NUL @ yy_ch_buf lx, yytext_ptr := ?tp + d, yy_c_buf_p := ?cp + d\<rparr>)
          b (s\<lparr>buf_n_chars := buf_size s\<rparr>) (take d blk @ take (n_chars st1 + 2) blk)" unfolding d_def by blast
    let ?s = "s\<lparr>buf_n_chars := buf_size s\<rparr>"
    let ?st3 = "set_buffer b ?s (st2\<lparr>n_chars := buf_size s\<rparr>)"
    let ?lx = "lx\<lparr>yy_ch_buf := replicate d NUL @ yy_ch_buf lx, yytext_ptr := ?tp + d, yy_c_buf_p := ?cp + d\<rparr>"
    have run: "yyunput c q st = (if ?cp + d < 2 then Inl (Exit_failure ''flex scanner push-back overflow'')
        else bindE (store (ch_buf s, ?cp + d - 1) c ?st3) (\<lambda>st3. Inr (st3\<lparr>text_ptr := Some (ch_buf s, ?tp + d),
          yy_hold_char := c, c_buf_p := Some (ch_buf s, ?cp + d - 1)\<rparr>)))"
      using True p(1,2) lv q s2 by (simp add: yyunput_def pointer_def offset_def Let_def del: move_up.simps)
    have dn: "d + yy_n_chars lx = yy_buf_size lx" using st1(5) by (simp add: d_def)
    have "if 2 \<le> ?cp + d then \<exists>st' lx'. yyunput c q st = Inr st' \<and> between st' lx' \<and> rest_of lx' = c # rest_of lx
      else yyunput c q st = Inl (Exit_failure ''flex scanner push-back overflow'')"
    proof (cases "2 \<le> ?cp + d")
      case False
      with run show ?thesis by simp
    next
      case room: True
      have "\<exists>st' lx'. bindE (store (ch_buf ?s, yy_c_buf_p ?lx - 1) c ?st3) (\<lambda>st3. Inr (st3\<lparr>text_ptr := Some (ch_buf ?s, yytext_ptr ?lx),
          yy_hold_char := c, c_buf_p := Some (ch_buf ?s, yy_c_buf_p ?lx - 1)\<rparr>)) = Inr st'
        \<and> between st' lx' \<and> rest_of lx' = c # rest_of ?lx"
        by (rule put_back) (use h room True bt st1(5) dn in \<open>simp_all add: yy_n_chars_def pending_ok_def\<close>)
      moreover have "rest_of ?lx = rest_of lx" by (simp add: rest_of_def)
      ultimately show ?thesis using run room by auto
    qed
    then show ?thesis unfolding d_def .
  qed
qed

text \<open>What was pushed back is read again, and then the text goes on as before.\<close>

theorem unput_then_input:
  assumes "between st lx" and "text_ptr st = Some q" and "2 \<le> yy_c_buf_p lx + (yy_buf_size lx - yy_n_chars lx)"
  shows "\<exists>st1 st2 lx2. yyunput c q st = Inr st1 \<and> yyinput st1 = Inr (of_char c, st2) \<and> between st2 lx2 \<and> rest_of lx2 = rest_of lx"
proof -
  from yyunput_rest [OF assms(1,2), of c] assms(3) obtain st1 lx1 where
    1: "yyunput c q st = Inr st1" "between st1 lx1" "rest_of lx1 = c # rest_of lx" by auto
  from yyinput_rest [OF 1(2)] 1(3) have "\<exists>st2 lx2. yyinput st1 = Inr (of_char c, st2) \<and> between st2 lx2 \<and> rest_of lx2 = rest_of lx"
    by auto
  with 1(1) show ?thesis by blast
qed

end
