(* ===== verification/FlexStack.thy ===== *)
theory FlexStack
  imports FlexReading
begin

text \<open>
  The stack of buffers of \<open>src/library_src/flex.cpp\<close>: creating, pushing, popping, restarting and replacing
  buffers keeps every pointer good, and the buffers that are allocated are those on the stack. A second part
  shows that a buffer that was left is resumed where it was.
\<close>

section \<open>The heap\<close>

text \<open>A buffer with its block; \<open>buf_pos\<close> points to a byte with a value.\<close>

definition good_buffer :: "flex \<Rightarrow> nat \<Rightarrow> bool" where
  "good_buffer st b \<longleftrightarrow> (\<exists>s blk i. heap st b = Some s \<and> is_our_buffer s \<and> fill_buffer s \<and> mem st (ch_buf s) = Some blk
     \<and> length blk = buf_size s + 2 \<and> buf_pos s = (ch_buf s, i) \<and> i < length blk \<and> blk ! i \<noteq> None)"

definition block_of :: "flex \<Rightarrow> nat \<Rightarrow> nat" where
  "block_of st b = ch_buf (the (heap st b))"

definition heap_ok :: "flex \<Rightarrow> nat set \<Rightarrow> bool" where
  "heap_ok st bs \<longleftrightarrow> fresh st \<and> dom (heap st) = bs \<and> (\<forall>b \<in> bs. good_buffer st b) \<and> inj_on (block_of st) bs
     \<and> dom (mem st) = block_of st ` bs"

lemma heap_ok_cong: "heap st' = heap st \<Longrightarrow> mem st' = mem st \<Longrightarrow> lim st' = lim st \<Longrightarrow> heap_ok st' bs = heap_ok st bs"
  by (simp add: heap_ok_def good_buffer_def block_of_def [abs_def] fresh_def)

lemma heap_ok_simps [simp]:
  "heap_ok (st\<lparr>yy_buffer_stack := x\<rparr>) bs = heap_ok st bs" "heap_ok (st\<lparr>yy_buffer_stack_top := n\<rparr>) bs = heap_ok st bs"
  "heap_ok (st\<lparr>n_chars := n\<rparr>) bs = heap_ok st bs" "heap_ok (st\<lparr>text_ptr := p\<rparr>) bs = heap_ok st bs"
  "heap_ok (st\<lparr>c_buf_p := p\<rparr>) bs = heap_ok st bs" "heap_ok (st\<lparr>yyin_rdbuf := n\<rparr>) bs = heap_ok st bs"
  "heap_ok (st\<lparr>stopped := b\<rparr>) bs = heap_ok st bs" "heap_ok (st\<lparr>yy_hold_char := c\<rparr>) bs = heap_ok st bs"
  "heap_ok (st\<lparr>yy_did_buffer_switch_on_eof := b\<rparr>) bs = heap_ok st bs" "heap_ok (st\<lparr>yyout_rdbuf := n\<rparr>) bs = heap_ok st bs"
  "heap_ok (st\<lparr>yy_init := b\<rparr>) bs = heap_ok st bs"
  by (rule heap_ok_cong; simp)+

lemma heap_ok_lim: "heap_ok st bs \<Longrightarrow> b \<in> bs \<Longrightarrow> b < lim st \<and> block_of st b < lim st"
  unfolding heap_ok_def fresh_def by (metis domD domI image_eqI not_le option.distinct(1))

lemma heap_ok_get:
  assumes "heap_ok st bs" and "b \<in> bs"
  obtains s blk i c where "heap st b = Some s" "is_our_buffer s" "fill_buffer s" "mem st (ch_buf s) = Some blk"
    "length blk = buf_size s + 2" "buf_pos s = (ch_buf s, i)" "i < length blk" "blk ! i = Some c"
proof -
  have "good_buffer st b" using assms by (simp add: heap_ok_def)
  then show thesis unfolding good_buffer_def using that by blast
qed

lemma heap_ok_new:
  assumes "heap_ok st bs"
  shows "heap_ok (with_new r sz st) (insert (lim st) bs)"
proof -
  let ?a = "lim st" and ?st = "with_new r sz st"
  have a: "?a \<notin> bs" "?a \<notin> block_of st ` bs" using heap_ok_lim [OF assms] by (blast, force)
  have same: "block_of ?st b = block_of st b" if "b \<in> bs" for b using that a(1) by (auto simp: block_of_def)
  have new: "block_of ?st ?a = ?a" by (simp add: block_of_def new_buffer_def)
  have "good_buffer ?st b" if "b \<in> bs" for b
  proof -
    from heap_ok_get [OF assms that] obtain s blk i c where s: "heap st b = Some s" "is_our_buffer s" "fill_buffer s"
      "mem st (ch_buf s) = Some blk" "length blk = buf_size s + 2" "buf_pos s = (ch_buf s, i)" "i < length blk" "blk ! i = Some c" .
    have "block_of st b = ch_buf s" using s(1) by (simp add: block_of_def)
    then have "b \<noteq> ?a" "ch_buf s \<noteq> ?a" using that a by (metis, metis image_eqI)
    with s show ?thesis by (simp add: good_buffer_def)
  qed
  moreover have "good_buffer ?st ?a" by (simp add: good_buffer_def new_buffer_def)
  moreover have "fresh ?st" using assms by (auto simp: heap_ok_def fresh_def)
  moreover have "inj_on (block_of ?st) (insert ?a bs)"
  proof -
    have "inj_on (block_of ?st) bs" using assms same by (simp add: heap_ok_def cong: inj_on_cong)
    moreover have "block_of ?st ?a \<notin> block_of ?st ` (bs - {?a})" using a same new by auto
    ultimately show ?thesis using a(1) by simp
  qed
  moreover have "block_of ?st ` insert ?a bs = insert ?a (block_of st ` bs)" using same new by force
  ultimately show ?thesis using assms by (simp add: heap_ok_def)
qed

lemma heap_ok_delete:
  assumes "heap_ok st bs" and "b \<in> bs" and "heap st b = Some s"
    and "heap st' = (heap st)(b := None)" and "mem st' = (mem st)(ch_buf s := None)" and "lim st' = lim st"
  shows "heap_ok st' (bs - {b})"
proof -
  have blk: "block_of st b = ch_buf s" using assms(3) by (simp add: block_of_def)
  have same: "block_of st' x = block_of st x" if "x \<in> bs - {b}" for x using that assms(4) by (simp add: block_of_def)
  have other: "block_of st x \<noteq> ch_buf s" if "x \<in> bs - {b}" for x
    using assms(1,2) that blk unfolding heap_ok_def inj_on_def by (metis DiffE insertI1)
  have "good_buffer st' x" if "x \<in> bs - {b}" for x
  proof -
    from that have "x \<in> bs" by simp
    from heap_ok_get [OF assms(1) this] obtain s' blk i c where s: "heap st x = Some s'" "is_our_buffer s'" "fill_buffer s'"
      "mem st (ch_buf s') = Some blk" "length blk = buf_size s' + 2" "buf_pos s' = (ch_buf s', i)" "i < length blk" "blk ! i = Some c" .
    have "ch_buf s' \<noteq> ch_buf s" using other [OF that] s(1) by (simp add: block_of_def)
    with s that assms(4,5) show ?thesis by (simp add: good_buffer_def)
  qed
  moreover have "block_of st' ` (bs - {b}) = block_of st ` bs - {ch_buf s}" using same other blk by force
  moreover have "inj_on (block_of st') (bs - {b})"
    using assms(1) same by (auto simp: heap_ok_def inj_on_def)
  moreover have "fresh st'" using assms(1,4-6) by (auto simp: heap_ok_def fresh_def)
  ultimately show ?thesis using assms(1,4,5) by (auto simp: heap_ok_def)
qed

text \<open>Changing one buffer in place.\<close>

lemma heap_ok_change:
  assumes "heap_ok st bs" and "b \<in> bs" and "heap st b = Some s" and "mem st (ch_buf s) = Some blk"
    and "heap st' = (heap st)(b \<mapsto> s')" and "mem st' = (mem st)(ch_buf s \<mapsto> blk')" and "lim st' = lim st"
    and "ch_buf s' = ch_buf s" and "buf_size s' = buf_size s" and "is_our_buffer s'" and "fill_buffer s'"
    and "length blk' = length blk" and "buf_pos s' = (ch_buf s, i)" and "i < length blk" and "blk' ! i \<noteq> None"
  shows "heap_ok st' bs"
proof -
  have same: "block_of st' x = block_of st x" for x using assms(3,5,8) by (simp add: block_of_def)
  have "good_buffer st' x" if "x \<in> bs" for x
  proof (cases "x = b")
    case True
    from heap_ok_get [OF assms(1,2)] have "length blk = buf_size s + 2" using assms(3,4) by force
    with assms(5-15) True show ?thesis by (auto simp: good_buffer_def)
  next
    case False
    from heap_ok_get [OF assms(1) that] obtain s2 blk2 i c where s: "heap st x = Some s2" "is_our_buffer s2" "fill_buffer s2"
      "mem st (ch_buf s2) = Some blk2" "length blk2 = buf_size s2 + 2" "buf_pos s2 = (ch_buf s2, i)" "i < length blk2" "blk2 ! i = Some c" .
    have "block_of st x = ch_buf s2" "block_of st b = ch_buf s" using s(1) assms(3) by (simp_all add: block_of_def)
    then have "ch_buf s2 \<noteq> ch_buf s" using assms(1,2) that False unfolding heap_ok_def inj_on_def by metis
    with s False assms(5,6) show ?thesis by (simp add: good_buffer_def)
  qed
  moreover have "dom (mem st') = dom (mem st)" "dom (heap st') = dom (heap st)" using assms(3-6) by auto
  moreover have "fresh st'" using assms(1,3-7) by (auto simp: heap_ok_def fresh_def)
  ultimately show ?thesis using assms(1) same by (simp add: heap_ok_def image_def inj_on_def)
qed

section \<open>The stack\<close>

text \<open>The stack with the buffers \<open>bs\<close>, the last on top; and the stack whose top, above \<open>bs\<close>, is a null pointer.\<close>

definition stack_of :: "flex \<Rightarrow> nat list \<Rightarrow> bool" where
  "stack_of st bs \<longleftrightarrow> (if bs = [] then yy_buffer_stack st = None \<or>
       (\<exists>k. yy_buffer_stack st = Some (replicate (Suc k) None) \<and> yy_buffer_stack_top st = 0)
     else \<exists>k. yy_buffer_stack st = Some (map Some bs @ replicate k None) \<and> Suc (yy_buffer_stack_top st) = length bs)"

definition hole_above :: "flex \<Rightarrow> nat list \<Rightarrow> bool" where
  "hole_above st bs \<longleftrightarrow> (\<exists>k. yy_buffer_stack st = Some (map Some bs @ replicate (Suc k) None)
     \<and> yy_buffer_stack_top st = length bs)"

text \<open>The lexer owns the buffers \<open>bs\<close>, and \<open>yy_c_buf_p\<close> points into the last one.\<close>

definition pointing :: "flex \<Rightarrow> nat list \<Rightarrow> bool" where
  "pointing st bs \<longleftrightarrow> bs = [] \<or> (\<exists>s i. heap st (last bs) = Some s \<and> c_buf_p st = Some (ch_buf s, i) \<and> i < buf_size s + 2)"

definition owns :: "flex \<Rightarrow> nat list \<Rightarrow> bool" where
  "owns st bs \<longleftrightarrow> heap_ok st (set bs) \<and> distinct bs \<and> stack_of st bs \<and> pointing st bs"

lemma replicate_ex [simp]: "\<exists>n. x # replicate k x = replicate n x"
  by (rule exI [of _ "Suc k"]) simp

lemma current_stack_of: "stack_of st bs \<Longrightarrow> current_buffer st = Inr (if bs = [] then None else Some (last bs))"
  by (auto simp: stack_of_def current_buffer_def nth_append last_conv_nth) (metis One_nat_def diff_Suc_1)

lemma current_hole: "hole_above st bs \<Longrightarrow> current_buffer st = Inr None"
  by (auto simp: hole_above_def current_buffer_def nth_append)

lemma set_current_hole:
  assumes "hole_above st bs"
  shows "\<exists>xs. set_current (Some b) st = Inr (st\<lparr>yy_buffer_stack := Some xs\<rparr>) \<and> stack_of (st\<lparr>yy_buffer_stack := Some xs\<rparr>) (bs @ [b])"
proof -
  from assms obtain k where k: "yy_buffer_stack st = Some (map Some bs @ None # replicate k None)" "yy_buffer_stack_top st = length bs"
    by (auto simp: hole_above_def)
  then have "set_current (Some b) st = Inr (st\<lparr>yy_buffer_stack := Some (map Some (bs @ [b]) @ replicate k None)\<rparr>)"
    by (simp add: set_current_eq list_update_append)
  moreover have "stack_of (st\<lparr>yy_buffer_stack := Some (map Some (bs @ [b]) @ replicate k None)\<rparr>) (bs @ [b])"
    using k(2) by (simp add: stack_of_def)
  ultimately show ?thesis by blast
qed

lemma set_current_None:
  assumes "stack_of st bs" and "bs \<noteq> []"
  shows "\<exists>xs. set_current None st = Inr (st\<lparr>yy_buffer_stack := Some xs\<rparr>) \<and> hole_above (st\<lparr>yy_buffer_stack := Some xs\<rparr>) (butlast bs)"
proof -
  from assms obtain k where k: "yy_buffer_stack st = Some (map Some bs @ replicate k None)" "Suc (yy_buffer_stack_top st) = length bs"
    by (auto simp: stack_of_def)
  have b: "map Some bs = map Some (butlast bs) @ [Some (last bs)]" using assms(2)
    by (metis append_butlast_last_id list.simps(8) list.simps(9) map_append)
  have t: "yy_buffer_stack_top st = length (butlast bs)" using k(2) by simp
  have "(map Some bs @ replicate k None)[yy_buffer_stack_top st := None] = map Some (butlast bs) @ replicate (Suc k) None"
    unfolding b t by (simp add: list_update_append)
  moreover have "yy_buffer_stack_top st < length (map Some bs @ replicate k None)" using k(2) by simp
  ultimately have "set_current None st = Inr (st\<lparr>yy_buffer_stack := Some (map Some (butlast bs) @ replicate (Suc k) None)\<rparr>)"
    using k(1) by (metis set_current_eq)
  moreover have "hole_above (st\<lparr>yy_buffer_stack := Some (map Some (butlast bs) @ replicate (Suc k) None)\<rparr>) (butlast bs)"
    using t by (auto simp: hole_above_def)
  ultimately show ?thesis by blast
qed

text \<open>Making room: nothing but the array changes, and one place above the top is free.\<close>

lemma ensure_stack:
  assumes "stack_of st bs"
  shows "\<exists>k. yyensure_buffer_stack st =
    st\<lparr>yy_buffer_stack := Some (map Some bs @ replicate (Suc k) None), yy_buffer_stack_top := length bs - 1\<rparr>"
proof (cases "yy_buffer_stack st")
  case None
  with assms have "bs = []" by (auto simp: stack_of_def split: if_splits)
  with None show ?thesis by (intro exI [of _ 0]) (simp add: yyensure_buffer_stack_def)
next
  case (Some xs)
  then obtain k where k: "xs = map Some bs @ replicate k None" "yy_buffer_stack_top st = length bs - 1" "bs = [] \<longrightarrow> 0 < k"
  proof (cases "bs = []")
    case True
    then obtain k where "xs = map Some bs @ replicate (Suc k) None" "yy_buffer_stack_top st = 0"
      using assms Some by (auto simp: stack_of_def)
    with that [of "Suc k"] True show thesis by simp
  next
    case False
    then obtain k where "xs = map Some bs @ replicate k None" "Suc (yy_buffer_stack_top st) = length bs"
      using assms Some by (auto simp: stack_of_def)
    with that [of k] False show thesis by simp
  qed
  show ?thesis
  proof (cases "length xs - 1 \<le> yy_buffer_stack_top st")
    case True
    then have "yyensure_buffer_stack st = st\<lparr>yy_buffer_stack := Some (map Some bs @ replicate (Suc (k + 7)) None)\<rparr>"
      using Some k(1) by (simp add: yyensure_buffer_stack_def flip: replicate_add)
    then show ?thesis using k(2) by (intro exI [of _ "k + 7"]) simp
  next
    case False
    with k have "0 < k" by (cases "bs = []") auto
    then obtain k' where "k = Suc k'" by (cases k) auto
    with False Some k show ?thesis by (intro exI [of _ k']) (simp add: yyensure_buffer_stack_def)
  qed
qed

lemma ensure_hole:
  assumes "hole_above st bs"
  shows "\<exists>xs. yyensure_buffer_stack st = st\<lparr>yy_buffer_stack := Some xs\<rparr> \<and> hole_above (st\<lparr>yy_buffer_stack := Some xs\<rparr>) bs"
proof -
  from assms obtain k where k: "yy_buffer_stack st = Some (map Some bs @ replicate (Suc k) None)" "yy_buffer_stack_top st = length bs"
    by (auto simp: hole_above_def)
  have more: "map Some bs @ replicate (Suc k) None @ replicate 8 None = map Some bs @ replicate (Suc (k + 8)) None"
    by (simp only: add_Suc [symmetric] replicate_add)
  show ?thesis
  proof (cases "length (map Some bs @ replicate (Suc k) None) - 1 \<le> yy_buffer_stack_top st")
    case True
    then have "yyensure_buffer_stack st = st\<lparr>yy_buffer_stack := Some (map Some bs @ replicate (Suc (k + 8)) None)\<rparr>"
      using k(1) more by (simp add: yyensure_buffer_stack_def)
    then show ?thesis using k(2) unfolding hole_above_def
      by (intro exI [of _ "map Some bs @ replicate (Suc (k + 8)) None"] exI [of _ "k + 8"] conjI) simp_all
  next
    case False
    then have "yyensure_buffer_stack st = st\<lparr>yy_buffer_stack := yy_buffer_stack st\<rparr>" using k(1) by (simp add: yyensure_buffer_stack_def)
    then show ?thesis using k unfolding hole_above_def
      by (intro exI [of _ "map Some bs @ replicate (Suc k) None"] exI [of _ k] conjI) simp_all
  qed
qed

section \<open>The operations\<close>

lemma stack_of_cong: "yy_buffer_stack st' = yy_buffer_stack st \<Longrightarrow> yy_buffer_stack_top st' = yy_buffer_stack_top st \<Longrightarrow>
    stack_of st' bs = stack_of st bs"
  by (simp add: stack_of_def)

lemma hole_above_cong: "yy_buffer_stack st' = yy_buffer_stack st \<Longrightarrow> yy_buffer_stack_top st' = yy_buffer_stack_top st \<Longrightarrow>
    hole_above st' bs = hole_above st bs"
  by (simp add: hole_above_def)

lemma on_buffer_last:
  assumes "heap_ok st hs" and "stack_of st bs" and "bs \<noteq> []" and "last bs \<in> hs"
  obtains s blk i c where "on_buffer st (last bs) s blk" "buf_pos s = (ch_buf s, i)" "i < length blk" "blk ! i = Some c"
proof -
  from heap_ok_get [OF assms(1,4)] obtain s blk i c where s: "heap st (last bs) = Some s" "is_our_buffer s" "fill_buffer s"
    "mem st (ch_buf s) = Some blk" "length blk = buf_size s + 2" "buf_pos s = (ch_buf s, i)" "i < length blk" "blk ! i = Some c" .
  then have "on_buffer st (last bs) s blk" using current_stack_of [OF assms(2)] assms(1,3)
    by (simp add: on_buffer_def heap_ok_def)
  with that s show thesis by blast
qed

lemma load_last:
  assumes "heap_ok st hs" and "stack_of st bs" and "bs \<noteq> []" and "last bs \<in> hs"
  shows "\<exists>st'. yy_load_buffer_state st = Inr st' \<and> heap_ok st' hs \<and> stack_of st' bs \<and> pointing st' bs"
proof -
  from on_buffer_last [OF assms] obtain s blk i c where
    s: "on_buffer st (last bs) s blk" "buf_pos s = (ch_buf s, i)" "i < length blk" "blk ! i = Some c" .
  let ?st = "st\<lparr>n_chars := buf_n_chars s, text_ptr := Some (ch_buf s, i), c_buf_p := Some (ch_buf s, i),
    yyin_rdbuf := yy_input_file s, stopped := False, yy_hold_char := c\<rparr>"
  have "pointing ?st bs" using s(1,3) assms(3) by (auto simp: pointing_def on_buffer_def)
  moreover have "heap_ok ?st hs" using assms(1) by simp
  moreover have "stack_of ?st bs" using assms(2) by (subst stack_of_cong) simp_all
  ultimately show ?thesis using load_buffer_state_on [OF s] by blast
qed

lemma save_last:
  assumes "heap_ok st hs" and "stack_of st bs" and "bs \<noteq> []" and "last bs \<in> hs" and "pointing st bs"
  shows "\<exists>st'. save_buffer st = Inr st' \<and> heap_ok st' hs \<and> yy_buffer_stack st' = yy_buffer_stack st
    \<and> yy_buffer_stack_top st' = yy_buffer_stack_top st \<and> lim st' = lim st"
proof -
  from on_buffer_last [OF assms(1-4)] obtain s blk i0 c0 where on: "on_buffer st (last bs) s blk" .
  then have s: "heap st (last bs) = Some s" "mem st (ch_buf s) = Some blk" "length blk = buf_size s + 2"
    "is_our_buffer s" "fill_buffer s" by (simp_all add: on_buffer_def)
  from assms(3,5) s(1,3) obtain i where i: "c_buf_p st = Some (ch_buf s, i)" "i < length blk" by (auto simp: pointing_def)
  let ?blk = "blk[i := Some (yy_hold_char st)]"
  let ?st1 = "st\<lparr>mem := (mem st)(ch_buf s \<mapsto> ?blk)\<rparr>"
  let ?s = "s\<lparr>buf_pos := (ch_buf s, i), buf_n_chars := n_chars st\<rparr>"
  have "on_buffer ?st1 (last bs) s ?blk" by (rule on_buffer_mem [OF on]) simp
  then have "save_buffer st = Inr (set_buffer (last bs) ?s ?st1)"
    using i s(2) by (simp add: save_buffer_def pointer_def store_in lvalue_on)
  moreover have "heap_ok (set_buffer (last bs) ?s ?st1) hs"
    by (rule heap_ok_change [OF assms(1,4) s(1,2), where s' = ?s and blk' = ?blk and i = i]) (use i s in simp_all)
  ultimately show ?thesis by simp
qed

lemma delete_last:
  assumes "heap_ok st (set bs)" and "distinct bs" and "stack_of st bs" and "bs \<noteq> []"
  shows "\<exists>st'. yy_delete_buffer (Some (last bs)) st = Inr st' \<and> heap_ok st' (set (butlast bs)) \<and> hole_above st' (butlast bs)
    \<and> lim st' = lim st"
proof -
  have l: "last bs \<in> set bs" using assms(4) by simp
  from heap_ok_get [OF assms(1) l] obtain s blk where s: "heap st (last bs) = Some s" "is_our_buffer s" "mem st (ch_buf s) = Some blk"
    by blast
  from set_current_None [OF assms(3,4)] obtain xs where
    x: "set_current None st = Inr (st\<lparr>yy_buffer_stack := Some xs\<rparr>)" "hole_above (st\<lparr>yy_buffer_stack := Some xs\<rparr>) (butlast bs)" by blast
  let ?st = "st\<lparr>yy_buffer_stack := Some xs, mem := (mem st)(ch_buf s := None), heap := (heap st)(last bs := None)\<rparr>"
  have "yy_delete_buffer (Some (last bs)) st = Inr ?st"
    using current_stack_of [OF assms(3)] assms(4) x(1) s by (simp add: yy_delete_buffer_def buffer_of_def yy_free_def)
  moreover have "set bs - {last bs} = set (butlast bs)"
    by (cases bs rule: rev_cases) (use assms(2,4) in auto)
  then have "heap_ok ?st (set (butlast bs))"
    using heap_ok_delete [OF assms(1) l s(1), of ?st] by simp
  moreover have "hole_above ?st (butlast bs)" using x(2) by (subst hole_above_cong [of _ "st\<lparr>yy_buffer_stack := Some xs\<rparr>"]) simp_all
  ultimately show ?thesis by (intro exI [of _ ?st]) simp
qed

text \<open>A buffer that was just made is put on top of the stack.\<close>

lemma put_on_top:
  assumes "hole_above st bs" and "heap_ok st (insert b (set bs))" and "b \<notin> set bs" and "distinct bs"
  shows "\<exists>st1 st2. set_current (Some b) st = Inr st1 \<and> yy_load_buffer_state st1 = Inr st2 \<and> owns st2 (bs @ [b])"
proof -
  from set_current_hole [OF assms(1)] obtain xs where
    1: "set_current (Some b) st = Inr (st\<lparr>yy_buffer_stack := Some xs\<rparr>)" "stack_of (st\<lparr>yy_buffer_stack := Some xs\<rparr>) (bs @ [b])" by blast
  have "heap_ok (st\<lparr>yy_buffer_stack := Some xs\<rparr>) (insert b (set bs))" using assms(2) by simp
  from load_last [OF this 1(2)] obtain st2 where
    "yy_load_buffer_state (st\<lparr>yy_buffer_stack := Some xs\<rparr>) = Inr st2" "heap_ok st2 (insert b (set bs))" "stack_of st2 (bs @ [b])"
    "pointing st2 (bs @ [b])" by auto
  with 1(1) assms(3,4) show ?thesis by (auto simp: owns_def)
qed

lemma owns_create:
  assumes "heap_ok st (set bs)" and "current_buffer st = Inr c" and "c = None \<or> c = Some (last bs) \<and> bs \<noteq> []"
  shows "yy_create_buffer r sz st = Inr (lim st, with_new r sz st)" and "lim st \<notin> set bs"
    and "heap_ok (with_new r sz st) (insert (lim st) (set bs))"
proof -
  show new: "lim st \<notin> set bs" using heap_ok_lim [OF assms(1)] by blast
  have "c \<noteq> Some (lim st)" using assms(3) new last_in_set [of bs] by (metis option.distinct(1) option.inject)
  then show "yy_create_buffer r sz st = Inr (lim st, with_new r sz st)" by (rule create_eq [OF assms(2)])
  show "heap_ok (with_new r sz st) (insert (lim st) (set bs))" by (rule heap_ok_new [OF assms(1)])
qed

lemma owns_switched [simp]: "owns (st\<lparr>yy_did_buffer_switch_on_eof := x\<rparr>) bs = owns st bs"
  by (simp add: owns_def
      stack_of_cong [of "st\<lparr>yy_did_buffer_switch_on_eof := x\<rparr>" st] pointing_def)

lemma owns_push:
  assumes "owns st bs"
  shows "\<exists>st'. bindE (yy_create_buffer r sz st) (\<lambda>(b, st1). yypush_buffer_state (Some b) st1) = Inr st' \<and> owns st' (bs @ [lim st])"
proof -
  note o = assms [unfolded owns_def]
  let ?a = "lim st"
  have c: "current_buffer st = Inr (if bs = [] then None else Some (last bs))" using o current_stack_of by blast
  have "(if bs = [] then None else Some (last bs)) = None \<or> (if bs = [] then None else Some (last bs)) = Some (last bs) \<and> bs \<noteq> []"
    by simp
  note new = owns_create [OF o [THEN conjunct1] c this]
  have st1: "stack_of (with_new r sz st) bs" using o by (subst stack_of_cong [of _ st]) simp_all
  from ensure_stack [OF this] obtain k where k: "yyensure_buffer_stack (with_new r sz st) =
      with_new r sz st\<lparr>yy_buffer_stack := Some (map Some bs @ replicate (Suc k) None), yy_buffer_stack_top := length bs - 1\<rparr>" by blast
  define st2 where "st2 = yyensure_buffer_stack (with_new r sz st)"
  have st2: "heap_ok st2 (insert ?a (set bs))" "yy_buffer_stack st2 = Some (map Some bs @ replicate (Suc k) None)"
    "yy_buffer_stack_top st2 = length bs - 1" "heap st2 = heap (with_new r sz st)" "c_buf_p st2 = c_buf_p st"
    using new(3) by (simp_all add: st2_def k)
  have "\<exists>st3. bindE (current_buffer st2) (\<lambda>c. if c = None then Inr st2
      else bindE (save_buffer st2) (\<lambda>st2. Inr (st2\<lparr>yy_buffer_stack_top := yy_buffer_stack_top st2 + 1\<rparr>))) = Inr st3
      \<and> hole_above st3 bs \<and> heap_ok st3 (insert ?a (set bs))"
  proof (cases "bs = []")
    case True
    then have h: "hole_above st2 bs" using st2(2,3) by (auto simp: hole_above_def)
    with current_hole [OF h] st2(1) show ?thesis by simp
  next
    case False
    then have s: "stack_of st2 bs" using st2(2,3) by (auto simp: stack_of_def)
    have "last bs \<noteq> ?a" using new(2) False by (metis last_in_set)
    then have "pointing st2 bs" using o False st2(4,5) by (auto simp: owns_def pointing_def)
    from save_last [OF st2(1) s False _ this] False obtain st3 where
      3: "save_buffer st2 = Inr st3" "heap_ok st3 (insert ?a (set bs))" "yy_buffer_stack st3 = yy_buffer_stack st2"
        "yy_buffer_stack_top st3 = yy_buffer_stack_top st2" by auto
    have "hole_above (st3\<lparr>yy_buffer_stack_top := yy_buffer_stack_top st3 + 1\<rparr>) bs"
      using 3(3,4) st2(2,3) False by (auto simp: hole_above_def)
    moreover have "heap_ok (st3\<lparr>yy_buffer_stack_top := yy_buffer_stack_top st3 + 1\<rparr>) (insert ?a (set bs))"
      using 3(2) by simp
    ultimately show ?thesis using 3(1) current_stack_of [OF s] False by simp
  qed
  then obtain st3 where 3: "bindE (current_buffer st2) (\<lambda>c. if c = None then Inr st2
      else bindE (save_buffer st2) (\<lambda>st2. Inr (st2\<lparr>yy_buffer_stack_top := yy_buffer_stack_top st2 + 1\<rparr>))) = Inr st3"
    "hole_above st3 bs" "heap_ok st3 (insert ?a (set bs))" by blast
  from put_on_top [OF 3(2,3) new(2)] o obtain st4 st5 where
    4: "set_current (Some ?a) st3 = Inr st4" "yy_load_buffer_state st4 = Inr st5" "owns st5 (bs @ [?a])" by (auto simp: owns_def)
  have "owns (st5\<lparr>yy_did_buffer_switch_on_eof := True\<rparr>) (bs @ [?a])"
    using 4(3) by simp
  moreover have "yypush_buffer_state (Some ?a) (with_new r sz st) = Inr (st5\<lparr>yy_did_buffer_switch_on_eof := True\<rparr>)"
    using 3(1) 4(1,2) by (cases "current_buffer st2") (simp_all add: yypush_buffer_state_def Let_def flip: st2_def)
  ultimately show ?thesis using new(1) by auto
qed

lemma owns_pop:
  assumes "owns st bs"
  shows "\<exists>st'. yypop_buffer_state st = Inr st' \<and> owns st' (butlast bs)"
proof (cases "bs = []")
  case True
  with assms current_stack_of [of st bs] show ?thesis by (auto simp: owns_def yypop_buffer_state_def)
next
  case False
  note o = assms [unfolded owns_def]
  from delete_last [of st bs] o False obtain st1 where
    1: "yy_delete_buffer (Some (last bs)) st = Inr st1" "heap_ok st1 (set (butlast bs))" "hole_above st1 (butlast bs)"
    by auto
  obtain k where k: "yy_buffer_stack st1 = Some (map Some (butlast bs) @ replicate (Suc k) None)"
    "yy_buffer_stack_top st1 = length (butlast bs)" using 1(3) by (auto simp: hole_above_def)
  have u: "(map Some (butlast bs) @ replicate (Suc k) None)[length (butlast bs) := None] = map Some (butlast bs) @ replicate (Suc k) None"
    by (simp add: list_update_append)
  have l: "yy_buffer_stack_top st1 < length (map Some (butlast bs) @ replicate (Suc k) None)" using k(2) by simp
  have 2: "set_current None st1 = Inr st1"
    using set_current_eq [OF k(1) l, of None] unfolding k(2) u k(1) [symmetric] by simp
  define st3 where "st3 = (if 0 < yy_buffer_stack_top st1 then st1\<lparr>yy_buffer_stack_top := yy_buffer_stack_top st1 - 1\<rparr> else st1)"
  have 3: "heap_ok st3 (set (butlast bs))" using 1(2) by (simp add: st3_def)
  have s: "stack_of st3 (butlast bs)" using k by (auto simp: st3_def stack_of_def simp del: length_butlast)
  have run: "yypop_buffer_state st = bindE (current_buffer st3) (\<lambda>c'. if c' = None then Inr st3
      else bindE (yy_load_buffer_state st3) (\<lambda>st4. Inr (st4\<lparr>yy_did_buffer_switch_on_eof := True\<rparr>)))"
    using current_stack_of [of st bs] o False 1(1) 2 by (cases "0 < yy_buffer_stack_top st1") (simp_all add: yypop_buffer_state_def st3_def Let_def cong: if_cong)
  show ?thesis
  proof (cases "butlast bs = []")
    case True
    then have "owns st3 (butlast bs)" using 3 s by (simp add: owns_def pointing_def)
    with run current_stack_of [OF s] True show ?thesis by simp
  next
    case False
    from load_last [OF 3 s False] False obtain st4 where
      4: "yy_load_buffer_state st3 = Inr st4" "heap_ok st4 (set (butlast bs))" "stack_of st4 (butlast bs)" "pointing st4 (butlast bs)"
      by auto
    then have "owns st4 (butlast bs)" using o by (simp add: owns_def distinct_butlast)
    with run current_stack_of [OF s] False 4(1) show ?thesis by simp
  qed
qed

lemma restart_eq:
  assumes "on_buffer st b s blk"
  shows "\<exists>st' s'. bindE (yy_init_buffer b r st) yy_load_buffer_state = Inr st' \<and> heap st' = (heap st)(b \<mapsto> s')
    \<and> mem st' = (mem st)(ch_buf s \<mapsto> blk[0 := Some NUL, 1 := Some NUL]) \<and> lim st' = lim st
    \<and> yy_buffer_stack st' = yy_buffer_stack st \<and> yy_buffer_stack_top st' = yy_buffer_stack_top st
    \<and> c_buf_p st' = Some (ch_buf s, 0) \<and> ch_buf s' = ch_buf s \<and> buf_size s' = buf_size s \<and> is_our_buffer s' \<and> fill_buffer s'
    \<and> buf_pos s' = (ch_buf s, 0)"
proof -
  let ?blk = "blk[0 := Some NUL, 1 := Some NUL]"
  note on = assms [unfolded on_buffer_def]
  from flush_on [OF assms] obtain st1 s1 where f: "yy_flush_buffer_m (Some b) st = Inr st1" "on_buffer st1 b s1 ?blk"
    "s1 = s\<lparr>buf_n_chars := 0, buf_pos := (ch_buf s, 0), at_bol := True, buf_status := YY_BUFFER_NEW\<rparr>"
    "st1 = (set_buffer b s1 (st\<lparr>mem := (mem st)(ch_buf s \<mapsto> ?blk)\<rparr>))\<lparr>n_chars := 0, text_ptr := Some (ch_buf s, 0),
      c_buf_p := Some (ch_buf s, 0), yyin_rdbuf := yy_input_file s, stopped := False, yy_hold_char := NUL\<rparr>" by blast
  let ?s = "s1\<lparr>yy_input_file := rdbuf r st1, fill_buffer := True, is_interactive := False\<rparr>"
  have on2: "on_buffer (set_buffer b ?s st1) b ?s ?blk"
    by (rule on_buffer_set [OF f(2)]) (use f(3) on in simp_all)
  have i: "yy_init_buffer b r st = Inr (set_buffer b ?s st1)"
    using f(1,2) on_buffer_def [of st1 b s1] by (simp add: yy_init_buffer_def buffer_of_def Let_def)
  have l: "yy_load_buffer_state (set_buffer b ?s st1) = Inr (set_buffer b ?s st1\<lparr>n_chars := buf_n_chars ?s, text_ptr := Some (ch_buf ?s, 0),
      c_buf_p := Some (ch_buf ?s, 0), yyin_rdbuf := yy_input_file ?s, stopped := False, yy_hold_char := NUL\<rparr>)"
    by (rule load_buffer_state_on [OF on2]) (use on f(3) in \<open>simp_all add: nth_list_update\<close>)
  show ?thesis unfolding i bindE.simps l
    by (intro exI [of _ ?s] exI [of _ "set_buffer b ?s st1\<lparr>n_chars := buf_n_chars ?s, text_ptr := Some (ch_buf ?s, 0),
      c_buf_p := Some (ch_buf ?s, 0), yyin_rdbuf := yy_input_file ?s, stopped := False, yy_hold_char := NUL\<rparr>"])
      (use f(3,4) on in simp)
qed

lemma owns_init:
  assumes "heap_ok st (set bs)" and "stack_of st bs" and "distinct bs" and "bs \<noteq> []"
  shows "\<exists>st'. bindE (lvalue st) (\<lambda>(b, s). bindE (yy_init_buffer b r st) yy_load_buffer_state) = Inr st' \<and> owns st' bs"
proof -
  have l: "last bs \<in> set bs" using assms(4) by simp
  from on_buffer_last [OF assms(1,2,4) l] obtain s blk i c where on: "on_buffer st (last bs) s blk" .
  then have s: "heap st (last bs) = Some s" "mem st (ch_buf s) = Some blk" "length blk = buf_size s + 2" by (simp_all add: on_buffer_def)
  from restart_eq [OF on, of r] obtain st' s' where r: "bindE (yy_init_buffer (last bs) r st) yy_load_buffer_state = Inr st'"
    "heap st' = (heap st)(last bs \<mapsto> s')" "mem st' = (mem st)(ch_buf s \<mapsto> blk[0 := Some NUL, 1 := Some NUL])" "lim st' = lim st"
    "yy_buffer_stack st' = yy_buffer_stack st" "yy_buffer_stack_top st' = yy_buffer_stack_top st" "c_buf_p st' = Some (ch_buf s, 0)"
    "ch_buf s' = ch_buf s" "buf_size s' = buf_size s" "is_our_buffer s'" "fill_buffer s'" "buf_pos s' = (ch_buf s, 0)" by blast
  have "heap_ok st' (set bs)"
    by (rule heap_ok_change [OF assms(1) l s(1,2) r(2-4,8-11) _ r(12)]) (use s(3) in \<open>simp_all add: nth_list_update\<close>)
  moreover have "stack_of st' bs" using assms(2) stack_of_cong [OF r(5,6)] by simp
  moreover have "pointing st' bs" using r(2,7-9) by (simp add: pointing_def)
  ultimately show ?thesis using assms(3) r(1) lvalue_on [OF on] by (simp add: owns_def)
qed

text \<open>The beginning of \<open>yyrestart\<close> makes a buffer if there is none.\<close>

lemma owns_first:
  assumes "owns st bs"
  shows "\<exists>st'. first_buffer st = Inr st' \<and> heap_ok st' (set (if bs = [] then [lim st] else bs))
    \<and> stack_of st' (if bs = [] then [lim st] else bs) \<and> (bs \<noteq> [] \<longrightarrow> st' = st)"
proof (cases "bs = []")
  case False
  then show ?thesis using assms current_stack_of [of st bs] by (simp add: owns_def first_buffer_def)
next
  case True
  note o = assms [unfolded owns_def True]
  from ensure_stack [of st "[]"] o obtain k where k: "yyensure_buffer_stack st =
      st\<lparr>yy_buffer_stack := Some (replicate (Suc k) None), yy_buffer_stack_top := 0\<rparr>" by auto
  define st1 where "st1 = yyensure_buffer_stack st"
  have st1: "hole_above st1 []" "heap_ok st1 (set [])" "lim st1 = lim st" using o k by (auto simp: st1_def hole_above_def)
  note new = owns_create [OF st1(2) current_hole [OF st1(1)], simplified]
  have "hole_above (with_new Yyin 16384 st1) []" using st1(1) by (simp add: hole_above_def)
  from set_current_hole [OF this, of "lim st1"] obtain xs where
    x: "set_current (Some (lim st1)) (with_new Yyin 16384 st1) = Inr (with_new Yyin 16384 st1\<lparr>yy_buffer_stack := Some xs\<rparr>)"
    "stack_of (with_new Yyin 16384 st1\<lparr>yy_buffer_stack := Some xs\<rparr>) [lim st1]" by auto
  have "first_buffer st = Inr (with_new Yyin 16384 st1\<lparr>yy_buffer_stack := Some xs\<rparr>)"
    using current_stack_of [of st "[]"] o new(1) x(1) by (simp add: first_buffer_def flip: st1_def)
  with x(2) new(3) True st1(3) show ?thesis by simp
qed

lemma owns_restart:
  assumes "owns st bs"
  shows "\<exists>st'. yyrestart_m r st = Inr st' \<and> owns st' (if bs = [] then [lim st] else bs)"
proof -
  let ?bs = "if bs = [] then [lim st] else bs"
  from owns_first [OF assms] obtain st1 where
    1: "first_buffer st = Inr st1" "heap_ok st1 (set ?bs)" "stack_of st1 ?bs" by blast
  have "distinct ?bs" "?bs \<noteq> []" using assms by (simp_all add: owns_def)
  from owns_init [OF 1(2,3) this, of r] 1(1) show ?thesis by (simp add: yyrestart_m_def)
qed

lemma owns_begin:
  assumes "owns st bs"
  shows "\<exists>st' bs'. yylex_begin cin st = Inr st' \<and> owns st' bs' \<and> length bs' = (if yy_init st then length bs else max 1 (length bs))"
proof (cases "yy_init st")
  case True
  with assms show ?thesis by (auto simp: yylex_begin_def)
next
  case False
  let ?st = "std_input cin (st\<lparr>yy_init := True\<rparr>)"
  let ?bs = "if bs = [] then [lim ?st] else bs"
  have "stack_of ?st bs = stack_of st bs" by (rule stack_of_cong) (simp_all add: std_input_def)
  with assms have "owns ?st bs" by (simp add: owns_def pointing_def std_input_def)
  from owns_first [OF this] obtain st1 where
    1: "first_buffer ?st = Inr st1" "heap_ok st1 (set ?bs)" "stack_of st1 ?bs" by blast
  have d: "distinct ?bs" "?bs \<noteq> []" using assms by (simp_all add: owns_def)
  from load_last [OF 1(2,3) d(2)] d(2) obtain st2 where "yy_load_buffer_state st1 = Inr st2" "owns st2 ?bs"
    using d(1) last_in_set [OF d(2)] by (auto simp: owns_def)
  with 1(1) False show ?thesis by (intro exI [of _ st2] exI [of _ ?bs]) (cases bs, simp_all add: yylex_begin_def max_def)
qed

lemma owns_switch:
  assumes "owns st bs"
  shows "\<exists>st' b. switch_streams r out st = Inr st' \<and> owns st' (butlast bs @ [b])"
proof -
  note o = assms [unfolded owns_def]
  let ?c = "if bs = [] then None else Some (last bs)"
  have c: "current_buffer st = Inr ?c" using o current_stack_of by blast
  obtain st1 where 1: "yy_delete_buffer ?c st = Inr st1" "heap_ok st1 (set (butlast bs))"
    "bs = [] \<and> stack_of st1 [] \<or> hole_above st1 (butlast bs)"
  proof (cases "bs = []")
    case True
    with o that [of st] show thesis by (simp add: yy_delete_buffer_def)
  next
    case False
    with delete_last [of st bs] o that show thesis by auto
  qed
  have c1: "current_buffer st1 = Inr None" using 1(3) current_hole current_stack_of [of st1 "[]"] by auto
  let ?b = "lim st1"
  note new = owns_create [OF 1(2) c1, simplified]
  let ?st2 = "with_new r 16384 st1"
  obtain e: "hole_above (yyensure_buffer_stack ?st2) (butlast bs)" "heap_ok (yyensure_buffer_stack ?st2) (insert ?b (set (butlast bs)))"
  proof -
    have "bs = [] \<and> stack_of ?st2 [] \<or> hole_above ?st2 (butlast bs)" using 1(3) by (simp add: stack_of_def hole_above_def)
    then show thesis
    proof
      assume b: "bs = [] \<and> stack_of ?st2 []"
      from b ensure_stack [of ?st2 "[]"] obtain k where "yyensure_buffer_stack ?st2 =
          ?st2\<lparr>yy_buffer_stack := Some (replicate (Suc k) None), yy_buffer_stack_top := 0\<rparr>" by auto
      with b new(3) that show thesis by (auto simp: hole_above_def)
    next
      assume "hole_above ?st2 (butlast bs)"
      from ensure_hole [OF this] new(3) that show thesis by auto
    qed
  qed
  have "distinct (butlast bs)" using o by (simp add: distinct_butlast)
  from put_on_top [OF e new(2) this] obtain st4 st5 where
    4: "set_current (Some ?b) (yyensure_buffer_stack ?st2) = Inr st4" "yy_load_buffer_state st4 = Inr st5" "owns st5 (butlast bs @ [?b])" by blast
  have "switch_streams r out st = Inr (st5\<lparr>yy_did_buffer_switch_on_eof := True, yyout_rdbuf := out\<rparr>)"
    using c 1(1) new(1) 4(1,2) current_hole [OF e(1)] by (simp add: switch_streams_def yy_switch_to_buffer_def Let_def)
  moreover have "owns (st5\<lparr>yy_did_buffer_switch_on_eof := True, yyout_rdbuf := out\<rparr>) (butlast bs @ [?b])"
    using 4(3) by (simp add: owns_def pointing_def stack_of_def)
  ultimately show ?thesis by blast
qed

section \<open>Sequences of operations\<close>

text \<open>\<open>Begin cin\<close> is the beginning of a call of \<open>yylex\<close>.\<close>

datatype buffer_op = Begin nat | Push stream_ref nat | Pop | Restart stream_ref | Switch stream_ref nat

fun run_op :: "buffer_op \<Rightarrow> flex \<Rightarrow> flex result" where
  "run_op (Begin cin) st = yylex_begin cin st"
| "run_op (Push r sz) st = bindE (yy_create_buffer r sz st) (\<lambda>(b, st1). yypush_buffer_state (Some b) st1)"
| "run_op Pop st = yypop_buffer_state st"
| "run_op (Restart r) st = yyrestart_m r st"
| "run_op (Switch r out) st = switch_streams r out st"

fun is_push :: "buffer_op \<Rightarrow> bool" where
  "is_push (Push r sz) = True"
| "is_push p = False"

lemma owns_op:
  assumes "owns st bs"
  shows "\<exists>st' bs'. run_op p st = Inr st' \<and> owns st' bs' \<and> length bs' \<le> (if is_push p then Suc (length bs) else max 1 (length bs))"
proof (cases p)
  case (Begin cin)
  with owns_begin [OF assms, of cin] show ?thesis by fastforce
next
  case (Push r sz)
  with owns_push [OF assms, of r sz] show ?thesis by fastforce
next
  case Pop
  from owns_pop [OF assms] obtain st' where "yypop_buffer_state st = Inr st'" "owns st' (butlast bs)" by blast
  with Pop show ?thesis by (intro exI [of _ st'] exI [of _ "butlast bs"]) simp
next
  case (Restart r)
  from owns_restart [OF assms, of r] obtain st' where "yyrestart_m r st = Inr st'" "owns st' (if bs = [] then [lim st] else bs)"
    by blast
  with Restart show ?thesis by (intro exI [of _ st'] exI [of _ "if bs = [] then [lim st] else bs"]) simp
next
  case (Switch r out)
  from owns_switch [OF assms, of r out] obtain st' b where "switch_streams r out st = Inr st'" "owns st' (butlast bs @ [b])"
    by blast
  with Switch show ?thesis by (intro exI [of _ st'] exI [of _ "butlast bs @ [b]"]) (cases bs rule: rev_cases, simp_all)
qed

lemma owns_ops:
  assumes "owns st bs"
  shows "\<exists>st' bs'. foldE run_op ps st = Inr st' \<and> owns st' bs' \<and> length bs' \<le> max 1 (length bs) + length (filter is_push ps)"
  using assms
proof (induction ps arbitrary: st bs)
  case (Cons p ps)
  from owns_op [OF Cons.prems, of p] obtain st1 bs1 where
    1: "run_op p st = Inr st1" "owns st1 bs1" "length bs1 \<le> (if is_push p then Suc (length bs) else max 1 (length bs))" by blast
  from Cons.IH [OF 1(2)] obtain st2 bs2 where
    "foldE run_op ps st1 = Inr st2" "owns st2 bs2" "length bs2 \<le> max 1 (length bs1) + length (filter is_push ps)" by blast
  with 1 show ?case by (intro exI [of _ st2] exI [of _ bs2]) (auto split: if_splits)
qed auto

lemma owns_ctor:
  assumes "fresh st" and "heap st = Map.empty" and "mem st = Map.empty"
  shows "owns (ctor_common i out st) []"
  using assms by (simp add: owns_def heap_ok_def stack_of_def pointing_def ctor_common_def fresh_def)

lemma destroy_owned:
  assumes "owns st bs"
  shows "\<exists>st'. yyFlexLexer_destroy st = Inr st' \<and> dom (heap st') = set (butlast bs)
    \<and> (length bs \<le> 1 \<longrightarrow> heap st' = Map.empty \<and> mem st' = Map.empty)"
proof -
  note o = assms [unfolded owns_def]
  have c: "current_buffer st = Inr (if bs = [] then None else Some (last bs))" using o current_stack_of by blast
  obtain st1 where 1: "yy_delete_buffer (if bs = [] then None else Some (last bs)) st = Inr st1" "heap_ok st1 (set (butlast bs))"
  proof (cases "bs = []")
    case True
    with o that [of st] show thesis by (simp add: yy_delete_buffer_def)
  next
    case False
    with delete_last [of st bs] o that show thesis by auto
  qed
  have "butlast bs = []" if "length bs \<le> 1" using that by (cases bs) auto
  with c 1 show ?thesis by (auto simp: yyFlexLexer_destroy_def heap_ok_def)
qed

text \<open>C28: Whatever buffers are pushed, popped, restarted and replaced, from the constructor on no access goes wrong and
  the allocated buffers are those on the stack. The destructor frees the one on top, and so everything if none
  was pushed.\<close>

theorem buffers_owned:
  assumes "fresh st" and "heap st = Map.empty" and "mem st = Map.empty"
  shows "\<exists>st1 bs st2. foldE run_op ps (ctor_common i out st) = Inr st1 \<and> owns st1 bs \<and> yyFlexLexer_destroy st1 = Inr st2
    \<and> dom (heap st2) = set (butlast bs) \<and> (filter is_push ps = [] \<longrightarrow> heap st2 = Map.empty \<and> mem st2 = Map.empty)"
proof -
  from owns_ops [OF owns_ctor [OF assms, of i out], of ps] obtain st1 bs where
    1: "foldE run_op ps (ctor_common i out st) = Inr st1" "owns st1 bs" "length bs \<le> max 1 (length ([] :: nat list)) + length (filter is_push ps)"
    by blast
  from destroy_owned [OF 1(2)] obtain st2 where 2: "yyFlexLexer_destroy st1 = Inr st2" "dom (heap st2) = set (butlast bs)"
    "length bs \<le> 1 \<longrightarrow> heap st2 = Map.empty \<and> mem st2 = Map.empty" by blast
  have "heap st2 = Map.empty \<and> mem st2 = Map.empty" if "filter is_push ps = []" using 1(3) 2(3) that by simp
  with 1(1,2) 2(1,2) show ?thesis by blast
qed

definition ex_flex :: flex where
  "ex_flex = \<lparr>heap = Map.empty, mem = Map.empty, lim = 0, sources = (\<lambda>n. if n = 0 then ''cpu'' else ''''), yyin_rdbuf = 0, stopped = False,
     yyout_rdbuf = 0, yy_hold_char = NUL, n_chars = 0, c_buf_p = None, text_ptr = None, yy_init = False,
     yy_did_buffer_switch_on_eof = False, yy_buffer_stack = None, yy_buffer_stack_top = 0\<rparr>"

theorem buffers_owned_witness:
  "\<exists>st1 st2. foldE run_op [Begin 9, Restart Yyin, Switch (Stream 1) 2, Pop, Begin 9] (ctor_common 0 1 ex_flex) = Inr st1
    \<and> yyFlexLexer_destroy st1 = Inr st2 \<and> heap st2 = Map.empty"
  using buffers_owned [of ex_flex "[Begin 9, Restart Yyin, Switch (Stream 1) 2, Pop, Begin 9]" 0 1]
  by (auto simp: ex_flex_def fresh_def)

text \<open>The destructor forgets the buffers below the top.\<close>

theorem pushed_buffers_leak:
  assumes "fresh st" and "heap st = Map.empty" and "mem st = Map.empty"
  shows "\<exists>st1 st2. foldE run_op [Begin cin, Push r sz] (ctor_common i out st) = Inr st1 \<and> yyFlexLexer_destroy st1 = Inr st2
    \<and> card (dom (heap st2)) = 1"
proof -
  from owns_begin [OF owns_ctor [OF assms], of cin i out] obtain st1 bs where
    1: "yylex_begin cin (ctor_common i out st) = Inr st1" "owns st1 bs" "length bs = 1" by (auto simp: ctor_common_def)
  then obtain b where b: "bs = [b]" by (cases bs) auto
  from owns_push [OF 1(2), of r sz] obtain st2 where
    2: "bindE (yy_create_buffer r sz st1) (\<lambda>(b, st1). yypush_buffer_state (Some b) st1) = Inr st2" "owns st2 (bs @ [lim st1])" by blast
  from destroy_owned [OF 2(2)] b 1(1) 2(1) show ?thesis by auto
qed

section \<open>Resuming a buffer\<close>

lemma push_pop_state:
  assumes "owns st bs" and "bs \<noteq> []" and "heap st (last bs) = Some s" and "mem st (ch_buf s) = Some blk"
    and "c_buf_p st = Some (ch_buf s, i)" and "i < length blk"
  shows "\<exists>st'. bindE (run_op (Push r sz) st) (run_op Pop) = Inr st' \<and> current_buffer st' = Inr (Some (last bs))
    \<and> heap st' = (heap st)(last bs \<mapsto> s\<lparr>buf_pos := (ch_buf s, i), buf_n_chars := n_chars st\<rparr>)
    \<and> mem st' = (mem st)(ch_buf s \<mapsto> blk[i := Some (yy_hold_char st)]) \<and> lim st \<le> lim st' \<and> sources st' = sources st
    \<and> n_chars st' = n_chars st \<and> c_buf_p st' = Some (ch_buf s, i) \<and> text_ptr st' = Some (ch_buf s, i)
    \<and> yyin_rdbuf st' = yy_input_file s \<and> stopped st' = False \<and> yy_hold_char st' = yy_hold_char st"
proof -
  note o = assms(1) [unfolded owns_def]
  let ?a = "lim st" and ?b = "last bs"
  let ?s = "s\<lparr>buf_pos := (ch_buf s, i), buf_n_chars := n_chars st\<rparr>" and ?blk = "blk[i := Some (yy_hold_char st)]"
  have l: "?b \<in> set bs" using assms(2) by simp
  then have ab: "?b \<noteq> ?a" "ch_buf s \<noteq> ?a" "heap st ?a = None" "mem st ?a = None"
    using heap_ok_lim [of st "set bs" ?b] o assms(3) by (auto simp: block_of_def heap_ok_def fresh_def)
  have c: "current_buffer st = Inr (Some ?b)" using current_stack_of [of st bs] o assms(2) by simp
  have "Some ?b \<noteq> Some ?a" using ab(1) by simp
  note new = create_eq [OF c this, of r sz]
  have "stack_of (with_new r sz st) bs" using o by (subst stack_of_cong [of _ st]) simp_all
  from ensure_stack [OF this] obtain k where k: "yyensure_buffer_stack (with_new r sz st) =
      with_new r sz st\<lparr>yy_buffer_stack := Some (map Some bs @ replicate (Suc k) None), yy_buffer_stack_top := length bs - 1\<rparr>" by blast
  define xs where "xs = map Some bs @ replicate (Suc k) None"
  define n where "n = length bs - 1"
  have n: "Suc n = length bs" "n < length xs" "Suc n < length xs" "xs ! n = Some ?b" "xs ! Suc n = None"
    using assms(2) by (simp_all add: n_def xs_def nth_append last_conv_nth)
  let ?st2 = "with_new r sz st\<lparr>yy_buffer_stack := Some xs, yy_buffer_stack_top := n\<rparr>"
  have k2: "yyensure_buffer_stack (with_new r sz st) = ?st2" unfolding k xs_def n_def ..
  have c2: "current_buffer ?st2 = Inr (Some ?b)" using n(2-5) by (simp add: current_buffer_def)
  let ?st4 = "set_buffer ?b ?s (?st2\<lparr>mem := (mem ?st2)(ch_buf s \<mapsto> ?blk)\<rparr>)"
  have save: "save_buffer ?st2 = Inr ?st4"
    using c2 ab assms(3-6) by (simp add: save_buffer_def pointer_def store_def lvalue_def buffer_of_def)
  let ?st6 = "?st4\<lparr>yy_buffer_stack_top := Suc n, yy_buffer_stack := Some (xs[Suc n := Some ?a])\<rparr>"
  have c6: "current_buffer ?st6 = Inr (Some ?a)" using n(2-5) by (simp add: current_buffer_def)
  let ?st7 = "?st6\<lparr>n_chars := 0, text_ptr := Some (?a, 0), c_buf_p := Some (?a, 0), yyin_rdbuf := rdbuf r st, stopped := False,
    yy_hold_char := NUL, yy_did_buffer_switch_on_eof := True\<rparr>"
  have load6: "bindE (yy_load_buffer_state ?st6) (\<lambda>st5. Inr (st5\<lparr>yy_did_buffer_switch_on_eof := True\<rparr>)) = Inr ?st7"
    using c6 ab by (simp add: yy_load_buffer_state_def lvalue_def buffer_of_def load_def new_buffer_def Let_def)
  have push: "run_op (Push r sz) st = Inr ?st7"
    using new k2 save c2 n(2-5) load6 by (simp add: yypush_buffer_state_def Let_def set_current_def)
  let ?st8 = "?st7\<lparr>yy_buffer_stack := Some xs, mem := (mem ?st7)(?a := None), heap := (heap ?st7)(?a := None)\<rparr>"
  have del: "yy_delete_buffer (Some ?a) ?st7 = Inr ?st8"
    using c6 ab n(2-5) list_update_id [of xs "Suc n"]
    by (simp add: yy_delete_buffer_def set_current_def buffer_of_def yy_free_def new_buffer_def)
  let ?st9 = "?st8\<lparr>yy_buffer_stack_top := n\<rparr>"
  have c7: "current_buffer ?st7 = Inr (Some ?a)" "current_buffer ?st9 = Inr (Some ?b)" using c6 n(2-5) by (simp_all add: current_buffer_def)
  have again: "set_current None ?st8 = Inr ?st8" using n(2-5) list_update_id [of xs "Suc n"] by (simp add: set_current_def)
  let ?st' = "?st9\<lparr>n_chars := n_chars st, text_ptr := Some (ch_buf s, i), c_buf_p := Some (ch_buf s, i),
    yyin_rdbuf := yy_input_file s, stopped := False, yy_hold_char := yy_hold_char st, yy_did_buffer_switch_on_eof := True\<rparr>"
  have load9: "bindE (yy_load_buffer_state ?st9) (\<lambda>st5. Inr (st5\<lparr>yy_did_buffer_switch_on_eof := True\<rparr>)) = Inr ?st'"
    using c7(2) ab assms(6) by (simp add: yy_load_buffer_state_def lvalue_def buffer_of_def load_def Let_def)
  have pop: "run_op Pop ?st7 = Inr ?st'"
    using c7 del again load9 by (simp add: yypop_buffer_state_def Let_def)
  have "heap ?st' = (heap st)(?b \<mapsto> ?s)" using ab by (auto simp: fun_eq_iff)
  moreover have "mem ?st' = (mem st)(ch_buf s \<mapsto> ?blk)" using ab by (auto simp: fun_eq_iff)
  moreover have "current_buffer ?st' = Inr (Some ?b)" using n(2-5) by (simp add: current_buffer_def)
  ultimately show ?thesis unfolding push bindE.simps pop by (intro exI [of _ ?st']) simp
qed

text \<open>A lexer that pushes another buffer and pops it again has its own text as it was: it reads on at the same
  character.\<close>

theorem push_pop_resumes:
  assumes "between st lx" and "owns st bs"
  shows "\<exists>st'. bindE (run_op (Push r sz) st) (run_op Pop) = Inr st' \<and> between st' (lx\<lparr>yytext_ptr := yy_c_buf_p lx\<rparr>)"
proof -
  from assms(1) obtain b s blk st1 where p: "c_buf_p st = Some (ch_buf s, yy_c_buf_p lx)"
    "store (ch_buf s, yy_c_buf_p lx) (yy_hold_char st) st = Inr st1" "holding st1 lx b s blk" "yy_hold_char st = buffer lx ! yy_c_buf_p lx"
    by (rule betweenD) blast
  let ?i = "yy_c_buf_p lx"
  from p(2) obtain blk0 where b0: "mem st (ch_buf s) = Some blk0" "?i < length blk0"
    "st1 = st\<lparr>mem := (mem st)(ch_buf s \<mapsto> blk0[?i := Some (yy_hold_char st)])\<rparr>"
    by (auto simp: store_def split: option.splits if_splits)
  have h: "on_buffer st1 b s blk" "on_input st1 s (yyin lx)" "n_chars st1 = yy_n_chars lx" "yy_n_chars lx \<le> buf_size s"
    "\<And>j. min (yytext_ptr lx) ?i \<le> j \<Longrightarrow> j < yy_n_chars lx + 2 \<Longrightarrow> blk ! j = Some (buffer lx ! j)" "blk ! 0 \<noteq> None"
    "buf_size s = yy_buf_size lx" "buf_status s = yy_buffer_status lx" using p(3) by (simp_all add: holding_def)
  then have s: "heap st b = Some s" "current_buffer st = Inr (Some b)" "blk = blk0[?i := Some (yy_hold_char st)]"
    using b0(1,3) by (auto simp: on_buffer_def)
  have fr: "fresh st" using assms(2) by (simp add: owns_def heap_ok_def)
  have "bs \<noteq> []" "last bs = b" using s(2) assms(2) current_stack_of [of st bs] by (auto simp: owns_def split: if_splits)
  with push_pop_state [OF assms(2) _ _ b0(1) p(1) b0(2), of r sz] s(1) obtain st' where
    st': "bindE (run_op (Push r sz) st) (run_op Pop) = Inr st'" "current_buffer st' = Inr (Some b)"
      "heap st' = (heap st)(b \<mapsto> s\<lparr>buf_pos := (ch_buf s, ?i), buf_n_chars := n_chars st\<rparr>)"
      "mem st' = (mem st)(ch_buf s \<mapsto> blk)" "lim st \<le> lim st'" "sources st' = sources st" "n_chars st' = n_chars st"
      "c_buf_p st' = Some (ch_buf s, ?i)" "text_ptr st' = Some (ch_buf s, ?i)" "yyin_rdbuf st' = yy_input_file s" "stopped st' = False"
      "yy_hold_char st' = yy_hold_char st" unfolding s(3) by auto
  let ?s = "s\<lparr>buf_pos := (ch_buf s, ?i), buf_n_chars := n_chars st\<rparr>" and ?lx = "lx\<lparr>yytext_ptr := ?i\<rparr>"
  have "on_buffer st' b ?s blk"
    using h(1) st'(2-5) s fr b0(1) by (auto simp: on_buffer_def fresh_def)
  moreover have "on_input st' ?s (yyin ?lx)" using h(2) b0(3) st'(6,10,11) by (simp add: on_input_def)
  ultimately have "holding st' ?lx b ?s blk" using h(3-8) b0(3) st'(7-9)
    by (auto simp: holding_def yy_n_chars_def buffer_def)
  then have "in_memory st' ?lx" by (auto simp: in_memory_def)
  then have "between st' ?lx"
    by (rule between_same) (use assms(1) st'(12) p(4) in \<open>auto simp: between_def yy_n_chars_def pending_ok_def buffer_def\<close>)
  with st'(1) show ?thesis by blast
qed

end
