(* ===== verification/ConfigParser.thy ===== *)
theory ConfigParser
  imports ScannerRefinement
begin

text \<open>
  \<open>ConfigurationParser\<close> (\<open>include/ConfigurationParser.hpp\<close>) over the scanner, and the language it
  accepts. The grammar of \<open>flex/configparser.l\<close> is given by a syntax tree of configuration files and
  the text it stands for; parsing the text returns the triggers and logs of the tree.
\<close>

section \<open>The parser\<close>

definition resetLexer :: "parser \<Rightarrow> parser" where
  "resetLexer g = g\<lparr>triggerTypes := [], logTypes := []\<rparr>"

text \<open>
  A parser is constructed on a stream and run once: the vectors are cleared, \<open>yylex\<close> is called until
  it returns 0, which its first return is, and the vectors are copied. The variables of \<open>flex.cpp\<close>
  outlive the run.
\<close>

definition ConfigurationParser_run :: "string \<Rightarrow> parser \<Rightarrow> (TriggerType list \<times> LogType list \<times> parser) run" where
  "ConfigurationParser_run input g =
     (case yylex (yyFlexLexer input (resetLexer g)) of
        None \<Rightarrow> None
      | Some (Inl e) \<Rightarrow> Some (Inl e)
      | Some (Inr lx) \<Rightarrow> Some (Inr (triggerTypes (vars lx), logTypes (vars lx), vars lx)))"

definition fresh_start :: "parser \<Rightarrow> parser" where
  "fresh_start g = g\<lparr>triggerTypes := [], logTypes := [], yy_start := 1, yy_start_stack := []\<rparr>"

lemma run_agrees: "agrees (scan input (fresh_start g) []) (yylex (yyFlexLexer input (resetLexer g)))"
  using scanner_agrees [of "yyFlexLexer input (resetLexer g)" input]
  by (simp add: yylex_def yyFlexLexer_def resetLexer_def fresh_start_def start_ok_def at_token_def pending_ok_def)

lemma run_eq:
  "ConfigurationParser_run input g =
    map_option (map_sum id (\<lambda>(g', out). (triggerTypes g', logTypes g', g'))) (scan input (fresh_start g) [])"
  using run_agrees [of input g] by (auto simp: agrees_def ConfigurationParser_run_def split: option.splits sum.splits)

section \<open>Tokens\<close>

definition tok :: "nat \<Rightarrow> string \<Rightarrow> nat \<Rightarrow> char set \<Rightarrow> bool" where
  "tok s w act F \<longleftrightarrow> (\<forall>d \<in> F. \<forall>rest. token s (w @ d # rest) = (act, length w))"

lemmas tok_simps = tok_def token_def nx_def yy_next.simps ec1_def ec_def Let_def

definition digits :: "char set" where "digits = set ''0123456789''"

definition after_number :: "char set" where "after_number = set ''%MGsmhdg''"

text \<open>The states a number runs through.\<close>

definition number_states :: "nat \<Rightarrow> nat \<Rightarrow> nat \<Rightarrow> nat \<Rightarrow> bool" where
  "number_states s q r act \<longleftrightarrow> act \<noteq> 0 \<and> yy_accept ! q = act \<and> yy_accept ! r = act
     \<and> q \<noteq> 315 \<and> r \<noteq> 315 \<and> (\<forall>d \<in> digits. nx s d = q \<and> nx q d = r \<and> nx r d = r)
     \<and> (\<forall>d \<in> after_number. nx q d = 315 \<and> nx r d = 315)"

lemma number_loop:
  assumes "number_states s q r act" and "set ds \<subseteq> digits" and "d \<in> after_number"
  shows "longest r p la (ds @ d # rest) = (act, p + length ds)"
  using assms(2)
proof (induction ds arbitrary: p la)
  case Nil
  then show ?case using assms(1,3) unfolding number_states_def by (simp add: Let_def)
next
  case (Cons c ds)
  with assms(1) show ?case by (auto simp: number_states_def Let_def)
qed

lemma number_tok:
  assumes "number_states s q r act" and "set ds \<subseteq> digits" and "ds \<noteq> []"
  shows "tok s ds act (after_number)"
proof -
  obtain c cs where ds: "ds = c # cs" using assms(3) by (cases ds) auto
  have c: "c \<in> digits" and cs: "set cs \<subseteq> digits" using assms(2) ds by auto
  have "longest q 1 la (cs @ d # rest) = (act, length ds)" if "d \<in> after_number" for d rest la
  proof (cases cs)
    case Nil
    then show ?thesis using assms(1) that unfolding number_states_def by (simp add: Let_def ds)
  next
    case (Cons e es)
    then have "e \<in> digits" "set es \<subseteq> digits" using cs by auto
    with number_loop [OF assms(1) _ that, of es] assms(1) Cons show ?thesis
      unfolding number_states_def by (simp add: Let_def ds)
  qed
  with assms(1) c show ?thesis
    unfolding number_states_def tok_def token_def by (simp add: ds Let_def)
qed

lemma number_state_facts:
  "number_states 7 63 167 8" "number_states 9 69 175 14" "number_states 11 74 186 20"
  "number_states 13 81 193 27" "number_states 15 88 202 38" "number_states 17 95 209 45"
  "number_states 19 102 218 53" "number_states 21 109 225 60"
  by (simp_all add: number_states_def digits_def after_number_def nx_def yy_next.simps ec1_def ec_def)

text \<open>The other tokens of the language, by start condition, with the characters that may follow.\<close>

definition elem_next :: "char set" where "elem_next = set ''0123456789,}''"

lemma tok_initial: "tok 1 ''trigger '' 69 (set ''cmd'')" "tok 1 ''log '' 68 (set ''cmd'')"
  by (simp_all add: tok_simps)

lemma tok_trigger:
  "tok 5 ''cpu '' 1 (set ''ou'')" "tok 5 ''memory '' 2 (set ''ou'')" "tok 5 ''disk '' 3 (set ''ou'')"
  "tok 5 ''under {'' 4 digits" "tok 5 ''under '' 5 digits" "tok 5 ''over {'' 6 digits" "tok 5 ''over '' 7 digits"
  "tok 5 ''last {'' 18 digits" "tok 5 ''last '' 19 digits"
  "tok 5 ''last for {'' 18 digits" "tok 5 ''last for '' 19 digits"
  by (simp_all add: tok_simps digits_def)

lemma tok_values: "tok 7 '', '' 12 digits" "tok 7 ''} '' 13 {CHR ''l''}"
  by (simp_all add: tok_simps digits_def)

text \<open>The spellings of the units.\<close>

fun unit_words :: "ResourceUnit \<Rightarrow> string list" where
  "unit_words PERCENT = [''%'']"
| "unit_words MB = [''MB'', ''mb'', ''MB/s'', ''mb/s'', ''mbps'']"
| "unit_words GB = [''GB'', ''gb'', ''GB/s'', ''gb/s'', ''gbps'']"

fun unit_rule :: "ResourceUnit \<Rightarrow> nat" where
  "unit_rule PERCENT = 0" | "unit_rule MB = 1" | "unit_rule GB = 2"

lemma tok_units:
  "x \<in> set (unit_words u) \<Longrightarrow> tok 7 x (9 + unit_rule u) (set '',}'')"
  "x \<in> set (unit_words u) \<Longrightarrow> tok 9 (x @ '' '') (15 + unit_rule u) {CHR ''l''}"
  by (cases u; auto simp: tok_simps)+

lemma unit_words_hd: "x \<in> set (unit_words u) \<Longrightarrow> x \<noteq> [] \<and> hd x \<in> after_number"
  by (cases u) (auto simp: after_number_def)

lemma tok_trigger_duration:
  "tok 11 ''s'' 21 elem_next" "tok 11 ''m'' 22 elem_next" "tok 11 ''h'' 23 elem_next" "tok 11 ''d'' 24 elem_next"
  "tok 11 '', '' 25 digits"
  "tok 13 ''s'' 28 (set ''0123456789\<newline>'')" "tok 13 ''m'' 29 (set ''0123456789\<newline>'')"
  "tok 13 ''h'' 30 (set ''0123456789\<newline>'')" "tok 13 ''d'' 31 (set ''0123456789\<newline>'')"
  by (simp_all add: tok_simps digits_def elem_next_def)

lemma tok_log:
  "tok 3 ''cpu '' 33 {CHR ''f''}" "tok 3 ''memory '' 34 {CHR ''f''}" "tok 3 ''disk '' 35 {CHR ''f''}"
  "tok 3 ''for {'' 36 digits" "tok 3 ''for '' 37 digits"
  "tok 3 ''resolution {'' 51 digits" "tok 3 ''resolution '' 52 digits"
  by (simp_all add: tok_simps digits_def)

lemma tok_log_duration:
  "tok 15 ''s'' 39 elem_next" "tok 15 ''m'' 40 elem_next" "tok 15 ''h'' 41 elem_next" "tok 15 ''d'' 42 elem_next"
  "tok 15 '', '' 43 digits" "tok 15 ''} '' 44 {CHR ''r''}"
  "tok 17 ''s'' 46 (set ''0123456789 '')" "tok 17 ''m'' 47 (set ''0123456789 '')"
  "tok 17 ''h'' 48 (set ''0123456789 '')" "tok 17 ''d'' 49 (set ''0123456789 '')"
  "tok 17 '' '' 50 {CHR ''r''}"
  by (simp_all add: tok_simps digits_def elem_next_def)

lemma tok_log_resolution:
  "tok 19 ''s'' 54 elem_next" "tok 19 ''m'' 55 elem_next" "tok 19 ''h'' 56 elem_next" "tok 19 ''d'' 57 elem_next"
  "tok 19 '', '' 58 digits"
  "tok 21 ''s'' 61 (set ''0123456789\<newline>'')" "tok 21 ''m'' 62 (set ''0123456789\<newline>'')"
  "tok 21 ''h'' 63 (set ''0123456789\<newline>'')" "tok 21 ''d'' 64 (set ''0123456789\<newline>'')"
  by (simp_all add: tok_simps digits_def elem_next_def)

text \<open>
  Runs of blanks and of line ends. The scanner goes from the state \<open>s\<close> to \<open>q\<close> with the first character of
  the run and to \<open>r\<close> with every other.
\<close>

definition blanks :: "char set" where "blanks = {CHR '' '', CHR 0x09}"

definition loop_states :: "nat \<Rightarrow> nat \<Rightarrow> nat \<Rightarrow> nat \<Rightarrow> char set \<Rightarrow> char set \<Rightarrow> bool" where
  "loop_states s q r act C F \<longleftrightarrow> act \<noteq> 0 \<and> yy_accept ! q = act \<and> yy_accept ! r = act \<and> q \<noteq> 315 \<and> r \<noteq> 315
     \<and> (\<forall>c \<in> C. nx s c = q \<and> nx q c = r \<and> nx r c = r) \<and> (\<forall>c \<in> F. nx q c = 315 \<and> nx r c = 315)"

lemma loop_longest:
  assumes "loop_states s q r act C F" and "set w \<subseteq> C" and "u = [] \<or> hd u \<in> F"
  shows "longest r p la (w @ u) = (act, p + length w)"
  using assms(2)
proof (induction w arbitrary: p la)
  case Nil
  then show ?case using assms(1,3) by (cases u) (auto simp: loop_states_def Let_def)
next
  case (Cons c w)
  with assms(1) show ?case by (auto simp: loop_states_def Let_def)
qed

lemma loop_token:
  assumes "loop_states s q r act C F" and "set w \<subseteq> C" and "w \<noteq> []" and "u = [] \<or> hd u \<in> F"
  shows "longest s p la (w @ u) = (act, p + length w)"
proof -
  obtain c w' where w: "w = c # w'" using assms(3) by (cases w) auto
  show ?thesis
  proof (cases w')
    case Nil
    then show ?thesis using assms(1,2,4) w by (cases u) (auto simp: loop_states_def Let_def)
  next
    case (Cons c' w2)
    with loop_longest [OF assms(1), of w2 u] assms w show ?thesis by (auto simp: loop_states_def Let_def)
  qed
qed

text \<open>The margin in front of a definition, and the four ways in which a line ends.\<close>

lemma loop_margin:
  "loop_states 1 25 114 66 blanks (set ''tl\<newline>'')"
  "loop_states 1 26 115 67 {CHR ''\<newline>''} (blanks \<union> set ''tl'')"
  by (simp_all add: loop_states_def blanks_def tok_simps)

lemma loop_ends:
  "loop_states 79 159 159 26 {CHR ''\<newline>''} (blanks \<union> set ''tl'')"
  "loop_states 13 44 146 32 {CHR ''\<newline>''} (blanks \<union> set ''tl'')"
  "loop_states 107 134 134 59 {CHR ''\<newline>''} (blanks \<union> set ''tl'')"
  "loop_states 21 30 125 65 {CHR ''\<newline>''} (blanks \<union> set ''tl'')"
  by (simp_all add: loop_states_def blanks_def tok_simps)

definition tok_end :: "nat \<Rightarrow> string \<Rightarrow> nat \<Rightarrow> bool" where
  "tok_end s w act \<longleftrightarrow> (\<forall>n u. u = [] \<or> hd u \<in> blanks \<union> set ''tl'' \<longrightarrow>
     token s (w @ replicate n CHR ''\<newline>'' @ u) = (act, length w + n))"

lemma tok_ends:
  "tok_end 11 ''}\<newline>'' 26" "tok_end 13 ''\<newline>'' 32" "tok_end 19 ''}\<newline>'' 59" "tok_end 21 ''\<newline>'' 65"
proof -
  have b: "nx 11 CHR ''}'' = 79" "nx 19 CHR ''}'' = 107" by (simp_all add: tok_simps)
  have nl: "set (replicate (Suc n) CHR ''\<newline>'') \<subseteq> {CHR ''\<newline>''}" for n by auto
  note ends = loop_ends [THEN loop_token, OF nl]
  show "tok_end 11 ''}\<newline>'' 26" "tok_end 19 ''}\<newline>'' 59"
    using ends(1,3) b by (simp_all add: tok_end_def token_def Let_def)
  show "tok_end 13 ''\<newline>'' 32" "tok_end 21 ''\<newline>'' 65"
    using ends(2,4) by (simp_all add: tok_end_def token_def)
qed

section \<open>Consuming a piece of text\<close>

text \<open>\<open>w\<close>, before a character of \<open>F\<close>, takes the parser from \<open>g\<close> to \<open>g'\<close> and prints nothing.\<close>

definition consumes :: "string \<Rightarrow> char set \<Rightarrow> parser \<Rightarrow> parser \<Rightarrow> bool" where
  "consumes w F g g' \<longleftrightarrow> (\<forall>d \<in> F. \<forall>rest out. scan (w @ d # rest) g out = scan (d # rest) g' out)"

text \<open>The same for the rest of a line: the next definition may be indented, and there may be empty lines.\<close>

definition spaces :: "char set" where "spaces = insert CHR ''\<newline>'' blanks"

definition at_line :: "string \<Rightarrow> bool" where
  "at_line rest \<longleftrightarrow> (\<exists>m u. rest = m @ u \<and> set m \<subseteq> spaces \<and> (u = [] \<or> hd u \<in> set ''tl''))"

definition consumes_end :: "string \<Rightarrow> parser \<Rightarrow> parser \<Rightarrow> bool" where
  "consumes_end w g g' \<longleftrightarrow> (\<forall>rest out. at_line rest \<longrightarrow> scan (w @ rest) g out = scan rest g' out)"

lemma consumes_tok:
  assumes "tok (yy_start g) w act F" and "act \<noteq> 70" and "action act w g = Inr g'"
  shows "consumes w F g g'"
  using assms by (auto simp: consumes_def tok_def scan.simps [of "w @ _ # _"] Let_def)

lemma scan_blank:
  assumes "token (yy_start g) input = (act, n)" and "act \<in> {66, 67}" and "input \<noteq> []"
  shows "scan input g out = scan (drop n input) g out"
  using assms by (auto simp: scan.simps [of input] Let_def action_def)

lemma dropWhile_hd: "dropWhile P m \<noteq> [] \<Longrightarrow> \<not> P (hd (dropWhile P m)) \<and> hd (dropWhile P m) \<in> set m"
  using hd_dropWhile [of P m] hd_in_set [of "dropWhile P m"] set_dropWhileD [of _ P m] by fastforce

lemma spaces_split:
  assumes "set m \<subseteq> spaces" and "m \<noteq> []"
  obtains w m' where "m = w @ m'" "w \<noteq> []" "set w \<subseteq> blanks" "m' = [] \<or> hd m' = CHR ''\<newline>''"
    | w m' where "m = w @ m'" "w \<noteq> []" "set w \<subseteq> {CHR ''\<newline>''}" "m' = [] \<or> hd m' \<in> blanks"
proof (cases "hd m \<in> blanks")
  case True
  let ?w = "takeWhile (\<lambda>c. c \<in> blanks) m" and ?m = "dropWhile (\<lambda>c. c \<in> blanks) m"
  have "?m = [] \<or> hd ?m = CHR ''\<newline>''"
    using dropWhile_hd [of "\<lambda>c. c \<in> blanks" m] assms(1) by (auto simp: spaces_def)
  moreover have "?w \<noteq> []" "set ?w \<subseteq> blanks" using True assms(2) by (cases m; auto dest: set_takeWhileD)+
  ultimately show ?thesis using that(1) [of ?w ?m] by simp
next
  case False
  let ?w = "takeWhile (\<lambda>c. c = CHR ''\<newline>'') m" and ?m = "dropWhile (\<lambda>c. c = CHR ''\<newline>'') m"
  have "hd m = CHR ''\<newline>''" using False assms hd_in_set [OF assms(2)] unfolding spaces_def by blast
  then have "?w \<noteq> []" using assms(2) by (cases m) auto
  moreover have "set ?w \<subseteq> {CHR ''\<newline>''}" by (auto dest: set_takeWhileD)
  moreover have "?m = [] \<or> hd ?m \<in> blanks"
    using dropWhile_hd [of "\<lambda>c. c = CHR ''\<newline>''" m] assms(1) by (auto simp: spaces_def)
  ultimately show ?thesis using that(2) [of ?w ?m] by simp
qed

lemma scan_margin:
  assumes "yy_start g = 1" and "set m \<subseteq> spaces" and "u = [] \<or> hd u \<in> set ''tl''"
  shows "scan (m @ u) g out = scan u g out"
  using assms(2)
proof (induction m rule: length_induct)
  case (1 m)
  show ?case
  proof (cases "m = []")
    case False
    have "\<exists>w m'. m = w @ m' \<and> w \<noteq> [] \<and> scan (m @ u) g out = scan (m' @ u) g out"
      using spaces_split [OF 1(2) False]
    proof cases
      case (1 w m')
      then have "token 1 (w @ m' @ u) = (66, length w)"
        using loop_token [OF loop_margin(1), of w "m' @ u"] assms(3) by (cases m') (auto simp: token_def)
      with 1 assms(1) show ?thesis
        by (intro exI [of _ w] exI [of _ m']) (simp add: scan_blank)
    next
      case (2 w m')
      then have "token 1 (w @ m' @ u) = (67, length w)"
        using loop_token [OF loop_margin(2), of w "m' @ u"] assms(3) by (cases m') (auto simp: token_def)
      with 2 assms(1) show ?thesis
        by (intro exI [of _ w] exI [of _ m']) (simp add: scan_blank)
    qed
    then obtain w m' where m: "m = w @ m'" "w \<noteq> []" "scan (m @ u) g out = scan (m' @ u) g out" by blast
    with 1 show ?thesis by auto
  qed simp
qed

lemma consumes_end_tok:
  assumes "tok_end (yy_start g) w act" and "act \<noteq> 70" and "\<And>x. action act x g = Inr g'" and "yy_start g' = 1"
    and "w \<noteq> []"
  shows "consumes_end w g g'"
  unfolding consumes_end_def at_line_def
proof (intro allI impI, elim exE conjE)
  fix rest m u :: string and out
  assume rest: "rest = m @ u" "set m \<subseteq> spaces" "u = [] \<or> hd u \<in> set ''tl''"
  let ?n = "takeWhile (\<lambda>c. c = CHR ''\<newline>'') m" and ?m = "dropWhile (\<lambda>c. c = CHR ''\<newline>'') m"
  have n: "?n = replicate (length ?n) CHR ''\<newline>''" by (rule replicate_eqI) (auto dest: set_takeWhileD)
  have m: "set ?m \<subseteq> spaces" using rest(2) by (auto dest: set_dropWhileD)
  have h: "?m @ u = [] \<or> hd (?m @ u) \<in> blanks \<union> set ''tl''"
  proof (cases "?m = []")
    case False
    with dropWhile_hd [OF this] rest(2) have "hd ?m \<in> blanks" by (auto simp: spaces_def)
    with False show ?thesis by simp
  next
    case True
    show ?thesis unfolding True append_Nil using rest(3) by blast
  qed
  from assms(1) h have "token (yy_start g) (w @ replicate (length ?n) CHR ''\<newline>'' @ ?m @ u) = (act, length w + length ?n)"
    unfolding tok_end_def by blast
  then have t: "token (yy_start g) (w @ ?n @ ?m @ u) = (act, length w + length ?n)" unfolding n [symmetric] .
  have "drop (length w + length ?n) (w @ ?n @ ?m @ u) = ?m @ u" by simp
  then have "scan (w @ ?n @ ?m @ u) g out = scan (?m @ u) g' out"
    using assms(2,3,5) by (subst scan.simps) (simp only: t Let_def fst_conv snd_conv append_is_Nil_conv, simp)
  also have "\<dots> = scan u g' out" by (rule scan_margin [OF assms(4) m rest(3)])
  also have "\<dots> = scan rest g' out" using scan_margin [OF assms(4) rest(2,3)] rest(1) by simp
  finally show "scan (w @ rest) g out = scan rest g' out" using rest(1) by (metis append.assoc takeWhile_dropWhile_id)
qed

lemma consumes_trans:
  "consumes w F g g' \<Longrightarrow> consumes (c # w') F' g' g'' \<Longrightarrow> c \<in> F \<Longrightarrow> consumes (w @ c # w') F' g g''"
  by (simp add: consumes_def)

lemma consumes_then_end:
  "consumes w F g g' \<Longrightarrow> consumes_end (c # w') g' g'' \<Longrightarrow> c \<in> F \<Longrightarrow> consumes_end (w @ c # w') g g''"
  by (auto simp: consumes_def consumes_end_def)

lemma consumes_mono: "consumes w F g g' \<Longrightarrow> F' \<subseteq> F \<Longrightarrow> consumes w F' g g'"
  by (auto simp: consumes_def)

section \<open>Configuration files\<close>

datatype time_unit = Sec | Min | Hour | Day

fun unit_secs :: "time_unit \<Rightarrow> long" where
  "unit_secs Sec = 1" | "unit_secs Min = SEC_IN_MIN" | "unit_secs Hour = SEC_IN_HOUR" | "unit_secs Day = SEC_IN_DAY"

fun unit_char :: "time_unit \<Rightarrow> char" where
  "unit_char Sec = CHR ''s''" | "unit_char Min = CHR ''m''" | "unit_char Hour = CHR ''h''" | "unit_char Day = CHR ''d''"

text \<open>A time span such as \<open>2h30m\<close>, and a value such as \<open>200MB\<close> with its spelling of the unit.\<close>

type_synonym span = "(nat \<times> time_unit) list"

type_synonym amount = "nat \<times> ResourceUnit \<times> string"

definition render_amount :: "amount \<Rightarrow> string" where
  "render_amount a = show_nat (fst a) @ snd (snd a)"

fun render_span :: "span \<Rightarrow> string" where
  "render_span [] = []"
| "render_span ((n, u) # es) = show_nat n @ unit_char u # render_span es"

definition amount_value :: "amount \<Rightarrow> ResourceValue" where
  "amount_value a = \<lparr>unitType = fst (snd a), rvalue = int (fst a)\<rparr>"

fun span_secs :: "span \<Rightarrow> long" where
  "span_secs [] = 0"
| "span_secs ((n, u) # es) = int n * unit_secs u + span_secs es"

text \<open>One value, or several in braces.\<close>

datatype 'a choice = One 'a | Braces "'a list"

fun items :: "'a choice \<Rightarrow> 'a list" where
  "items (One x) = [x]"
| "items (Braces xs) = xs"

fun sep_by :: "('a \<Rightarrow> string) \<Rightarrow> 'a list \<Rightarrow> string" where
  "sep_by f [] = []"
| "sep_by f [x] = f x"
| "sep_by f (x # xs) = f x @ '', '' @ sep_by f xs"

fun render_choice :: "('a \<Rightarrow> string) \<Rightarrow> 'a choice \<Rightarrow> string" where
  "render_choice f (One x) = f x"
| "render_choice f (Braces xs) = ''{'' @ sep_by f xs @ ''}''"

text \<open>The margin of a line, which may begin with empty lines, and whether it says \<open>last for\<close> or \<open>last\<close>.\<close>

record layout =
  margin :: string
  last_for :: bool

datatype definition_line =
    Trigger_line layout Resource FluctuationType "amount choice" "span choice"
  | Log_line layout LogResource "span choice" "span choice"

fun resource_text :: "Resource \<Rightarrow> string" where
  "resource_text CPU = ''cpu ''" | "resource_text MEMORY = ''memory ''" | "resource_text DISK = ''disk ''"

fun log_resource_text :: "LogResource \<Rightarrow> string" where
  "log_resource_text LOG_CPU = ''cpu ''" | "log_resource_text LOG_MEMORY = ''memory ''"
| "log_resource_text LOG_DISK = ''disk ''"

fun fluctuation_text :: "FluctuationType \<Rightarrow> string" where
  "fluctuation_text UNDER = ''under ''" | "fluctuation_text OVER = ''over ''"

definition last_text :: "bool \<Rightarrow> string" where
  "last_text b = (if b then ''last for '' else ''last '')"

fun line_layout :: "definition_line \<Rightarrow> layout" where
  "line_layout (Trigger_line y r f vs ds) = y"
| "line_layout (Log_line y r ds rs) = y"

fun line_body :: "definition_line \<Rightarrow> string" where
  "line_body (Trigger_line y r f vs ds) =
     ''trigger '' @ resource_text r @ fluctuation_text f @ render_choice render_amount vs
     @ '' '' @ last_text (last_for y) @ render_choice render_span ds @ ''\<newline>''"
| "line_body (Log_line y r ds rs) =
     ''log '' @ log_resource_text r @ ''for '' @ render_choice render_span ds
     @ '' resolution '' @ render_choice render_span rs @ ''\<newline>''"

definition render_line :: "definition_line \<Rightarrow> string" where
  "render_line l = margin (line_layout l) @ line_body l"

definition render_config :: "definition_line list \<Rightarrow> string" where
  "render_config ls = concat (map render_line ls)"

text \<open>The numbers fit a \<open>long\<close>, no list is empty, and the margins are blank.\<close>

definition span_ok :: "span \<Rightarrow> bool" where
  "span_ok es \<longleftrightarrow> es \<noteq> [] \<and> span_secs es \<le> LONG_MAX"

definition amount_ok :: "amount \<Rightarrow> bool" where
  "amount_ok a \<longleftrightarrow> int (fst a) \<le> LONG_MAX \<and> snd (snd a) \<in> set (unit_words (fst (snd a)))"

definition layout_ok :: "layout \<Rightarrow> bool" where
  "layout_ok y \<longleftrightarrow> set (margin y) \<subseteq> spaces"

fun line_ok :: "definition_line \<Rightarrow> bool" where
  "line_ok (Trigger_line y r f vs ds) \<longleftrightarrow> layout_ok y \<and> items vs \<noteq> [] \<and> items ds \<noteq> []
     \<and> list_all amount_ok (items vs) \<and> list_all span_ok (items ds)"
| "line_ok (Log_line y r ds rs) \<longleftrightarrow> layout_ok y \<and> items ds \<noteq> [] \<and> items rs \<noteq> []
     \<and> list_all span_ok (items ds) \<and> list_all span_ok (items rs)"

text \<open>What a file means: one trigger per value and duration, one log per duration and resolution.\<close>

fun line_triggers :: "definition_line \<Rightarrow> TriggerType list" where
  "line_triggers (Trigger_line y r f vs ds) =
     concat (map (\<lambda>a. map (\<lambda>d. \<lparr>resource = r, fluctuationType = f, triggerValue = amount_value a,
       duration = span_secs d\<rparr>) (items ds)) (items vs))"
| "line_triggers (Log_line y r ds rs) = []"

fun line_logs :: "definition_line \<Rightarrow> LogType list" where
  "line_logs (Trigger_line y r f vs ds) = []"
| "line_logs (Log_line y r ds rs) =
     concat (map (\<lambda>d. map (\<lambda>q. \<lparr>log_resource = r, log_duration = span_secs d, log_resolution = span_secs q\<rparr>)
       (items rs)) (items ds))"


section \<open>Numbers, amounts and time spans\<close>

lemma consumes_cat:
  "consumes w F g g' \<Longrightarrow> consumes w' F' g' g'' \<Longrightarrow> w' \<noteq> [] \<Longrightarrow> hd w' \<in> F \<Longrightarrow> consumes (w @ w') F' g g''"
  by (cases w') (auto simp: consumes_def)

lemma consumes_cat_end:
  "consumes w F g g' \<Longrightarrow> consumes_end w' g' g'' \<Longrightarrow> w' \<noteq> [] \<Longrightarrow> hd w' \<in> F \<Longrightarrow> consumes_end (w @ w') g g''"
  by (cases w') (auto simp: consumes_def consumes_end_def)

lemma is_digit_digits: "is_digit c \<Longrightarrow> c \<in> digits"
proof -
  assume "is_digit c"
  then have "48 \<le> (of_char c :: nat)" "(of_char c :: nat) \<le> 57" by (auto simp: is_digit_def)
  then have "(of_char c :: nat) \<in> {48, 49, 50, 51, 52, 53, 54, 55, 56, 57}" by (simp, presburger)
  then have "(of_char c :: nat) \<in> of_char ` digits" by (simp add: digits_def)
  then show "c \<in> digits" by (metis image_iff of_char_eq_iff)
qed

lemma show_nat_in_digits: "set (show_nat n) \<subseteq> digits" "show_nat n \<noteq> []" "hd (show_nat n) \<in> digits"
proof -
  show *: "set (show_nat n) \<subseteq> digits"
    using show_nat_digits [of n] is_digit_digits by (auto simp: list_all_iff)
  show "show_nat n \<noteq> []" by (rule show_nat_not_Nil)
  then show "hd (show_nat n) \<in> digits" using * by (meson hd_in_set subsetD)
qed

lemma consumes_number:
  assumes "number_states (yy_start g) q r act" and "act \<noteq> 70" and "action act (show_nat n) g = Inr g'"
  shows "consumes (show_nat n) after_number g g'"
  using consumes_tok [OF number_tok [OF assms(1) show_nat_in_digits(1,2)] assms(2,3)] .

text \<open>Reading an element of a time span whose sum is in range.\<close>

definition elem :: "nat \<times> time_unit \<Rightarrow> parser \<Rightarrow> parser" where
  "elem e g = g\<lparr>lastReadDurationElement := int (fst e),
     currentDurationTime := currentDurationTime g + int (fst e) * unit_secs (snd e)\<rparr>"

definition room :: "nat \<times> time_unit \<Rightarrow> parser \<Rightarrow> bool" where
  "room e g \<longleftrightarrow> 0 \<le> currentDurationTime g
     \<and> currentDurationTime g + int (fst e) * unit_secs (snd e) \<le> LONG_MAX"

lemma unit_secs_pos: "1 \<le> unit_secs u"
  by (cases u) (simp_all add: SEC_IN_MIN_def SEC_IN_HOUR_def SEC_IN_DAY_def)

lemma elem_read:
  assumes "room e g"
  shows "add_duration (unit_secs (snd e)) (read_element (show_nat (fst e)) g) = Inr (elem e g)"
proof -
  let ?p = "int (fst e) * unit_secs (snd e)"
  have p: "int (fst e) \<le> ?p" using unit_secs_pos [of "snd e"] by (simp add: mult_le_cancel_left1)
  have le: "?p \<le> LONG_MAX" "0 \<le> ?p" "0 \<le> currentDurationTime g" "currentDurationTime g + ?p \<le> LONG_MAX"
    using assms p by (simp_all add: room_def)
  then have "atol (show_nat (fst e)) = int (fst e)" using p by (intro atol_show_nat) simp
  moreover have "is_long ?p" "is_long (currentDurationTime g + ?p)"
    using le by (auto intro!: is_longI simp: LONG_MIN_def)
  ultimately show ?thesis by (simp add: add_duration_def read_element_def elem_def Let_def)
qed

text \<open>A condition that reads a time span: its rules read a number and add it with its unit.\<close>

definition span_state :: "nat \<Rightarrow> char set \<Rightarrow> bool" where
  "span_state s F \<longleftrightarrow> digits \<subseteq> F
     \<and> (\<exists>q r act. number_states s q r act \<and> act \<noteq> 70 \<and> (\<forall>x g. action act x g = Inr (read_element x g)))
     \<and> (\<forall>u. \<exists>act. tok s [unit_char u] act F \<and> act \<noteq> 70 \<and> (\<forall>x g. action act x g = add_duration (unit_secs u) g))"

lemma action_span:
  "act \<in> {20, 27, 38, 45, 53, 60} \<Longrightarrow> action act x g = Inr (read_element x g)"
  "act \<in> {21, 28, 39, 46, 54, 61} \<Longrightarrow> action act x g = add_duration 1 g"
  "act \<in> {22, 29, 40, 47, 55, 62} \<Longrightarrow> action act x g = add_duration SEC_IN_MIN g"
  "act \<in> {23, 30, 41, 48, 56, 63} \<Longrightarrow> action act x g = add_duration SEC_IN_HOUR g"
  "act \<in> {24, 31, 42, 49, 57, 64} \<Longrightarrow> action act x g = add_duration SEC_IN_DAY g"
  unfolding insert_iff empty_iff
  by (elim disjE FalseE, simp_all add: action_def trigger_action_def log_action_def)+

lemma span_stateI:
  assumes "digits \<subseteq> F" and "number_states s q r a" and "a \<in> {20, 27, 38, 45, 53, 60}"
    and "tok s ''s'' (a + 1) F" and "tok s ''m'' (a + 2) F" and "tok s ''h'' (a + 3) F" and "tok s ''d'' (a + 4) F"
  shows "span_state s F"
proof -
  have "\<exists>act. tok s [unit_char u] act F \<and> act \<noteq> 70 \<and> (\<forall>x g. action act x g = add_duration (unit_secs u) g)" for u
  proof (cases u)
    case Sec
    then show ?thesis using assms(3,4) by (intro exI [of _ "a + 1"]) (auto simp: action_span(2))
  next
    case Min
    then show ?thesis using assms(3,5) by (intro exI [of _ "a + 2"]) (auto simp: action_span(3))
  next
    case Hour
    then show ?thesis using assms(3,6) by (intro exI [of _ "a + 3"]) (auto simp: action_span(4))
  next
    case Day
    then show ?thesis using assms(3,7) by (intro exI [of _ "a + 4"]) (auto simp: action_span(5))
  qed
  moreover have "a \<noteq> 70" using assms(3) by auto
  ultimately show ?thesis using assms(1,2) action_span(1) [OF assms(3)] unfolding span_state_def by blast
qed

abbreviation line_next :: "char set" where "line_next \<equiv> set ''0123456789\<newline>''"
abbreviation word_next :: "char set" where "word_next \<equiv> set ''0123456789 ''"

lemma span_states:
  "span_state 11 elem_next" "span_state 13 line_next" "span_state 15 elem_next" "span_state 17 word_next"
  "span_state 19 elem_next" "span_state 21 line_next"
proof -
  have d: "digits \<subseteq> elem_next" "digits \<subseteq> line_next" "digits \<subseteq> word_next"
    by (auto simp: digits_def elem_next_def)
  show "span_state 11 elem_next"
    by (rule span_stateI [OF d(1) number_state_facts(3)]) (simp_all add: tok_trigger_duration)
  show "span_state 13 line_next"
    by (rule span_stateI [OF d(2) number_state_facts(4)]) (simp_all add: tok_trigger_duration del: list.set)
  show "span_state 15 elem_next"
    by (rule span_stateI [OF d(1) number_state_facts(5)]) (simp_all add: tok_log_duration)
  show "span_state 17 word_next"
    by (rule span_stateI [OF d(3) number_state_facts(6)]) (simp_all add: tok_log_duration del: list.set)
  show "span_state 19 elem_next"
    by (rule span_stateI [OF d(1) number_state_facts(7)]) (simp_all add: tok_log_resolution)
  show "span_state 21 line_next"
    by (rule span_stateI [OF d(2) number_state_facts(8)]) (simp_all add: tok_log_resolution del: list.set)
qed

lemma elem_keeps [simp]: "yy_start (elem e g) = yy_start g" "yy_start_stack (elem e g) = yy_start_stack g"
  by (simp_all add: elem_def)

lemma consumes_elem:
  assumes "span_state (yy_start g) F" and room: "room (n, u) g"
  shows "consumes (show_nat n @ [unit_char u]) F g (elem (n, u) g)"
proof -
  from assms(1) obtain q r a where "number_states (yy_start g) q r a" "a \<noteq> 70"
    and "\<forall>x g. action a x g = Inr (read_element x g)" unfolding span_state_def by blast
  then have num: "consumes (show_nat n) after_number g (read_element (show_nat n) g)"
    by (intro consumes_number) auto
  from assms(1) obtain b where b: "tok (yy_start g) [unit_char u] b F" "b \<noteq> 70"
    "\<forall>x g. action b x g = add_duration (unit_secs u) g" unfolding span_state_def by blast
  have "yy_start (read_element (show_nat n) g) = yy_start g" by (simp add: read_element_def)
  with b have "consumes [unit_char u] F (read_element (show_nat n) g) (elem (n, u) g)"
    using elem_read [OF room] by (intro consumes_tok) auto
  moreover have "unit_char u \<in> after_number" by (cases u) (simp_all add: after_number_def)
  ultimately show ?thesis using consumes_cat [OF num] by simp
qed

lemma render_span_hd: "es \<noteq> [] \<Longrightarrow> render_span es \<noteq> [] \<and> hd (render_span es) \<in> digits"
  using show_nat_in_digits by (cases es rule: render_span.cases) auto

lemma span_secs_nonneg: "0 \<le> span_secs es"
proof (induction es rule: span_secs.induct)
  case (2 n u es)
  have "0 \<le> unit_secs u" using unit_secs_pos [of u] by simp
  with 2 show ?case by simp
qed simp

lemma span_room:
  assumes "0 \<le> currentDurationTime g" and "currentDurationTime g + span_secs ((n, u) # es) \<le> LONG_MAX"
  shows "room (n, u) g" and "0 \<le> currentDurationTime (elem (n, u) g)"
    and "currentDurationTime (elem (n, u) g) + span_secs es \<le> LONG_MAX"
proof -
  have "0 \<le> int n * unit_secs u" using unit_secs_pos [of u] by simp
  with assms span_secs_nonneg [of es] show "room (n, u) g" and "0 \<le> currentDurationTime (elem (n, u) g)"
    and "currentDurationTime (elem (n, u) g) + span_secs es \<le> LONG_MAX"
    by (simp_all add: room_def elem_def)
qed

lemma consumes_span:
  assumes "span_state (yy_start g) F" and "es \<noteq> []" and "0 \<le> currentDurationTime g"
    and "currentDurationTime g + span_secs es \<le> LONG_MAX"
  shows "consumes (render_span es) F g (fold elem es g)"
  using assms
proof (induction es arbitrary: g)
  case (Cons e es)
  obtain n u where e: "e = (n, u)" by (cases e)
  note room = span_room [OF Cons.prems(3,4) [unfolded e]]
  note one = consumes_elem [OF Cons.prems(1) room(1)]
  show ?case
  proof (cases "es = []")
    case True
    with one e show ?thesis by simp
  next
    case False
    have "span_state (yy_start (elem (n, u) g)) F" using Cons.prems(1) by simp
    note rest = Cons.IH [OF this False room(2,3)]
    from Cons.prems(1) have "digits \<subseteq> F" by (simp add: span_state_def)
    with consumes_cat [OF one rest] render_span_hd [OF False] e show ?thesis by auto
  qed
qed simp

lemma elems_effect:
  assumes "0 \<le> currentDurationTime g" and "currentDurationTime g + span_secs es \<le> LONG_MAX"
  shows "\<exists>x. fold elem es g =
    g\<lparr>currentDurationTime := currentDurationTime g + span_secs es, lastReadDurationElement := x\<rparr>"
  using assms
proof (induction es arbitrary: g)
  case Nil
  show ?case by (rule exI [where x = "lastReadDurationElement g"]) simp
next
  case (Cons e es)
  obtain n u where e: "e = (n, u)" by (cases e)
  from Cons.IH [OF span_room(2,3) [OF Cons.prems [unfolded e]]] e show ?case
    by (auto simp: elem_def algebra_simps)
qed


section \<open>Lists in braces\<close>

text \<open>
  A condition that reads time spans separated by commas: the rule for the comma pushes the current
  span with \<open>push\<close> to the vector that \<open>add\<close> extends.
\<close>

locale span_list =
  fixes s ca :: nat and push :: "parser \<Rightarrow> parser" and add :: "long list \<Rightarrow> parser \<Rightarrow> parser"
  assumes reads: "span_state s elem_next"
    and comma: "tok s '', '' ca digits" "ca \<noteq> 70" "action ca w g = Inr (push g)"
    and push_add: "push g = add [currentDurationTime g] (g\<lparr>currentDurationTime := 0\<rparr>)"
    and add_add: "add ys (add xs g) = add (xs @ ys) g"
    and add_keeps: "yy_start (add xs g) = yy_start g" "currentDurationTime (add xs g) = currentDurationTime g"
    and add_set: "(add xs g)\<lparr>currentDurationTime := c, lastReadDurationElement := x\<rparr> =
      add xs (g\<lparr>currentDurationTime := c, lastReadDurationElement := x\<rparr>)"
begin

lemma push_span:
  assumes "currentDurationTime g = 0" and "span_ok d"
  shows "\<exists>x. push (fold elem d g) = add [span_secs d] (g\<lparr>currentDurationTime := 0, lastReadDurationElement := x\<rparr>)"
proof -
  from elems_effect [of g d] assms obtain x where
    "fold elem d g = g\<lparr>currentDurationTime := span_secs d, lastReadDurationElement := x\<rparr>"
    by (auto simp: span_ok_def)
  then have "push (fold elem d g) = add [span_secs d] (g\<lparr>currentDurationTime := 0, lastReadDurationElement := x\<rparr>)"
    by (cases g) (simp add: push_add)
  then show ?thesis ..
qed

lemma consumes_list:
  assumes "yy_start g = s" and "currentDurationTime g = 0" and "ds \<noteq> []" and "list_all span_ok ds"
  shows "\<exists>g1 x. consumes (sep_by render_span ds) {CHR ''}''} g g1 \<and> yy_start g1 = s
    \<and> push g1 = add (map span_secs ds) (g\<lparr>currentDurationTime := 0, lastReadDurationElement := x\<rparr>)"
  using assms
proof (induction ds arbitrary: g)
  case (Cons d ds)
  have d: "span_ok d" "d \<noteq> []" using Cons.prems(4) by (simp_all add: span_ok_def)
  have start: "yy_start (fold elem d h) = yy_start h" for h by (induction d arbitrary: h) simp_all
  have one: "consumes (render_span d) elem_next g (fold elem d g)"
    using consumes_span [of g elem_next d] reads Cons.prems(1,2) d by (simp add: span_ok_def)
  from push_span [OF Cons.prems(2) d(1)] obtain x where
    x: "push (fold elem d g) = add [span_secs d] (g\<lparr>currentDurationTime := 0, lastReadDurationElement := x\<rparr>)"
    by blast
  show ?case
  proof (cases "ds = []")
    case True
    with one x start Cons.prems(1) show ?thesis
      by (intro exI [of _ "fold elem d g"] exI [of _ x]) (auto simp: elem_next_def intro: consumes_mono)
  next
    case False
    let ?g2 = "push (fold elem d g)"
    have cm: "consumes '', '' digits (fold elem d g) ?g2"
      using comma start Cons.prems(1) by (intro consumes_tok [where act = ca]) auto
    have "yy_start ?g2 = s" "currentDurationTime ?g2 = 0"
      using x Cons.prems(1) by (simp_all add: add_keeps)
    from Cons.IH [OF this False] Cons.prems(4) obtain g1 y where
      rest: "consumes (sep_by render_span ds) {CHR ''}''} ?g2 g1" "yy_start g1 = s"
      and g1: "push g1 = add (map span_secs ds) (?g2\<lparr>currentDurationTime := 0, lastReadDurationElement := y\<rparr>)"
      by auto
    obtain e es where ds: "ds = e # es" using False by (cases ds) auto
    then have "e \<noteq> []" using Cons.prems(4) by (simp add: span_ok_def)
    then have hd: "sep_by render_span ds \<noteq> [] \<and> hd (sep_by render_span ds) \<in> digits"
      using render_span_hd [of e] ds by (cases es) auto
    have "consumes (render_span d @ '', '') digits g ?g2"
      by (rule consumes_cat [OF one cm]) (simp_all add: elem_next_def)
    from consumes_cat [OF this rest(1)] hd
    have "consumes (sep_by render_span (d # ds)) {CHR ''}''} g g1" by (simp add: ds)
    moreover have "push g1 = add (map span_secs (d # ds)) (g\<lparr>currentDurationTime := 0, lastReadDurationElement := y\<rparr>)"
      unfolding g1 x add_set add_add by simp
    ultimately show ?thesis using rest(2) by blast
  qed
qed simp

end

definition add_trigger_durations :: "long list \<Rightarrow> parser \<Rightarrow> parser" where
  "add_trigger_durations ds g = g\<lparr>triggerDurationTimes := triggerDurationTimes g @ ds\<rparr>"

definition add_log_durations :: "long list \<Rightarrow> parser \<Rightarrow> parser" where
  "add_log_durations ds g = g\<lparr>logDurations := logDurations g @ ds\<rparr>"

definition add_log_resolutions :: "long list \<Rightarrow> parser \<Rightarrow> parser" where
  "add_log_resolutions ds g = g\<lparr>logResolutions := logResolutions g @ ds\<rparr>"

lemma action_comma:
  "action 25 x g = Inr (push_trigger_duration g)" "action 43 x g = Inr (push_log_duration g)"
  "action 58 x g = Inr (push_log_resolution g)"
  by (simp_all add: action_def trigger_action_def log_action_def)

interpretation trigger_spans: span_list 11 25 push_trigger_duration add_trigger_durations
  by unfold_locales
    (simp_all add: span_states tok_trigger_duration action_comma push_trigger_duration_def add_trigger_durations_def)

interpretation log_spans: span_list 15 43 push_log_duration add_log_durations
  by unfold_locales
    (simp_all add: span_states tok_log_duration action_comma push_log_duration_def add_log_durations_def)

interpretation resolution_spans: span_list 19 58 push_log_resolution add_log_resolutions
  by unfold_locales
    (simp_all add: span_states tok_log_resolution action_comma push_log_resolution_def add_log_resolutions_def)

text \<open>Amounts.\<close>

definition read_amount :: "amount \<Rightarrow> parser \<Rightarrow> parser" where
  "read_amount a g = set_unit (fst (snd a)) (set_value (show_nat (fst a)) g)"

lemma read_amount_eq: "amount_ok a \<Longrightarrow> read_amount a g = g\<lparr>currentResourceValue := amount_value a\<rparr>"
  by (simp add: read_amount_def set_unit_def set_value_def amount_value_def amount_ok_def atol_show_nat)

lemma action_values:
  "action 8 x g = Inr (set_value x g)" "action 9 x g = Inr (set_unit PERCENT g)"
  "action 10 x g = Inr (set_unit MB g)" "action 11 x g = Inr (set_unit GB g)" "action 12 x g = Inr (push_value g)"
  "action 13 x g = yy_pop_state (push_value g)" "action 14 x g = Inr (set_value x g)"
  "action 15 x g = yy_pop_state (push_value (set_unit PERCENT g))"
  "action 16 x g = yy_pop_state (push_value (set_unit MB g))"
  "action 17 x g = yy_pop_state (push_value (set_unit GB g))"
  by (simp_all add: action_def trigger_action_def)

lemma action_units:
  "action (9 + unit_rule u) x g = Inr (set_unit u g)"
  "action (15 + unit_rule u) x g = yy_pop_state (push_value (set_unit u g))"
  by (cases u; simp add: action_values)+

lemma unit_rule_not_70 [simp]: "9 + unit_rule u \<noteq> 70" "15 + unit_rule u \<noteq> 70"
  by (cases u; simp)+

lemma consumes_amount:
  assumes "yy_start g = 7" and "amount_ok a"
  shows "consumes (render_amount a) (set '',}'') g (read_amount a g)"
proof -
  obtain n u x where a: "a = (n, u, x)" by (cases a)
  then have x: "x \<in> set (unit_words u)" using assms(2) by (simp add: amount_ok_def)
  have num: "consumes (show_nat n) after_number g (set_value (show_nat n) g)"
    using number_state_facts(1) assms by (intro consumes_number [where act = 8]) (simp_all add: action_values)
  have "yy_start (set_value (show_nat n) g) = 7" using assms by (simp add: set_value_def)
  with tok_units(1) [OF x] have "consumes x (set '',}'') (set_value (show_nat n) g) (read_amount a g)"
    by (intro consumes_tok [where act = "9 + unit_rule u"]) (simp_all only: action_units unit_rule_not_70 a read_amount_def fst_conv snd_conv not_False_eq_True)
  from consumes_cat [OF num this] unit_words_hd [OF x] show ?thesis by (simp add: render_amount_def a)
qed

lemma render_amount_hd: "render_amount a \<noteq> [] \<and> hd (render_amount a) \<in> digits"
  using show_nat_in_digits by (simp add: render_amount_def)

lemma consumes_amounts:
  assumes "yy_start g = 7" and "as \<noteq> []" and "list_all amount_ok as"
  shows "\<exists>g1 v. consumes (sep_by render_amount as) {CHR ''}''} g g1 \<and> yy_start g1 = 7 \<and>
    push_value g1 = g\<lparr>currentResourceValue := v, triggerResourceValues := triggerResourceValues g @ map amount_value as\<rparr>"
  using assms
proof (induction as arbitrary: g)
  case (Cons a as)
  have eq: "read_amount a g = g\<lparr>currentResourceValue := amount_value a\<rparr>"
    using Cons.prems(3) by (simp add: read_amount_eq)
  have one: "consumes (render_amount a) (set '',}'') g (read_amount a g)"
    using Cons.prems by (intro consumes_amount) simp_all
  show ?case
  proof (cases "as = []")
    case True
    with one eq Cons.prems(1) show ?thesis
      by (intro exI [of _ "read_amount a g"]) (auto simp: push_value_def intro: consumes_mono)
  next
    case False
    let ?g2 = "push_value (read_amount a g)"
    have start: "yy_start (read_amount a g) = 7" "yy_start ?g2 = 7"
      using Cons.prems(1) by (simp_all add: eq push_value_def)
    have cm: "consumes '', '' digits (read_amount a g) ?g2"
      using tok_values(1) start by (intro consumes_tok [where act = 12]) (auto simp: action_values)
    from Cons.IH [OF start(2) False] Cons.prems(3) obtain g1 v where
      rest: "consumes (sep_by render_amount as) {CHR ''}''} ?g2 g1" "yy_start g1 = 7"
      and g1: "push_value g1 = ?g2\<lparr>currentResourceValue := v,
        triggerResourceValues := triggerResourceValues ?g2 @ map amount_value as\<rparr>" by auto
    obtain b bs where as: "as = b # bs" using False by (cases as) auto
    then have hd: "sep_by render_amount as \<noteq> [] \<and> hd (sep_by render_amount as) \<in> digits"
      using render_amount_hd [of b] by (cases bs) auto
    have "consumes (render_amount a @ '', '') digits g ?g2"
      by (rule consumes_cat [OF one cm]) simp_all
    from consumes_cat [OF this rest(1)] hd
    have "consumes (sep_by render_amount (a # as)) {CHR ''}''} g g1" by (simp add: as)
    moreover have "push_value g1 = g\<lparr>currentResourceValue := v,
        triggerResourceValues := triggerResourceValues g @ map amount_value (a # as)\<rparr>"
      unfolding g1 by (simp add: eq push_value_def)
    ultimately show ?thesis using rest(2) by blast
  qed
qed simp


section \<open>Lines\<close>

lemma sep_by_hd:
  "xs \<noteq> [] \<Longrightarrow> \<forall>x \<in> set xs. f x \<noteq> [] \<and> hd (f x) \<in> A \<Longrightarrow> sep_by f xs \<noteq> [] \<and> hd (sep_by f xs) \<in> A"
  by (cases xs; cases "tl xs") auto

lemma consumes_step:
  assumes "consumes w F g g1" and "tok (yy_start g1) w' act F'" and "act \<noteq> 70"
    and "action act w' g1 = Inr g'" and "w' \<noteq> []" and "hd w' \<in> F"
  shows "consumes (w @ w') F' g g'"
  using consumes_cat [OF assms(1) consumes_tok [OF assms(2-4)] assms(5,6)] .

lemma action_heads:
  "action 4 x g = Inr (yy_push_state resourceSetEnv (set_fluctuation UNDER g))"
  "action 5 x g = Inr (yy_push_state resourceSingleNoEnv (set_fluctuation UNDER g))"
  "action 6 x g = Inr (yy_push_state resourceSetEnv (set_fluctuation OVER g))"
  "action 7 x g = Inr (yy_push_state resourceSingleNoEnv (set_fluctuation OVER g))"
  "action 1 x g = Inr (set_trigger_resource CPU g)" "action 2 x g = Inr (set_trigger_resource MEMORY g)"
  "action 3 x g = Inr (set_trigger_resource DISK g)"
  "action 18 x g = Inr (yy_push_state triggerDurationSetEnv g)"
  "action 19 x g = Inr (yy_push_state triggerDurationSingleNoEnv g)"
  "action 26 x g = end_trigger g" "action 32 x g = end_trigger g"
  "action 33 x g = Inr (set_log_resource LOG_CPU g)" "action 34 x g = Inr (set_log_resource LOG_MEMORY g)"
  "action 35 x g = Inr (set_log_resource LOG_DISK g)"
  "action 36 x g = Inr (yy_push_state logDurationSetEnv g)"
  "action 37 x g = Inr (yy_push_state logDurationSingleNoEnv g)"
  "action 44 x g = yy_pop_state (push_log_duration g)" "action 50 x g = yy_pop_state (push_log_duration g)"
  "action 51 x g = Inr (yy_push_state logResolutionSetEnv g)"
  "action 52 x g = Inr (yy_push_state logResolutionSingleNoEnv g)"
  "action 59 x g = end_log g" "action 65 x g = end_log g"
  "action 68 x g = Inr (yy_push_state logEnv g)" "action 69 x g = Inr (yy_push_state triggerEnv g)"
  by (simp_all add: action_def trigger_action_def log_action_def)

lemma trigger_values:
  assumes g: "yy_start g = 5" and vs: "items vs \<noteq> []" "list_all amount_ok (items vs)"
  shows "\<exists>v. consumes (fluctuation_text f @ render_choice render_amount vs @ '' '') {CHR ''l''} g
    (g\<lparr>currentTriggerType := (currentTriggerType g)\<lparr>fluctuationType := f\<rparr>, currentResourceValue := v,
       triggerResourceValues := triggerResourceValues g @ map amount_value (items vs)\<rparr>)"
proof (cases vs)
  case (Braces as)
  let ?g1 = "yy_push_state resourceSetEnv (set_fluctuation f g)"
  have g1: "?g1 = g\<lparr>currentTriggerType := (currentTriggerType g)\<lparr>fluctuationType := f\<rparr>,
      yy_start := 7, yy_start_stack := 2 # yy_start_stack g\<rparr>"
    using g by (simp add: yy_push_state_def set_fluctuation_def BEGIN_def YY_START_def conditions)
  have h: "consumes (fluctuation_text f @ ''{'') digits g ?g1"
    using tok_trigger(4,6) g by (cases f) (auto simp: action_heads intro: consumes_tok)
  have "yy_start ?g1 = 7" by (simp add: g1)
  from consumes_amounts [OF this, of as] vs Braces obtain g2 v where
    c: "consumes (sep_by render_amount as) {CHR ''}''} ?g1 g2" "yy_start g2 = 7" and
    g2: "push_value g2 = ?g1\<lparr>currentResourceValue := v,
      triggerResourceValues := triggerResourceValues ?g1 @ map amount_value as\<rparr>" by auto
  have hd: "sep_by render_amount as \<noteq> [] \<and> hd (sep_by render_amount as) \<in> digits"
    using vs(1) Braces sep_by_hd [of as render_amount digits] render_amount_hd by auto
  let ?g3 = "g\<lparr>currentTriggerType := (currentTriggerType g)\<lparr>fluctuationType := f\<rparr>, currentResourceValue := v,
       triggerResourceValues := triggerResourceValues g @ map amount_value as\<rparr>"
  have "action 13 ''} '' g2 = Inr ?g3"
    unfolding action_values g2 g1 using g by (cases g) (simp add: yy_pop_state_def BEGIN_def)
  with c(2) tok_values(2) have "consumes ''} '' {CHR ''l''} g2 ?g3"
    by (intro consumes_tok [where act = 13]) simp_all
  from consumes_cat [OF consumes_cat [OF h c(1)] this] hd Braces show ?thesis by auto
next
  case (One a)
  obtain n u x where a: "a = (n, u, x)" by (cases a)
  then have x: "x \<in> set (unit_words u)" using vs One by (simp add: amount_ok_def)
  let ?g1 = "yy_push_state resourceSingleNoEnv (set_fluctuation f g)"
  have g1: "?g1 = g\<lparr>currentTriggerType := (currentTriggerType g)\<lparr>fluctuationType := f\<rparr>,
      yy_start := 9, yy_start_stack := 2 # yy_start_stack g\<rparr>"
    using g by (simp add: yy_push_state_def set_fluctuation_def BEGIN_def YY_START_def conditions)
  have h: "consumes (fluctuation_text f) digits g ?g1"
    using tok_trigger(5,7) g by (cases f) (auto simp: action_heads intro: consumes_tok)
  let ?g2 = "set_value (show_nat n) ?g1"
  have c: "consumes (show_nat n) after_number ?g1 ?g2"
    using number_state_facts(2) by (intro consumes_number [where act = 14]) (simp_all add: g1 action_values)
  let ?v = "amount_value a"
  let ?g3 = "g\<lparr>currentTriggerType := (currentTriggerType g)\<lparr>fluctuationType := f\<rparr>, currentResourceValue := ?v,
       triggerResourceValues := triggerResourceValues g @ [?v]\<rparr>"
  have s2: "yy_start ?g2 = 9" by (simp add: g1 set_value_def)
  have "set_unit u ?g2 = read_amount a ?g1" by (simp add: read_amount_def a)
  also have "\<dots> = ?g1\<lparr>currentResourceValue := ?v\<rparr>" using vs One by (simp add: read_amount_eq)
  also have "\<dots> = g\<lparr>currentTriggerType := (currentTriggerType g)\<lparr>fluctuationType := f\<rparr>,
      yy_start := 9, yy_start_stack := 2 # yy_start_stack g, currentResourceValue := ?v\<rparr>"
    unfolding g1 by simp
  finally have sv: "set_unit u ?g2 = \<dots>" .
  have "yy_pop_state (push_value (set_unit u ?g2)) = Inr ?g3"
    unfolding sv using g by (cases g) (simp add: push_value_def yy_pop_state_def BEGIN_def)
  then have "consumes (x @ '' '') {CHR ''l''} ?g2 ?g3"
    using tok_units(2) [OF x] s2
    by (intro consumes_tok [where act = "15 + unit_rule u"]) (simp_all only: action_units unit_rule_not_70 not_False_eq_True)
  moreover have "hd (x @ '' '') \<in> after_number" using unit_words_hd [OF x] by simp
  ultimately have "consumes (fluctuation_text f @ show_nat n @ x @ '' '') {CHR ''l''} g ?g3"
    using consumes_cat [OF consumes_cat [OF h c]] show_nat_in_digits by simp
  then show ?thesis using One a by (auto simp: render_amount_def)
qed

text \<open>The end of a trigger line.\<close>

definition idle :: "parser \<Rightarrow> bool" where
  "idle g \<longleftrightarrow> yy_start g = 1 \<and> yy_start_stack g = [] \<and> currentDurationTime g = 0
     \<and> triggerResourceValues g = [] \<and> triggerDurationTimes g = [] \<and> logDurations g = [] \<and> logResolutions g = []"

definition trigger_end :: "parser \<Rightarrow> long list \<Rightarrow> long \<Rightarrow> parser" where
  "trigger_end g ds x = produceTriggersCrossproduct (g\<lparr>currentDurationTime := 0, lastReadDurationElement := x,
     triggerDurationTimes := triggerDurationTimes g @ ds, yy_start := 1, yy_start_stack := []\<rparr>)"

lemma trigger_end_start [simp]: "yy_start (trigger_end g ds x) = 1"
  using produce_triggers [of "g\<lparr>currentDurationTime := 0, lastReadDurationElement := x,
     triggerDurationTimes := triggerDurationTimes g @ ds, yy_start := 1, yy_start_stack := []\<rparr>"]
  by (auto simp: trigger_end_def)

lemma span_hd: "ds \<noteq> [] \<Longrightarrow> list_all span_ok ds \<Longrightarrow>
  sep_by render_span ds \<noteq> [] \<and> hd (sep_by render_span ds) \<in> digits"
  using sep_by_hd [of ds render_span digits] render_span_hd by (auto simp: span_ok_def list_all_iff)

lemma trigger_braces:
  assumes g: "yy_start g = 5" "yy_start_stack g = [0]" "currentDurationTime g = 0"
    and xs: "xs \<noteq> []" "list_all span_ok xs"
  shows "\<exists>g2 x. consumes (last_text b @ ''{'' @ sep_by render_span xs) {CHR ''}''} g g2 \<and> yy_start g2 = 11
    \<and> (\<forall>w. action 26 w g2 = Inr (trigger_end g (map span_secs xs) x))"
proof -
  let ?g1 = "yy_push_state triggerDurationSetEnv g"
  have g1: "?g1 = g\<lparr>yy_start := 11, yy_start_stack := [2, 0]\<rparr>"
    using g by (simp add: yy_push_state_def BEGIN_def YY_START_def conditions)
  have h: "consumes (last_text b @ ''{'') digits g ?g1"
    using tok_trigger(8,10) g by (cases b; intro consumes_tok [where act = 18]) (simp_all add: action_heads last_text_def)
  have "yy_start ?g1 = 11" "currentDurationTime ?g1 = 0" using g by (simp_all add: g1)
  from trigger_spans.consumes_list [OF this xs] obtain g2 x where
    c: "consumes (sep_by render_span xs) {CHR ''}''} ?g1 g2" "yy_start g2 = 11" and
    g2: "push_trigger_duration g2 = add_trigger_durations (map span_secs xs)
      (?g1\<lparr>currentDurationTime := 0, lastReadDurationElement := x\<rparr>)" by blast
  have "action 26 w g2 = Inr (trigger_end g (map span_secs xs) x)" for w
    unfolding action_heads end_trigger_def g2 g1
    by (cases g) (simp add: yy_pop_state_def BEGIN_def add_trigger_durations_def trigger_end_def)
  moreover have "consumes (last_text b @ ''{'' @ sep_by render_span xs) {CHR ''}''} g g2"
    using consumes_cat [OF h c(1)] span_hd [OF xs] by simp
  ultimately show ?thesis using c(2) by blast
qed

lemma trigger_durations:
  assumes g: "yy_start g = 5" "yy_start_stack g = [0]" "currentDurationTime g = 0"
    and ds: "items ds \<noteq> []" "list_all span_ok (items ds)"
  shows "\<exists>x. consumes_end (last_text b @ render_choice render_span ds @ ''\<newline>'') g
    (trigger_end g (map span_secs (items ds)) x)"
proof (cases ds)
  case (Braces xs)
  with trigger_braces [OF g, of xs b] ds obtain g2 x where
    c: "consumes (last_text b @ ''{'' @ sep_by render_span xs) {CHR ''}''} g g2" "yy_start g2 = 11"
      "\<And>w. action 26 w g2 = Inr (trigger_end g (map span_secs xs) x)" by auto
  have "consumes_end ''}\<newline>'' g2 (trigger_end g (map span_secs xs) x)"
    using tok_ends(1) c(2,3) trigger_end_start by (intro consumes_end_tok [where act = 26]) simp_all
  from consumes_cat_end [OF c(1) this] Braces show ?thesis by auto
next
  case (One d)
  let ?g1 = "yy_push_state triggerDurationSingleNoEnv g"
  have g1: "?g1 = g\<lparr>yy_start := 13, yy_start_stack := [2, 0]\<rparr>"
    using g by (simp add: yy_push_state_def BEGIN_def YY_START_def conditions)
  have h: "consumes (last_text b) digits g ?g1"
    using tok_trigger(9,11) g by (cases b; intro consumes_tok [where act = 19]) (simp_all add: action_heads last_text_def)
  have d: "span_ok d" "d \<noteq> []" using ds One by (simp_all add: span_ok_def)
  have c: "consumes (render_span d) line_next ?g1 (fold elem d ?g1)"
    using span_states(2) d g by (intro consumes_span) (simp_all add: g1 span_ok_def)
  from elems_effect [of ?g1 d] g d obtain x where
    e: "fold elem d ?g1 = ?g1\<lparr>currentDurationTime := span_secs d, lastReadDurationElement := x\<rparr>"
    by (auto simp: g1 span_ok_def)
  have e1: "fold elem d ?g1 = g\<lparr>yy_start := 13, yy_start_stack := [2, 0], currentDurationTime := span_secs d,
      lastReadDurationElement := x\<rparr>" unfolding e unfolding g1 by simp
  have "action 32 w (fold elem d ?g1) = Inr (trigger_end g [span_secs d] x)" for w
    unfolding action_heads end_trigger_def e1
    by (cases g) (simp add: push_trigger_duration_def yy_pop_state_def BEGIN_def trigger_end_def)
  then have "consumes_end ''\<newline>'' (fold elem d ?g1) (trigger_end g [span_secs d] x)"
    using tok_ends(2) trigger_end_start by (intro consumes_end_tok [where act = 32]) (simp_all add: e1)
  from consumes_cat_end [OF consumes_cat [OF h c] this] render_span_hd [OF d(2)] One show ?thesis by auto
qed


text \<open>The two halves of a log line.\<close>

lemma log_durations:
  assumes g: "yy_start g = 3" "currentDurationTime g = 0"
    and ds: "items ds \<noteq> []" "list_all span_ok (items ds)"
  shows "\<exists>x. consumes (''for '' @ render_choice render_span ds @ '' '') {CHR ''r''} g
    (g\<lparr>lastReadDurationElement := x, logDurations := logDurations g @ map span_secs (items ds)\<rparr>)"
proof (cases ds)
  case (Braces xs)
  let ?g1 = "yy_push_state logDurationSetEnv g"
  have g1: "?g1 = g\<lparr>yy_start := 15, yy_start_stack := 1 # yy_start_stack g\<rparr>"
    using g by (simp add: yy_push_state_def BEGIN_def YY_START_def conditions)
  have h: "consumes (''for '' @ ''{'') digits g ?g1"
    using tok_log(4) g by (intro consumes_tok [where act = 36]) (simp_all add: action_heads)
  have "yy_start ?g1 = 15" "currentDurationTime ?g1 = 0" using g by (simp_all add: g1)
  from log_spans.consumes_list [OF this, of xs] ds Braces obtain g2 x where
    c: "consumes (sep_by render_span xs) {CHR ''}''} ?g1 g2" "yy_start g2 = 15" and
    g2: "push_log_duration g2 = add_log_durations (map span_secs xs)
      (?g1\<lparr>currentDurationTime := 0, lastReadDurationElement := x\<rparr>)" by auto
  let ?g3 = "g\<lparr>lastReadDurationElement := x, logDurations := logDurations g @ map span_secs xs\<rparr>"
  have "action 44 ''} '' g2 = Inr ?g3"
    unfolding action_heads g2 g1 using g
    by (cases g) (simp add: yy_pop_state_def BEGIN_def add_log_durations_def)
  then have "consumes ''} '' {CHR ''r''} g2 ?g3"
    using tok_log_duration(6) c(2) by (intro consumes_tok [where act = 44]) simp_all
  from consumes_cat [OF consumes_cat [OF h c(1)] this] span_hd [of xs] ds Braces show ?thesis by auto
next
  case (One d)
  let ?g1 = "yy_push_state logDurationSingleNoEnv g"
  have g1: "?g1 = g\<lparr>yy_start := 17, yy_start_stack := 1 # yy_start_stack g\<rparr>"
    using g by (simp add: yy_push_state_def BEGIN_def YY_START_def conditions)
  have h: "consumes ''for '' digits g ?g1"
    using tok_log(5) g by (intro consumes_tok [where act = 37]) (simp_all add: action_heads)
  have d: "span_ok d" "d \<noteq> []" using ds One by (simp_all add: span_ok_def)
  have c: "consumes (render_span d) word_next ?g1 (fold elem d ?g1)"
    using span_states(4) d g by (intro consumes_span) (simp_all add: g1 span_ok_def)
  from elems_effect [of ?g1 d] g d obtain x where
    e: "fold elem d ?g1 = ?g1\<lparr>currentDurationTime := span_secs d, lastReadDurationElement := x\<rparr>"
    by (auto simp: g1 span_ok_def)
  have e1: "fold elem d ?g1 = g\<lparr>yy_start := 17, yy_start_stack := 1 # yy_start_stack g,
      currentDurationTime := span_secs d, lastReadDurationElement := x\<rparr>" unfolding e unfolding g1 by simp
  let ?g3 = "g\<lparr>lastReadDurationElement := x, logDurations := logDurations g @ [span_secs d]\<rparr>"
  have "action 50 '' '' (fold elem d ?g1) = Inr ?g3"
    unfolding action_heads e1 using g
    by (cases g) (simp add: push_log_duration_def yy_pop_state_def BEGIN_def)
  then have "consumes '' '' {CHR ''r''} (fold elem d ?g1) ?g3"
    using tok_log_duration(11) by (intro consumes_tok [where act = 50]) (simp_all add: e1)
  from consumes_cat [OF consumes_cat [OF h c] this] render_span_hd [OF d(2)] One show ?thesis by auto
qed

definition log_end :: "parser \<Rightarrow> long list \<Rightarrow> long \<Rightarrow> parser" where
  "log_end g rs x = produceLogsCrossproduct (g\<lparr>currentDurationTime := 0, lastReadDurationElement := x,
     logResolutions := logResolutions g @ rs, yy_start := 1, yy_start_stack := []\<rparr>)"

lemma log_end_start [simp]: "yy_start (log_end g rs x) = 1"
  using produce_logs [of "g\<lparr>currentDurationTime := 0, lastReadDurationElement := x,
     logResolutions := logResolutions g @ rs, yy_start := 1, yy_start_stack := []\<rparr>"]
  by (auto simp: log_end_def)

lemma resolution_braces:
  assumes g: "yy_start g = 3" "yy_start_stack g = [0]" "currentDurationTime g = 0"
    and xs: "xs \<noteq> []" "list_all span_ok xs"
  shows "\<exists>g2 x. consumes (''resolution '' @ ''{'' @ sep_by render_span xs) {CHR ''}''} g g2 \<and> yy_start g2 = 19
    \<and> (\<forall>w. action 59 w g2 = Inr (log_end g (map span_secs xs) x))"
proof -
  let ?g1 = "yy_push_state logResolutionSetEnv g"
  have g1: "?g1 = g\<lparr>yy_start := 19, yy_start_stack := [1, 0]\<rparr>"
    using g by (simp add: yy_push_state_def BEGIN_def YY_START_def conditions)
  have h: "consumes (''resolution '' @ ''{'') digits g ?g1"
    using tok_log(6) g by (intro consumes_tok [where act = 51]) (simp_all add: action_heads)
  have "yy_start ?g1 = 19" "currentDurationTime ?g1 = 0" using g by (simp_all add: g1)
  from resolution_spans.consumes_list [OF this xs] obtain g2 x where
    c: "consumes (sep_by render_span xs) {CHR ''}''} ?g1 g2" "yy_start g2 = 19" and
    g2: "push_log_resolution g2 = add_log_resolutions (map span_secs xs)
      (?g1\<lparr>currentDurationTime := 0, lastReadDurationElement := x\<rparr>)" by blast
  have "action 59 w g2 = Inr (log_end g (map span_secs xs) x)" for w
    unfolding action_heads end_log_def g2 g1
    by (cases g) (simp add: yy_pop_state_def BEGIN_def add_log_resolutions_def log_end_def)
  moreover have "consumes (''resolution '' @ ''{'' @ sep_by render_span xs) {CHR ''}''} g g2"
    using consumes_cat [OF h c(1)] span_hd [OF xs] by simp
  ultimately show ?thesis using c(2) by blast
qed

lemma log_resolutions:
  assumes g: "yy_start g = 3" "yy_start_stack g = [0]" "currentDurationTime g = 0"
    and ds: "items ds \<noteq> []" "list_all span_ok (items ds)"
  shows "\<exists>x. consumes_end (''resolution '' @ render_choice render_span ds @ ''\<newline>'') g
    (log_end g (map span_secs (items ds)) x)"
proof (cases ds)
  case (Braces xs)
  with resolution_braces [OF g, of xs] ds obtain g2 x where
    c: "consumes (''resolution '' @ ''{'' @ sep_by render_span xs) {CHR ''}''} g g2" "yy_start g2 = 19"
      "\<And>w. action 59 w g2 = Inr (log_end g (map span_secs xs) x)" by auto
  have "consumes_end ''}\<newline>'' g2 (log_end g (map span_secs xs) x)"
    using tok_ends(3) c(2,3) log_end_start by (intro consumes_end_tok [where act = 59]) simp_all
  from consumes_cat_end [OF c(1) this] Braces show ?thesis by auto
next
  case (One d)
  let ?g1 = "yy_push_state logResolutionSingleNoEnv g"
  have g1: "?g1 = g\<lparr>yy_start := 21, yy_start_stack := [1, 0]\<rparr>"
    using g by (simp add: yy_push_state_def BEGIN_def YY_START_def conditions)
  have h: "consumes ''resolution '' digits g ?g1"
    using tok_log(7) g by (intro consumes_tok [where act = 52]) (simp_all add: action_heads)
  have d: "span_ok d" "d \<noteq> []" using ds One by (simp_all add: span_ok_def)
  have c: "consumes (render_span d) line_next ?g1 (fold elem d ?g1)"
    using span_states(6) d g by (intro consumes_span) (simp_all add: g1 span_ok_def)
  from elems_effect [of ?g1 d] g d obtain x where
    e: "fold elem d ?g1 = ?g1\<lparr>currentDurationTime := span_secs d, lastReadDurationElement := x\<rparr>"
    by (auto simp: g1 span_ok_def)
  have e1: "fold elem d ?g1 = g\<lparr>yy_start := 21, yy_start_stack := [1, 0],
      currentDurationTime := span_secs d, lastReadDurationElement := x\<rparr>" unfolding e unfolding g1 by simp
  have "action 65 w (fold elem d ?g1) = Inr (log_end g [span_secs d] x)" for w
    unfolding action_heads end_log_def e1
    by (cases g) (simp add: push_log_resolution_def yy_pop_state_def BEGIN_def log_end_def)
  then have "consumes_end ''\<newline>'' (fold elem d ?g1) (log_end g [span_secs d] x)"
    using tok_ends(4) log_end_start by (intro consumes_end_tok [where act = 65]) (simp_all add: e1)
  from consumes_cat_end [OF consumes_cat [OF h c] this] render_span_hd [OF d(2)] One show ?thesis by auto
qed

section \<open>Whole files\<close>

lemma trigger_product_line:
  "resource t = r \<Longrightarrow> fluctuationType t = f \<Longrightarrow>
     trigger_product t (map amount_value (items vs)) (map span_secs (items ds)) = line_triggers (Trigger_line y r f vs ds)"
  by (cases t) (simp add: trigger_product_def comp_def)

lemma log_product_line:
  "log_resource l = r \<Longrightarrow> log_product l (map span_secs (items ds)) (map span_secs (items rs)) = line_logs (Log_line y r ds rs)"
  by (cases l) (simp add: log_product_def comp_def)

lemma consumes_resource: "yy_start g = 5 \<Longrightarrow> consumes (resource_text r) (set ''ou'') g (set_trigger_resource r g)"
  using consumes_tok [of g "''cpu ''" 1] consumes_tok [of g "''memory ''" 2] consumes_tok [of g "''disk ''" 3]
    tok_trigger(1-3) by (cases r) (simp_all only: action_heads resource_text.simps one_neq_zero)

lemma consumes_log_resource:
  "yy_start g = 3 \<Longrightarrow> consumes (log_resource_text r) {CHR ''f''} g (set_log_resource r g)"
  using consumes_tok [of g "''cpu ''" 33] consumes_tok [of g "''memory ''" 34] consumes_tok [of g "''disk ''" 35]
    tok_log(1-3) by (cases r) (simp_all only: action_heads log_resource_text.simps)

lemma last_text_hd [simp]: "hd (last_text b @ u) = CHR ''l''" "last_text b \<noteq> []"
  by (simp_all add: last_text_def)

text \<open>A trigger line up to its durations, and what the end of the line makes of it.\<close>

lemma trigger_head:
  assumes "idle g" and ok: "line_ok (Trigger_line y r f vs ds)"
  shows "\<exists>g3. consumes ((''trigger '' @ resource_text r) @ fluctuation_text f @ render_choice render_amount vs @ '' '')
      {CHR ''l''} g g3
    \<and> yy_start g3 = 5 \<and> yy_start_stack g3 = [0] \<and> currentDurationTime g3 = 0
    \<and> triggerTypes g3 = triggerTypes g \<and> logTypes g3 = logTypes g
    \<and> (\<forall>x. let e = trigger_end g3 (map span_secs (items ds)) x in idle e
      \<and> triggerTypes e = triggerTypes g @ line_triggers (Trigger_line y r f vs ds) \<and> logTypes e = logTypes g)"
proof -
  have i: "yy_start g = 1" "yy_start_stack g = []" "currentDurationTime g = 0" "triggerResourceValues g = []"
    "triggerDurationTimes g = []" "logDurations g = []" "logResolutions g = []"
    using assms(1) by (simp_all add: idle_def)
  let ?g1 = "g\<lparr>yy_start := 5, yy_start_stack := [0]\<rparr>"
  have "consumes ''trigger '' (set ''cmd'') g ?g1"
    using tok_initial(1) i
    by (intro consumes_tok [where act = 69]) (simp_all add: action_heads yy_push_state_def BEGIN_def YY_START_def conditions)
  moreover let ?g2 = "?g1\<lparr>currentTriggerType := (currentTriggerType g)\<lparr>resource := r\<rparr>\<rparr>"
  have "consumes (resource_text r) (set ''ou'') ?g1 ?g2"
  proof -
    have "?g2 = set_trigger_resource r ?g1" by (simp add: set_trigger_resource_def)
    moreover have "yy_start ?g1 = 5" by simp
    ultimately show ?thesis using consumes_resource by metis
  qed
  ultimately have two: "consumes (''trigger '' @ resource_text r) (set ''ou'') g ?g2"
    by (rule consumes_cat) (cases r; simp)+
  from trigger_values [of ?g2 vs f] ok obtain v where
    "consumes (fluctuation_text f @ render_choice render_amount vs @ '' '') {CHR ''l''} ?g2
      (?g2\<lparr>currentTriggerType := (currentTriggerType ?g2)\<lparr>fluctuationType := f\<rparr>, currentResourceValue := v,
         triggerResourceValues := triggerResourceValues ?g2 @ map amount_value (items vs)\<rparr>)"
      (is "consumes _ _ _ ?g3") by auto
  from consumes_cat [OF two this] have three: "consumes ((''trigger '' @ resource_text r) @
      fluctuation_text f @ render_choice render_amount vs @ '' '') {CHR ''l''} g ?g3" by (cases f) auto
  have res: "idle (trigger_end ?g3 (map span_secs (items ds)) x)
    \<and> triggerTypes (trigger_end ?g3 (map span_secs (items ds)) x) = triggerTypes g @ line_triggers (Trigger_line y r f vs ds)
    \<and> logTypes (trigger_end ?g3 (map span_secs (items ds)) x) = logTypes g" for x
  proof -
  let ?h = "?g3\<lparr>currentDurationTime := 0, lastReadDurationElement := x,
     triggerDurationTimes := triggerDurationTimes ?g3 @ map span_secs (items ds), yy_start := 1, yy_start_stack := []\<rparr>"
  obtain t where t: "trigger_end ?g3 (map span_secs (items ds)) x =
      ?h\<lparr>currentTriggerType := t, triggerTypes := triggerTypes ?h @
        trigger_product (currentTriggerType ?h) (triggerResourceValues ?h) (triggerDurationTimes ?h),
        triggerResourceValues := [], triggerDurationTimes := []\<rparr>"
    using produce_triggers [of ?h] unfolding trigger_end_def by blast
  have "trigger_product (currentTriggerType ?h) (triggerResourceValues ?h) (triggerDurationTimes ?h) =
      line_triggers (Trigger_line y r f vs ds)"
    using trigger_product_line [of "currentTriggerType ?h" r f vs ds] i by simp
  then show ?thesis unfolding t using i by (simp add: idle_def)
  qed
  show ?thesis
  proof (intro exI [of _ ?g3] conjI allI)
    show "let e = trigger_end ?g3 (map span_secs (items ds)) x in idle e
      \<and> triggerTypes e = triggerTypes g @ line_triggers (Trigger_line y r f vs ds) \<and> logTypes e = logTypes g" for x
      unfolding Let_def by (rule res)
  qed (use three i in simp_all)
qed

lemma consumes_trigger_line:
  assumes "idle g" and ok: "line_ok (Trigger_line y r f vs ds)"
  shows "\<exists>g'. consumes_end (line_body (Trigger_line y r f vs ds)) g g' \<and> idle g'
    \<and> triggerTypes g' = triggerTypes g @ line_triggers (Trigger_line y r f vs ds) \<and> logTypes g' = logTypes g"
proof -
  from trigger_head [OF assms] obtain g3 where
    h: "consumes ((''trigger '' @ resource_text r) @ fluctuation_text f @ render_choice render_amount vs @ '' '') {CHR ''l''} g g3"
    and g3: "yy_start g3 = 5" "yy_start_stack g3 = [0]" "currentDurationTime g3 = 0"
    and e: "\<And>x. let e = trigger_end g3 (map span_secs (items ds)) x in idle e
      \<and> triggerTypes e = triggerTypes g @ line_triggers (Trigger_line y r f vs ds) \<and> logTypes e = logTypes g" by blast
  from trigger_durations [OF g3, of ds "last_for y"] ok obtain x where
    "consumes_end (last_text (last_for y) @ render_choice render_span ds @ ''\<newline>'') g3
      (trigger_end g3 (map span_secs (items ds)) x)" by auto
  from consumes_cat_end [OF h this]
  have "consumes_end (line_body (Trigger_line y r f vs ds)) g (trigger_end g3 (map span_secs (items ds)) x)"
    using last_text_hd by simp
  with e [of x] show ?thesis by (auto simp: Let_def)
qed

lemma log_head:
  assumes "idle g" and ok: "line_ok (Log_line L r ds rs)"
  shows "\<exists>g3. consumes ((''log '' @ log_resource_text r) @ ''for '' @ render_choice render_span ds @ '' '') {CHR ''r''} g g3
    \<and> yy_start g3 = 3 \<and> yy_start_stack g3 = [0] \<and> currentDurationTime g3 = 0
    \<and> triggerTypes g3 = triggerTypes g \<and> logTypes g3 = logTypes g
    \<and> (\<forall>x. let e = log_end g3 (map span_secs (items rs)) x in idle e
      \<and> triggerTypes e = triggerTypes g \<and> logTypes e = logTypes g @ line_logs (Log_line L r ds rs))"
proof -
  have i: "yy_start g = 1" "yy_start_stack g = []" "currentDurationTime g = 0" "triggerResourceValues g = []"
    "triggerDurationTimes g = []" "logDurations g = []" "logResolutions g = []"
    using assms(1) by (simp_all add: idle_def)
  let ?g1 = "g\<lparr>yy_start := 3, yy_start_stack := [0]\<rparr>"
  have "consumes ''log '' (set ''cmd'') g ?g1"
    using tok_initial(2) i
    by (intro consumes_tok [where act = 68]) (simp_all add: action_heads yy_push_state_def BEGIN_def YY_START_def conditions)
  moreover let ?g2 = "?g1\<lparr>currentLogType := (currentLogType g)\<lparr>log_resource := r\<rparr>\<rparr>"
  have "consumes (log_resource_text r) {CHR ''f''} ?g1 ?g2"
  proof -
    have "?g2 = set_log_resource r ?g1" by (simp add: set_log_resource_def)
    moreover have "yy_start ?g1 = 3" by simp
    ultimately show ?thesis using consumes_log_resource by metis
  qed
  ultimately have two: "consumes (''log '' @ log_resource_text r) {CHR ''f''} g ?g2"
    by (rule consumes_cat) (cases r; simp)+
  from log_durations [of ?g2 ds] i ok obtain x where
    "consumes (''for '' @ render_choice render_span ds @ '' '') {CHR ''r''} ?g2
      (?g2\<lparr>lastReadDurationElement := x, logDurations := logDurations ?g2 @ map span_secs (items ds)\<rparr>)"
      (is "consumes _ _ _ ?g3") by auto
  from consumes_cat [OF two this] have three: "consumes ((''log '' @ log_resource_text r) @
      ''for '' @ render_choice render_span ds @ '' '') {CHR ''r''} g ?g3" by auto
  have res: "idle (log_end ?g3 (map span_secs (items rs)) y)
    \<and> triggerTypes (log_end ?g3 (map span_secs (items rs)) y) = triggerTypes g
    \<and> logTypes (log_end ?g3 (map span_secs (items rs)) y) = logTypes g @ line_logs (Log_line L r ds rs)" for y
  proof -
  let ?h = "?g3\<lparr>currentDurationTime := 0, lastReadDurationElement := y,
     logResolutions := logResolutions ?g3 @ map span_secs (items rs), yy_start := 1, yy_start_stack := []\<rparr>"
  obtain l where l: "log_end ?g3 (map span_secs (items rs)) y =
      ?h\<lparr>currentLogType := l, logTypes := logTypes ?h @
        log_product (currentLogType ?h) (logDurations ?h) (logResolutions ?h),
        logDurations := [], logResolutions := []\<rparr>"
    using produce_logs [of ?h] unfolding log_end_def by blast
  have "log_product (currentLogType ?h) (logDurations ?h) (logResolutions ?h) = line_logs (Log_line L r ds rs)"
    using log_product_line [of "currentLogType ?h" r ds rs] i by simp
  then show ?thesis unfolding l using i by (simp add: idle_def)
  qed
  show ?thesis
  proof (intro exI [of _ ?g3] conjI allI)
    show "let e = log_end ?g3 (map span_secs (items rs)) y in idle e
      \<and> triggerTypes e = triggerTypes g \<and> logTypes e = logTypes g @ line_logs (Log_line L r ds rs)" for y
      unfolding Let_def by (rule res)
  qed (use three i in simp_all)
qed

lemma consumes_log_line:
  assumes "idle g" and ok: "line_ok (Log_line L r ds rs)"
  shows "\<exists>g'. consumes_end (line_body (Log_line L r ds rs)) g g' \<and> idle g'
    \<and> triggerTypes g' = triggerTypes g \<and> logTypes g' = logTypes g @ line_logs (Log_line L r ds rs)"
proof -
  from log_head [OF assms] obtain g3 where
    h: "consumes ((''log '' @ log_resource_text r) @ ''for '' @ render_choice render_span ds @ '' '') {CHR ''r''} g g3"
    and g3: "yy_start g3 = 3" "yy_start_stack g3 = [0]" "currentDurationTime g3 = 0"
    and e: "\<And>x. let e = log_end g3 (map span_secs (items rs)) x in idle e
      \<and> triggerTypes e = triggerTypes g \<and> logTypes e = logTypes g @ line_logs (Log_line L r ds rs)" by blast
  from log_resolutions [OF g3, of rs] ok obtain x where
    "consumes_end (''resolution '' @ render_choice render_span rs @ ''\<newline>'') g3 (log_end g3 (map span_secs (items rs)) x)"
    by auto
  from consumes_cat_end [OF h this]
  have "consumes_end (line_body (Log_line L r ds rs)) g (log_end g3 (map span_secs (items rs)) x)" by simp
  with e [of x] show ?thesis by (auto simp: Let_def)
qed

lemma consumes_line:
  assumes "idle g" and "line_ok l"
  shows "\<exists>g'. consumes_end (line_body l) g g' \<and> idle g'
    \<and> triggerTypes g' = triggerTypes g @ line_triggers l \<and> logTypes g' = logTypes g @ line_logs l"
  using consumes_trigger_line [OF assms(1)] consumes_log_line [OF assms(1)] assms(2)
  by (cases l) (simp_all del: line_body.simps)

lemma line_body_hd: "hd (line_body l) \<in> set ''tl''" "line_body l \<noteq> []"
  by (cases l; simp)+

lemma line_ok_layout: "line_ok l \<Longrightarrow> set (margin (line_layout l)) \<subseteq> spaces"
  by (cases l) (simp_all add: layout_ok_def)

lemma render_config_at_line: "list_all line_ok ls \<Longrightarrow> at_line rest \<Longrightarrow> at_line (render_config ls @ rest)"
proof (cases ls)
  case (Cons l ls')
  assume "list_all line_ok ls"
  with Cons have "set (margin (line_layout l)) \<subseteq> spaces" by (simp add: line_ok_layout)
  moreover have "hd (line_body l @ u) \<in> set ''tl''" for u using line_body_hd [of l] by simp
  ultimately show ?thesis using Cons unfolding at_line_def
    by (intro exI [of _ "margin (line_layout l)"] exI [of _ "line_body l @ render_config ls' @ rest"])
      (simp add: render_config_def render_line_def)
qed (simp add: render_config_def)

text \<open>Definitions in front of anything that can follow a line.\<close>

lemma scan_config_then:
  assumes "idle g" and "list_all line_ok ls" and "at_line rest"
  shows "\<exists>g'. scan (render_config ls @ rest) g out = scan rest g' out \<and> idle g'
    \<and> triggerTypes g' = triggerTypes g @ concat (map line_triggers ls)
    \<and> logTypes g' = logTypes g @ concat (map line_logs ls)"
  using assms(1,2)
proof (induction ls arbitrary: g)
  case Nil
  then show ?case by (auto simp: render_config_def)
next
  case (Cons l ls)
  from consumes_line [OF Cons.prems(1), of l] Cons.prems(2) obtain g1 where
    c: "consumes_end (line_body l) g g1" and g1: "idle g1" "triggerTypes g1 = triggerTypes g @ line_triggers l"
      "logTypes g1 = logTypes g @ line_logs l" by auto
  have split: "render_config (l # ls) @ rest = margin (line_layout l) @ line_body l @ render_config ls @ rest"
    by (simp add: render_config_def render_line_def)
  have m: "set (margin (line_layout l)) \<subseteq> spaces" using Cons.prems(2) by (simp add: line_ok_layout)
  have "hd (line_body l @ render_config ls @ rest) \<in> set ''tl''" using line_body_hd [of l] by simp
  with scan_margin [OF _ m, of g] Cons.prems(1)
  have "scan (render_config (l # ls) @ rest) g out = scan (line_body l @ render_config ls @ rest) g out"
    unfolding split idle_def by blast
  also have "\<dots> = scan (render_config ls @ rest) g1 out"
    using c render_config_at_line [of ls, OF _ assms(3)] Cons.prems(2) unfolding consumes_end_def by simp
  finally show ?case using Cons.IH [OF g1(1)] Cons.prems(2) g1 by auto
qed

lemma scan_config:
  assumes "idle g" and "list_all line_ok ls"
  shows "\<exists>g'. scan (render_config ls) g out = Some (Inr (g', out)) \<and> idle g'
    \<and> triggerTypes g' = triggerTypes g @ concat (map line_triggers ls)
    \<and> logTypes g' = logTypes g @ concat (map line_logs ls)"
  using scan_config_then [OF assms, of "[]" out] by (auto simp: at_line_def scan.simps [of "[]"])

lemma run_config:
  assumes "list_all line_ok ls"
  shows "\<exists>g. ConfigurationParser_run (render_config ls) parser_init =
    Some (Inr (concat (map line_triggers ls), concat (map line_logs ls), g))"
proof -
  have "idle (fresh_start parser_init)" "triggerTypes (fresh_start parser_init) = []"
    "logTypes (fresh_start parser_init) = []"
    by (simp_all add: idle_def fresh_start_def parser_init_def)
  with scan_config [of "fresh_start parser_init" ls "[]"] assms show ?thesis
    by (auto simp: run_eq)
qed

section \<open>Properties of the parser\<close>

text \<open>C1: Parsing the text of a configuration returns exactly its triggers and logs: one trigger for
  every value and duration and one log for every duration and resolution, in the order of the file,
  for single values and lists in braces, spans such as \<open>2h30m\<close>, any numbers that fit, any margins and empty
  lines, and every spelling of the units.\<close>

theorem parse_render:
  assumes "list_all line_ok ls"
  shows "\<exists>g. ConfigurationParser_run (render_config ls) parser_init =
    Some (Inr (concat (map line_triggers ls), concat (map line_logs ls), g))"
  using assms by (rule run_config)

definition ex_config :: "definition_line list" where
  "ex_config =
     [Trigger_line \<lparr>margin = ''\<newline>  '', last_for = True\<rparr> CPU OVER (Braces [(70, PERCENT, ''%''), (90, PERCENT, ''%'')]) (Braces [[(20, Sec)], [(1, Min)]]),
      Log_line \<lparr>margin = ''\<newline>'', last_for = False\<rparr> LOG_MEMORY (One [(2, Hour), (30, Min)]) (One [(5, Sec)])]"

theorem parse_render_witness:
  "\<exists>g. ConfigurationParser_run
    ''\<newline>  trigger cpu over {70%, 90%} last for {20s, 1m}\<newline>\<newline>log memory for 2h30m resolution 5s\<newline>'' parser_init =
    Some (Inr (
      [\<lparr>resource = CPU, fluctuationType = OVER, triggerValue = \<lparr>unitType = PERCENT, rvalue = 70\<rparr>, duration = 20\<rparr>,
       \<lparr>resource = CPU, fluctuationType = OVER, triggerValue = \<lparr>unitType = PERCENT, rvalue = 70\<rparr>, duration = 60\<rparr>,
       \<lparr>resource = CPU, fluctuationType = OVER, triggerValue = \<lparr>unitType = PERCENT, rvalue = 90\<rparr>, duration = 20\<rparr>,
       \<lparr>resource = CPU, fluctuationType = OVER, triggerValue = \<lparr>unitType = PERCENT, rvalue = 90\<rparr>, duration = 60\<rparr>],
      [\<lparr>log_resource = LOG_MEMORY, log_duration = 9000, log_resolution = 5\<rparr>], g))"
proof -
  have "list_all line_ok ex_config"
    by (simp add: ex_config_def span_ok_def amount_ok_def layout_ok_def spaces_def blanks_def LONG_MAX_def SEC_IN_MIN_def SEC_IN_HOUR_def)
  note run = parse_render [OF this]
  have "render_config ex_config =
      ''\<newline>  trigger cpu over {70%, 90%} last for {20s, 1m}\<newline>\<newline>log memory for 2h30m resolution 5s\<newline>''"
    by code_simp
  with run show ?thesis
    by (simp add: ex_config_def amount_value_def SEC_IN_MIN_def SEC_IN_HOUR_def)
qed

end
