(* ===== verification/UnfinishedLines.thy ===== *)
theory UnfinishedLines
  imports ConfigParser
begin

text \<open>
  A configuration file whose last line is not ended. The action that produces the triggers or logs of a
  line belongs to the closing brace or, where there is none, to the line end, and at the end of the input
  \<open>yylex\<close> returns without it: a last line that ends in a plain time span is dropped.
\<close>

section \<open>A time span at the end of the input\<close>

lemma eof_unit:
  assumes "s = 13 \<or> s = 21"
  shows "\<exists>act. token s [unit_char u] = (act, 1) \<and> act \<noteq> 70
    \<and> (\<forall>x g. action act x g = add_duration (unit_secs u) g)"
proof -
  have t: "token 13 ''s'' = (28, 1)" "token 13 ''m'' = (29, 1)" "token 13 ''h'' = (30, 1)" "token 13 ''d'' = (31, 1)"
    "token 21 ''s'' = (61, 1)" "token 21 ''m'' = (62, 1)" "token 21 ''h'' = (63, 1)" "token 21 ''d'' = (64, 1)"
    by (simp_all add: tok_simps)
  from assms t show ?thesis by (cases u) (auto simp: action_span)
qed

lemma eof_span:
  assumes "span_state (yy_start g) F" and "yy_start g = 13 \<or> yy_start g = 21" and "d \<noteq> []"
    and "0 \<le> currentDurationTime g" and "currentDurationTime g + span_secs d \<le> LONG_MAX"
  shows "scan (render_span d) g out = Some (Inr (fold elem d g, out))"
  using assms
proof (induction d arbitrary: g)
  case (Cons e es)
  obtain n u where e: "e = (n, u)" by (cases e)
  note room = span_room [OF Cons.prems(4,5) [unfolded e]]
  show ?case
  proof (cases "es = []")
    case True
    from Cons.prems(1) obtain q r a where "number_states (yy_start g) q r a" "a \<noteq> 70"
      and "\<forall>x g. action a x g = Inr (read_element x g)" unfolding span_state_def by blast
    then have num: "consumes (show_nat n) after_number g (read_element (show_nat n) g)"
      by (intro consumes_number) auto
    let ?g1 = "read_element (show_nat n) g"
    have "unit_char u \<in> after_number" by (cases u) (simp_all add: after_number_def)
    with num have "scan (show_nat n @ [unit_char u]) g out = scan [unit_char u] ?g1 out"
      by (simp add: consumes_def)
    moreover have "yy_start ?g1 = 13 \<or> yy_start ?g1 = 21" using Cons.prems(2) by (simp add: read_element_def)
    from eof_unit [OF this, of u] have "scan [unit_char u] ?g1 out = scan [] (elem (n, u) g) out"
      using elem_read [OF room(1)] by (auto simp: scan.simps [of "[unit_char u]"] Let_def)
    ultimately show ?thesis using True e by (simp add: scan.simps [of "[]"])
  next
    case False
    have s: "span_state (yy_start (elem (n, u) g)) F" "yy_start (elem (n, u) g) = 13 \<or> yy_start (elem (n, u) g) = 21"
      using Cons.prems by simp_all
    have "digits \<subseteq> F" using Cons.prems(1) by (simp add: span_state_def)
    moreover obtain c cs where c: "render_span es = c # cs" "c \<in> digits"
      using render_span_hd [OF False] by (cases "render_span es") auto
    ultimately have "scan ((show_nat n @ [unit_char u]) @ render_span es) g out = scan (render_span es) (elem (n, u) g) out"
      using consumes_elem [OF Cons.prems(1) room(1)] unfolding consumes_def by auto
    with Cons.IH [OF s False room(2,3)] e show ?thesis by simp
  qed
qed simp

lemma fold_elem_types: "triggerTypes (fold elem d g) = triggerTypes g \<and> logTypes (fold elem d g) = logTypes g"
  by (induction d arbitrary: g) (simp_all add: elem_def)

section \<open>An unfinished line\<close>

fun open_end :: "definition_line \<Rightarrow> bool" where
  "open_end (Trigger_line y r f vs ds) \<longleftrightarrow> (case ds of One d \<Rightarrow> True | Braces xs \<Rightarrow> False)"
| "open_end (Log_line y r ds rs) \<longleftrightarrow> (case rs of One d \<Rightarrow> True | Braces xs \<Rightarrow> False)"

definition scans_to :: "string \<Rightarrow> parser \<Rightarrow> string \<Rightarrow> TriggerType list \<Rightarrow> LogType list \<Rightarrow> bool" where
  "scans_to txt g out ts ls \<longleftrightarrow> (\<exists>g'. scan txt g out = Some (Inr (g', out)) \<and> triggerTypes g' = ts \<and> logTypes g' = ls)"

lemma scans_after:
  assumes "consumes w F g g1" and "hd w' \<in> F" and "w' \<noteq> []" and "scans_to w' g1 out ts ls"
  shows "scans_to (w @ w') g out ts ls"
  using assms by (cases w') (auto simp: consumes_def scans_to_def)

lemma eof_brace:
  assumes "yy_start g = 11 \<and> act = 26 \<or> yy_start g = 19 \<and> act = 59" and "action act ''}'' g = Inr g'"
  shows "scans_to ''}'' g out (triggerTypes g') (logTypes g')"
proof -
  have "token 11 ''}'' = (26, 1)" "token 19 ''}'' = (59, 1)" by (simp_all add: tok_simps)
  with assms have "scan ''}'' g out = scan [] g' out" by (auto simp: scan.simps [of "''}''"] Let_def)
  then show ?thesis by (simp add: scans_to_def scan.simps [of "[]"])
qed

lemma unfinished_trigger:
  assumes "idle g" and ok: "line_ok (Trigger_line y r f vs ds)"
  shows "scans_to (butlast (line_body (Trigger_line y r f vs ds))) g out
    (triggerTypes g @ (if open_end (Trigger_line y r f vs ds) then [] else line_triggers (Trigger_line y r f vs ds)))
    (logTypes g)"
proof -
  let ?w = "(''trigger '' @ resource_text r) @ fluctuation_text f @ render_choice render_amount vs @ '' ''"
  from trigger_head [OF assms] obtain g3 where h: "consumes ?w {CHR ''l''} g g3"
    and g3: "yy_start g3 = 5" "yy_start_stack g3 = [0]" "currentDurationTime g3 = 0"
      "triggerTypes g3 = triggerTypes g" "logTypes g3 = logTypes g"
    and e: "\<And>x. let e = trigger_end g3 (map span_secs (items ds)) x in idle e
      \<and> triggerTypes e = triggerTypes g @ line_triggers (Trigger_line y r f vs ds) \<and> logTypes e = logTypes g" by blast
  have b: "butlast (line_body (Trigger_line y r f vs ds)) = ?w @ last_text (last_for y) @ render_choice render_span ds"
    by (simp add: butlast_append)
  show ?thesis unfolding b
  proof (rule scans_after [OF h])
    show "scans_to (last_text (last_for y) @ render_choice render_span ds) g3 out (triggerTypes g
        @ (if open_end (Trigger_line y r f vs ds) then [] else line_triggers (Trigger_line y r f vs ds))) (logTypes g)"
    proof (cases ds)
      case (Braces xs)
      with trigger_braces [OF g3(1-3), of xs "last_for y"] ok obtain g2 x where
        c: "consumes (last_text (last_for y) @ ''{'' @ sep_by render_span xs) {CHR ''}''} g3 g2" "yy_start g2 = 11"
          "\<And>w. action 26 w g2 = Inr (trigger_end g3 (map span_secs xs) x)" by auto
      have "scans_to ''}'' g2 out (triggerTypes (trigger_end g3 (map span_secs xs) x)) (logTypes (trigger_end g3 (map span_secs xs) x))"
        using c(2,3) by (intro eof_brace [where act = 26]) auto
      from scans_after [OF c(1) _ _ this] e [of x] Braces show ?thesis by (simp add: Let_def)
    next
      case (One d)
      let ?g1 = "yy_push_state triggerDurationSingleNoEnv g3"
      have g1: "yy_start ?g1 = 13" "triggerTypes ?g1 = triggerTypes g3" "logTypes ?g1 = logTypes g3"
        "currentDurationTime ?g1 = 0"
        using g3(3) by (simp_all add: yy_push_state_def BEGIN_def conditions)
      have d: "d \<noteq> []" "span_secs d \<le> LONG_MAX" using ok One by (simp_all add: span_ok_def)
      have "consumes (last_text (last_for y)) digits g3 ?g1"
        using tok_trigger(9,11) g3(1) by (cases "last_for y"; intro consumes_tok [where act = 19]) (simp_all add: action_heads last_text_def)
      moreover have "scans_to (render_span d) ?g1 out (triggerTypes g) (logTypes g)"
        using eof_span [of ?g1 line_next d] span_states(2) d g1 g3(4,5) fold_elem_types [of d ?g1] by (simp add: scans_to_def)
      ultimately show ?thesis using render_span_hd [OF d(1)] One by (auto intro: scans_after)
    qed
  qed (simp_all add: last_text_hd)
qed
lemma unfinished_log:
  assumes "idle g" and ok: "line_ok (Log_line y r ds rs)"
  shows "scans_to (butlast (line_body (Log_line y r ds rs))) g out (triggerTypes g)
    (logTypes g @ (if open_end (Log_line y r ds rs) then [] else line_logs (Log_line y r ds rs)))"
proof -
  let ?w = "(''log '' @ log_resource_text r) @ ''for '' @ render_choice render_span ds @ '' ''"
  from log_head [OF assms] obtain g3 where h: "consumes ?w {CHR ''r''} g g3"
    and g3: "yy_start g3 = 3" "yy_start_stack g3 = [0]" "currentDurationTime g3 = 0"
      "triggerTypes g3 = triggerTypes g" "logTypes g3 = logTypes g"
    and e: "\<And>x. let e = log_end g3 (map span_secs (items rs)) x in idle e
      \<and> triggerTypes e = triggerTypes g \<and> logTypes e = logTypes g @ line_logs (Log_line y r ds rs)" by blast
  have b: "butlast (line_body (Log_line y r ds rs)) = ?w @ ''resolution '' @ render_choice render_span rs"
    by (simp add: butlast_append)
  show ?thesis unfolding b
  proof (rule scans_after [OF h])
    show "scans_to (''resolution '' @ render_choice render_span rs) g3 out (triggerTypes g)
        (logTypes g @ (if open_end (Log_line y r ds rs) then [] else line_logs (Log_line y r ds rs)))"
    proof (cases rs)
      case (Braces xs)
      with resolution_braces [OF g3(1-3), of xs] ok obtain g2 x where
        c: "consumes (''resolution '' @ ''{'' @ sep_by render_span xs) {CHR ''}''} g3 g2" "yy_start g2 = 19"
          "\<And>w. action 59 w g2 = Inr (log_end g3 (map span_secs xs) x)" by auto
      have "scans_to ''}'' g2 out (triggerTypes (log_end g3 (map span_secs xs) x)) (logTypes (log_end g3 (map span_secs xs) x))"
        using c(2,3) by (intro eof_brace [where act = 59]) auto
      from scans_after [OF c(1) _ _ this] e [of x] Braces show ?thesis by (simp add: Let_def)
    next
      case (One d)
      let ?g1 = "yy_push_state logResolutionSingleNoEnv g3"
      have g1: "yy_start ?g1 = 21" "triggerTypes ?g1 = triggerTypes g3" "logTypes ?g1 = logTypes g3"
        "currentDurationTime ?g1 = 0"
        using g3(3) by (simp_all add: yy_push_state_def BEGIN_def conditions)
      have d: "d \<noteq> []" "span_secs d \<le> LONG_MAX" using ok One by (simp_all add: span_ok_def)
      have c: "consumes ''resolution '' digits g3 ?g1"
        using tok_log(7) g3(1) by (intro consumes_tok [where act = 52]) (simp_all add: action_heads)
      have "scans_to (render_span d) ?g1 out (triggerTypes g) (logTypes g)"
        using eof_span [of ?g1 line_next d] span_states(6) d g1 g3(4,5) fold_elem_types [of d ?g1] by (simp add: scans_to_def)
      from scans_after [OF c _ _ this] render_span_hd [OF d(1)] One show ?thesis by simp
    qed
  qed simp_all
qed

text \<open>C36: A file of definitions without its last character, the end of the last line: every definition is
  read, except that the last one is dropped without an error if it ends in a plain time span, whereas
  nothing is lost if it ends in a list in braces.\<close>

theorem unfinished_last_line:
  assumes "list_all line_ok (ls @ [l])"
  defines "read \<equiv> (if open_end l then ls else ls @ [l])"
  shows "\<exists>g. ConfigurationParser_run (butlast (render_config (ls @ [l]))) parser_init =
    Some (Inr (concat (map line_triggers read), concat (map line_logs read), g))"
proof -
  let ?g = "fresh_start parser_init" and ?m = "margin (line_layout l)" and ?b = "butlast (line_body l)"
  have i: "idle ?g" "triggerTypes ?g = []" "logTypes ?g = []"
    by (simp_all add: idle_def fresh_start_def parser_init_def)
  have m: "set ?m \<subseteq> spaces" using assms(1) by (simp add: line_ok_layout)
  have hd: "hd ?b \<in> set ''tl''" by (cases l; simp)
  then have line: "at_line (?m @ ?b)" using m unfolding at_line_def by blast
  have whole: "butlast (render_config (ls @ [l])) = render_config ls @ ?m @ ?b"
    using line_body_hd(2) [of l] by (simp add: render_config_def render_line_def butlast_append)
  from scan_config_then [OF i(1) _ line, of ls "[]"] assms(1) obtain g1 where
    s: "scan (render_config ls @ ?m @ ?b) ?g [] = scan (?m @ ?b) g1 []" and g1: "idle g1"
      "triggerTypes g1 = concat (map line_triggers ls)" "logTypes g1 = concat (map line_logs ls)"
    using i by auto
  have "scan (?m @ ?b) g1 [] = scan ?b g1 []"
    using scan_margin [OF _ m, of g1] g1(1) hd by (simp add: idle_def)
  moreover have "scans_to ?b g1 [] (concat (map line_triggers read)) (concat (map line_logs read))"
  proof (cases l)
    case (Trigger_line y r f vs ds)
    with unfinished_trigger [OF g1(1), of y r f vs ds "[]"] assms(1) g1(2,3) show ?thesis
      by (auto simp: read_def simp del: line_body.simps split: if_splits)
  next
    case (Log_line y r ds rs)
    with unfinished_log [OF g1(1), of y r ds rs "[]"] assms(1) g1(2,3) show ?thesis
      by (auto simp: read_def simp del: line_body.simps split: if_splits)
  qed
  ultimately show ?thesis unfolding whole run_eq s by (auto simp: scans_to_def)
qed

theorem unfinished_last_line_witness:
  "\<exists>g. ConfigurationParser_run ''log cpu for 1h resolution {2s}\<newline>log disk for 72h resolution 3h'' parser_init =
    Some (Inr ([], [\<lparr>log_resource = LOG_CPU, log_duration = 3600, log_resolution = 2\<rparr>], g))"
proof -
  let ?y = "\<lparr>margin = [], last_for = False\<rparr>"
  let ?a = "Log_line ?y LOG_CPU (One [(1, Hour)]) (Braces [[(2, Sec)]])" and ?l = "Log_line ?y LOG_DISK (One [(72, Hour)]) (One [(3, Hour)])"
  have "list_all line_ok ([?a] @ [?l])"
    by (simp add: span_ok_def layout_ok_def LONG_MAX_def SEC_IN_HOUR_def SEC_IN_MIN_def)
  note run = unfinished_last_line [OF this]
  have "butlast (render_config ([?a] @ [?l])) = ''log cpu for 1h resolution {2s}\<newline>log disk for 72h resolution 3h''"
    by code_simp
  with run show ?thesis by (simp add: SEC_IN_HOUR_def SEC_IN_MIN_def)
qed

end
