(* ===== verification/CppText.thy ===== *)
theory CppText
  imports Prelude
begin

text \<open>
  What the HTTP code uses of \<open>std::string\<close> and \<open>std::istream\<close>: \<open>substr\<close>, \<open>find\<close>, \<open>getline\<close>, and
  \<open>strtol\<close> in base 16. \<open>npos\<close> is \<open>None\<close>.
\<close>

section \<open>Strings\<close>

text \<open>\<open>s.substr(pos, n)\<close>; \<open>None\<close> is a count beyond every string: \<open>npos\<close>, or a difference below 0.\<close>

definition substr :: "string \<Rightarrow> nat \<Rightarrow> nat option \<Rightarrow> string result" where
  "substr s pos n =
     (if length s < pos then Inl Out_of_range
      else Inr (case n of None \<Rightarrow> drop pos s | Some k \<Rightarrow> take k (drop pos s)))"

text \<open>A difference of two \<open>size_t\<close>, used as a count.\<close>

definition usub :: "nat \<Rightarrow> nat \<Rightarrow> nat option" where
  "usub a b = (if b \<le> a then Some (a - b) else None)"

lemma usub_add [simp]: "usub (a + n) a = Some n"
  by (simp add: usub_def)

text \<open>\<open>s.find(c, from)\<close>.\<close>

definition find_from :: "string \<Rightarrow> char \<Rightarrow> nat \<Rightarrow> nat option" where
  "find_from s c from =
     (let d = drop from s in if c \<in> set d then Some (from + length (takeWhile (\<lambda>x. x \<noteq> c) d)) else None)"

definition find_char :: "string \<Rightarrow> char \<Rightarrow> nat option" where
  "find_char s c = find_from s c 0"

lemma find_char_None [simp]: "find_char s c = None \<longleftrightarrow> c \<notin> set s"
  by (simp add: find_char_def find_from_def Let_def)

lemma takeWhile_stop: "c \<notin> set a \<Longrightarrow> takeWhile (\<lambda>x. x \<noteq> c) (a @ c # b) = a"
  by (induction a) auto

lemma find_char_append: "c \<notin> set a \<Longrightarrow> find_char (a @ c # b) c = Some (length a)"
  by (simp add: find_char_def find_from_def Let_def takeWhile_stop)

lemma find_from_append:
  "from \<le> length a \<Longrightarrow> c \<notin> set (drop from a) \<Longrightarrow> find_from (a @ c # b) c from = Some (length a)"
  by (simp add: find_from_def Let_def takeWhile_stop)

lemma find_from_None: "c \<notin> set (drop from s) \<Longrightarrow> find_from s c from = None"
  by (simp add: find_from_def Let_def)

lemma length_takeWhile_stop: "c \<in> set s \<Longrightarrow> length (takeWhile (\<lambda>x. x \<noteq> c) s) < length s"
  by (induction s) auto

lemma find_from_bounds: "find_from s c from = Some i \<Longrightarrow> from \<le> i \<and> i < length s"
proof -
  assume "find_from s c from = Some i"
  then have "i = from + length (takeWhile (\<lambda>x. x \<noteq> c) (drop from s))" and "c \<in> set (drop from s)"
    by (auto simp: find_from_def Let_def split: if_splits)
  moreover from this(2) have "length (takeWhile (\<lambda>x. x \<noteq> c) (drop from s)) < length (drop from s)"
    by (rule length_takeWhile_stop)
  ultimately show ?thesis by simp
qed

lemma find_char_bounds:
  assumes "find_char s c = Some i"
  shows "i < length s" "s ! i = c" "c \<notin> set (take i s)"
proof -
  obtain a b where s: "s = a @ c # b" and a: "c \<notin> set a"
    using assms by (metis find_char_None not_None_eq split_list_first)
  then have "i = length a" using assms find_char_append by force
  with s a show "i < length s" "s ! i = c" "c \<notin> set (take i s)" by auto
qed

lemma substr_in [simp]: "pos \<le> length s \<Longrightarrow> substr s pos (Some k) = Inr (take k (drop pos s))"
  by (simp add: substr_def)

lemma substr_rest [simp]: "pos \<le> length s \<Longrightarrow> substr s pos None = Inr (drop pos s)"
  by (simp add: substr_def)

section \<open>Input streams\<close>

text \<open>The characters that are left and whether the stream is good.\<close>

type_synonym istream = "string \<times> bool"

text \<open>
  \<open>getline(stream, line)\<close>. On a stream that is not good nothing is extracted and \<open>line\<close> keeps its
  value; a last line without a newline is extracted and ends the stream.
\<close>

definition newline :: char where "newline = CHR 0x0A"

definition getline :: "string \<Rightarrow> istream \<Rightarrow> string \<times> istream" where
  "getline line st = (case st of (s, good) \<Rightarrow>
     if \<not> good then (line, (s, False))
     else let l = takeWhile (\<lambda>c. c \<noteq> newline) s in
       if newline \<in> set s then (l, (drop (length l + 1) s, True)) else (l, ([], False)))"

lemma getline_line:
  "newline \<notin> set l \<Longrightarrow> getline line (l @ newline # rest, True) = (l, (rest, True))"
  by (simp add: getline_def Let_def takeWhile_stop)

lemma getline_last: "newline \<notin> set l \<Longrightarrow> getline line (l, True) = (l, ([], False))"
  by (auto simp: getline_def Let_def takeWhile_eq_all_conv)

lemma getline_dead [simp]: "getline line (s, False) = (line, (s, False))"
  by (simp add: getline_def)

text \<open>Reading all pieces between delimiters: \<open>while (std::getline(stream, segment, d))\<close>.\<close>

fun split_on :: "char \<Rightarrow> string \<Rightarrow> string list" where
  "split_on d [] = [[]]"
| "split_on d (c # cs) =
     (if c = d then [] # split_on d cs
      else case split_on d cs of [] \<Rightarrow> [[c]] | p # ps \<Rightarrow> (c # p) # ps)"

lemma split_on_not_Nil [simp]: "split_on d s \<noteq> []"
  by (cases s) (auto split: list.splits)

lemma split_on_free: "d \<notin> set s \<Longrightarrow> split_on d s = [s]"
  by (induction s) auto

lemma split_on_append: "d \<notin> set a \<Longrightarrow> split_on d (a @ d # b) = a # split_on d b"
  by (induction a) auto

lemma split_on_join: "split_on d (a @ d # b) = split_on d a @ split_on d b"
  by (induction a) (auto split: list.splits)

lemma split_on_snoc:
  "split_on d (s @ [x]) =
    (if x = d then split_on d s @ [[]] else butlast (split_on d s) @ [last (split_on d s) @ [x]])"
proof (induction s)
  case (Cons c cs)
  obtain p ps where "split_on d cs = p # ps" by (cases "split_on d cs") auto
  with Cons show ?case by (auto split: list.splits)
qed simp

lemma split_on_pieces: "p \<in> set (split_on d s) \<Longrightarrow> d \<notin> set p"
proof (induction s arbitrary: p)
  case (Cons c cs)
  obtain q qs where "split_on d cs = q # qs" by (cases "split_on d cs") auto
  with Cons show ?case by (auto split: if_splits)
qed simp

section \<open>Hexadecimal numbers\<close>

definition hex_val :: "char \<Rightarrow> nat option" where
  "hex_val c = (let v = of_char c in
     if 48 \<le> v \<and> v \<le> 57 then Some (v - 48)
     else if 65 \<le> v \<and> v \<le> 70 then Some (v - 55)
     else if 97 \<le> v \<and> v \<le> 102 then Some (v - 87) else None)"

fun read_hex :: "nat \<Rightarrow> string \<Rightarrow> nat" where
  "read_hex acc [] = acc"
| "read_hex acc (c # cs) = (case hex_val c of None \<Rightarrow> acc | Some d \<Rightarrow> read_hex (16 * acc + d) cs)"

text \<open>The digits after an optional \<open>0x\<close>, which counts only in front of a digit.\<close>

fun hex_body :: "string \<Rightarrow> nat" where
  "hex_body (z # x # h # cs) =
     (if z = CHR ''0'' \<and> (x = CHR ''x'' \<or> x = CHR ''X'') \<and> hex_val h \<noteq> None
      then read_hex 0 (h # cs) else read_hex 0 (z # x # h # cs))"
| "hex_body s = read_hex 0 s"

text \<open>\<open>strtol(s, nullptr, 16)\<close> for a text too short to overflow.\<close>

definition strtol16 :: "string \<Rightarrow> int" where
  "strtol16 s = (case dropWhile is_space s of
       [] \<Rightarrow> 0
     | c # cs \<Rightarrow> if c = CHR ''-'' then - int (hex_body cs)
         else if c = CHR ''+'' then int (hex_body cs) else int (hex_body (c # cs)))"

text \<open>\<open>static_cast<char>\<close> keeps the lowest eight bits.\<close>

definition to_char :: "int \<Rightarrow> char" where
  "to_char n = char_of (nat (n mod 256))"

text \<open>\<open>tolower\<close> of the C locale on a signed \<open>char\<close>.\<close>

definition tolower :: "char \<Rightarrow> int" where
  "tolower c = (let v = int (of_char c) in
     if 65 \<le> v \<and> v \<le> 90 then v + 32 else if 128 \<le> v then v - 256 else v)"

end
