(* ===== verification/Percent.thy ===== *)
theory Percent
  imports CppText ConfigData "HOL-Library.Word"
begin

text \<open>
  \<open>include/utility.hpp\<close>, first part: the comparison and hash of header names, percent encoding and
  query strings. A \<open>CaseInsensitiveMultimap\<close> is the list of its elements in the order of their
  insertion; the order in which the container iterates is up to the library and is a parameter where
  the program depends on it.
\<close>

unbundle bit_operations_syntax

section \<open>Header names\<close>

type_synonym fields = "(string \<times> string) list"

definition case_insensitive_equal :: "string \<Rightarrow> string \<Rightarrow> bool" where
  "case_insensitive_equal str1 str2 \<longleftrightarrow>
     length str1 = length str2 \<and> list_all2 (\<lambda>a b. tolower a = tolower b) str1 str2"

text \<open>\<open>hash\<close> stands for \<open>std::hash<int>\<close>; \<open>size_t\<close> has 64 bits.\<close>

definition hash_step :: "(int \<Rightarrow> 64 word) \<Rightarrow> char \<Rightarrow> 64 word \<Rightarrow> 64 word" where
  "hash_step hash c h = h XOR (hash (tolower c) + 0x9e3779b9 + push_bit 6 h + drop_bit 2 h)"

definition CaseInsensitiveHash :: "(int \<Rightarrow> 64 word) \<Rightarrow> string \<Rightarrow> 64 word" where
  "CaseInsensitiveHash hash str = fold (hash_step hash) str 0"

lemma hash_case_insensitive:
  assumes "list_all2 (\<lambda>a b. tolower a = tolower b) s t"
  shows "fold (hash_step hash) s h = fold (hash_step hash) t h"
  using assms by (induction s t arbitrary: h rule: list_all2_induct) (simp_all add: hash_step_def)

interpretation header_key: key_equality case_insensitive_equal "\<lambda>s. unat (CaseInsensitiveHash hash s)" for hash
proof unfold_locales
  fix a b c :: string
  show "case_insensitive_equal a a"
    by (simp add: case_insensitive_equal_def list_all2_refl)
  show "case_insensitive_equal b a" if "case_insensitive_equal a b"
    using that by (auto simp: case_insensitive_equal_def list_all2_conv_all_nth)
  show "case_insensitive_equal a c" if "case_insensitive_equal a b" "case_insensitive_equal b c"
    using that by (auto simp: case_insensitive_equal_def list_all2_conv_all_nth)
  show "unat (CaseInsensitiveHash hash a) = unat (CaseInsensitiveHash hash b)" if "case_insensitive_equal a b"
    using that hash_case_insensitive [of a b hash 0]
    by (simp add: case_insensitive_equal_def CaseInsensitiveHash_def)
qed

section \<open>Percent encoding\<close>

definition hex_chars :: string where
  "hex_chars = ''0123456789ABCDEF''"

definition reserved :: "char \<Rightarrow> bool" where
  "reserved chr \<longleftrightarrow> (let v = (of_char chr :: nat) in
     chr = CHR ''!'' \<or> chr = CHR ''#'' \<or> chr = CHR ''$'' \<or> (38 \<le> v \<and> v \<le> 44) \<or> (47 \<le> v \<and> v \<le> 59)
     \<or> chr = CHR ''='' \<or> chr = CHR ''?'' \<or> chr = CHR ''@'' \<or> chr = CHR ''['' \<or> chr = CHR '']'')"

definition encode_char :: "char \<Rightarrow> string" where
  "encode_char chr =
     (if chr = CHR '' '' then ''+''
      else if reserved chr
        then [CHR ''%'', hex_chars ! (of_char chr div 16), hex_chars ! (of_char chr mod 16)]
      else [chr])"

definition Percent_encode :: "string \<Rightarrow> string" where
  "Percent_encode value = concat (map encode_char value)"

definition decode_hex :: "char \<Rightarrow> char \<Rightarrow> char" where
  "decode_hex a b = to_char (strtol16 [a, b])"

definition decode_plain :: "char \<Rightarrow> char" where
  "decode_plain chr = (if chr = CHR ''+'' then CHR '' '' else chr)"

text \<open>The loop: \<open>i + 2 < value.size()\<close> says that two characters follow.\<close>

fun Percent_decode :: "string \<Rightarrow> string" where
  "Percent_decode [] = []"
| "Percent_decode [a] = [decode_plain a]"
| "Percent_decode [a, b] = [decode_plain a, decode_plain b]"
| "Percent_decode (chr # a # b # cs) =
     (if chr = CHR ''%'' then decode_hex a b # Percent_decode cs
      else decode_plain chr # Percent_decode (a # b # cs))"

lemma decode_Cons: "c \<noteq> CHR ''%'' \<Longrightarrow> Percent_decode (c # cs) = decode_plain c # Percent_decode cs"
  by (cases cs rule: Percent_decode.cases) auto

lemma hex_chars_nth: "n < 16 \<Longrightarrow> hex_val (hex_chars ! n) = Some n \<and> \<not> is_space (hex_chars ! n)
    \<and> hex_chars ! n \<notin> {CHR ''-'', CHR ''+''} \<and> hex_chars ! n \<in> set hex_chars"
proof -
  have u: "[0..<16] = [0, 1, 2, 3, 4, 5, 6, 7, 8, 9, 10, 11, 12, 13, 14, 15::nat]" by code_simp
  have "list_all (\<lambda>n. hex_val (hex_chars ! n) = Some n \<and> \<not> is_space (hex_chars ! n)
    \<and> hex_chars ! n \<notin> {CHR ''-'', CHR ''+''} \<and> hex_chars ! n \<in> set hex_chars) [0..<16]"
    unfolding u by (simp add: hex_chars_def hex_val_def is_space_def)
  then show "n < 16 \<Longrightarrow> ?thesis" by (simp add: list_all_iff)
qed

lemma decode_hex_nth: "i < 16 \<Longrightarrow> j < 16 \<Longrightarrow>
    decode_hex (hex_chars ! i) (hex_chars ! j) = char_of (16 * i + j :: nat)"
  using hex_chars_nth [of i] hex_chars_nth [of j]
  by (simp add: decode_hex_def strtol16_def to_char_def nat_mod_distrib nat_add_distrib nat_mult_distrib)

lemma decode_hex_chars: "of_char c < (128::nat) \<Longrightarrow>
    decode_hex (hex_chars ! (of_char c div 16)) (hex_chars ! (of_char c mod 16)) = c"
  by (subst decode_hex_nth) simp_all

lemma reserved_less: "reserved c \<Longrightarrow> of_char c < (128::nat)"
  by (auto simp: reserved_def Let_def)

lemma decode_encode_char:
  assumes "c \<noteq> CHR ''%''"
  shows "Percent_decode (encode_char c @ cs) = c # Percent_decode cs"
proof (cases "c = CHR '' ''")
  case True
  then show ?thesis by (simp add: encode_char_def decode_Cons decode_plain_def)
next
  case False
  show ?thesis
  proof (cases "reserved c")
    case True
    with False show ?thesis by (simp add: encode_char_def decode_hex_chars reserved_less)
  next
    case 2: False
    then have "c \<noteq> CHR ''+''" by (auto simp: reserved_def)
    with False 2 assms show ?thesis by (simp add: encode_char_def decode_Cons decode_plain_def)
  qed
qed

lemma decode_encode: "CHR ''%'' \<notin> set s \<Longrightarrow> Percent_decode (Percent_encode s) = s"
proof (induction s)
  case (Cons c s)
  then have "c \<noteq> CHR ''%''" by auto
  with Cons show ?case using decode_encode_char [of c] by (simp add: Percent_encode_def)
qed (simp add: Percent_encode_def)

text \<open>What an encoded text is made of.\<close>

lemma set_encode_char: "set (encode_char c) \<subseteq>
    {CHR ''+'', CHR ''%''} \<union> set hex_chars \<union> (if c = CHR '' '' \<or> reserved c then {} else {c})"
proof -
  have "(of_char c :: nat) < 256" by (metis mod_less_divisor zero_less_numeral of_char_mod_256)
  then have "of_char c div 16 < (16::nat)" by (intro less_mult_imp_div_less) simp
  from hex_chars_nth [OF this] hex_chars_nth [of "of_char c mod 16"] show ?thesis
    by (auto simp: encode_char_def)
qed

end
