(* ===== verification/QueryStrings.thy ===== *)
theory QueryStrings
  imports Percent
begin

text \<open>
  \<open>QueryString\<close> of \<open>include/utility.hpp\<close>. The loop over the positions of a query is a fold;
  the positions that mark a name and its value are \<open>None\<close> for
  \<open>npos\<close>. The query parser is shown equal to a reference that cuts the text at every \<open>&\<close> and
  each piece at its last \<open>=\<close>.
\<close>

section \<open>Query strings\<close>

fun create_loop :: "bool \<Rightarrow> fields \<Rightarrow> string \<Rightarrow> string" where
  "create_loop first [] result = result"
| "create_loop first ((name, value) # fs) result =
     create_loop False fs (result @ (if first then '''' else ''&'') @ name @ ''='' @ Percent_encode value)"

text \<open>\<open>QueryString::create\<close> on the fields in the order in which the container iterates.\<close>

definition QueryString_create :: "fields \<Rightarrow> string" where
  "QueryString_create fs = create_loop True fs ''''"

record query_scan =
  name_pos :: nat
  name_end_pos :: "nat option"
  value_pos :: "nat option"
  query_result :: fields

definition emplace :: "string \<Rightarrow> string \<Rightarrow> query_scan \<Rightarrow> query_scan" where
  "emplace name value st = st\<lparr>query_result := query_result st @ [(name, value)]\<rparr>"

definition query_step :: "string \<Rightarrow> nat \<Rightarrow> query_scan \<Rightarrow> query_scan result" where
  "query_step q c st =
     (if q ! c = CHR ''&'' then
        bindE (substr q (name_pos st)
          (usub (case name_end_pos st of None \<Rightarrow> c | Some e \<Rightarrow> e) (name_pos st))) (\<lambda>name.
        bindE (if name = [] then Inr st
          else bindE (case value_pos st of None \<Rightarrow> Inr [] | Some v \<Rightarrow> substr q v (usub c v))
            (\<lambda>value. Inr (emplace name (Percent_decode value) st)))
        (\<lambda>st. Inr (st\<lparr>name_pos := c + 1, name_end_pos := None, value_pos := None\<rparr>)))
      else if q ! c = CHR ''='' then Inr (st\<lparr>name_end_pos := Some c, value_pos := Some (c + 1)\<rparr>)
      else Inr st)"

definition query_last :: "string \<Rightarrow> query_scan \<Rightarrow> fields result" where
  "query_last q st =
     (if name_pos st < length q then
        bindE (substr q (name_pos st)
          (case name_end_pos st of None \<Rightarrow> None | Some e \<Rightarrow> usub e (name_pos st))) (\<lambda>name.
        if name = [] then Inr (query_result st)
        else bindE (case value_pos st of None \<Rightarrow> Inr []
            | Some v \<Rightarrow> if length q \<le> v then Inr [] else substr q v None)
          (\<lambda>value. Inr (query_result (emplace name (Percent_decode value) st))))
      else Inr (query_result st))"

definition QueryString_parse :: "string \<Rightarrow> fields result" where
  "QueryString_parse q =
     (if q = [] then Inr []
      else bindE (foldE (query_step q) [0..<length q]
          \<lparr>name_pos = 0, name_end_pos = None, value_pos = None, query_result = []\<rparr>)
        (query_last q))"

section \<open>The reference\<close>

text \<open>A piece is cut at its last \<open>=\<close>; a piece without a name is dropped.\<close>

definition last_eq :: "string \<Rightarrow> nat option" where
  "last_eq p = (if CHR ''='' \<in> set p
     then Some (length p - 1 - length (takeWhile (\<lambda>c. c \<noteq> CHR ''='') (rev p))) else None)"

definition piece_fields :: "string \<Rightarrow> fields" where
  "piece_fields p =
     (let (name, value) = (case last_eq p of None \<Rightarrow> (p, '''') | Some i \<Rightarrow> (take i p, drop (i + 1) p))
      in if name = [] then [] else [(name, Percent_decode value)])"

definition query_fields :: "string \<Rightarrow> fields" where
  "query_fields q = concat (map piece_fields (split_on CHR ''&'' q))"

lemma last_eq_Nil [simp]: "last_eq [] = None"
  by (simp add: last_eq_def)

lemma last_eq_snoc [simp]:
  "last_eq (p @ [c]) = (if c = CHR ''='' then Some (length p) else last_eq p)"
  by (auto simp: last_eq_def)

lemma last_eq_less: "last_eq p = Some i \<Longrightarrow> i < length p"
proof (induction p rule: rev_induct)
  case (snoc c p)
  then show ?case by (cases "c = CHR ''=''") auto
qed simp

lemma last_eq_append: "CHR ''='' \<notin> set b \<Longrightarrow> last_eq (a @ CHR ''='' # b) = Some (length a)"
proof (induction b rule: rev_induct)
  case (snoc c b)
  then show ?case using last_eq_snoc [of "a @ CHR ''='' # b" c] by auto
qed simp

text \<open>The state of the scan after a prefix of the query.\<close>

definition scanned :: "string \<Rightarrow> query_scan \<Rightarrow> bool" where
  "scanned p st \<longleftrightarrow> (let ps = split_on CHR ''&'' p; seg = last ps in
     name_pos st + length seg = length p \<and> drop (name_pos st) p = seg
     \<and> name_end_pos st = map_option (\<lambda>i. name_pos st + i) (last_eq seg)
     \<and> value_pos st = map_option (\<lambda>i. name_pos st + i + 1) (last_eq seg)
     \<and> query_result st = concat (map piece_fields (butlast ps)))"

lemma concat_last: "xs \<noteq> [] \<Longrightarrow> concat (map f xs) = concat (map f (butlast xs)) @ f (last xs)"
  by (induction xs rule: rev_induct) auto

lemma drop_further: "drop n q = s \<Longrightarrow> drop (Suc (n + i)) q = drop (Suc i) s"
  by (metis add.commute add_Suc_right drop_drop)

lemma scanned_step:
  assumes "scanned p st"
  shows "\<exists>st'. query_step (p @ c # r) (length p) st = Inr st' \<and> scanned (p @ [c]) st'"
proof -
  define seg n q where "seg = last (split_on CHR ''&'' p)" and "n = name_pos st" and "q = p @ c # r"
  from assms have len: "length p = n + length seg" and seg: "drop n p = seg"
    and ne: "name_end_pos st = map_option (\<lambda>i. n + i) (last_eq seg)"
    and va: "value_pos st = map_option (\<lambda>i. n + i + 1) (last_eq seg)"
    and res: "query_result st = concat (map piece_fields (butlast (split_on CHR ''&'' p)))"
    by (auto simp: scanned_def Let_def seg_def n_def)
  have q: "drop n q = seg @ c # r" "q ! length p = c" "n \<le> length q" "n + length seg \<le> length q"
    using len seg by (auto simp: q_def)
  show ?thesis
  proof (cases "c = CHR ''&''")
    case True
    have "query_step q (length p) st = Inr (st\<lparr>query_result := query_result st @ piece_fields seg,
        name_pos := length p + 1, name_end_pos := None, value_pos := None\<rparr>)"
    proof (cases "last_eq seg")
      case None
      then have "substr q n (usub (length p) n) = Inr seg" using q len by simp
      with None show ?thesis using True q ne va
        by (simp add: query_step_def n_def [symmetric] piece_fields_def emplace_def)
    next
      case (Some i)
      then have i: "i < length seg" by (rule last_eq_less)
      have "substr q n (usub (n + i) n) = Inr (take i seg)" using q i by simp
      moreover have "usub (length p) (Suc (n + i)) = Some (length seg - (i + 1))"
        using len i by (simp add: usub_def)
      moreover have "drop (Suc (n + i)) q = drop (i + 1) seg @ c # r"
        using drop_further [OF q(1), of i] i by simp
      ultimately show ?thesis using True q ne va Some i len
        by (simp add: query_step_def n_def [symmetric] piece_fields_def emplace_def Let_def)
    qed
    moreover have "scanned (p @ [c]) (st\<lparr>query_result := query_result st @ piece_fields seg,
        name_pos := length p + 1, name_end_pos := None, value_pos := None\<rparr>)"
      using True res concat_last [of "split_on CHR ''&'' p" piece_fields]
      by (simp add: scanned_def split_on_snoc seg_def)
    ultimately show ?thesis by (auto simp: q_def)
  next
    case False
    then have "split_on CHR ''&'' (p @ [c]) = butlast (split_on CHR ''&'' p) @ [seg @ [c]]"
      by (simp add: split_on_snoc seg_def)
    with False show ?thesis using len seg ne va res q
      by (auto simp: scanned_def query_step_def Let_def n_def [symmetric] q_def)
  qed
qed

lemma scanned_fold:
  assumes "scanned [] st"
  shows "\<exists>st'. foldE (query_step (p @ r)) [0..<length p] st = Inr st' \<and> scanned p st'"
  using assms
proof (induction p arbitrary: r rule: rev_induct)
  case (snoc c p)
  then obtain s1 where "foldE (query_step (p @ c # r)) [0..<length p] st = Inr s1" "scanned p s1"
    by (metis append_Cons append_Nil append_assoc)
  with scanned_step [of p s1 c r] show ?case by (auto simp: foldE_append)
qed auto

lemma query_last_scanned:
  assumes "scanned q st" and "q \<noteq> []"
  shows "query_last q st = Inr (query_fields q)"
proof -
  define seg n where "seg = last (split_on CHR ''&'' q)" and "n = name_pos st"
  from assms(1) have len: "length q = n + length seg" and seg: "drop n q = seg"
    and ne: "name_end_pos st = map_option (\<lambda>i. n + i) (last_eq seg)"
    and va: "value_pos st = map_option (\<lambda>i. n + i + 1) (last_eq seg)"
    and res: "query_result st = concat (map piece_fields (butlast (split_on CHR ''&'' q)))"
    by (auto simp: scanned_def Let_def seg_def n_def)
  have "query_fields q = query_result st @ piece_fields seg"
    by (simp add: query_fields_def res seg_def concat_last)
  moreover have "query_last q st = Inr (query_result st @ piece_fields seg)"
  proof (cases "last_eq seg")
    case None
    with ne va len seg show ?thesis
      by (cases seg) (auto simp: query_last_def n_def [symmetric] piece_fields_def emplace_def)
  next
    case (Some i)
    then have i: "i < length seg" by (rule last_eq_less)
    have "drop (Suc (n + i)) q = drop (i + 1) seg"
      using drop_further [OF seg] by simp
    with Some i ne va len seg show ?thesis
      by (auto simp: query_last_def n_def [symmetric] piece_fields_def emplace_def Let_def)
  qed
  ultimately show ?thesis by simp
qed

lemma query_parse_fields: "QueryString_parse q = Inr (query_fields q)"
proof (cases "q = []")
  case True
  then show ?thesis by (simp add: QueryString_parse_def query_fields_def piece_fields_def)
next
  case False
  let ?st = "\<lparr>name_pos = 0, name_end_pos = None, value_pos = None, query_result = []\<rparr>"
  have "scanned [] ?st" by (simp add: scanned_def)
  from scanned_fold [OF this, of q "[]"] obtain st'
    where "foldE (query_step q) [0..<length q] ?st = Inr st'" "scanned q st'" by auto
  with query_last_scanned [OF _ False] False show ?thesis by (simp add: QueryString_parse_def)
qed

section \<open>Properties\<close>

text \<open>C29: Parsing a query never throws, and its result is the reference: one field for every piece
  between \<open>&\<close> that has a name, the piece cut at its last \<open>=\<close> and the value percent-decoded.\<close>

theorem query_parse_splits: "QueryString_parse q = Inr (concat (map piece_fields (split_on CHR ''&'' q)))"
  using query_parse_fields by (simp add: query_fields_def)

text \<open>The text of one field, and fields that come back.\<close>

definition field_text :: "string \<times> string \<Rightarrow> string" where
  "field_text f = fst f @ ''='' @ Percent_encode (snd f)"

definition field_ok :: "string \<times> string \<Rightarrow> bool" where
  "field_ok f \<longleftrightarrow> fst f \<noteq> [] \<and> CHR ''&'' \<notin> set (fst f) \<and> CHR ''%'' \<notin> set (snd f)"

lemma create_loop_text:
  "create_loop False fs res = res @ concat (map (\<lambda>f. CHR ''&'' # field_text f) fs)"
  by (induction fs arbitrary: res) (auto simp: field_text_def)

lemma encode_chars: "c \<in> set (Percent_encode v) \<Longrightarrow> c \<in> {CHR ''+'', CHR ''%''} \<union> set hex_chars
    \<or> (c \<in> set v \<and> \<not> reserved c \<and> c \<noteq> CHR '' '')"
proof -
  assume "c \<in> set (Percent_encode v)"
  then obtain x where "x \<in> set v" and "c \<in> set (encode_char x)" by (auto simp: Percent_encode_def)
  then show ?thesis using set_encode_char [of x] by (auto split: if_splits)
qed

lemma encode_no_marks: "CHR ''&'' \<notin> set (Percent_encode v)" "CHR ''='' \<notin> set (Percent_encode v)"
  using encode_chars [of "CHR ''&''" v] encode_chars [of "CHR ''=''" v]
  by (auto simp: hex_chars_def reserved_def)

lemma piece_of_text:
  assumes "field_ok f"
  shows "CHR ''&'' \<notin> set (field_text f)" "piece_fields (field_text f) = [f]"
  using assms encode_no_marks [of "snd f"] last_eq_append [of "Percent_encode (snd f)" "fst f"]
  by (auto simp: field_ok_def field_text_def piece_fields_def decode_encode)

lemma query_fields_texts:
  assumes "field_ok f" and "list_all field_ok fs"
  shows "concat (map piece_fields (split_on CHR ''&'' (field_text f @
    concat (map (\<lambda>f. CHR ''&'' # field_text f) fs)))) = f # fs"
  using assms
proof (induction fs arbitrary: f)
  case Nil
  then show ?case using piece_of_text [of f] by (simp add: split_on_free)
next
  case (Cons g fs)
  then show ?case using piece_of_text [of f] by (simp add: split_on_append [of _ "field_text f"])
qed

lemma create_fields:
  assumes "list_all field_ok fs"
  shows "query_fields (QueryString_create fs) = fs"
proof (cases fs)
  case Nil
  then show ?thesis by (simp add: QueryString_create_def query_fields_def piece_fields_def)
next
  case (Cons f gs)
  then have "QueryString_create fs = field_text f @ concat (map (\<lambda>f. CHR ''&'' # field_text f) gs)"
    by (cases f) (simp add: QueryString_create_def create_loop_text field_text_def)
  with query_fields_texts [of f gs] Cons assms show ?thesis by (simp add: query_fields_def)
qed

text \<open>Parsing a created query gives the fields back, in order, for every list of fields with
  names that are not empty and have no \<open>&\<close> and values without a percent sign; a name may contain
  \<open>=\<close>.\<close>

theorem query_round_trip:
  assumes "list_all field_ok fs"
  shows "QueryString_parse (QueryString_create fs) = Inr fs"
  using query_parse_fields create_fields [OF assms] by simp

theorem query_round_trip_witness:
  "QueryString_parse (QueryString_create [(''a=b'', ''1&2 = 3''), (''name'', '''')]) =
    Inr [(''a=b'', ''1&2 = 3''), (''name'', '''')]"
  by (rule query_round_trip) (simp add: field_ok_def)

text \<open>A percent sign is not encoded: in front of two characters that need no encoding it comes
  back as one character, the number that the two spell, or a NUL if they are no digits.\<close>

theorem percent_sign_lost:
  assumes "encode_char a = [a]" and "encode_char b = [b]"
  shows "Percent_decode (Percent_encode (CHR ''%'' # a # b # s)) =
    to_char (strtol16 [a, b]) # Percent_decode (Percent_encode s)"
  using assms by (simp add: Percent_encode_def encode_char_def reserved_def Let_def decode_hex_def)

theorem percent_sign_lost_witness:
  "Percent_decode (Percent_encode ''%off'') = [CHR 0x00, CHR ''f'']"
proof -
  have "encode_char CHR ''o'' = ''o''" "encode_char CHR ''f'' = ''f''"
    by (simp_all add: encode_char_def reserved_def)
  from percent_sign_lost [OF this, of "''f''"] show ?thesis
    by (simp add: strtol16_def is_space_def hex_val_def to_char_def Percent_encode_def encode_char_def
        reserved_def decode_plain_def char_of_def)
qed

end
