(* ===== verification/DoubleArith.thy ===== *)
theory DoubleArith
  imports Main
begin

text \<open>
  The \<open>double\<close> of the C++ code: IEEE 754 binary64 with round to nearest even, the mode the
  program runs in. A finite value is a sign, an integer significand and an exponent, so that the
  two zeros are distinct values; every arithmetic result is the exact quotient of two integers,
  rounded. Only the operations the code uses are here: \<open>+\<close>, \<open>-\<close>, \<open>*\<close>, \<open>/\<close>, the
  comparisons, the conversion of integers and \<open>std::max\<close>. The definitions evaluate.
\<close>

section \<open>Values and rounding\<close>

text \<open>\<open>DFin neg m e\<close> is \<open>\<plusminus> m * 2 ^ e\<close> with \<open>0 \<le> m\<close>.\<close>

datatype double = DNaN | DInf bool | DFin bool int int

definition shl :: "int \<Rightarrow> int \<Rightarrow> int" where
  "shl m k = m * 2 ^ nat k"

text \<open>The number of binary digits of a positive integer.\<close>

function bits :: "int \<Rightarrow> int" where
  "bits n = (if n \<le> 0 then 0 else 1 + bits (n div 2))"
  by pat_completeness auto
termination by (relation "measure nat") auto

declare bits.simps [simp del]

text \<open>Nearest integer to \<open>n / d\<close>, ties to even.\<close>

definition round_even :: "int \<Rightarrow> int \<Rightarrow> int" where
  "round_even n d =
     (let q = n div d; r = n mod d
      in if 2 * r < d then q else if d < 2 * r then q + 1 else if even q then q else q + 1)"

text \<open>
  \<open>rnd neg n d\<close> rounds the exact magnitude \<open>n / d\<close> to 53 bits of significand with exponent at
  least \<open>-1074\<close>; what exceeds the largest finite value becomes an infinity.
\<close>

definition ilog2 :: "int \<Rightarrow> int \<Rightarrow> int" where
  "ilog2 n d = (let k = bits n - bits d in if shl d k \<le> shl n (- k) then k else k - 1)"

definition rnd :: "bool \<Rightarrow> int \<Rightarrow> int \<Rightarrow> double" where
  "rnd neg n d =
     (if n = 0 then DFin neg 0 (- 1074)
      else let e = max (ilog2 n d - 52) (- 1074);
               m = round_even (shl n (- e)) (shl d e);
               m' = (if m = 9007199254740992 then 4503599627370496 else m);
               e' = (if m = 9007199254740992 then e + 1 else e)
           in if 971 < e' then DInf neg else DFin neg m' e')"

definition double_of_int :: "int \<Rightarrow> double" where
  "double_of_int i = rnd (i < 0) \<bar>i\<bar> 1"

abbreviation dzero :: double where
  "dzero \<equiv> DFin False 0 (- 1074)"

section \<open>Arithmetic\<close>

definition signed :: "bool \<Rightarrow> int \<Rightarrow> int" where
  "signed neg m = (if neg then - m else m)"

text \<open>The signed significands of two finite values at their common exponent.\<close>

definition align :: "int \<Rightarrow> int \<Rightarrow> int \<Rightarrow> int" where
  "align m e f = shl m (e - min e f)"

text \<open>Rounding of an exact dyadic result \<open>m * 2 ^ e\<close>; \<open>neg\<close> is the sign an exact zero gets.\<close>

definition rnd_dyadic :: "bool \<Rightarrow> int \<Rightarrow> int \<Rightarrow> double" where
  "rnd_dyadic neg m e =
     (if m = 0 then DFin neg 0 (- 1074) else rnd (m < 0) (shl \<bar>m\<bar> e) (shl 1 (- e)))"

fun dadd :: "double \<Rightarrow> double \<Rightarrow> double" where
  "dadd DNaN b = DNaN"
| "dadd a DNaN = DNaN"
| "dadd (DInf s) (DInf t) = (if s = t then DInf s else DNaN)"
| "dadd (DInf s) (DFin t n f) = DInf s"
| "dadd (DFin s m e) (DInf t) = DInf t"
| "dadd (DFin s m e) (DFin t n f) =
     rnd_dyadic (s \<and> t) (signed s (align m e f) + signed t (align n f e)) (min e f)"

fun dneg :: "double \<Rightarrow> double" where
  "dneg DNaN = DNaN"
| "dneg (DInf s) = DInf (\<not> s)"
| "dneg (DFin s m e) = DFin (\<not> s) m e"

definition dsub :: "double \<Rightarrow> double \<Rightarrow> double" where
  "dsub a b = dadd a (dneg b)"

fun dmul :: "double \<Rightarrow> double \<Rightarrow> double" where
  "dmul DNaN b = DNaN"
| "dmul a DNaN = DNaN"
| "dmul (DInf s) (DInf t) = DInf (s \<noteq> t)"
| "dmul (DInf s) (DFin t n f) = (if n = 0 then DNaN else DInf (s \<noteq> t))"
| "dmul (DFin s m e) (DInf t) = (if m = 0 then DNaN else DInf (s \<noteq> t))"
| "dmul (DFin s m e) (DFin t n f) =
     rnd (s \<noteq> t) (shl (m * n) (e + f)) (shl 1 (- (e + f)))"

fun ddiv :: "double \<Rightarrow> double \<Rightarrow> double" where
  "ddiv DNaN b = DNaN"
| "ddiv a DNaN = DNaN"
| "ddiv (DInf s) (DInf t) = DNaN"
| "ddiv (DInf s) (DFin t n f) = DInf (s \<noteq> t)"
| "ddiv (DFin s m e) (DInf t) = DFin (s \<noteq> t) 0 (- 1074)"
| "ddiv (DFin s m e) (DFin t n f) =
     (if n = 0 then (if m = 0 then DNaN else DInf (s \<noteq> t))
      else rnd (s \<noteq> t) (shl m (e - f)) (shl n (f - e)))"

fun dlt :: "double \<Rightarrow> double \<Rightarrow> bool" where
  "dlt DNaN b = False"
| "dlt a DNaN = False"
| "dlt (DInf s) (DInf t) = (s \<and> \<not> t)"
| "dlt (DInf s) (DFin t n f) = s"
| "dlt (DFin s m e) (DInf t) = (\<not> t)"
| "dlt (DFin s m e) (DFin t n f) = (signed s (align m e f) < signed t (align n f e))"

fun deq :: "double \<Rightarrow> double \<Rightarrow> bool" where
  "deq (DInf s) (DInf t) = (s = t)"
| "deq (DFin s m e) (DFin t n f) = (signed s (align m e f) = signed t (align n f e))"
| "deq a b = False"

abbreviation dgt :: "double \<Rightarrow> double \<Rightarrow> bool" where
  "dgt a b \<equiv> dlt b a"

definition dmax :: "double \<Rightarrow> double \<Rightarrow> double" where
  "dmax a b = (if dlt a b then b else a)"

section \<open>Laws the components use\<close>

lemma dlt_asym: "dlt a b \<Longrightarrow> \<not> dlt b a"
  by (cases a; cases b) auto

lemma dlt_irrefl: "\<not> dlt a a"
  by (cases a) auto

text \<open>Of two doubles that are not NaN, one is less than the other or they compare equal.\<close>

lemma dlt_linear: "a \<noteq> DNaN \<Longrightarrow> b \<noteq> DNaN \<Longrightarrow> dlt a b \<or> deq a b \<or> dlt b a"
  by (cases a; cases b) (auto simp: signed_def)

lemma deq_not_dlt: "deq a b \<Longrightarrow> \<not> dlt a b \<and> \<not> dlt b a"
  by (cases a; cases b) auto

text \<open>The conversion of an integer is never NaN, so a threshold always compares.\<close>

lemma rnd_not_NaN: "rnd neg n d \<noteq> DNaN"
  by (simp add: rnd_def Let_def)

lemma double_of_int_not_NaN: "double_of_int i \<noteq> DNaN"
  by (simp add: double_of_int_def rnd_not_NaN)

end
