(* ===== verification/ResStates.thy ===== *)
theory ResStates
  imports ConfigData DoubleArith
begin

text \<open>
  The three resource samples: \<open>CpuState\<close>, \<open>RamState\<close> and \<open>HddState\<close> of \<open>include/\<close> and
  \<open>src/library_src/\<close>. Each carries the readings of one poll, the \<open>operator>\<close> that decides
  whether a trigger's condition holds for it, and the \<open>+=\<close> and \<open>/=\<close> that the mean of the logs
  is computed with. An \<open>assert\<close> that fails is the exception \<open>Assertion_failed\<close>. How a stream
  prints a \<open>double\<close> is the parameter \<open>fmt\<close> of the printing functions.
\<close>

named_theorems state_defs \<open>operations of the resource samples\<close>

section \<open>CpuState\<close>

record CpuState =
  cpuInUsePercentage :: double
  monitorCpuInUsePercentage :: double

definition CpuState_default :: CpuState where
  "CpuState_default = \<lparr>cpuInUsePercentage = dzero, monitorCpuInUsePercentage = dzero\<rparr>"

definition CpuState_new :: "double \<Rightarrow> double \<Rightarrow> CpuState" where
  "CpuState_new cpu mon = \<lparr>cpuInUsePercentage = cpu, monitorCpuInUsePercentage = mon\<rparr>"

definition cpu_currPercentageUsed :: "CpuState \<Rightarrow> double" where
  "cpu_currPercentageUsed s = cpuInUsePercentage s"

definition cpu_currMonitorPercentageUsed :: "CpuState \<Rightarrow> double" where
  "cpu_currMonitorPercentageUsed s = monitorCpuInUsePercentage s"

definition cpu_setPercentageUsed :: "double \<Rightarrow> CpuState \<Rightarrow> CpuState" where
  "cpu_setPercentageUsed x s = s\<lparr>cpuInUsePercentage := x\<rparr>"

definition cpu_setMonitorPercentageUsed :: "double \<Rightarrow> CpuState \<Rightarrow> CpuState" where
  "cpu_setMonitorPercentageUsed x s = s\<lparr>monitorCpuInUsePercentage := x\<rparr>"

definition cpu_gt :: "CpuState \<Rightarrow> TriggerType \<Rightarrow> bool result" where
  "cpu_gt s t =
     (if unitType (triggerValue t) \<noteq> PERCENT then Inl Assertion_failed
      else if fluctuationType t = OVER
        then Inr (dgt (cpuInUsePercentage s) (double_of_int (rvalue (triggerValue t))))
        else Inr (dlt (cpuInUsePercentage s) (double_of_int (rvalue (triggerValue t)))))"

definition cpu_add :: "CpuState \<Rightarrow> CpuState \<Rightarrow> CpuState" where
  "cpu_add s other =
     \<lparr>cpuInUsePercentage = dadd (cpuInUsePercentage s) (cpuInUsePercentage other),
      monitorCpuInUsePercentage =
        dadd (monitorCpuInUsePercentage s) (monitorCpuInUsePercentage other)\<rparr>"

definition cpu_div :: "CpuState \<Rightarrow> double \<Rightarrow> CpuState" where
  "cpu_div s v =
     \<lparr>cpuInUsePercentage = ddiv (cpuInUsePercentage s) v,
      monitorCpuInUsePercentage = ddiv (monitorCpuInUsePercentage s) v\<rparr>"

definition put_CpuState :: "(double \<Rightarrow> string) \<Rightarrow> CpuState \<Rightarrow> string" where
  "put_CpuState fmt s =
     ''CPU (system) [%]: '' @ fmt (cpuInUsePercentage s)
     @ '', CPU (monitor) [%]: '' @ fmt (monitorCpuInUsePercentage s)"

section \<open>RamState\<close>

record RamState =
  totalRamMB :: double
  ramInUseMB :: double
  monitorRamInUseMB :: double

definition RamState_default :: RamState where
  "RamState_default = \<lparr>totalRamMB = dzero, ramInUseMB = dzero, monitorRamInUseMB = dzero\<rparr>"

definition RamState_new :: "double \<Rightarrow> double \<Rightarrow> double \<Rightarrow> RamState" where
  "RamState_new tot used mon =
     \<lparr>totalRamMB = tot, ramInUseMB = used, monitorRamInUseMB = mon\<rparr>"

definition currMBUsed :: "RamState \<Rightarrow> double" where
  "currMBUsed s = ramInUseMB s"

definition currPercentageUsed :: "RamState \<Rightarrow> double" where
  "currPercentageUsed s =
     (if \<not> deq (totalRamMB s) dzero
      then dmul (ddiv (ramInUseMB s) (totalRamMB s)) (double_of_int 100)
      else double_of_int (- 1))"

definition currMonitorMBUsed :: "RamState \<Rightarrow> double" where
  "currMonitorMBUsed s = monitorRamInUseMB s"

definition currMonitorPercentageUsed :: "RamState \<Rightarrow> double" where
  "currMonitorPercentageUsed s =
     (if \<not> deq (totalRamMB s) dzero
      then dmul (ddiv (monitorRamInUseMB s) (totalRamMB s)) (double_of_int 100)
      else double_of_int (- 1))"

definition totalMB :: "RamState \<Rightarrow> double" where
  "totalMB s = totalRamMB s"

definition setMBUsed :: "double \<Rightarrow> RamState \<Rightarrow> RamState" where
  "setMBUsed x s = s\<lparr>ramInUseMB := x\<rparr>"

definition setMonitorMBUsed :: "double \<Rightarrow> RamState \<Rightarrow> RamState" where
  "setMonitorMBUsed x s = s\<lparr>monitorRamInUseMB := x\<rparr>"

definition setTotalMB :: "double \<Rightarrow> RamState \<Rightarrow> RamState" where
  "setTotalMB x s = s\<lparr>totalRamMB := x\<rparr>"

definition ram_gt :: "RamState \<Rightarrow> TriggerType \<Rightarrow> bool result" where
  "ram_gt s t =
     (let v = double_of_int (rvalue (triggerValue t)) in
      case unitType (triggerValue t) of
        PERCENT \<Rightarrow> Inr (if fluctuationType t = OVER
                        then dgt (currPercentageUsed s) v else dlt (currPercentageUsed s) v)
      | MB \<Rightarrow> Inr (if fluctuationType t = OVER
                   then dgt (totalRamMB s) v else dlt (totalRamMB s) v)
      | GB \<Rightarrow> Inr (if fluctuationType t = OVER
                   then dgt (ddiv (totalRamMB s) (double_of_int 1000)) v
                   else dlt (ddiv (totalRamMB s) (double_of_int 1000)) v))"

text \<open>\<open>operator+=\<close> and \<open>operator/=\<close> leave the total alone.\<close>

definition ram_add :: "RamState \<Rightarrow> RamState \<Rightarrow> RamState" where
  "ram_add s other =
     s\<lparr>ramInUseMB := dadd (ramInUseMB s) (ramInUseMB other),
       monitorRamInUseMB := dadd (monitorRamInUseMB s) (monitorRamInUseMB other)\<rparr>"

definition ram_div :: "RamState \<Rightarrow> double \<Rightarrow> RamState" where
  "ram_div s v =
     s\<lparr>ramInUseMB := ddiv (ramInUseMB s) v, monitorRamInUseMB := ddiv (monitorRamInUseMB s) v\<rparr>"

definition put_RamState :: "(double \<Rightarrow> string) \<Rightarrow> RamState \<Rightarrow> string" where
  "put_RamState fmt s =
     ''RAM (system) [MB / %]: '' @ fmt (ramInUseMB s) @ ''/'' @ fmt (currPercentageUsed s)
     @ '', RAM (monitor) [MB / %]: '' @ fmt (monitorRamInUseMB s) @ ''/''
     @ fmt (currMonitorPercentageUsed s)"

section \<open>HddState\<close>

record HddState =
  hddInUseKBsRead :: double
  hddInUseKBsWrite :: double
  monitorHddInUseKBsRead :: double
  monitorHddInUseKBsWrite :: double

definition HddState_default :: HddState where
  "HddState_default =
     \<lparr>hddInUseKBsRead = dzero, hddInUseKBsWrite = dzero,
      monitorHddInUseKBsRead = dzero, monitorHddInUseKBsWrite = dzero\<rparr>"

definition HddState_new :: "double \<Rightarrow> double \<Rightarrow> double \<Rightarrow> double \<Rightarrow> HddState" where
  "HddState_new r w mr mw =
     \<lparr>hddInUseKBsRead = r, hddInUseKBsWrite = w,
      monitorHddInUseKBsRead = mr, monitorHddInUseKBsWrite = mw\<rparr>"

definition currKBsUsedRead :: "HddState \<Rightarrow> double" where
  "currKBsUsedRead s = hddInUseKBsRead s"

definition currKBsUsedWrite :: "HddState \<Rightarrow> double" where
  "currKBsUsedWrite s = hddInUseKBsWrite s"

definition currMonitorKBsUsedRead :: "HddState \<Rightarrow> double" where
  "currMonitorKBsUsedRead s = monitorHddInUseKBsRead s"

definition currMonitorKBsUsedWrite :: "HddState \<Rightarrow> double" where
  "currMonitorKBsUsedWrite s = monitorHddInUseKBsWrite s"

definition setKBsUsedRead :: "double \<Rightarrow> HddState \<Rightarrow> HddState" where
  "setKBsUsedRead x s = s\<lparr>hddInUseKBsRead := x\<rparr>"

definition setKBsUsedWrite :: "double \<Rightarrow> HddState \<Rightarrow> HddState" where
  "setKBsUsedWrite x s = s\<lparr>hddInUseKBsWrite := x\<rparr>"

definition setMonitorKBsUsedRead :: "double \<Rightarrow> HddState \<Rightarrow> HddState" where
  "setMonitorKBsUsedRead x s = s\<lparr>monitorHddInUseKBsRead := x\<rparr>"

definition setMonitorKBsUsedWrite :: "double \<Rightarrow> HddState \<Rightarrow> HddState" where
  "setMonitorKBsUsedWrite x s = s\<lparr>monitorHddInUseKBsWrite := x\<rparr>"

definition hdd_gt :: "HddState \<Rightarrow> TriggerType \<Rightarrow> bool result" where
  "hdd_gt s t =
     (let v = double_of_int (rvalue (triggerValue t));
          maxInUse = dmax (hddInUseKBsRead s) (hddInUseKBsWrite s) in
      case unitType (triggerValue t) of
        PERCENT \<Rightarrow> Inl Assertion_failed
      | MB \<Rightarrow> Inr (if fluctuationType t = OVER
                   then dgt (ddiv maxInUse (double_of_int 1000)) v
                   else dlt (ddiv maxInUse (double_of_int 1000)) v)
      | GB \<Rightarrow> Inr (if fluctuationType t = OVER
                   then dgt (ddiv maxInUse (double_of_int 1000000)) v
                   else dlt (ddiv maxInUse (double_of_int 1000000)) v))"

definition hdd_add :: "HddState \<Rightarrow> HddState \<Rightarrow> HddState" where
  "hdd_add s other =
     \<lparr>hddInUseKBsRead = dadd (hddInUseKBsRead s) (hddInUseKBsRead other),
      hddInUseKBsWrite = dadd (hddInUseKBsWrite s) (hddInUseKBsWrite other),
      monitorHddInUseKBsRead = dadd (monitorHddInUseKBsRead s) (monitorHddInUseKBsRead other),
      monitorHddInUseKBsWrite = dadd (monitorHddInUseKBsWrite s) (monitorHddInUseKBsWrite other)\<rparr>"

definition hdd_div :: "HddState \<Rightarrow> double \<Rightarrow> HddState" where
  "hdd_div s v =
     \<lparr>hddInUseKBsRead = ddiv (hddInUseKBsRead s) v,
      hddInUseKBsWrite = ddiv (hddInUseKBsWrite s) v,
      monitorHddInUseKBsRead = ddiv (monitorHddInUseKBsRead s) v,
      monitorHddInUseKBsWrite = ddiv (monitorHddInUseKBsWrite s) v\<rparr>"

definition put_HddState :: "(double \<Rightarrow> string) \<Rightarrow> HddState \<Rightarrow> string" where
  "put_HddState fmt s =
     ''Hdd (system) read/write [KB/s]: '' @ fmt (hddInUseKBsRead s) @ ''/''
     @ fmt (hddInUseKBsWrite s)
     @ '', Hdd (monitor) read/write KB/s]: '' @ fmt (monitorHddInUseKBsRead s) @ ''/''
     @ fmt (monitorHddInUseKBsWrite s)"

lemmas [state_defs] =
  cpu_gt_def cpu_add_def cpu_div_def
  ram_gt_def ram_add_def ram_div_def currPercentageUsed_def
  hdd_gt_def hdd_add_def hdd_div_def Let_def

section \<open>Conditions\<close>

text \<open>
  What every \<open>operator>\<close> promises the sampler. Which units a resource accepts is fixed by its
  assertion, so whether the comparison returns depends on the trigger alone; and the two
  directions of one threshold exclude each other.
\<close>

definition flip_fluctuation :: "TriggerType \<Rightarrow> TriggerType" where
  "flip_fluctuation t = t\<lparr>fluctuationType := (case fluctuationType t of OVER \<Rightarrow> UNDER | UNDER \<Rightarrow> OVER)\<rparr>"

locale threshold =
  fixes gt :: "'s \<Rightarrow> TriggerType \<Rightarrow> bool result" and units :: "ResourceUnit set"
  assumes gt_total: "unitType (triggerValue t) \<in> units \<Longrightarrow> \<exists>b. gt s t = Inr b"
    and gt_assert: "unitType (triggerValue t) \<notin> units \<Longrightarrow> gt s t = Inl Assertion_failed"
    and gt_exclusive: "gt s t = Inr True \<Longrightarrow> gt s (flip_fluctuation t) = Inr False"
begin

lemma returns_iff: "(\<exists>b. gt s t = Inr b) \<longleftrightarrow> unitType (triggerValue t) \<in> units"
  using gt_total [of t s] gt_assert [of t s] by fastforce

lemma only_assertion: "gt s t = Inl e \<Longrightarrow> e = Assertion_failed \<and> unitType (triggerValue t) \<notin> units"
  using gt_total [of t s] gt_assert [of t s] by fastforce

end

interpretation cpu_thr: threshold cpu_gt "{PERCENT}"
  by unfold_locales
    (auto simp: state_defs flip_fluctuation_def dlt_asym
      split: if_splits FluctuationType.splits)

interpretation ram_thr: threshold ram_gt "{PERCENT, MB, GB}"
proof unfold_locales
  fix t :: TriggerType and s
  assume "ram_gt s t = Inr True"
  then show "ram_gt s (flip_fluctuation t) = Inr False"
    by (cases "fluctuationType t")
      (auto simp: ram_gt_def Let_def flip_fluctuation_def dlt_asym split: ResourceUnit.splits)
qed (auto simp: ram_gt_def Let_def split: ResourceUnit.splits intro: ResourceUnit.exhaust)

interpretation hdd_thr: threshold hdd_gt "{MB, GB}"
proof unfold_locales
  fix t :: TriggerType and s
  assume "hdd_gt s t = Inr True"
  then show "hdd_gt s (flip_fluctuation t) = Inr False"
    by (cases "fluctuationType t")
      (auto simp: hdd_gt_def Let_def flip_fluctuation_def dlt_asym split: ResourceUnit.splits)
qed (auto simp: hdd_gt_def Let_def split: ResourceUnit.splits)

end
