(* ===== verification/Predicates.thy ===== *)
theory Predicates
  imports ConfigData
begin

text \<open>
  The predicates users subscribe to: the abstract class \<open>Predicate\<close> of \<open>include/Predicate.hpp\<close>
  and its three classes in \<open>include/PredicateTypes.hpp\<close>. A predicate object keeps the state of
  its operand triggers, and the callback that \<open>activate\<close> calls when the predicate is met. A
  callback is a value of type \<open>'c\<close>; calling it puts that value on the list of calls an operation
  returns. What the code prints on the console is left out.
\<close>

section \<open>The classes\<close>

datatype PredicateKind =
    Predicate_1or2and3 (or1Operand: TriggerType) (or2Operand: TriggerType)
      (andOperand: TriggerType) (lastSatisfied: bool)
  | Predicate_1and2 (and1Operand: TriggerType) (and2Operand: TriggerType)
  | Predicate_1element (operand: TriggerType)

record 'c Predicate =
  kind :: PredicateKind
  triggerState :: "TriggerType \<Rightarrow> bool option"
  callback :: 'c

fun getPredicateOperands :: "PredicateKind \<Rightarrow> TriggerType list" where
  "getPredicateOperands (Predicate_1or2and3 o1 o2 a _) = [o1, o2, a]"
| "getPredicateOperands (Predicate_1and2 a1 a2) = [a1, a2]"
| "getPredicateOperands (Predicate_1element t) = [t]"

text \<open>The loop of every constructor: each operand starts inactive.\<close>

definition init_triggerState :: "TriggerType list \<Rightarrow> TriggerType \<Rightarrow> bool option" where
  "init_triggerState ts = fold (\<lambda>t m. m(t \<mapsto> False)) ts Map.empty"

definition new_1or2and3 :: "'c \<Rightarrow> TriggerType \<Rightarrow> TriggerType \<Rightarrow> TriggerType \<Rightarrow> 'c Predicate" where
  "new_1or2and3 cb o1 o2 a =
     \<lparr>kind = Predicate_1or2and3 o1 o2 a False,
      triggerState = init_triggerState (getPredicateOperands (Predicate_1or2and3 o1 o2 a False)),
      callback = cb\<rparr>"

definition new_1and2 :: "'c \<Rightarrow> TriggerType \<Rightarrow> TriggerType \<Rightarrow> 'c Predicate" where
  "new_1and2 cb a1 a2 =
     \<lparr>kind = Predicate_1and2 a1 a2,
      triggerState = init_triggerState (getPredicateOperands (Predicate_1and2 a1 a2)),
      callback = cb\<rparr>"

definition new_1element :: "'c \<Rightarrow> TriggerType \<Rightarrow> 'c Predicate" where
  "new_1element cb t =
     \<lparr>kind = Predicate_1element t,
      triggerState = init_triggerState (getPredicateOperands (Predicate_1element t)),
      callback = cb\<rparr>"

section \<open>\<open>isPredicateSatisfied\<close>\<close>

text \<open>\<open>triggerState.at\<close>, and the short-circuit \<open>\<and>\<close> and \<open>\<or>\<close> over operands that may throw.\<close>

definition state_at :: "(TriggerType \<Rightarrow> bool option) \<Rightarrow> TriggerType \<Rightarrow> bool result" where
  "state_at m t = (case m t of None \<Rightarrow> Inl Out_of_range | Some b \<Rightarrow> Inr b)"

definition andE :: "bool result \<Rightarrow> bool result \<Rightarrow> bool result" where
  "andE a b = bindE a (\<lambda>x. if x then b else Inr False)"

definition orE :: "bool result \<Rightarrow> bool result \<Rightarrow> bool result" where
  "orE a b = bindE a (\<lambda>x. if x then Inr True else b)"

text \<open>The result comes with the kind, whose mutable member \<open>lastSatisfied\<close> the test may set.\<close>

fun isPredicateSatisfied ::
  "PredicateKind \<Rightarrow> (TriggerType \<Rightarrow> bool option) \<Rightarrow> (bool \<times> PredicateKind) result" where
  "isPredicateSatisfied (Predicate_1or2and3 o1 o2 a lst) m =
     bindE (andE (state_at m o1) (andE (state_at m o2) (andE (Inr lst) (state_at m a))))
       (\<lambda>already. if already then Inr (False, Predicate_1or2and3 o1 o2 a lst)
          else bindE (andE (orE (state_at m o1) (state_at m o2)) (state_at m a))
            (\<lambda>sat. Inr (sat, Predicate_1or2and3 o1 o2 a sat)))"
| "isPredicateSatisfied (Predicate_1and2 a1 a2) m =
     bindE (andE (state_at m a1) (state_at m a2)) (\<lambda>sat. Inr (sat, Predicate_1and2 a1 a2))"
| "isPredicateSatisfied (Predicate_1element t) m =
     bindE (state_at m t) (\<lambda>sat. Inr (sat, Predicate_1element t))"

section \<open>\<open>activate\<close>, \<open>deactivate\<close>, \<open>setCallback\<close>\<close>

definition activate :: "TriggerType \<Rightarrow> 'c Predicate \<Rightarrow> ('c Predicate \<times> 'c list) result" where
  "activate t p =
     (let m = (triggerState p)(t \<mapsto> True) in
      bindE (isPredicateSatisfied (kind p) m)
        (\<lambda>(sat, k). Inr (p\<lparr>triggerState := m, kind := k\<rparr>, if sat then [callback p] else [])))"

definition deactivate :: "TriggerType \<Rightarrow> 'c Predicate \<Rightarrow> 'c Predicate" where
  "deactivate t p = p\<lparr>triggerState := (triggerState p)(t \<mapsto> False)\<rparr>"

definition setCallback :: "'c \<Rightarrow> 'c Predicate \<Rightarrow> 'c Predicate" where
  "setCallback cb p = p\<lparr>callback := cb\<rparr>"

fun put_Predicate :: "PredicateKind \<Rightarrow> string" where
  "put_Predicate (Predicate_1or2and3 o1 o2 a _) =
     put_TriggerType o1 @ '' OR '' @ put_TriggerType o2 @ '' AND '' @ put_TriggerType a"
| "put_Predicate (Predicate_1and2 a1 a2) = put_TriggerType a1 @ '' AND '' @ put_TriggerType a2"
| "put_Predicate (Predicate_1element t) = put_TriggerType t"

section \<open>Well-formedness\<close>

text \<open>Every operand has an entry, so \<open>at\<close> never throws.\<close>

definition wf_predicate :: "'c Predicate \<Rightarrow> bool" where
  "wf_predicate p \<longleftrightarrow> (\<forall>t \<in> set (getPredicateOperands (kind p)). triggerState p t \<noteq> None)"

text \<open>The state of an operand, and the formula the class stands for.\<close>

definition active :: "'c Predicate \<Rightarrow> TriggerType \<Rightarrow> bool" where
  "active p t \<longleftrightarrow> triggerState p t = Some True"

fun formula :: "PredicateKind \<Rightarrow> (TriggerType \<Rightarrow> bool) \<Rightarrow> bool" where
  "formula (Predicate_1or2and3 o1 o2 a _) v \<longleftrightarrow> (v o1 \<or> v o2) \<and> v a"
| "formula (Predicate_1and2 a1 a2) v \<longleftrightarrow> v a1 \<and> v a2"
| "formula (Predicate_1element t) v \<longleftrightarrow> v t"

text \<open>The predicate has reported and every operand is active: the state that suppresses a report.\<close>

fun latched :: "PredicateKind \<Rightarrow> (TriggerType \<Rightarrow> bool) \<Rightarrow> bool" where
  "latched (Predicate_1or2and3 o1 o2 a lst) v \<longleftrightarrow> lst \<and> v o1 \<and> v o2 \<and> v a"
| "latched (Predicate_1and2 a1 a2) v \<longleftrightarrow> False"
| "latched (Predicate_1element t) v \<longleftrightarrow> False"

fun set_last :: "bool \<Rightarrow> PredicateKind \<Rightarrow> PredicateKind" where
  "set_last b (Predicate_1or2and3 o1 o2 a lst) = Predicate_1or2and3 o1 o2 a b"
| "set_last b k = k"

lemma init_triggerState_dom: "init_triggerState ts t \<noteq> None \<longleftrightarrow> t \<in> set ts"
proof -
  have "fold (\<lambda>t m. m(t \<mapsto> False)) ts m t \<noteq> None \<longleftrightarrow> t \<in> set ts \<or> m t \<noteq> None"
    for m :: "TriggerType \<Rightarrow> bool option"
    by (induction ts arbitrary: m) auto
  then show ?thesis by (simp add: init_triggerState_def)
qed

lemma init_triggerState_inactive: "init_triggerState ts t \<noteq> Some True"
proof -
  have "m t \<noteq> Some True \<Longrightarrow> fold (\<lambda>t m. m(t \<mapsto> False)) ts m t \<noteq> Some True"
    for m :: "TriggerType \<Rightarrow> bool option"
    by (induction ts arbitrary: m) auto
  then show ?thesis by (simp add: init_triggerState_def)
qed

lemma wf_new [simp]:
  "wf_predicate (new_1or2and3 cb o1 o2 a)"
  "wf_predicate (new_1and2 cb a1 a2)"
  "wf_predicate (new_1element cb t)"
  unfolding wf_predicate_def new_1or2and3_def new_1and2_def new_1element_def
  by (simp_all add: init_triggerState_dom del: not_None_eq)

lemma new_inactive [simp]:
  "\<not> active (new_1or2and3 cb o1 o2 a) x"
  "\<not> active (new_1and2 cb a1 a2) x"
  "\<not> active (new_1element cb t) x"
  unfolding active_def new_1or2and3_def new_1and2_def new_1element_def
  by (simp_all add: init_triggerState_inactive)

text \<open>On total operand states the test is the formula, held back while the predicate is latched.\<close>

lemma satisfied_eq:
  assumes "\<forall>t \<in> set (getPredicateOperands k). m t \<noteq> None"
  defines "v \<equiv> \<lambda>t. m t = Some True"
  shows "isPredicateSatisfied k m =
    Inr (if latched k v then (False, k) else (formula k v, set_last (formula k v) k))"
proof (cases k)
  case (Predicate_1or2and3 o1 o2 a lst)
  with assms obtain b1 b2 b3 where "m o1 = Some b1" "m o2 = Some b2" "m a = Some b3" by auto
  with Predicate_1or2and3 show ?thesis
    by (cases b1; cases b2; cases b3; cases lst)
      (simp_all add: v_def state_at_def andE_def orE_def)
next
  case (Predicate_1and2 a1 a2)
  with assms obtain b1 b2 where "m a1 = Some b1" "m a2 = Some b2" by auto
  with Predicate_1and2 show ?thesis by (simp add: v_def state_at_def andE_def)
next
  case (Predicate_1element t)
  with assms obtain b where "m t = Some b" by auto
  with Predicate_1element show ?thesis by (simp add: v_def state_at_def)
qed

lemma operands_set_last [simp]: "getPredicateOperands (set_last b k) = getPredicateOperands k"
  by (cases k) auto

definition activated :: "TriggerType \<Rightarrow> 'c Predicate \<Rightarrow> TriggerType \<Rightarrow> bool" where
  "activated t p = (active p)(t := True)"

lemma activate_eq:
  fixes t :: TriggerType and p :: "'c Predicate"
  assumes "wf_predicate p"
  defines "v \<equiv> activated t p"
  shows "activate t p = Inr
    (p\<lparr>triggerState := (triggerState p)(t \<mapsto> True),
       kind := (if latched (kind p) v then kind p else set_last (formula (kind p) v) (kind p))\<rparr>,
     if formula (kind p) v \<and> \<not> latched (kind p) v then [callback p] else [])"
proof -
  let ?m = "(triggerState p)(t \<mapsto> True)"
  have tot: "\<forall>x \<in> set (getPredicateOperands (kind p)). ?m x \<noteq> None"
    using assms(1) by (auto simp: wf_predicate_def)
  have v: "(\<lambda>x. ?m x = Some True) = v"
    by (rule ext) (simp add: v_def activated_def active_def)
  show ?thesis
    unfolding activate_def Let_def satisfied_eq [OF tot] v by simp
qed

lemma activate_wf: "wf_predicate p \<Longrightarrow> \<exists>q cs. activate t p = Inr (q, cs) \<and> wf_predicate q"
  by (simp add: activate_eq) (auto simp: wf_predicate_def)

lemma deactivate_wf: "wf_predicate p \<Longrightarrow> wf_predicate (deactivate t p)"
  by (auto simp: wf_predicate_def deactivate_def)

lemma setCallback_wf: "wf_predicate (setCallback cb p) \<longleftrightarrow> wf_predicate p"
  by (simp add: wf_predicate_def setCallback_def)

section \<open>Sequences of signals\<close>

datatype signal = Activate TriggerType | Deactivate TriggerType

fun deliver :: "signal \<Rightarrow> 'c Predicate \<Rightarrow> ('c Predicate \<times> 'c list) result" where
  "deliver (Activate t) p = activate t p"
| "deliver (Deactivate t) p = Inr (deactivate t p, [])"

fun run_signals :: "signal list \<Rightarrow> 'c Predicate \<Rightarrow> ('c Predicate \<times> 'c list) result" where
  "run_signals [] p = Inr (p, [])"
| "run_signals (s # ss) p =
     bindE (deliver s p) (\<lambda>(q, cs). bindE (run_signals ss q) (\<lambda>(r, ds). Inr (r, cs @ ds)))"

lemma deliver_wf: "wf_predicate p \<Longrightarrow> \<exists>q cs. deliver s p = Inr (q, cs) \<and> wf_predicate q"
  using activate_wf deactivate_wf by (cases s) fastforce+

lemma run_signals_wf: "wf_predicate p \<Longrightarrow> \<exists>q cs. run_signals ss p = Inr (q, cs) \<and> wf_predicate q"
proof (induction ss arbitrary: p)
  case Nil
  then show ?case by simp
next
  case (Cons s ss)
  then obtain q cs where q: "deliver s p = Inr (q, cs)" "wf_predicate q"
    using deliver_wf by blast
  with Cons.IH obtain r ds where "run_signals ss q = Inr (r, ds)" "wf_predicate r" by blast
  with q show ?case by simp
qed

text \<open>What a sequence of signals says about one trigger.\<close>

fun board :: "signal list \<Rightarrow> (TriggerType \<Rightarrow> bool) \<Rightarrow> TriggerType \<Rightarrow> bool" where
  "board [] v = v"
| "board (Activate t # ss) v = board ss (v(t := True))"
| "board (Deactivate t # ss) v = board ss (v(t := False))"

lemma activate_active:
  assumes "wf_predicate p" and "activate t p = Inr (q, cs)"
  shows "active q = (active p)(t := True)" and "callback q = callback p"
    and "getPredicateOperands (kind q) = getPredicateOperands (kind p)"
  using assms by (auto simp: activate_eq active_def fun_eq_iff split: if_splits)

lemma deactivate_active:
  "active (deactivate t p) = (active p)(t := False)"
  "callback (deactivate t p) = callback p" "kind (deactivate t p) = kind p"
  by (auto simp: deactivate_def active_def fun_eq_iff)

lemma deliver_active:
  assumes "wf_predicate p" and "deliver s p = Inr (q, cs)"
  shows "active q = board [s] (active p)" and "callback q = callback p" and "wf_predicate q"
    and "getPredicateOperands (kind q) = getPredicateOperands (kind p)"
proof -
  show "wf_predicate q" using assms deliver_wf [OF assms(1), of s] by auto
qed (use assms in \<open>cases s; auto dest: activate_active simp: deactivate_active\<close>)+

lemma run_signals_board:
  assumes "wf_predicate p" and "run_signals ss p = Inr (q, cs)"
  shows "active q = board ss (active p) \<and> callback q = callback p
    \<and> getPredicateOperands (kind q) = getPredicateOperands (kind p)"
  using assms
proof (induction ss arbitrary: p cs)
  case Nil
  then show ?case by simp
next
  case (Cons s ss)
  from Cons.prems(2) obtain r ds es where r: "deliver s p = Inr (r, ds)"
    and rest: "run_signals ss r = Inr (q, es)"
    by (auto simp: bindE_Inr_iff)
  note d = deliver_active [OF Cons.prems(1) r]
  have "board (s # ss) v = board ss (board [s] v)" for v by (cases s) simp_all
  then show ?case using Cons.IH [OF d(3) rest] d by simp
qed

lemma latched_kind: "latched k v \<Longrightarrow> \<exists>o1 o2 a. k = Predicate_1or2and3 o1 o2 a True"
  by (cases k) auto

section \<open>Properties\<close>

text \<open>C33: Activating a trigger of a constructed predicate never throws, and the callback is called exactly when the
  class's formula holds of the operand states after the activation, with one exception: an OR-AND predicate
  whose last test that was made in full came out true is silent while all three of its operands are active.
  While only one of the two OR operands is active it reports at every activation that finds its formula
  true, whatever it has reported before. A test made in full stores its result; one that is suppressed leaves
  what is stored.\<close>

theorem activate_fires_iff:
  assumes "wf_predicate p"
  shows "\<exists>q cs. activate t p = Inr (q, cs) \<and> wf_predicate q
    \<and> (cs = [callback p] \<longleftrightarrow> formula (kind p) (activated t p) \<and> \<not> latched (kind p) (activated t p))
    \<and> (cs = [] \<or> cs = [callback p])
    \<and> (\<forall>o1 o2 a lst. kind p = Predicate_1or2and3 o1 o2 a lst \<and> \<not> (activated t p o1 \<and> activated t p o2) \<longrightarrow>
         (cs = [callback p] \<longleftrightarrow> formula (kind p) (activated t p)))
    \<and> kind q = (if latched (kind p) (activated t p) then kind p else set_last (formula (kind p) (activated t p)) (kind p))
    \<and> callback q = callback p
    \<and> (\<forall>x. triggerState q x = (if x = t then Some True else triggerState p x))"
  using assms activate_wf [OF assms, of t] by (auto simp: activate_eq)

theorem activate_fires_iff_witness:
  "\<exists>p q. run_signals [Activate ex_cpu, Activate ex_disk] (new_1or2and3 (1::nat) ex_cpu ex_mem ex_disk) = Inr (p, [1])
     \<and> activate ex_disk p = Inr (q, [1])"
proof -
  let ?p0 = "new_1or2and3 (1::nat) ex_cpu ex_mem ex_disk"
  obtain p where p: "run_signals [Activate ex_cpu, Activate ex_disk] ?p0 = Inr (p, [1])"
    and k: "kind p = Predicate_1or2and3 ex_cpu ex_mem ex_disk True" "callback p = 1" and w: "wf_predicate p"
    and t: "triggerState p ex_cpu = Some True" "triggerState p ex_mem = Some False"
    by (force simp: new_1or2and3_def activate_def init_triggerState_def state_at_def andE_def orE_def wf_predicate_def)
  show ?thesis using p activate_fires_iff [OF w, of ex_disk] k t
    by (auto simp: activated_def active_def)
qed

text \<open>C8: The state a predicate keeps is the state of the signals it received: after any sequence of
  activations and deactivations a trigger is active exactly when the last signal about it was an
  activation, whatever the class and whatever the callback reported in between.\<close>

theorem run_signals_refines_board:
  assumes "wf_predicate p"
  shows "\<exists>q cs. run_signals ss p = Inr (q, cs) \<and> wf_predicate q
    \<and> active q = board ss (active p) \<and> set cs \<subseteq> {callback p}"
proof -
  have calls: "wf_predicate r \<Longrightarrow> run_signals ss r = Inr (q, cs) \<Longrightarrow> set cs \<subseteq> {callback r}"
    for r q and cs :: "'a list"
  proof (induction ss arbitrary: r cs)
    case (Cons s ss)
    from Cons.prems(2) obtain u ds es where u: "deliver s r = Inr (u, ds)"
      and rest: "run_signals ss u = Inr (q, es)" and cs: "cs = ds @ es"
      by (auto simp: bindE_Inr_iff)
    note d = deliver_active [OF Cons.prems(1) u]
    have "set ds \<subseteq> {callback r}"
      using u Cons.prems(1) by (cases s) (auto simp: activate_eq split: if_splits)
    with Cons.IH [OF d(3) rest] d(2) cs show ?case by auto
  qed simp
  obtain q cs where "run_signals ss p = Inr (q, cs)" and "wf_predicate q"
    using run_signals_wf [OF assms, of ss] by blast
  with calls [OF assms] run_signals_board [OF assms] show ?thesis by blast
qed

theorem run_signals_refines_board_witness:
  "\<exists>q cs. run_signals [Activate ex_cpu, Deactivate ex_cpu, Activate ex_mem]
       (new_1and2 (0::nat) ex_cpu ex_mem) = Inr (q, cs)
     \<and> \<not> active q ex_cpu \<and> active q ex_mem"
  using run_signals_refines_board [OF wf_new(2), of "[Activate ex_cpu, Deactivate ex_cpu, Activate ex_mem]"
      "0::nat" ex_cpu ex_mem]
  by (fastforce simp: fun_eq_iff)

text \<open>C34: Once an OR-AND predicate has reported and all three operands are active, no further
  activation, of any trigger and however often, calls the callback again.\<close>

theorem or_and_reports_once:
  assumes "wf_predicate p" and "latched (kind p) (active p)"
    and "\<forall>s \<in> set ss. \<exists>t. s = Activate t"
  shows "\<exists>q. run_signals ss p = Inr (q, []) \<and> latched (kind q) (active q)"
  using assms
proof (induction ss arbitrary: p)
  case Nil
  then show ?case by simp
next
  case (Cons s ss)
  then obtain t where s: "s = Activate t" by auto
  have up: "latched (kind p) (activated t p)"
    using Cons.prems(2) by (cases "kind p") (auto simp: activated_def)
  obtain q where q: "activate t p = Inr (q, [])" and k: "kind q = kind p"
    using activate_eq [OF Cons.prems(1), of t] up by auto
  have "latched (kind q) (active q)"
    using up activate_active(1) [OF Cons.prems(1) q] k by (simp add: activated_def)
  moreover have "wf_predicate q" using activate_wf [OF Cons.prems(1), of t] q by auto
  ultimately obtain r where "run_signals ss q = Inr (r, []) \<and> latched (kind r) (active r)"
    using Cons.IH [of q] Cons.prems(3) by auto
  with s q show ?case by simp
qed

theorem or_and_reports_once_witness:
  "\<exists>p q. run_signals [Activate ex_cpu, Activate ex_disk, Activate ex_mem]
        (new_1or2and3 (0::nat) ex_cpu ex_mem ex_disk) = Inr (p, [0])
     \<and> run_signals [Activate ex_disk, Activate ex_cpu] p = Inr (q, [])"
proof -
  let ?p0 = "new_1or2and3 (0::nat) ex_cpu ex_mem ex_disk"
  obtain p where p: "run_signals [Activate ex_cpu, Activate ex_disk, Activate ex_mem] ?p0 = Inr (p, [0])"
    and l: "latched (kind p) (active p)" and w: "wf_predicate p"
    by (force simp: new_1or2and3_def activate_def init_triggerState_def state_at_def andE_def
        orE_def active_def wf_predicate_def)
  have "\<forall>s \<in> set [Activate ex_disk, Activate ex_cpu]. \<exists>t. s = Activate t" by simp
  from or_and_reports_once [OF w l this] p show ?thesis by blast
qed

text \<open>Deactivating the AND operand of a predicate that has reported and activating it again does
  not report, although the predicate was not met in between: \<open>deactivate\<close> leaves
  \<open>lastSatisfied\<close> set.\<close>

theorem or_and_misses_second_episode:
  assumes "wf_predicate p" and "kind p = Predicate_1or2and3 o1 o2 a True"
    and "active p o1" and "active p o2" and "active p a" and "a \<noteq> o1" and "a \<noteq> o2"
  shows "\<exists>q. deactivate a p = q \<and> \<not> formula (kind q) (active q)
    \<and> (\<exists>r. activate a q = Inr (r, []) \<and> formula (kind r) (active r))"
proof -
  let ?q = "deactivate a p"
  have wf: "wf_predicate ?q" using assms(1) by (rule deactivate_wf)
  have l: "latched (kind ?q) (activated a ?q)"
    using assms by (simp add: deactivate_active activated_def)
  obtain r where r: "activate a ?q = Inr (r, [])" and k: "kind r = kind ?q"
    using activate_eq [OF wf, of a] l by auto
  have "formula (kind r) (active r)"
    using assms activate_active(1) [OF wf r] k by (simp add: deactivate_active)
  with r assms(2) show ?thesis by (simp add: deactivate_active)
qed

theorem or_and_misses_second_episode_witness:
  "\<exists>p r. run_signals [Activate ex_cpu, Activate ex_disk, Activate ex_mem]
        (new_1or2and3 (0::nat) ex_cpu ex_mem ex_disk) = Inr (p, [0])
     \<and> activate ex_disk (deactivate ex_disk p) = Inr (r, [])"
proof -
  let ?p0 = "new_1or2and3 (0::nat) ex_cpu ex_mem ex_disk"
  obtain p where p: "run_signals [Activate ex_cpu, Activate ex_disk, Activate ex_mem] ?p0 = Inr (p, [0])"
    and k: "kind p = Predicate_1or2and3 ex_cpu ex_mem ex_disk True" and w: "wf_predicate p"
    and a: "active p ex_cpu" "active p ex_mem" "active p ex_disk"
    by (force simp: new_1or2and3_def activate_def init_triggerState_def state_at_def andE_def
        orE_def active_def wf_predicate_def)
  from or_and_misses_second_episode [OF w k a] p show ?thesis by auto
qed

lemma one_element_run:
  assumes "set ss \<subseteq> {Activate t, Deactivate t}"
  shows "\<exists>q. run_signals ss (new_1element cb t) = Inr (q, replicate (count_list ss (Activate t)) cb)"
proof -
  have "wf_predicate p \<Longrightarrow> kind p = Predicate_1element t \<Longrightarrow> callback p = cb \<Longrightarrow>
      \<exists>q. run_signals ss p = Inr (q, replicate (count_list ss (Activate t)) cb)" for p :: "'a Predicate"
    using assms
  proof (induction ss arbitrary: p)
    case (Cons s ss)
    obtain q cs where q: "deliver s p = Inr (q, cs)" using deliver_wf [OF Cons.prems(1)] by blast
    have cs: "cs = (if s = Activate t then [cb] else [])" and k: "kind q = Predicate_1element t"
      using q Cons.prems by (auto simp: activate_eq activated_def deactivate_active)
    note d = deliver_active [OF Cons.prems(1) q]
    with Cons.IH [of q] Cons.prems k obtain r where
      "run_signals ss q = Inr (r, replicate (count_list ss (Activate t)) cb)" by auto
    with q cs show ?case by simp
  qed simp
  from this [of "new_1element cb t"] show ?thesis
    using wf_new(3) [of cb t] by (simp add: new_1element_def)
qed

text \<open>A one-trigger predicate that only receives signals of its own trigger calls its callback
  once for every activation, and never for a deactivation.\<close>

theorem one_element_counts:
  assumes "set ss \<subseteq> {Activate t, Deactivate t}"
  shows "\<exists>q. run_signals ss (new_1element cb t) = Inr (q, replicate (count_list ss (Activate t)) cb)"
  using assms by (rule one_element_run)

theorem one_element_counts_witness:
  "\<exists>q. run_signals [Activate ex_cpu, Deactivate ex_cpu, Activate ex_cpu]
      (new_1element (7::nat) ex_cpu) = Inr (q, [7, 7])"
  using one_element_counts [of "[Activate ex_cpu, Deactivate ex_cpu, Activate ex_cpu]" ex_cpu "7::nat"]
  by (simp add: numeral_2_eq_2)

end
