(* ===== verification/Engine.thy ===== *)
theory Engine
  imports Predicates
begin

text \<open>
  \<open>PredicateEngine\<close> of \<open>include/PredicateEngine.hpp\<close>: for every trigger the vector of predicates
  that use it. The engine holds \<open>weak_ptr\<close>s only: a predicate is an object of a heap, addressed by
  a number, and a pointer whose object is gone locks to nothing. The two \<open>std::function\<close> members
  the sampler calls are operations on this world; the callbacks they cause are recorded in the
  order of the calls. The debug log lines are left out.
\<close>

section \<open>State\<close>

record 'c world =
  predicates :: "TriggerType \<Rightarrow> nat list option"
  heap :: "nat \<Rightarrow> 'c Predicate option"
  called :: "'c list"

definition bucket :: "'c world \<Rightarrow> TriggerType \<Rightarrow> nat list" where
  "bucket w t = (case predicates w t of None \<Rightarrow> [] | Some ids \<Rightarrow> ids)"

text \<open>\<open>predicates[t]\<close> as an lvalue: a missing key gets an empty vector.\<close>

definition subscript :: "TriggerType \<Rightarrow> 'c world \<Rightarrow> 'c world" where
  "subscript t w = w\<lparr>predicates := (predicates w)(t \<mapsto> bucket w t)\<rparr>"

section \<open>Registration\<close>

definition push_predicate :: "nat \<Rightarrow> TriggerType \<Rightarrow> 'c world \<Rightarrow> 'c world" where
  "push_predicate i t w = w\<lparr>predicates := (predicates w)(t \<mapsto> bucket w t @ [i])\<rparr>"

text \<open>
  \<open>addPredicate(shared_ptr)\<close>. Its \<open>std::move\<close> does not move: \<open>weak_ptr\<close> is constructed from a
  \<open>const shared_ptr \&\<close> only, so every operand gets a pointer to the same object. A null pointer
  is dereferenced (\<open>Terminate\<close>).
\<close>

definition addPredicate :: "nat \<Rightarrow> 'c world \<Rightarrow> 'c world result" where
  "addPredicate i w = (case heap w i of None \<Rightarrow> Inl Terminate
     | Some p \<Rightarrow> Inr (fold (push_predicate i) (getPredicateOperands (kind p)) w))"

definition addPredicates :: "nat list \<Rightarrow> 'c world \<Rightarrow> 'c world result" where
  "addPredicates = foldE addPredicate"

section \<open>Signals\<close>

text \<open>One turn of the loops: \<open>lock\<close>, then the call if the object is alive.\<close>

definition activate_one :: "TriggerType \<Rightarrow> nat \<Rightarrow> 'c world \<Rightarrow> 'c world result" where
  "activate_one t i w = (case heap w i of None \<Rightarrow> Inr w
     | Some p \<Rightarrow> bindE (activate t p)
         (\<lambda>(q, cs). Inr (w\<lparr>heap := (heap w)(i \<mapsto> q), called := called w @ cs\<rparr>)))"

definition deactivate_one :: "TriggerType \<Rightarrow> nat \<Rightarrow> 'c world \<Rightarrow> 'c world result" where
  "deactivate_one t i w = (case heap w i of None \<Rightarrow> Inr w
     | Some p \<Rightarrow> Inr (w\<lparr>heap := (heap w)(i \<mapsto> deactivate t p)\<rparr>))"

definition triggerActivation :: "TriggerType \<Rightarrow> 'c world \<Rightarrow> 'c world result" where
  "triggerActivation t w = foldE (activate_one t) (bucket w t) (subscript t w)"

definition triggerDeactivation :: "TriggerType \<Rightarrow> 'c world \<Rightarrow> 'c world result" where
  "triggerDeactivation t w = foldE (deactivate_one t) (bucket w t) (subscript t w)"

fun engine_step :: "signal \<Rightarrow> 'c world \<Rightarrow> 'c world result" where
  "engine_step (Activate t) w = triggerActivation t w"
| "engine_step (Deactivate t) w = triggerDeactivation t w"

definition engine_run :: "signal list \<Rightarrow> 'c world \<Rightarrow> 'c world result" where
  "engine_run = foldE engine_step"

text \<open>The last \<open>shared_ptr\<close> of an object goes away.\<close>

definition expire :: "nat \<Rightarrow> 'c world \<Rightarrow> 'c world" where
  "expire i w = w\<lparr>heap := (heap w)(i := None)\<rparr>"

section \<open>One turn as the delivery of a signal\<close>

fun signal_trigger :: "signal \<Rightarrow> TriggerType" where
  "signal_trigger (Activate t) = t"
| "signal_trigger (Deactivate t) = t"

definition deliver_one :: "signal \<Rightarrow> nat \<Rightarrow> 'c world \<Rightarrow> 'c world result" where
  "deliver_one s i w = (case heap w i of None \<Rightarrow> Inr w
     | Some p \<Rightarrow> bindE (deliver s p)
         (\<lambda>(q, cs). Inr (w\<lparr>heap := (heap w)(i \<mapsto> q), called := called w @ cs\<rparr>)))"

lemma activate_one_eq: "activate_one t = deliver_one (Activate t)"
  by (intro ext) (simp add: activate_one_def deliver_one_def split: option.split)

lemma deactivate_one_eq: "deactivate_one t = deliver_one (Deactivate t)"
  by (intro ext) (simp add: deactivate_one_def deliver_one_def split: option.split)

lemma engine_step_deliver:
  "engine_step s w = foldE (deliver_one s) (bucket w (signal_trigger s)) (subscript (signal_trigger s) w)"
  by (cases s) (simp_all add: triggerActivation_def triggerDeactivation_def activate_one_eq
      deactivate_one_eq)

definition wf_world :: "'c world \<Rightarrow> bool" where
  "wf_world w \<longleftrightarrow> (\<forall>i p. heap w i = Some p \<longrightarrow> wf_predicate p)"

lemma subscript_simps [simp]:
  "heap (subscript t w) = heap w" "called (subscript t w) = called w"
  "bucket (subscript t w) = bucket w"
  by (auto simp: subscript_def bucket_def fun_eq_iff)

lemma deliver_one_wf:
  assumes "wf_world w"
  shows "\<exists>w'. deliver_one s i w = Inr w' \<and> wf_world w' \<and> bucket w' = bucket w"
proof (cases "heap w i")
  case None
  with assms show ?thesis by (simp add: deliver_one_def)
next
  case (Some p)
  with assms obtain q cs where "deliver s p = Inr (q, cs)" and "wf_predicate q"
    using deliver_wf wf_world_def by metis
  with Some assms show ?thesis by (auto simp: deliver_one_def wf_world_def bucket_def fun_eq_iff)
qed

lemma engine_step_wf:
  assumes "wf_world w"
  shows "\<exists>w'. engine_step s w = Inr w' \<and> wf_world w' \<and> bucket w' = bucket w"
proof -
  let ?I = "\<lambda>v. wf_world v \<and> bucket v = bucket w"
  have "?I (subscript (signal_trigger s) w)" using assms by (simp add: wf_world_def)
  moreover have "\<exists>v'. deliver_one s i v = Inr v' \<and> ?I v'" if "?I v" for i v
    using deliver_one_wf that by metis
  ultimately show ?thesis unfolding engine_step_deliver by (rule foldE_invariant [rotated]) simp_all
qed

section \<open>The contract of a trigger sink\<close>

text \<open>
  What the sampler relies on when it calls \<open>triggerActivate\<close> and \<open>triggerDeactivate\<close>: on a good
  state the calls return, and they keep the state good.
\<close>

locale trigger_sink =
  fixes act deact :: "TriggerType \<Rightarrow> 'w \<Rightarrow> 'w result" and inv :: "'w \<Rightarrow> bool"
  assumes act_inv: "inv w \<Longrightarrow> \<exists>w'. act t w = Inr w' \<and> inv w'"
    and deact_inv: "inv w \<Longrightarrow> \<exists>w'. deact t w = Inr w' \<and> inv w'"

interpretation engine_sink: trigger_sink triggerActivation triggerDeactivation wf_world
proof unfold_locales
  fix t :: TriggerType and w :: "'a world"
  assume w: "wf_world w"
  show "\<exists>w'. triggerActivation t w = Inr w' \<and> wf_world w'"
    using engine_step_wf [OF w, of "Activate t"] by auto
  show "\<exists>w'. triggerDeactivation t w = Inr w' \<and> wf_world w'"
    using engine_step_wf [OF w, of "Deactivate t"] by auto
qed

section \<open>What one predicate sees of a run\<close>

text \<open>The predicate is registered once under each of its operands, and nowhere else.\<close>

definition registered :: "nat \<Rightarrow> 'c world \<Rightarrow> bool" where
  "registered i w \<longleftrightarrow> (\<exists>p. heap w i = Some p
     \<and> (\<forall>t. count_list (bucket w t) i = (if t \<in> set (getPredicateOperands (kind p)) then 1 else 0)))"

text \<open>No other live predicate has the callback of this one.\<close>

definition own_callback :: "nat \<Rightarrow> 'c world \<Rightarrow> bool" where
  "own_callback i w \<longleftrightarrow> (\<forall>p j q. heap w i = Some p \<longrightarrow> heap w j = Some q \<longrightarrow> j \<noteq> i
     \<longrightarrow> callback q \<noteq> callback p)"

lemma deliver_calls:
  assumes "wf_predicate p" and "deliver s p = Inr (q, cs)"
  shows "set cs \<subseteq> {callback p}"
  using assms by (cases s) (auto simp: activate_eq split: if_splits)

lemma deliver_loop:
  assumes "wf_world w" and "own_callback i w" and "heap w i = Some p" and "count_list ids i \<le> 1"
    and "deliver s p = Inr (q, cs)"
  shows "\<exists>w'. foldE (deliver_one s) ids w = Inr w' \<and> wf_world w' \<and> bucket w' = bucket w
    \<and> own_callback i w'
    \<and> heap w' i = Some (if i \<in> set ids then q else p)
    \<and> filter ((=) (callback p)) (called w')
        = filter ((=) (callback p)) (called w) @ (if i \<in> set ids then cs else [])"
  using assms
proof (induction ids arbitrary: w p q cs)
  case Nil
  then show ?case by simp
next
  case (Cons j ids)
  show ?case
  proof (cases "j = i")
    case True
    have wp: "wf_predicate p" using Cons.prems(1,3) by (simp add: wf_world_def)
    let ?v = "w\<lparr>heap := (heap w)(i \<mapsto> q), called := called w @ cs\<rparr>"
    note dq = deliver_active [OF wp Cons.prems(5)]
    have one: "deliver_one s j w = Inr ?v" using True Cons.prems by (simp add: deliver_one_def)
    have fresh: "i \<notin> set ids" using Cons.prems(4) True by (simp add: count_list_0_iff)
    have v: "wf_world ?v" "own_callback i ?v" "heap ?v i = Some q" "bucket ?v = bucket w"
      using Cons.prems dq by (auto simp: wf_world_def own_callback_def bucket_def fun_eq_iff)
    obtain r ds where "deliver s q = Inr (r, ds)" using deliver_wf [OF dq(3)] by blast
    with Cons.IH [OF v(1-3), of r ds] fresh obtain w' where "foldE (deliver_one s) ids ?v = Inr w'"
      and "wf_world w'" "bucket w' = bucket w" "own_callback i w'" "heap w' i = Some q"
      and "filter ((=) (callback p)) (called w') = filter ((=) (callback p)) (called w @ cs)"
      using dq(2) v(4) by (fastforce simp: count_list_0_iff)
    with one True deliver_calls [OF wp Cons.prems(5)] show ?thesis
      by (auto simp: filter_id_conv)
  next
    case False
    show ?thesis
    proof (cases "heap w j")
      case None
      then have "deliver_one s j w = Inr w" by (simp add: deliver_one_def)
      with False Cons.IH [OF Cons.prems(1,2,3) _ Cons.prems(5)] Cons.prems(4) show ?thesis by auto
    next
      case (Some u)
      have wu: "wf_predicate u" using Cons.prems(1) Some by (simp add: wf_world_def)
      obtain r ds where r: "deliver s u = Inr (r, ds)" using deliver_wf [OF wu] by blast
      note dr = deliver_active [OF wu r]
      let ?v = "w\<lparr>heap := (heap w)(j \<mapsto> r), called := called w @ ds\<rparr>"
      have one: "deliver_one s j w = Inr ?v" using Some r by (simp add: deliver_one_def)
      have ne: "callback u \<noteq> callback p" using Cons.prems(2,3) Some False by (auto simp: own_callback_def)
      have v: "wf_world ?v" "own_callback i ?v" "heap ?v i = Some p" "bucket ?v = bucket w"
        using Cons.prems dr False Some ne
        by (auto simp: wf_world_def own_callback_def bucket_def fun_eq_iff)
      have ds: "filter ((=) (callback p)) ds = []"
        using deliver_calls [OF wu r] ne by (auto simp: filter_empty_conv)
      from Cons.IH [OF v(1-3) _ Cons.prems(5)] Cons.prems(4) False one ds v(4) show ?thesis by auto
    qed
  qed
qed

lemma registered_ops:
  assumes "registered i w" and "heap w' i = Some q" and "bucket w' = bucket w"
    and "heap w i = Some p" and "getPredicateOperands (kind q) = getPredicateOperands (kind p)"
  shows "registered i w'"
  using assms by (auto simp: registered_def)

text \<open>One signal: the predicate gets it when it is about one of its operands, and not otherwise.\<close>

lemma engine_step_projection:
  assumes "wf_world w" and "registered i w" and "own_callback i w" and "heap w i = Some p"
    and "deliver s p = Inr (q, cs)"
  defines "mine \<equiv> signal_trigger s \<in> set (getPredicateOperands (kind p))"
  shows "\<exists>w'. engine_step s w = Inr w' \<and> wf_world w' \<and> registered i w' \<and> own_callback i w'
    \<and> heap w' i = Some (if mine then q else p)
    \<and> filter ((=) (callback p)) (called w')
        = filter ((=) (callback p)) (called w) @ (if mine then cs else [])"
proof -
  let ?t = "signal_trigger s" and ?v = "subscript (signal_trigger s) w"
  have cnt: "count_list (bucket w ?t) i = (if mine then 1 else 0)"
    using assms(2,4) by (auto simp: registered_def mine_def)
  then have mem: "i \<in> set (bucket w ?t) \<longleftrightarrow> mine"
    using count_list_0_iff [of "bucket w ?t" i] by (auto split: if_splits)
  have v: "wf_world ?v" "own_callback i ?v" "heap ?v i = Some p" "count_list (bucket w ?t) i \<le> 1"
    using assms cnt by (simp_all add: wf_world_def own_callback_def)
  from deliver_loop [OF v assms(5)] obtain w' where w': "engine_step s w = Inr w'"
    "wf_world w'" "bucket w' = bucket w" "own_callback i w'" "heap w' i = Some (if mine then q else p)"
    "filter ((=) (callback p)) (called w')
        = filter ((=) (callback p)) (called w) @ (if mine then cs else [])"
    unfolding engine_step_deliver mem by auto
  have "wf_predicate p" using assms(1,4) by (simp add: wf_world_def)
  from deliver_active(4) [OF this assms(5)]
  have "registered i w'" using registered_ops [OF assms(2) w'(5,3) assms(4)] by (auto split: if_splits)
  with w' show ?thesis by blast
qed

section \<open>Properties\<close>

lemma engine_run_delivers:
  assumes "wf_world w" and "registered i w" and "own_callback i w" and "heap w i = Some p"
  shows "\<exists>w' q cs. engine_run ss w = Inr w'
    \<and> run_signals (filter (\<lambda>s. signal_trigger s \<in> set (getPredicateOperands (kind p))) ss) p = Inr (q, cs)
    \<and> heap w' i = Some q
    \<and> filter ((=) (callback p)) (called w') = filter ((=) (callback p)) (called w) @ cs"
  using assms
proof (induction ss arbitrary: w p)
  case Nil
  then show ?case by (simp add: engine_run_def)
next
  case (Cons s ss)
  let ?ops = "getPredicateOperands (kind p)" and ?mine = "signal_trigger s \<in> set (getPredicateOperands (kind p))"
  have wp: "wf_predicate p" using Cons.prems(1,4) by (simp add: wf_world_def)
  obtain q cs where d: "deliver s p = Inr (q, cs)" using deliver_wf [OF wp] by blast
  note dq = deliver_active [OF wp d]
  let ?r = "if ?mine then q else p"
  from engine_step_projection [OF Cons.prems d] obtain v where v: "engine_step s w = Inr v"
    "wf_world v" "registered i v" "own_callback i v" "heap v i = Some ?r"
    and fv: "filter ((=) (callback p)) (called v)
       = filter ((=) (callback p)) (called w) @ (if ?mine then cs else [])" by blast
  have r: "callback ?r = callback p" "getPredicateOperands (kind ?r) = ?ops" using dq by auto
  from Cons.IH [OF v(2-5)] r obtain w' u ds where "engine_run ss v = Inr w'"
    and run: "run_signals (filter (\<lambda>s. signal_trigger s \<in> set ?ops) ss) ?r = Inr (u, ds)"
    and "heap w' i = Some u"
    and "filter ((=) (callback p)) (called w') = filter ((=) (callback p)) (called v) @ ds"
    by metis
  then show ?case using v(1) d fv by (cases ?mine) (auto simp: engine_run_def)
qed

text \<open>C7: The engine is a faithful switchboard. Over any sequence of trigger signals, a predicate
  registered for its operands sees exactly the signals about its own operands, in their order: its
  object ends in the state, and its callback is called as often and in the positions, that
  delivering just those signals to it directly would give. The run never throws.\<close>

theorem engine_delivers:
  assumes "wf_world w" and "registered i w" and "own_callback i w" and "heap w i = Some p"
  shows "\<exists>w' q cs. engine_run ss w = Inr w'
    \<and> run_signals (filter (\<lambda>s. signal_trigger s \<in> set (getPredicateOperands (kind p))) ss) p = Inr (q, cs)
    \<and> heap w' i = Some q
    \<and> filter ((=) (callback p)) (called w') = filter ((=) (callback p)) (called w) @ cs"
  using assms by (rule engine_run_delivers)

definition ex_world :: "nat world" where
  "ex_world = \<lparr>predicates = Map.empty,
     heap = [0 \<mapsto> new_1or2and3 10 ex_cpu ex_mem ex_disk, 1 \<mapsto> new_1element 11 ex_cpu], called = []\<rparr>"

lemma ex_world_wf: "wf_world ex_world"
  by (auto simp: wf_world_def ex_world_def split: if_splits)

theorem engine_delivers_witness:
  "\<exists>v w' q. addPredicates [0, 1] ex_world = Inr v
     \<and> engine_run [Activate ex_cpu, Activate ex_disk] v = Inr w'
     \<and> run_signals [Activate ex_cpu, Activate ex_disk] (new_1or2and3 10 ex_cpu ex_mem ex_disk) = Inr (q, [10])
     \<and> heap w' 0 = Some q \<and> filter ((=) 10) (called w') = [10]"
proof -
  let ?p = "new_1or2and3 (10::nat) ex_cpu ex_mem ex_disk"
  obtain v where v: "addPredicates [0, 1] ex_world = Inr v" and h: "heap v = heap ex_world"
    and b: "bucket v = (\<lambda>t. if t = ex_cpu then [0, 1] else if t = ex_mem \<or> t = ex_disk then [0] else [])"
    and c: "called v = []"
    by (auto simp: addPredicates_def addPredicate_def ex_world_def push_predicate_def bucket_def
        new_1or2and3_def new_1element_def fun_eq_iff)
  have h0: "heap v 0 = Some ?p" using h by (simp add: ex_world_def)
  have "wf_world v" using h ex_world_wf by (simp add: wf_world_def)
  moreover have "registered 0 v" unfolding registered_def b using h0 by (auto simp: new_1or2and3_def)
  moreover have "own_callback 0 v"
    by (auto simp: own_callback_def h ex_world_def new_1or2and3_def new_1element_def split: if_splits)
  ultimately obtain w' q cs where w': "engine_run [Activate ex_cpu, Activate ex_disk] v = Inr w'"
    and r: "run_signals [Activate ex_cpu, Activate ex_disk] ?p = Inr (q, cs)"
    and q: "heap w' 0 = Some q" and f: "filter ((=) 10) (called w') = cs"
    using engine_delivers [OF _ _ _ h0, of "[Activate ex_cpu, Activate ex_disk]"] c
    by (fastforce simp: new_1or2and3_def)
  have "cs = [10]" using r
    by (auto simp: new_1or2and3_def activate_def init_triggerState_def state_at_def andE_def orE_def)
  with v w' r q f show ?thesis by auto
qed

lemma push_predicate_simps [simp]:
  "heap (push_predicate i t w) = heap w" "called (push_predicate i t w) = called w"
  "bucket (push_predicate i t w) = (bucket w)(t := bucket w t @ [i])"
  by (auto simp: push_predicate_def bucket_def fun_eq_iff)

lemma fold_push_predicate:
  "heap (fold (push_predicate i) ts w) = heap w \<and> called (fold (push_predicate i) ts w) = called w
   \<and> (\<forall>t. bucket (fold (push_predicate i) ts w) t = bucket w t @ replicate (count_list ts t) i)"
  by (induction ts arbitrary: w) (auto simp: replicate_append_same [symmetric])

lemma addPredicate_effect:
  assumes "heap w i = Some p"
  shows "\<exists>w'. addPredicate i w = Inr w' \<and> heap w' = heap w \<and> called w' = called w
    \<and> (\<forall>t. bucket w' t = bucket w t @ replicate (count_list (getPredicateOperands (kind p)) t) i)"
  using assms fold_push_predicate [of i "getPredicateOperands (kind p)" w] by (simp add: addPredicate_def)

text \<open>Adding a live predicate appends it to the vector of each of its operands, once for every
  time the operand occurs in the predicate; no other vector, no object and no callback changes.\<close>

theorem addPredicate_appends:
  assumes "heap w i = Some p"
  shows "\<exists>w'. addPredicate i w = Inr w' \<and> heap w' = heap w \<and> called w' = called w
    \<and> (\<forall>t. bucket w' t = bucket w t @ replicate (count_list (getPredicateOperands (kind p)) t) i)"
  using assms by (rule addPredicate_effect)

theorem addPredicate_appends_witness:
  "\<exists>w'. addPredicate 1 ex_world = Inr w' \<and> bucket w' ex_cpu = [1] \<and> bucket w' ex_mem = []"
proof -
  have "heap ex_world 1 = Some (new_1element 11 ex_cpu)" by (simp add: ex_world_def)
  from addPredicate_appends [OF this] show ?thesis
    by (auto simp: new_1element_def ex_world_def bucket_def)
qed

text \<open>A predicate that names one trigger twice, \<open>t AND t\<close>, is registered twice and reports
  twice for a single activation of that trigger.\<close>

theorem duplicate_operand_reports_twice:
  assumes "heap w i = Some (new_1and2 cb t t)" and "bucket w t = []"
  shows "\<exists>v w'. addPredicate i w = Inr v \<and> triggerActivation t v = Inr w'
    \<and> called w' = called w @ [cb, cb]"
proof -
  let ?p = "new_1and2 cb t t"
  from addPredicate_effect [OF assms(1)] obtain v where v: "addPredicate i w = Inr v"
    "heap v = heap w" "called v = called w" and b: "bucket v t = [i, i]"
    using assms(2) by (auto simp: new_1and2_def)
  note wf = wf_new(2) [of cb t t]
  obtain q where q: "activate t ?p = Inr (q, [cb])"
    using activate_eq [OF wf, of t] by (simp add: new_1and2_def activated_def)
  have wq: "wf_predicate q" using activate_wf [OF wf, of t] q by auto
  have kq: "kind q = Predicate_1and2 t t" "callback q = cb"
    using q activate_eq [OF wf, of t] by (auto simp: new_1and2_def split: if_splits)
  obtain r where r: "activate t q = Inr (r, [cb])"
    using activate_eq [OF wq, of t] kq by (simp add: activated_def)
  have "\<exists>w'. triggerActivation t v = Inr w' \<and> called w' = called v @ [cb, cb]"
    using assms(1) v(2) b q r by (simp add: triggerActivation_def activate_one_def)
  with v show ?thesis by auto
qed

theorem duplicate_operand_reports_twice_witness:
  "\<exists>v w'. addPredicate 0 \<lparr>predicates = Map.empty, heap = [0 \<mapsto> new_1and2 (5::nat) ex_mem ex_mem],
       called = []\<rparr> = Inr v \<and> triggerActivation ex_mem v = Inr w' \<and> called w' = [5, 5]"
  using duplicate_operand_reports_twice [of
      "\<lparr>predicates = Map.empty, heap = [0 \<mapsto> new_1and2 (5::nat) ex_mem ex_mem], called = []\<rparr>"
      0 5 ex_mem]
  by (simp add: bucket_def)

lemma deliver_one_dom: "deliver_one s i w = Inr w' \<Longrightarrow> dom (heap w') = dom (heap w)"
  by (auto simp: deliver_one_def bindE_Inr_iff split: option.splits if_splits)

lemma deliver_loop_dom: "foldE (deliver_one s) ids w = Inr w' \<Longrightarrow> dom (heap w') = dom (heap w)"
proof (induction ids arbitrary: w)
  case (Cons i ids)
  then obtain v where "deliver_one s i w = Inr v" and "foldE (deliver_one s) ids v = Inr w'"
    by (auto simp: bindE_Inr_iff)
  with Cons.IH show ?case using deliver_one_dom by metis
qed simp

lemma engine_run_ok:
  assumes "wf_world w"
  shows "\<exists>w'. engine_run ss w = Inr w' \<and> wf_world w' \<and> bucket w' = bucket w \<and> dom (heap w') = dom (heap w)"
proof -
  let ?I = "\<lambda>v. wf_world v \<and> bucket v = bucket w \<and> dom (heap v) = dom (heap w)"
  have "\<exists>v'. engine_step s v = Inr v' \<and> ?I v'" if "?I v" for s v
    using engine_step_wf [of v s] that deliver_loop_dom [of s] unfolding engine_step_deliver
    by (metis subscript_simps(1))
  then show ?thesis unfolding engine_run_def by (rule foldE_invariant) (use assms in auto)
qed

text \<open>The engine owns no predicate. After the last owner lets go of one, every further signal
  passes it over without an error, although the engine still lists it, and no signal revives it.\<close>

theorem expired_is_skipped:
  assumes "wf_world w"
  shows "\<exists>w'. engine_run ss (expire i w) = Inr w' \<and> heap w' i = None
    \<and> (\<forall>j. j \<noteq> i \<longrightarrow> (heap w' j = None) = (heap w j = None)) \<and> bucket w' = bucket w"
proof -
  have e: "wf_world (expire i w)" "bucket (expire i w) = bucket w" "heap (expire i w) = (heap w)(i := None)"
    using assms by (auto simp: wf_world_def expire_def bucket_def fun_eq_iff split: if_splits)
  from engine_run_ok [OF e(1), of ss] obtain w' where "engine_run ss (expire i w) = Inr w'"
    and "bucket w' = bucket w" and d: "dom (heap w') = dom ((heap w)(i := None))"
    using e by auto
  moreover have "heap w' j = None \<longleftrightarrow> j = i \<or> heap w j = None" for j
    using d by (auto simp: set_eq_iff dom_def split: if_splits)
  ultimately show ?thesis by auto
qed

theorem expired_is_skipped_witness:
  "\<exists>w'. engine_run [Activate ex_cpu, Deactivate ex_cpu] (expire 1 ex_world) = Inr w' \<and> heap w' 1 = None"
  using expired_is_skipped [OF ex_world_wf, of "[Activate ex_cpu, Deactivate ex_cpu]" 1] by auto

end
