(* ===== verification/Sampling.thy ===== *)
theory Sampling
  imports ResStates Engine
begin

text \<open>
  \<open>SamplingManager\<close> (\<open>include/SamplingManager.hpp\<close>, \<open>src/library_src/SamplingManager.cpp\<close>): the
  poller that samples the machine once a second, counts for how long the condition of every trigger
  has held, fires the triggers, and thins the samples out into the logs.

  \<open>boost::circular_buffer\<close> is a library class: its operations are the parameter \<open>B\<close> of the
  definitions, one group per element type, and \<open>circular_buffer\<close> states what its documentation
  promises. The readings of the resource provider and the clock are inputs of a poll. A hash map is
  the list of its elements in iteration order, which the standard leaves open: the results about
  processing hold for every such list. The world the callbacks act on is of any type.
\<close>

section \<open>The circular buffer interface\<close>

record ('b, 'a) cbuf =
  cb_new :: "int \<Rightarrow> 'b"
  cb_push_back :: "'b \<Rightarrow> 'a \<Rightarrow> 'b"
  cb_items :: "'b \<Rightarrow> 'a list"
  cb_capacity :: "'b \<Rightarrow> nat"

text \<open>
  A new buffer is empty; \<open>push_back\<close> appends, drops the first element when the buffer is full, and
  does nothing when the capacity is 0. Iteration runs from the oldest element to the newest.
\<close>

locale circular_buffer =
  fixes ops :: "('b, 'a) cbuf"
  assumes items_new: "0 \<le> n \<Longrightarrow> cb_items ops (cb_new ops n) = []"
    and capacity_new: "0 \<le> n \<Longrightarrow> cb_capacity ops (cb_new ops n) = nat n"
    and capacity_push: "cb_capacity ops (cb_push_back ops b x) = cb_capacity ops b"
    and items_push: "length (cb_items ops b) \<le> cb_capacity ops b \<Longrightarrow>
      cb_items ops (cb_push_back ops b x) =
        (if cb_capacity ops b = 0 then []
         else if length (cb_items ops b) < cb_capacity ops b then cb_items ops b @ [x]
         else tl (cb_items ops b) @ [x])"
begin

definition bounded :: "'b \<Rightarrow> bool" where
  "bounded b \<longleftrightarrow> length (cb_items ops b) \<le> cb_capacity ops b"

lemma bounded_new: "0 \<le> n \<Longrightarrow> bounded (cb_new ops n)"
  by (simp add: bounded_def items_new)

lemma bounded_push: "bounded b \<Longrightarrow> bounded (cb_push_back ops b x)"
  by (auto simp: bounded_def items_push capacity_push)

lemma push_not_Nil: "bounded b \<Longrightarrow> 0 < cb_capacity ops b \<Longrightarrow> cb_items ops (cb_push_back ops b x) \<noteq> []
    \<and> last (cb_items ops (cb_push_back ops b x)) = x"
  by (auto simp: bounded_def items_push)

text \<open>Pushing a list keeps its last elements, as many as fit.\<close>

lemma items_pushes:
  assumes "0 \<le> n"
  shows "cb_items ops (foldl (cb_push_back ops) (cb_new ops n) xs) = drop (length xs - nat n) xs
    \<and> cb_capacity ops (foldl (cb_push_back ops) (cb_new ops n) xs) = nat n"
proof (induction xs rule: rev_induct)
  case Nil
  then show ?case using assms by (simp add: items_new capacity_new)
next
  case (snoc x xs)
  let ?b = "foldl (cb_push_back ops) (cb_new ops n) xs"
  have b: "length (cb_items ops ?b) \<le> cb_capacity ops ?b" using snoc by simp
  have "tl (drop (length xs - nat n) xs) = drop (Suc (length xs - nat n)) xs"
    by (simp add: drop_Suc tl_drop)
  then have "cb_items ops (cb_push_back ops ?b x) = drop (length (xs @ [x]) - nat n) (xs @ [x])"
    unfolding items_push [OF b] using snoc by (auto simp: Suc_diff_le)
  then show ?case using snoc by (simp add: capacity_push)
qed

end

section \<open>Parameters and state\<close>

type_synonym time = int

record 'b boost =
  cpuSB :: "('b, time \<times> CpuState) cbuf"
  ramSB :: "('b, time \<times> RamState) cbuf"
  hddSB :: "('b, time \<times> HddState) cbuf"
  cpuLB :: "('b, CpuState) cbuf"
  ramLB :: "('b, RamState) cbuf"
  hddLB :: "('b, HddState) cbuf"

text \<open>The laws of all six buffer classes.\<close>

definition boost_ok :: "'b boost \<Rightarrow> bool" where
  "boost_ok B \<longleftrightarrow> circular_buffer (cpuSB B) \<and> circular_buffer (ramSB B) \<and> circular_buffer (hddSB B)
     \<and> circular_buffer (cpuLB B) \<and> circular_buffer (ramLB B) \<and> circular_buffer (hddLB B)"

text \<open>A log: its type, its buffer, and the polls since the last entry.\<close>

type_synonym 'b logs = "(LogType \<times> 'b \<times> long) list"

record ('b, 'w) SamplingManager =
  cpuSamples :: 'b
  ramSamples :: 'b
  hddSamples :: 'b
  cpuLog :: "'b logs"
  ramLog :: "'b logs"
  hddLog :: "'b logs"
  triggerStates :: "(TriggerType \<times> long) list"
  triggerActivate :: "TriggerType \<Rightarrow> 'w \<Rightarrow> 'w result"
  triggerDeactivate :: "TriggerType \<Rightarrow> 'w \<Rightarrow> 'w result"
  isSampling :: bool

section \<open>Construction\<close>

text \<open>The loop of \<open>initializeSamplesBuffers\<close>: the largest resolution per resource, at least 1.\<close>

fun max_resolutions :: "LogType list \<Rightarrow> long \<times> long \<times> long \<Rightarrow> long \<times> long \<times> long" where
  "max_resolutions [] (c, r, h) = (c, r, h)"
| "max_resolutions (l # ls) (c, r, h) = max_resolutions ls
     (case log_resource l of
        LOG_CPU \<Rightarrow> (max c (log_resolution l), r, h)
      | LOG_MEMORY \<Rightarrow> (c, max r (log_resolution l), h)
      | LOG_DISK \<Rightarrow> (c, r, max h (log_resolution l)))"

definition initializeSamplesBuffers ::
  "'b boost \<Rightarrow> LogType list \<Rightarrow> ('b, 'w) SamplingManager \<Rightarrow> ('b, 'w) SamplingManager" where
  "initializeSamplesBuffers B ls m =
     (let (c, r, h) = max_resolutions ls (1, 1, 1)
      in m\<lparr>cpuSamples := cb_new (cpuSB B) c, ramSamples := cb_new (ramSB B) r,
           hddSamples := cb_new (hddSB B) h\<rparr>)"

definition log_size :: "LogType \<Rightarrow> long" where
  "log_size l = (if log_resolution l > 0 then cdiv (log_duration l) (log_resolution l) else 1)"

text \<open>One turn of the loop of \<open>initializeLoggingBuffers\<close>: \<open>cpuLog[logType] = \<dots>\<close>.\<close>

definition add_log ::
  "'b boost \<Rightarrow> LogType \<Rightarrow> ('b, 'w) SamplingManager \<Rightarrow> ('b, 'w) SamplingManager" where
  "add_log B l m = (case log_resource l of
       LOG_CPU \<Rightarrow> m\<lparr>cpuLog := upsert LogType_eq l (cb_new (cpuLB B) (log_size l), 0) (cpuLog m)\<rparr>
     | LOG_MEMORY \<Rightarrow> m\<lparr>ramLog := upsert LogType_eq l (cb_new (ramLB B) (log_size l), 0) (ramLog m)\<rparr>
     | LOG_DISK \<Rightarrow> m\<lparr>hddLog := upsert LogType_eq l (cb_new (hddLB B) (log_size l), 0) (hddLog m)\<rparr>)"

definition initializeLoggingBuffers ::
  "'b boost \<Rightarrow> LogType list \<Rightarrow> ('b, 'w) SamplingManager \<Rightarrow> ('b, 'w) SamplingManager" where
  "initializeLoggingBuffers B ls m = fold (add_log B) ls m"

definition initializeTriggers ::
  "TriggerType list \<Rightarrow> ('b, 'w) SamplingManager \<Rightarrow> ('b, 'w) SamplingManager" where
  "initializeTriggers ts m =
     m\<lparr>triggerStates := fold (\<lambda>t. upsert TriggerType_eq t 0) ts (triggerStates m)\<rparr>"

definition SamplingManager_new ::
  "'b boost \<Rightarrow> LogType list \<Rightarrow> TriggerType list \<Rightarrow> (TriggerType \<Rightarrow> 'w \<Rightarrow> 'w result)
   \<Rightarrow> (TriggerType \<Rightarrow> 'w \<Rightarrow> 'w result) \<Rightarrow> ('b, 'w) SamplingManager" where
  "SamplingManager_new B ls ts act deact =
     initializeTriggers ts (initializeLoggingBuffers B ls (initializeSamplesBuffers B ls
       \<lparr>cpuSamples = cb_new (cpuSB B) 1, ramSamples = cb_new (ramSB B) 1,
        hddSamples = cb_new (hddSB B) 1, cpuLog = [], ramLog = [], hddLog = [],
        triggerStates = [], triggerActivate = act, triggerDeactivate = deact,
        isSampling = False\<rparr>))"

definition connectPredicateEngine ::
  "('b, 'c world) SamplingManager \<Rightarrow> ('b, 'c world) SamplingManager" where
  "connectPredicateEngine m =
     m\<lparr>triggerActivate := triggerActivation, triggerDeactivate := triggerDeactivation\<rparr>"

section \<open>Triggers\<close>

definition cb_back :: "('b, 'a) cbuf \<Rightarrow> 'b \<Rightarrow> 'a result" where
  "cb_back ops b = (if cb_items ops b = [] then Inl Assertion_failed else Inr (last (cb_items ops b)))"

text \<open>The three readings of one poll, and the condition of a trigger on them.\<close>

type_synonym reading = "CpuState \<times> RamState \<times> HddState"

definition exceeds :: "reading \<Rightarrow> TriggerType \<Rightarrow> bool result" where
  "exceeds rd t = (case rd of (lastCpuState, lastRamState, lastHddState) \<Rightarrow>
     (case resource t of
        CPU \<Rightarrow> cpu_gt lastCpuState t
      | MEMORY \<Rightarrow> ram_gt lastRamState t
      | DISK \<Rightarrow> hdd_gt lastHddState t))"

text \<open>The body of the loop of \<open>processTriggers\<close>, for one trigger and its counter.\<close>

definition process_trigger ::
  "(TriggerType \<Rightarrow> 'w \<Rightarrow> 'w result) \<Rightarrow> (TriggerType \<Rightarrow> 'w \<Rightarrow> 'w result) \<Rightarrow> TriggerType
   \<Rightarrow> reading \<Rightarrow> long \<times> 'w \<Rightarrow> (long \<times> 'w) result" where
  "process_trigger act deact t rd st = (case st of (n, w) \<Rightarrow>
     bindE (exceeds rd t) (\<lambda>exceeded.
     bindE (if exceeded then Inr (wrap64 (n + 1), w)
            else bindE (if duration t \<le> n then deact t w else Inr w) (\<lambda>w1. Inr (0, w1)))
       (\<lambda>(n1, w1). if n1 = duration t then bindE (act t w1) (\<lambda>w2. Inr (0, w2)) else Inr (n1, w1))))"

fun process_list ::
  "(TriggerType \<Rightarrow> 'w \<Rightarrow> 'w result) \<Rightarrow> (TriggerType \<Rightarrow> 'w \<Rightarrow> 'w result) \<Rightarrow> reading
   \<Rightarrow> (TriggerType \<times> long) list \<Rightarrow> 'w \<Rightarrow> ((TriggerType \<times> long) list \<times> 'w) result" where
  "process_list act deact rd [] w = Inr ([], w)"
| "process_list act deact rd ((t, n) # ts) w =
     bindE (process_trigger act deact t rd (n, w)) (\<lambda>(n1, w1).
     bindE (process_list act deact rd ts w1) (\<lambda>(ts2, w2). Inr ((t, n1) # ts2, w2)))"

definition processTriggers ::
  "'b boost \<Rightarrow> ('b, 'w) SamplingManager \<Rightarrow> 'w \<Rightarrow> (('b, 'w) SamplingManager \<times> 'w) result" where
  "processTriggers B m w =
     bindE (cb_back (cpuSB B) (cpuSamples m)) (\<lambda>(_, c).
     bindE (cb_back (ramSB B) (ramSamples m)) (\<lambda>(_, r).
     bindE (cb_back (hddSB B) (hddSamples m)) (\<lambda>(_, h).
     bindE (process_list (triggerActivate m) (triggerDeactivate m) (c, r, h) (triggerStates m) w)
       (\<lambda>(ts, w1). Inr (m\<lparr>triggerStates := ts\<rparr>, w1)))))"

section \<open>Logs\<close>

text \<open>The loop of the mean functions: \<open>state += it->second; state /= samplesNumber\<close>.\<close>

fun mean_loop ::
  "('s \<Rightarrow> 's \<Rightarrow> 's) \<Rightarrow> ('s \<Rightarrow> double \<Rightarrow> 's) \<Rightarrow> long \<Rightarrow> long \<Rightarrow> 's \<Rightarrow> (time \<times> 's) list \<Rightarrow> 's" where
  "mean_loop add dv n i s [] = s"
| "mean_loop add dv n i s (it # its) =
     (if i < n then mean_loop add dv n (i + 1) (dv (add s (snd it)) (double_of_int n)) its else s)"

definition samples_mean ::
  "('s \<Rightarrow> 's \<Rightarrow> 's) \<Rightarrow> ('s \<Rightarrow> double \<Rightarrow> 's) \<Rightarrow> (time \<times> 's) list \<Rightarrow> long \<Rightarrow> 's result" where
  "samples_mean add dv items n = (case rev items of
     [] \<Rightarrow> Inl Assertion_failed
   | it # its \<Rightarrow> Inr (mean_loop add dv n 1 (snd it) its))"

definition getCpuSamplesMean :: "'b boost \<Rightarrow> ('b, 'w) SamplingManager \<Rightarrow> long \<Rightarrow> CpuState result" where
  "getCpuSamplesMean B m n = samples_mean cpu_add cpu_div (cb_items (cpuSB B) (cpuSamples m)) n"

definition getRamSamplesMean :: "'b boost \<Rightarrow> ('b, 'w) SamplingManager \<Rightarrow> long \<Rightarrow> RamState result" where
  "getRamSamplesMean B m n = samples_mean ram_add ram_div (cb_items (ramSB B) (ramSamples m)) n"

definition getHddSamplesMean :: "'b boost \<Rightarrow> ('b, 'w) SamplingManager \<Rightarrow> long \<Rightarrow> HddState result" where
  "getHddSamplesMean B m n = samples_mean hdd_add hdd_div (cb_items (hddSB B) (hddSamples m)) n"

text \<open>One loop of \<open>processLogs\<close>, over the logs of one resource.\<close>

fun log_loop :: "('b, 's) cbuf \<Rightarrow> (long \<Rightarrow> 's result) \<Rightarrow> 'b logs \<Rightarrow> 'b logs result" where
  "log_loop ops mean [] = Inr []"
| "log_loop ops mean ((l, b, secs) # ls) =
     bindE (let secs' = wrap64 (secs + 1) in
            if log_resolution l \<le> secs'
            then bindE (mean (log_resolution l)) (\<lambda>s. Inr (l, cb_push_back ops b s, 0))
            else Inr (l, b, secs'))
       (\<lambda>e. bindE (log_loop ops mean ls) (\<lambda>es. Inr (e # es)))"

definition processLogs :: "'b boost \<Rightarrow> ('b, 'w) SamplingManager \<Rightarrow> ('b, 'w) SamplingManager result" where
  "processLogs B m =
     bindE (log_loop (cpuLB B) (getCpuSamplesMean B m) (cpuLog m)) (\<lambda>cl.
     bindE (log_loop (ramLB B) (getRamSamplesMean B m) (ramLog m)) (\<lambda>rl.
     bindE (log_loop (hddLB B) (getHddSamplesMean B m) (hddLog m)) (\<lambda>hl.
       Inr (m\<lparr>cpuLog := cl, ramLog := rl, hddLog := hl\<rparr>))))"

section \<open>Polling\<close>

text \<open>The clock readings of one poll and what the provider returned.\<close>

record poll_input =
  cpuTime :: time
  ramTime :: time
  hddTime :: time
  polled :: reading

definition push_samples ::
  "'b boost \<Rightarrow> poll_input \<Rightarrow> ('b, 'w) SamplingManager \<Rightarrow> ('b, 'w) SamplingManager" where
  "push_samples B i m = (case polled i of (c, r, h) \<Rightarrow>
     m\<lparr>cpuSamples := cb_push_back (cpuSB B) (cpuSamples m) (cpuTime i, c),
       ramSamples := cb_push_back (ramSB B) (ramSamples m) (ramTime i, r),
       hddSamples := cb_push_back (hddSB B) (hddSamples m) (hddTime i, h)\<rparr>)"

definition poll ::
  "'b boost \<Rightarrow> poll_input \<Rightarrow> ('b, 'w) SamplingManager \<times> 'w \<Rightarrow> (('b, 'w) SamplingManager \<times> 'w) result" where
  "poll B i st = (case st of (m, w) \<Rightarrow>
     bindE (processTriggers B (push_samples B i m) w) (\<lambda>(m1, w1).
     bindE (processLogs B m1) (\<lambda>m2. Inr (m2, w1))))"

text \<open>
  The loop of \<open>pollingFunction\<close>. Each element of the list is one poll and what the second test of
  \<open>isSampling\<close>, after \<open>afterPollCallback\<close>, reads; at the end of the list the first test reads
  false. The result carries the number of the last sample.
\<close>

fun pollingFunction ::
  "'b boost \<Rightarrow> (poll_input \<times> bool) list \<Rightarrow> nat \<Rightarrow> ('b, 'w) SamplingManager \<Rightarrow> 'w
   \<Rightarrow> (nat \<times> ('b, 'w) SamplingManager \<times> 'w) result" where
  "pollingFunction B [] k m w = Inr (k, m\<lparr>isSampling := False\<rparr>, w)"
| "pollingFunction B ((i, still) # is) k m w =
     bindE (poll B i (m, w)) (\<lambda>(m1, w1).
       if still then pollingFunction B is (Suc k) m1 w1
       else Inr (Suc k, m1\<lparr>isSampling := False\<rparr>, w1))"

section \<open>Reading the logs\<close>

definition getCpuLog :: "'b boost \<Rightarrow> ('b, 'w) SamplingManager \<Rightarrow> LogType \<Rightarrow> CpuState list result" where
  "getCpuLog B m l = bindE (map_at LogType_eq (cpuLog m) l) (\<lambda>(b, _). Inr (cb_items (cpuLB B) b))"

definition getRamLog :: "'b boost \<Rightarrow> ('b, 'w) SamplingManager \<Rightarrow> LogType \<Rightarrow> RamState list result" where
  "getRamLog B m l = bindE (map_at LogType_eq (ramLog m) l) (\<lambda>(b, _). Inr (cb_items (ramLB B) b))"

definition getHddLog :: "'b boost \<Rightarrow> ('b, 'w) SamplingManager \<Rightarrow> LogType \<Rightarrow> HddState list result" where
  "getHddLog B m l = bindE (map_at LogType_eq (hddLog m) l) (\<lambda>(b, _). Inr (cb_items (hddLB B) b))"

end
