(* ===== verification/TriggerCounting.thy ===== *)
theory TriggerCounting
  imports Sampling
begin

text \<open>
  What \<open>SamplingManager::processTriggers\<close> computes: the counter of every trigger stays below its
  duration, a trigger fires at every poll that completes another full duration of consecutive polls
  on which its condition held, and the deactivation callback is never reached.
\<close>

section \<open>One trigger\<close>

text \<open>The units the assertions of the samples accept.\<close>

definition unit_ok :: "TriggerType \<Rightarrow> bool" where
  "unit_ok t \<longleftrightarrow> (case resource t of
     CPU \<Rightarrow> unitType (triggerValue t) = PERCENT
   | MEMORY \<Rightarrow> True
   | DISK \<Rightarrow> unitType (triggerValue t) \<noteq> PERCENT)"

lemma exceeds_total: "unit_ok t \<Longrightarrow> \<exists>b. exceeds rd t = Inr b"
proof (cases rd)
  case (fields c r h)
  assume ok: "unit_ok t"
  show ?thesis
  proof (cases "resource t")
    case CPU
    with ok fields cpu_thr.gt_total [of t c] show ?thesis by (simp add: exceeds_def unit_ok_def)
  next
    case MEMORY
    with fields ram_thr.gt_total [of t r] show ?thesis
      by (cases "unitType (triggerValue t)") (simp_all add: exceeds_def)
  next
    case DISK
    with ok fields hdd_thr.gt_total [of t h] show ?thesis
      by (cases "unitType (triggerValue t)") (simp_all add: exceeds_def unit_ok_def)
  qed
qed

lemma exceeds_assert: "\<not> unit_ok t \<Longrightarrow> exceeds rd t = Inl Assertion_failed"
  using cpu_thr.gt_assert [of t "fst rd"] hdd_thr.gt_assert [of t "snd (snd rd)"]
  by (cases rd) (auto simp: exceeds_def unit_ok_def split: Resource.splits)

text \<open>The counter of a trigger with a positive duration is below the duration.\<close>

definition counter_ok :: "TriggerType \<Rightarrow> long \<Rightarrow> bool" where
  "counter_ok t n \<longleftrightarrow> 0 < duration t \<and> duration t \<le> LONG_MAX \<and> 0 \<le> n \<and> n < duration t"

lemma process_trigger_eq:
  assumes "counter_ok t n" and "exceeds rd t = Inr b"
  shows "process_trigger act deact t rd (n, w) =
    (if b \<and> n + 1 = duration t then bindE (act t w) (\<lambda>w2. Inr (0, w2))
     else Inr (if b then n + 1 else 0, w))"
proof -
  have "wrap64 (n + 1) = n + 1"
    using assms(1) by (intro wrap64_id is_longI) (auto simp: counter_ok_def)
  moreover have "\<not> duration t \<le> n" and "duration t \<noteq> 0" using assms(1) by (auto simp: counter_ok_def)
  ultimately show ?thesis using assms(2) by (cases b) (simp_all add: process_trigger_def del: add.commute)
qed

lemma process_trigger_counter:
  assumes "counter_ok t n" and "process_trigger act deact t rd (n, w) = Inr (n', w')"
  shows "counter_ok t n'"
proof -
  obtain b where b: "exceeds rd t = Inr b"
    using assms(2) by (cases "exceeds rd t") (simp_all add: process_trigger_def)
  from assms(2) show ?thesis unfolding process_trigger_eq [OF assms(1) b]
    using assms(1) by (auto simp: counter_ok_def bindE_Inr_iff split: if_splits)
qed

text \<open>
  The specification: \<open>k\<close> is the number of consecutive polls, up to the last one, on which the
  condition held; the trigger fires when it reaches a multiple of the duration \<open>d\<close>.
\<close>

fun streak :: "nat \<Rightarrow> bool list \<Rightarrow> nat" where
  "streak k [] = k"
| "streak k (b # bs) = streak (if b then Suc k else 0) bs"

fun fires :: "nat \<Rightarrow> nat \<Rightarrow> bool list \<Rightarrow> nat" where
  "fires d k [] = 0"
| "fires d k (b # bs) =
     (let k' = (if b then Suc k else 0) in (if b \<and> k' mod d = 0 then 1 else 0) + fires d k' bs)"

fun repeatE :: "nat \<Rightarrow> ('w \<Rightarrow> 'w result) \<Rightarrow> 'w \<Rightarrow> 'w result" where
  "repeatE 0 f w = Inr w"
| "repeatE (Suc n) f w = bindE (f w) (repeatE n f)"

lemma repeatE_append: "repeatE n (\<lambda>w. Inr (w @ [x])) w = Inr (w @ replicate n x)"
  by (induction n arbitrary: w) (auto simp: replicate_append_same)

lemma Suc_mod_wrap: "0 < d \<Longrightarrow> Suc k mod d = (if Suc (k mod d) = d then 0 else Suc (k mod d))"
  by (simp add: mod_Suc)

lemma process_trigger_streak:
  assumes "0 < d" and "duration t = int d" and "int d \<le> LONG_MAX" and "exceeds rd t = Inr b"
  shows "process_trigger act deact t rd (int (k mod d), w) =
    (let k' = (if b then Suc k else 0)
     in if b \<and> k' mod d = 0 then bindE (act t w) (\<lambda>w2. Inr (int (k' mod d), w2))
        else Inr (int (k' mod d), w))"
proof -
  have "counter_ok t (int (k mod d))"
    using assms(1-3) by (simp add: counter_ok_def)
  from process_trigger_eq [OF this assms(4)] show ?thesis
    using assms(1,2) by (auto simp: Suc_mod_wrap add.commute)
qed

lemma process_trigger_run:
  assumes "0 < d" and "duration t = int d" and "int d \<le> LONG_MAX"
    and "list_all2 (\<lambda>rd b. exceeds rd t = Inr b) rds bs"
  shows "foldE (process_trigger act deact t) rds (int (k mod d), w) =
    bindE (repeatE (fires d k bs) (act t) w) (\<lambda>w'. Inr (int (streak k bs mod d), w'))"
  using assms(4)
proof (induction rds arbitrary: bs k w)
  case Nil
  then show ?case by simp
next
  case (Cons rd rds)
  then obtain b cs where bs: "bs = b # cs" and b: "exceeds rd t = Inr b"
    and cs: "list_all2 (\<lambda>rd b. exceeds rd t = Inr b) rds cs"
    by (auto simp: list_all2_Cons1)
  note step = process_trigger_streak [OF assms(1-3) b, of act deact k w]
  show ?case
  proof (cases "b \<and> Suc k mod d = 0")
    case True
    with step have "process_trigger act deact t rd (int (k mod d), w) =
        bindE (act t w) (\<lambda>w2. Inr (int (Suc k mod d), w2))" by simp
    with True bs Cons.IH [OF cs, of "Suc k"] show ?thesis
      by (cases "act t w") simp_all
  next
    case False
    with step have "process_trigger act deact t rd (int (k mod d), w) =
        Inr (int ((if b then Suc k else 0) mod d), w)" by (auto simp: Let_def)
    with False bs Cons.IH [OF cs, of "if b then Suc k else 0"] show ?thesis by auto
  qed
qed

lemma fires_all: "fires d k (replicate n True) = (k + n) div d - k div d"
proof (induction n arbitrary: k)
  case 0
  then show ?case by simp
next
  case (Suc n)
  have "(if Suc k mod d = 0 then 1 else 0) = Suc k div d - k div d"
    by (simp add: div_Suc)
  moreover have "Suc k div d \<le> (Suc k + n) div d" by (rule div_le_mono) simp
  moreover have "k div d \<le> Suc k div d" by (rule div_le_mono) simp
  ultimately show ?case using Suc.IH [of "Suc k"] by (simp add: Let_def)
qed

lemma fires_mod: "0 < d \<Longrightarrow> fires d (k mod d) bs = fires d k bs"
proof (induction bs arbitrary: k)
  case (Cons b bs)
  have "Suc (k mod d) mod d = Suc k mod d" by (simp add: mod_Suc_eq)
  moreover have "fires d (Suc (k mod d)) bs = fires d (Suc k) bs"
    using Cons.IH [OF Cons.prems, of "Suc (k mod d)"] Cons.IH [OF Cons.prems, of "Suc k"]
    by (simp add: mod_Suc_eq)
  ultimately show ?case by simp
qed simp

lemma streak_all: "streak k (replicate n True) = k + n"
  by (induction n arbitrary: k) auto

text \<open>C5: A trigger with duration \<open>d > 0\<close> calls the activation callback once for every poll that
  completes a multiple of \<open>d\<close> consecutive polls on which its condition held, and at no other poll;
  after the polls its counter is the current streak modulo \<open>d\<close>.\<close>

theorem trigger_fires_per_duration:
  assumes "0 < d" and "duration t = int d" and "int d \<le> LONG_MAX"
    and "list_all2 (\<lambda>rd b. exceeds rd t = Inr b) rds bs"
  shows "foldE (process_trigger act deact t) rds (0, w) =
    bindE (repeatE (fires d 0 bs) (act t) w) (\<lambda>w'. Inr (int (streak 0 bs mod d), w'))"
  using process_trigger_run [OF assms, of act deact 0 w] by simp

definition ex_reading :: reading where
  "ex_reading = (CpuState_new (double_of_int 85) (double_of_int 10),
     RamState_new (double_of_int 1000) (double_of_int 500) (double_of_int 100),
     HddState_new (double_of_int 100) (double_of_int 100) (double_of_int 2000) (double_of_int 2000))"

lemma ex_reading_exceeds:
  "exceeds ex_reading ex_cpu = Inr True" "exceeds ex_reading ex_mem = Inr True"
  "exceeds ex_reading ex_disk = Inr True"
  by code_simp+

text \<open>The set-up of the test case \<open>log_test\<close>: ten polls at 85% fire the 8 second trigger once and
  the 2 second disk trigger five times.\<close>

theorem trigger_fires_per_duration_witness:
  "foldE (process_trigger (\<lambda>t w. Inr (w @ [Activate t])) (\<lambda>t w. Inr w) ex_disk)
     (replicate 10 ex_reading) (0, []) = Inr (0, replicate 5 (Activate ex_disk))"
proof -
  have "list_all2 (\<lambda>rd b. exceeds rd ex_disk = Inr b) (replicate 10 ex_reading) (replicate 10 True)"
    by (simp add: list_all2_conv_all_nth ex_reading_exceeds)
  moreover have "duration ex_disk = int 2" by (simp add: ex_disk_def)
  ultimately have run: "foldE (process_trigger (\<lambda>t w. Inr (w @ [Activate t])) (\<lambda>t w. Inr w) ex_disk)
      (replicate 10 ex_reading) (0, []) =
    bindE (repeatE (fires 2 0 (replicate 10 True)) (\<lambda>w. Inr (w @ [Activate ex_disk])) [])
      (\<lambda>w'. Inr (int (streak 0 (replicate 10 True) mod 2), w'))"
    by (intro trigger_fires_per_duration) (simp_all add: LONG_MAX_def)
  show ?thesis unfolding run fires_all streak_all repeatE_append by simp
qed

definition ex_gb :: TriggerType where
  "ex_gb = ex_mem\<lparr>triggerValue := \<lparr>unitType = GB, rvalue = 2\<rparr>\<rparr>"

section \<open>All triggers of a poll\<close>

definition counters_ok :: "(TriggerType \<times> long) list \<Rightarrow> bool" where
  "counters_ok ts \<longleftrightarrow> (\<forall>(t, n) \<in> set ts. counter_ok t n)"

lemma counters_ok_Cons [simp]: "counters_ok ((t, n) # ts) \<longleftrightarrow> counter_ok t n \<and> counters_ok ts"
  and counters_ok_Nil [simp]: "counters_ok []"
  by (auto simp: counters_ok_def)

lemma process_list_counters:
  assumes "counters_ok ts" and "process_list act deact rd ts w = Inr (ts', w')"
  shows "counters_ok ts' \<and> map fst ts' = map fst ts"
  using assms
proof (induction ts arbitrary: w ts')
  case (Cons p ts)
  obtain t n where p: "p = (t, n)" by (cases p)
  with Cons.prems(2) obtain n1 w1 ts2 where h: "process_trigger act deact t rd (n, w) = Inr (n1, w1)"
    and rest: "process_list act deact rd ts w1 = Inr (ts2, w')" and "ts' = (t, n1) # ts2"
    by (auto simp: bindE_Inr_iff)
  with Cons.IH [OF _ rest] Cons.prems(1) p process_trigger_counter [OF _ h] show ?case by simp
qed simp

text \<open>With good counters the deactivation callback is dead code.\<close>

lemma process_list_no_deact:
  assumes "counters_ok ts"
  shows "process_list act deact rd ts w = process_list act deact' rd ts w"
  using assms
proof (induction ts arbitrary: w)
  case (Cons p ts)
  obtain t n where p: "p = (t, n)" by (cases p)
  then have ok: "counter_ok t n" "counters_ok ts" using Cons.prems by simp_all
  have "process_trigger act deact t rd (n, w) = process_trigger act deact' t rd (n, w)"
  proof (cases "exceeds rd t")
    case (Inr b)
    show ?thesis unfolding process_trigger_eq [OF ok(1) Inr] ..
  qed (simp add: process_trigger_def)
  moreover have "process_list act deact rd ts = process_list act deact' rd ts"
    using Cons.IH [OF ok(2)] by blast
  ultimately show ?case using p by simp
qed simp

lemma process_list_assert:
  assumes "\<not> unit_ok t" and "process_list act deact rd pre w = Inr (pre', w')"
  shows "process_list act deact rd (pre @ (t, n) # post) w = Inl Assertion_failed"
  using assms(2)
proof (induction pre arbitrary: w pre')
  case Nil
  then show ?case using exceeds_assert [OF assms(1), of rd] by (simp add: process_trigger_def)
next
  case (Cons p pre)
  obtain u k where p: "p = (u, k)" by (cases p)
  with Cons.prems obtain n1 w1 ts2 where "process_trigger act deact u rd (k, w) = Inr (n1, w1)"
    and "process_list act deact rd pre w1 = Inr (ts2, w')"
    by (auto simp: bindE_Inr_iff)
  with Cons.IH p show ?case by simp
qed

context trigger_sink
begin

lemma process_trigger_ok:
  assumes "counter_ok t n" and "unit_ok t" and "inv w"
  shows "\<exists>n' w'. process_trigger act deact t rd (n, w) = Inr (n', w') \<and> inv w'"
proof -
  obtain b where b: "exceeds rd t = Inr b" using exceeds_total [OF assms(2)] by blast
  obtain w1 where "act t w = Inr w1" "inv w1" using act_inv [OF assms(3)] by blast
  with assms(3) show ?thesis unfolding process_trigger_eq [OF assms(1) b] by auto
qed

lemma process_list_ok:
  assumes "counters_ok ts" and "\<forall>t \<in> fst ` set ts. unit_ok t" and "inv w"
  shows "\<exists>ts' w'. process_list act deact rd ts w = Inr (ts', w') \<and> inv w'"
  using assms
proof (induction ts arbitrary: w)
  case (Cons p ts)
  obtain t n where p: "p = (t, n)" by (cases p)
  with Cons.prems process_trigger_ok [of t n w rd] obtain n1 w1 where
    "process_trigger act deact t rd (n, w) = Inr (n1, w1)" "inv w1" by auto
  with Cons.IH [of w1] Cons.prems p show ?case by auto
qed simp

end

section \<open>Recorded signals\<close>

text \<open>A sink that writes every call down: what the callbacks are called with, in order.\<close>

definition record_act :: "TriggerType \<Rightarrow> signal list \<Rightarrow> signal list result" where
  "record_act t w = Inr (w @ [Activate t])"

definition record_deact :: "TriggerType \<Rightarrow> signal list \<Rightarrow> signal list result" where
  "record_deact t w = Inr (w @ [Deactivate t])"

interpretation recorder: trigger_sink record_act record_deact "\<lambda>_. True"
  by unfold_locales (auto simp: record_act_def record_deact_def)

fun run_triggers ::
  "(TriggerType \<Rightarrow> 'w \<Rightarrow> 'w result) \<Rightarrow> (TriggerType \<Rightarrow> 'w \<Rightarrow> 'w result) \<Rightarrow> reading list
   \<Rightarrow> (TriggerType \<times> long) list \<Rightarrow> 'w \<Rightarrow> ((TriggerType \<times> long) list \<times> 'w) result"
  where
  "run_triggers act deact [] ts w = Inr (ts, w)"
| "run_triggers act deact (rd # rds) ts w =
     bindE (process_list act deact rd ts w) (\<lambda>(ts1, w1). run_triggers act deact rds ts1 w1)"

lemma run_triggers_no_deact:
  "counters_ok ts \<Longrightarrow> run_triggers act deact rds ts w = run_triggers act deact' rds ts w"
proof (induction rds arbitrary: ts w)
  case (Cons rd rds)
  show ?case
  proof (cases "process_list act deact rd ts w")
    case (Inr p)
    obtain ts1 w1 where p: "p = (ts1, w1)" by (cases p)
    have "counters_ok ts1"
      using process_list_counters [OF Cons.prems Inr [unfolded p]] by simp
    with Cons.IH Inr p process_list_no_deact [OF Cons.prems, of act deact rd w deact'] show ?thesis
      by simp
  qed (simp add: process_list_no_deact [OF Cons.prems, of act deact rd w deact', symmetric])
qed simp

definition signals_of :: "TriggerType \<Rightarrow> signal list \<Rightarrow> signal list" where
  "signals_of t = filter (\<lambda>s. signal_trigger s = t)"

lemma record_trigger:
  assumes "counter_ok u n" and "process_trigger record_act record_deact u rd (n, w) = Inr (n1, w1)"
  shows "t \<noteq> u \<Longrightarrow> signals_of t w1 = signals_of t w"
    and "\<exists>v. w1 = w @ v \<and> process_trigger record_act record_deact u rd (n, []) = Inr (n1, v)
      \<and> set v \<subseteq> {Activate u}"
proof -
  obtain b where b: "exceeds rd u = Inr b"
    using assms(2) by (cases "exceeds rd u") (simp_all add: process_trigger_def)
  note eq = process_trigger_eq [OF assms(1) b, of record_act record_deact]
  show "t \<noteq> u \<Longrightarrow> signals_of t w1 = signals_of t w"
    and "\<exists>v. w1 = w @ v \<and> process_trigger record_act record_deact u rd (n, []) = Inr (n1, v)
      \<and> set v \<subseteq> {Activate u}"
    using assms(2) unfolding eq by (auto simp: record_act_def signals_of_def split: if_splits)
qed

text \<open>One poll, seen from one trigger: its own turn, and the other turns do not touch it.\<close>

lemma process_list_projection:
  assumes "counters_ok ts" and "distinct (map fst ts)" and "(t, n) \<in> set ts"
    and "process_list record_act record_deact rd ts w = Inr (ts', w')"
  shows "\<exists>n' v. process_trigger record_act record_deact t rd (n, []) = Inr (n', v)
    \<and> (t, n') \<in> set ts' \<and> signals_of t w' = signals_of t w @ v"
  using assms
proof (induction ts arbitrary: w ts')
  case (Cons p ts)
  obtain u k where p: "p = (u, k)" by (cases p)
  with Cons.prems(4) obtain n1 w1 ts2 where h: "process_trigger record_act record_deact u rd (k, w) = Inr (n1, w1)"
    and rest: "process_list record_act record_deact rd ts w1 = Inr (ts2, w')" and ts': "ts' = (u, n1) # ts2"
    by (auto simp: bindE_Inr_iff)
  have ok: "counter_ok u k" "counters_ok ts" using Cons.prems(1) p by simp_all
  note rec = record_trigger [OF ok(1) h]
  show ?case
  proof (cases "t = u")
    case True
    have "t \<notin> fst ` set ts" using Cons.prems(2) p True by simp
    then have "signals_of t w' = signals_of t w1"
      using rest ok(2)
    proof (induction ts arbitrary: w1 ts2)
      case (Cons q ts)
      obtain x l where q: "q = (x, l)" by (cases q)
      with Cons.prems obtain n2 w2 ts3 where
        h2: "process_trigger record_act record_deact x rd (l, w1) = Inr (n2, w2)"
        and "process_list record_act record_deact rd ts w2 = Inr (ts3, w')"
        by (auto simp: bindE_Inr_iff)
      with Cons.IH Cons.prems q record_trigger(1) [OF _ h2, of t] show ?case by auto
    qed simp
    moreover have "n = k" using Cons.prems(2,3) p True by force
    moreover obtain v where "w1 = w @ v" "process_trigger record_act record_deact u rd (k, []) = Inr (n1, v)"
      "set v \<subseteq> {Activate u}" using rec(2) by blast
    moreover from this have "signals_of t v = v" using True by (auto simp: signals_of_def filter_id_conv)
    ultimately show ?thesis using True ts' by (auto simp: signals_of_def)
  next
    case False
    with Cons.IH [OF ok(2) _ _ rest] Cons.prems(2,3) p rec(1) ts' show ?thesis by fastforce
  qed
qed simp


text \<open>The same over a sequence of polls.\<close>

definition exceeded :: "TriggerType \<Rightarrow> reading \<Rightarrow> bool" where
  "exceeded t rd \<longleftrightarrow> exceeds rd t = Inr True"

lemma exceeded_reading: "unit_ok t \<Longrightarrow> exceeds rd t = Inr (exceeded t rd)"
  using exceeds_total [of t rd] by (auto simp: exceeded_def)

lemma run_triggers_projection:
  assumes "counters_ok ts" and "distinct (map fst ts)" and "(t, int k) \<in> set ts"
    and "unit_ok t" and "run_triggers record_act record_deact rds ts w = Inr (ts', w')"
    and "k < nat (duration t)"
  shows "signals_of t w' =
    signals_of t w @ replicate (fires (nat (duration t)) k (map (exceeded t) rds)) (Activate t)"
  using assms
proof (induction rds arbitrary: ts k w)
  case (Cons rd rds)
  let ?d = "nat (duration t)"
  obtain ts1 w1 where h: "process_list record_act record_deact rd ts w = Inr (ts1, w1)"
    and rest: "run_triggers record_act record_deact rds ts1 w1 = Inr (ts', w')"
    using Cons.prems(5) by (auto simp: bindE_Inr_iff)
  from process_list_projection [OF Cons.prems(1-3) h] obtain n v where
    n: "process_trigger record_act record_deact t rd (int k, []) = Inr (n, v)"
    and mem: "(t, n) \<in> set ts1" and v: "signals_of t w1 = signals_of t w @ v" by blast
  from process_list_counters [OF Cons.prems(1) h] Cons.prems(2)
  have ok: "counters_ok ts1" "distinct (map fst ts1)" by simp_all
  have cok: "counter_ok t (int k)" using Cons.prems(1,3) by (auto simp: counters_ok_def)
  have d: "0 < ?d" "duration t = int ?d" "int ?d \<le> LONG_MAX"
    using cok by (auto simp: counter_ok_def)
  let ?b = "exceeded t rd" and ?k = "if exceeded t rd then Suc k else 0"
  have km: "k mod ?d = k" using Cons.prems(6) by simp
  note step = process_trigger_streak [OF d exceeded_reading [OF Cons.prems(4), of rd],
      of record_act record_deact k "[]", unfolded km]
  have n': "n = int (?k mod ?d)" and v': "v = replicate (if ?b \<and> ?k mod ?d = 0 then 1 else 0) (Activate t)"
    using n unfolding step by (auto simp: Let_def record_act_def split: if_splits)
  from Cons.IH [OF ok mem [unfolded n'] Cons.prems(4) rest] d(1)
  have "signals_of t w' = signals_of t w1 @
      replicate (fires ?d (?k mod ?d) (map (exceeded t) rds)) (Activate t)" by simp
  then show ?case unfolding v v'
    by (auto simp: Let_def fires_mod [OF d(1)] replicate_add [symmetric] simp del: replicate.simps)
qed simp


section \<open>Properties of the conditions and of duration 0\<close>

text \<open>The two directions of one threshold never hold for the same readings.\<close>

theorem over_under_exclusive:
  assumes "exceeds rd t = Inr True"
  shows "exceeds rd (flip_fluctuation t) = Inr False"
  using assms cpu_thr.gt_exclusive ram_thr.gt_exclusive hdd_thr.gt_exclusive
  by (cases rd) (auto simp: exceeds_def flip_fluctuation_def split: Resource.splits)

theorem over_under_exclusive_witness:
  "exceeds ex_reading (flip_fluctuation ex_cpu) = Inr False"
  by (rule over_under_exclusive [OF ex_reading_exceeds(1)])

text \<open>A memory trigger in megabytes or gigabytes compares the installed memory: what is in use
  does not matter.\<close>

theorem memory_trigger_ignores_usage:
  assumes "resource t = MEMORY" and "unitType (triggerValue t) \<noteq> PERCENT"
  shows "exceeds (c, setMBUsed x (setMonitorMBUsed y r), h) t = exceeds (c, r, h) t"
  using assms by (cases "unitType (triggerValue t)")
    (simp_all add: exceeds_def ram_gt_def setMBUsed_def setMonitorMBUsed_def Let_def cong: if_cong)

theorem memory_trigger_ignores_usage_witness:
  "exceeds (fst ex_reading, setMBUsed dzero (setMonitorMBUsed dzero (fst (snd ex_reading))),
      snd (snd ex_reading)) ex_gb = exceeds ex_reading ex_gb"
  using memory_trigger_ignores_usage [of ex_gb "fst ex_reading" dzero dzero]
  by (simp add: ex_gb_def ex_mem_def)

text \<open>A trigger with duration 0 signals at every poll on which its condition does not hold, first
  the deactivation and then the activation, and never while the condition holds.\<close>

theorem zero_duration_fires_when_false:
  assumes "duration t = 0" and "0 \<le> n" and "n < LONG_MAX" and "exceeds rd t = Inr b"
  shows "process_trigger record_act record_deact t rd (n, w) =
    (if b then Inr (n + 1, w) else Inr (0, w @ [Deactivate t, Activate t]))"
proof -
  have "wrap64 (n + 1) = n + 1"
    using assms(2,3) by (intro wrap64_id is_longI) (simp_all add: LONG_MIN_def)
  with assms show ?thesis
    by (simp add: process_trigger_def record_act_def record_deact_def)
qed

theorem zero_duration_fires_when_false_witness:
  "process_trigger record_act record_deact (flip_fluctuation (ex_cpu\<lparr>duration := 0\<rparr>)) ex_reading (0, []) =
    Inr (0, [Deactivate (flip_fluctuation (ex_cpu\<lparr>duration := 0\<rparr>)),
             Activate (flip_fluctuation (ex_cpu\<lparr>duration := 0\<rparr>))])"
proof -
  have "exceeds ex_reading (flip_fluctuation (ex_cpu\<lparr>duration := 0\<rparr>)) = Inr False" by code_simp
  from zero_duration_fires_when_false [OF _ _ _ this, of 0 "[]"]
  show ?thesis by (simp add: flip_fluctuation_def LONG_MAX_def)
qed

end
