(* ===== verification/SamplingLogs.thy ===== *)
theory SamplingLogs
  imports TriggerCounting
begin

text \<open>
  What \<open>SamplingManager::processLogs\<close> computes and what \<open>getCpuLog\<close> and its companions return. The
  specification cuts the samples of one resource into blocks as long as the log's resolution; the
  log holds one value per completed block, the newest ones that fit. The invariant of the sampler
  states this of every log, and every poll keeps it.
\<close>

section \<open>A reference buffer\<close>

text \<open>A queue that satisfies the documented behaviour of \<open>boost::circular_buffer\<close>, for each class.\<close>

type_synonym 'a ring = "nat \<times> 'a list"

definition ring_push :: "'a ring \<Rightarrow> 'a \<Rightarrow> 'a ring" where
  "ring_push q x = (case q of (n, xs) \<Rightarrow>
     (n, if n = 0 then [] else if length xs < n then xs @ [x] else tl xs @ [x]))"

definition ring_ops :: "('a ring \<Rightarrow> 'b) \<Rightarrow> ('b \<Rightarrow> 'a ring) \<Rightarrow> ('b, 'a) cbuf" where
  "ring_ops mk prj =
     \<lparr>cb_new = (\<lambda>n. mk (nat n, [])), cb_push_back = (\<lambda>b x. mk (ring_push (prj b) x)),
      cb_items = (\<lambda>b. snd (prj b)), cb_capacity = (\<lambda>b. fst (prj b))\<rparr>"

lemma ring_laws:
  assumes "\<And>q. prj (mk q) = q"
  shows "circular_buffer (ring_ops mk prj)"
  by unfold_locales (simp_all add: ring_ops_def ring_push_def assms split: prod.split)

datatype any_buffer =
    CpuSamples "(time \<times> CpuState) ring"
  | RamSamples "(time \<times> RamState) ring"
  | HddSamples "(time \<times> HddState) ring"
  | CpuEntries "CpuState ring"
  | RamEntries "RamState ring"
  | HddEntries "HddState ring"

definition ring_boost :: "any_buffer boost" where
  "ring_boost =
     \<lparr>cpuSB = ring_ops CpuSamples (\<lambda>b. case b of CpuSamples q \<Rightarrow> q | _ \<Rightarrow> (0, [])),
      ramSB = ring_ops RamSamples (\<lambda>b. case b of RamSamples q \<Rightarrow> q | _ \<Rightarrow> (0, [])),
      hddSB = ring_ops HddSamples (\<lambda>b. case b of HddSamples q \<Rightarrow> q | _ \<Rightarrow> (0, [])),
      cpuLB = ring_ops CpuEntries (\<lambda>b. case b of CpuEntries q \<Rightarrow> q | _ \<Rightarrow> (0, [])),
      ramLB = ring_ops RamEntries (\<lambda>b. case b of RamEntries q \<Rightarrow> q | _ \<Rightarrow> (0, [])),
      hddLB = ring_ops HddEntries (\<lambda>b. case b of HddEntries q \<Rightarrow> q | _ \<Rightarrow> (0, []))\<rparr>"

interpretation cpu_ring: circular_buffer "cpuSB ring_boost"
  unfolding ring_boost_def boost.simps by (rule ring_laws) simp

interpretation ram_ring: circular_buffer "ramSB ring_boost"
  unfolding ring_boost_def boost.simps by (rule ring_laws) simp

interpretation hdd_ring: circular_buffer "hddSB ring_boost"
  unfolding ring_boost_def boost.simps by (rule ring_laws) simp

interpretation cpu_entries: circular_buffer "cpuLB ring_boost"
  unfolding ring_boost_def boost.simps by (rule ring_laws) simp

interpretation ram_entries: circular_buffer "ramLB ring_boost"
  unfolding ring_boost_def boost.simps by (rule ring_laws) simp

interpretation hdd_entries: circular_buffer "hddLB ring_boost"
  unfolding ring_boost_def boost.simps by (rule ring_laws) simp

lemma ring_boost_ok: "boost_ok ring_boost"
  unfolding boost_ok_def
  using cpu_ring.circular_buffer_axioms ram_ring.circular_buffer_axioms
    hdd_ring.circular_buffer_axioms cpu_entries.circular_buffer_axioms
    ram_entries.circular_buffer_axioms hdd_entries.circular_buffer_axioms by blast

section \<open>Blocks and their means\<close>

definition newest :: "nat \<Rightarrow> 'a list \<Rightarrow> 'a list" where
  "newest n xs = drop (length xs - n) xs"

lemma newest_snoc:
  "newest n (xs @ [x]) = (if n = 0 then [] else
     if length (newest n xs) < n then newest n xs @ [x] else tl (newest n xs) @ [x])"
proof (cases "n = 0 \<or> length xs < n")
  case True
  then show ?thesis by (auto simp: newest_def)
next
  case False
  then have "Suc (length xs) - n = Suc (length xs - n)" by (simp add: Suc_diff_le)
  with False show ?thesis by (simp add: newest_def tl_drop drop_Suc)
qed

lemma length_newest: "length (newest n xs) = min n (length xs)"
  by (simp add: newest_def)

lemma newest_rev: "newest n xs = rev (take n (rev xs))"
  by (simp add: newest_def take_rev)

lemma newest_newest: "n \<le> m \<Longrightarrow> newest n (newest m xs) = newest n xs"
  by (simp add: newest_rev min_def)

lemma newest_Suc_snoc: "newest (Suc n) (xs @ [x]) = newest n xs @ [x]"
  by (simp add: newest_rev)

definition blocks :: "nat \<Rightarrow> 'a list \<Rightarrow> 'a list list" where
  "blocks r xs = map (\<lambda>j. take r (drop (j * r) xs)) [0..<length xs div r]"

lemma blocks_Nil [simp]: "blocks r [] = []"
  by (simp add: blocks_def)

lemma blocks_snoc:
  assumes "0 < r"
  shows "blocks r (xs @ [x]) =
    (if Suc (length xs) mod r = 0 then blocks r xs @ [newest r (xs @ [x])] else blocks r xs)"
proof -
  have old: "take r (drop (j * r) (xs @ [x])) = take r (drop (j * r) xs)" if "j < length xs div r" for j
  proof -
    have "Suc j * r \<le> length xs" using that assms
      by (metis Suc_leI div_times_less_eq_dividend le_trans mult_le_mono1)
    then show ?thesis by simp
  qed
  show ?thesis
  proof (cases "Suc (length xs) mod r = 0")
    case True
    then have d: "Suc (length xs) div r = Suc (length xs div r)" by (simp add: div_Suc)
    have "Suc (length xs) = Suc (length xs div r) * r"
      using True d by (metis add.right_neutral div_mult_mod_eq)
    then have "length xs div r * r = Suc (length xs) - r" by simp
    then have "take r (drop (length xs div r * r) (xs @ [x])) = newest r (xs @ [x])"
      by (simp add: newest_def del: drop_append)
    with True d old show ?thesis by (simp add: blocks_def)
  next
    case False
    then have "Suc (length xs) div r = length xs div r" by (simp add: div_Suc)
    with False old show ?thesis by (simp add: blocks_def)
  qed
qed

text \<open>The entry the code makes of a block of samples: from the newest sample backwards, each further sample
  is added and the sum divided by the size of the block. This is the mean of a block of one or two samples,
  and not of a longer one, where the divisions add up (see \<open>constant_load_logged_low\<close>).\<close>

definition running_quotient :: "('s \<Rightarrow> 's \<Rightarrow> 's) \<Rightarrow> ('s \<Rightarrow> double \<Rightarrow> 's) \<Rightarrow> (time \<times> 's) list \<Rightarrow> 's" where
  "running_quotient add dv xs =
     foldr (\<lambda>it s. dv (add s (snd it)) (double_of_int (int (length xs)))) (butlast xs) (snd (last xs))"

lemma running_quotient_small:
  "running_quotient add dv [a] = snd a"
  "running_quotient add dv [a, b] = dv (add (snd b) (snd a)) (double_of_int 2)"
  "running_quotient add dv [a, b, c] =
     dv (add (dv (add (snd c) (snd b)) (double_of_int 3)) (snd a)) (double_of_int 3)"
  by (simp_all add: running_quotient_def)

lemma mean_loop_take:
  "mean_loop add dv n (int i) s its =
    foldl (\<lambda>s it. dv (add s (snd it)) (double_of_int n)) s (take (nat (n - int i)) its)"
proof (induction its arbitrary: i s)
  case Nil
  then show ?case by simp
next
  case (Cons it its)
  show ?case
  proof (cases "int i < n")
    case True
    then have "nat (n - int i) = Suc (nat (n - int (Suc i)))" by simp
    with True Cons.IH [of "Suc i"] show ?thesis by (simp add: algebra_simps)
  qed simp
qed

lemma samples_mean_block:
  assumes "0 < r" and "xs \<noteq> []" and "r \<le> length xs" and "n = int r \<or> n \<le> 0 \<and> r = 1"
  shows "samples_mean add dv xs n = Inr (running_quotient add dv (newest r xs))"
proof -
  obtain ys y where xs: "xs = ys @ [y]" using assms(2) by (metis append_butlast_last_id)
  obtain q where q: "r = Suc q" using assms(1) by (cases r) auto
  have nw: "newest r xs = newest q ys @ [y]" by (simp add: xs q newest_Suc_snoc)
  have len: "length (newest q ys) = q" using assms(3) by (simp add: length_newest xs q)
  have take: "take (nat (n - 1)) (rev ys) = rev (newest q ys)"
    using assms(4) q by (auto simp: newest_rev)
  have "samples_mean add dv xs n =
      Inr (foldr (\<lambda>it s. dv (add s (snd it)) (double_of_int n)) (newest q ys) (snd y))"
    using mean_loop_take [of add dv n 1 "snd y" "rev ys"] take
    by (simp add: samples_mean_def xs foldl_conv_foldr)
  also have "\<dots> = Inr (foldr (\<lambda>it s. dv (add s (snd it)) (double_of_int (int r))) (newest q ys) (snd y))"
    using assms(4) q len by auto
  finally show ?thesis unfolding running_quotient_def nw by (simp add: len q)
qed


section \<open>The invariant of the logs\<close>

text \<open>A resolution below 1 counts as 1: such a log gets every sample.\<close>

definition period :: "LogType \<Rightarrow> nat" where
  "period l = nat (max 1 (log_resolution l))"

definition log_entries ::
  "('s \<Rightarrow> 's \<Rightarrow> 's) \<Rightarrow> ('s \<Rightarrow> double \<Rightarrow> 's) \<Rightarrow> LogType \<Rightarrow> (time \<times> 's) list \<Rightarrow> 's list" where
  "log_entries add dv l xs = map (running_quotient add dv) (blocks (period l) xs)"

text \<open>One log after the samples \<open>xs\<close>.\<close>

definition log_inv ::
  "('b, 's) cbuf \<Rightarrow> ('s \<Rightarrow> 's \<Rightarrow> 's) \<Rightarrow> ('s \<Rightarrow> double \<Rightarrow> 's) \<Rightarrow> (time \<times> 's) list
   \<Rightarrow> LogType \<times> 'b \<times> long \<Rightarrow> bool" where
  "log_inv ops add dv xs e = (case e of (l, b, secs) \<Rightarrow>
     log_resolution l \<le> LONG_MAX \<and> secs = int (length xs mod period l)
     \<and> cb_items ops b = newest (cb_capacity ops b) (log_entries add dv l xs))"

text \<open>The sample buffer: the newest samples, at least as many as any log averages over.\<close>

definition samples_inv :: "('b, time \<times> 's) cbuf \<Rightarrow> (time \<times> 's) list \<Rightarrow> 'b \<Rightarrow> 'b logs \<Rightarrow> bool" where
  "samples_inv ops xs sb ls \<longleftrightarrow> cb_items ops sb = newest (cb_capacity ops sb) xs
     \<and> 1 \<le> cb_capacity ops sb \<and> (\<forall>(l, _) \<in> set ls. period l \<le> cb_capacity ops sb)"

definition log_step ::
  "('b, 's) cbuf \<Rightarrow> ('s \<Rightarrow> 's \<Rightarrow> 's) \<Rightarrow> ('s \<Rightarrow> double \<Rightarrow> 's) \<Rightarrow> (time \<times> 's) list
   \<Rightarrow> LogType \<times> 'b \<times> long \<Rightarrow> LogType \<times> 'b \<times> long" where
  "log_step ops add dv xs e = (case e of (l, b, secs) \<Rightarrow>
     if length xs mod period l = 0
     then (l, cb_push_back ops b (running_quotient add dv (newest (period l) xs)), 0)
     else (l, b, secs + 1))"

lemma period_pos [simp]: "0 < period l"
  by (simp add: period_def)

lemma wrap_iff: "q < p \<Longrightarrow> p \<le> Suc q \<longleftrightarrow> (if Suc q = p then 0 else Suc q) = 0"
  by auto

lemma log_turn:
  assumes "log_inv ops add dv xs (l, b, secs)" and "period l \<le> cap"
  shows "log_resolution l \<le> wrap64 (secs + 1) \<longleftrightarrow> Suc (length xs) mod period l = 0"
    and "Suc (length xs) mod period l \<noteq> 0 \<Longrightarrow> wrap64 (secs + 1) = secs + 1"
    and "Suc (length xs) mod period l = 0 \<Longrightarrow>
      samples_mean add dv (newest cap (xs @ [x])) (log_resolution l) =
        Inr (running_quotient add dv (newest (period l) (xs @ [x])))"
proof -
  let ?p = "period l" let ?k = "length xs"
  have secs: "secs = int (?k mod ?p)" and bound: "log_resolution l \<le> LONG_MAX"
    using assms(1) by (simp_all add: log_inv_def)
  have lt: "?k mod ?p < ?p" by simp
  have "int ?p \<le> LONG_MAX" using bound by (simp add: period_def LONG_MAX_def)
  with secs lt have "secs + 1 \<le> LONG_MAX" by linarith
  with secs have w: "wrap64 (secs + 1) = secs + 1"
    by (intro wrap64_id is_longI) (simp_all add: LONG_MIN_def)
  then show "Suc ?k mod ?p \<noteq> 0 \<Longrightarrow> wrap64 (secs + 1) = secs + 1" by simp
  have "log_resolution l \<le> secs + 1 \<longleftrightarrow> int ?p \<le> secs + 1"
    using secs by (auto simp: period_def)
  also have "\<dots> \<longleftrightarrow> ?p \<le> Suc (?k mod ?p)" using secs by linarith
  also have "\<dots> \<longleftrightarrow> Suc ?k mod ?p = 0" using wrap_iff [OF lt] by (simp only: mod_Suc)
  finally show "log_resolution l \<le> wrap64 (secs + 1) \<longleftrightarrow> Suc ?k mod ?p = 0" using w by simp
  show "samples_mean add dv (newest cap (xs @ [x])) (log_resolution l) =
      Inr (running_quotient add dv (newest ?p (xs @ [x])))" if "Suc ?k mod ?p = 0"
  proof -
    have "?p dvd Suc ?k" using that by (simp add: mod_eq_0_iff_dvd)
    then have "?p \<le> Suc ?k" by (rule dvd_imp_le) simp
    then have "?p \<le> length (newest cap (xs @ [x]))" using assms(2) by (simp add: length_newest)
    moreover have "newest cap (xs @ [x]) \<noteq> []" using less_le_trans [OF period_pos calculation] by simp
    moreover have "log_resolution l = int ?p \<or> log_resolution l \<le> 0 \<and> ?p = 1"
      by (auto simp: period_def)
    ultimately show ?thesis
      using samples_mean_block [of ?p "newest cap (xs @ [x])"] assms(2) by (simp add: newest_newest)
  qed
qed

lemma log_loop_steps:
  assumes "\<forall>e \<in> set ls. log_inv ops add dv xs e" and "\<forall>(l, _) \<in> set ls. period l \<le> cap"
  shows "log_loop ops (samples_mean add dv (newest cap (xs @ [x]))) ls =
    Inr (map (log_step ops add dv (xs @ [x])) ls)"
  using assms
proof (induction ls)
  case (Cons e ls)
  obtain l b secs where e: "e = (l, b, secs)" by (cases e)
  have inv: "log_inv ops add dv xs (l, b, secs)" and p: "period l \<le> cap" using Cons.prems e by auto
  note turn = log_turn [OF inv p]
  from Cons e turn(1) turn(2) turn(3) [of x] show ?case
    by (cases "Suc (length xs) mod period l = 0") (auto simp: log_step_def Let_def)
qed simp

lemma log_step_inv:
  assumes "circular_buffer ops" and "log_inv ops add dv xs e"
  shows "log_inv ops add dv (xs @ [x]) (log_step ops add dv (xs @ [x]) e)"
proof -
  obtain l b secs where e: "e = (l, b, secs)" by (cases e)
  have items: "cb_items ops b = newest (cb_capacity ops b) (log_entries add dv l xs)"
    using assms(2) e by (simp add: log_inv_def)
  then have len: "length (cb_items ops b) \<le> cb_capacity ops b" by (simp add: length_newest)
  note push = circular_buffer.items_push [OF assms(1) len]
    circular_buffer.capacity_push [OF assms(1)]
  show ?thesis
  proof (cases "Suc (length xs) mod period l = 0")
    case True
    then have "log_entries add dv l (xs @ [x]) =
        log_entries add dv l xs @ [running_quotient add dv (newest (period l) (xs @ [x]))]"
      by (simp add: log_entries_def blocks_snoc)
    with True assms(2) e items show ?thesis
      by (auto simp: log_inv_def log_step_def push newest_snoc)
  next
    case False
    then have "Suc (length xs mod period l) \<noteq> period l" by (auto simp: mod_Suc)
    with False assms(2) e show ?thesis
      by (auto simp: log_inv_def log_step_def log_entries_def blocks_snoc mod_Suc)
  qed
qed

lemma samples_inv_push:
  assumes "circular_buffer ops" and "samples_inv ops xs sb ls"
  shows "samples_inv ops (xs @ [x]) (cb_push_back ops sb x) ls"
    and "cb_capacity ops (cb_push_back ops sb x) = cb_capacity ops sb"
    and "cb_items ops (cb_push_back ops sb x) = newest (cb_capacity ops sb) (xs @ [x])"
proof -
  have len: "length (cb_items ops sb) \<le> cb_capacity ops sb"
    using assms(2) by (simp add: samples_inv_def length_newest)
  show *: "cb_items ops (cb_push_back ops sb x) = newest (cb_capacity ops sb) (xs @ [x])"
    using assms(2) unfolding circular_buffer.items_push [OF assms(1) len]
    by (simp add: samples_inv_def newest_snoc)
  show **: "cb_capacity ops (cb_push_back ops sb x) = cb_capacity ops sb"
    by (rule circular_buffer.capacity_push [OF assms(1)])
  show "samples_inv ops (xs @ [x]) (cb_push_back ops sb x) ls"
    using assms(2) * ** by (simp add: samples_inv_def)
qed


section \<open>The invariant of the sampler\<close>

definition cpu_sample :: "poll_input \<Rightarrow> time \<times> CpuState" where
  "cpu_sample i = (cpuTime i, fst (polled i))"

definition ram_sample :: "poll_input \<Rightarrow> time \<times> RamState" where
  "ram_sample i = (ramTime i, fst (snd (polled i)))"

definition hdd_sample :: "poll_input \<Rightarrow> time \<times> HddState" where
  "hdd_sample i = (hddTime i, snd (snd (polled i)))"

lemmas sample_defs = cpu_sample_def ram_sample_def hdd_sample_def

definition logs_inv ::
  "('b, time \<times> 's) cbuf \<Rightarrow> ('b, 's) cbuf \<Rightarrow> ('s \<Rightarrow> 's \<Rightarrow> 's) \<Rightarrow> ('s \<Rightarrow> double \<Rightarrow> 's)
   \<Rightarrow> (time \<times> 's) list \<Rightarrow> 'b \<Rightarrow> 'b logs \<Rightarrow> bool" where
  "logs_inv sops lops add dv xs sb ls \<longleftrightarrow>
     samples_inv sops xs sb ls \<and> (\<forall>e \<in> set ls. log_inv lops add dv xs e)"

text \<open>The sampler after the polls \<open>ins\<close>.\<close>

definition sampler_inv :: "'b boost \<Rightarrow> poll_input list \<Rightarrow> ('b, 'w) SamplingManager \<Rightarrow> bool" where
  "sampler_inv B ins m \<longleftrightarrow>
     logs_inv (cpuSB B) (cpuLB B) cpu_add cpu_div (map cpu_sample ins) (cpuSamples m) (cpuLog m)
   \<and> logs_inv (ramSB B) (ramLB B) ram_add ram_div (map ram_sample ins) (ramSamples m) (ramLog m)
   \<and> logs_inv (hddSB B) (hddLB B) hdd_add hdd_div (map hdd_sample ins) (hddSamples m) (hddLog m)"

definition after_poll ::
  "'b boost \<Rightarrow> poll_input list \<Rightarrow> poll_input \<Rightarrow> (TriggerType \<times> long) list
   \<Rightarrow> ('b, 'w) SamplingManager \<Rightarrow> ('b, 'w) SamplingManager" where
  "after_poll B ins i ts m = (push_samples B i m)
     \<lparr>triggerStates := ts,
      cpuLog := map (log_step (cpuLB B) cpu_add cpu_div (map cpu_sample (ins @ [i]))) (cpuLog m),
      ramLog := map (log_step (ramLB B) ram_add ram_div (map ram_sample (ins @ [i]))) (ramLog m),
      hddLog := map (log_step (hddLB B) hdd_add hdd_div (map hdd_sample (ins @ [i]))) (hddLog m)\<rparr>"

lemma logs_inv_step:
  assumes "circular_buffer sops" and "circular_buffer lops" and "logs_inv sops lops add dv xs sb ls"
    and "sb' = cb_push_back sops sb x"
  shows "log_loop lops (samples_mean add dv (cb_items sops sb')) ls =
      Inr (map (log_step lops add dv (xs @ [x])) ls)"
    and "logs_inv sops lops add dv (xs @ [x]) sb' (map (log_step lops add dv (xs @ [x])) ls)"
    and "cb_back sops sb' = Inr x"
proof -
  have si: "samples_inv sops xs sb ls" and li: "\<forall>e \<in> set ls. log_inv lops add dv xs e"
    using assms(3) by (simp_all add: logs_inv_def)
  note push = samples_inv_push [OF assms(1) si, of x, folded assms(4)]
  have cap: "1 \<le> cb_capacity sops sb" and pd: "\<forall>(l, _) \<in> set ls. period l \<le> cb_capacity sops sb"
    using si by (simp_all add: samples_inv_def)
  show "log_loop lops (samples_mean add dv (cb_items sops sb')) ls =
      Inr (map (log_step lops add dv (xs @ [x])) ls)"
    unfolding push(3) by (rule log_loop_steps [OF li pd])
  have "fst (log_step lops add dv (xs @ [x]) e) = fst e" for e
    by (simp add: log_step_def split: prod.split)
  then have "fst ` set (map (log_step lops add dv (xs @ [x])) ls) = fst ` set ls"
    by (simp add: image_image)
  then have "\<forall>e \<in> set (map (log_step lops add dv (xs @ [x])) ls). fst e \<in> fst ` set ls"
    by (metis imageI)
  with push(1,2) pd have "samples_inv sops (xs @ [x]) sb' (map (log_step lops add dv (xs @ [x])) ls)"
    unfolding samples_inv_def by fastforce
  with li log_step_inv [OF assms(2)]
  show "logs_inv sops lops add dv (xs @ [x]) sb' (map (log_step lops add dv (xs @ [x])) ls)"
    by (auto simp: logs_inv_def)
  have "newest (cb_capacity sops sb) (xs @ [x]) \<noteq> []"
    using cap by (simp add: newest_def)
  then show "cb_back sops sb' = Inr x" using cap by (simp add: cb_back_def push(3) newest_def)
qed

lemma poll_eq:
  assumes "boost_ok B" and "sampler_inv B ins m"
  shows "poll B i (m, w) =
      bindE (process_list (triggerActivate m) (triggerDeactivate m) (polled i) (triggerStates m) w)
        (\<lambda>(ts, w1). Inr (after_poll B ins i ts m, w1))"
    and "sampler_inv B (ins @ [i]) (after_poll B ins i ts m)"
proof -
  have "circular_buffer (cpuSB B)" "circular_buffer (cpuLB B)" and
    "circular_buffer (ramSB B)" "circular_buffer (ramLB B)" and
    "circular_buffer (hddSB B)" "circular_buffer (hddLB B)"
    using assms(1) by (simp_all add: boost_ok_def)
  note ops = this
  have inv: "logs_inv (cpuSB B) (cpuLB B) cpu_add cpu_div (map cpu_sample ins) (cpuSamples m) (cpuLog m)"
    "logs_inv (ramSB B) (ramLB B) ram_add ram_div (map ram_sample ins) (ramSamples m) (ramLog m)"
    "logs_inv (hddSB B) (hddLB B) hdd_add hdd_div (map hdd_sample ins) (hddSamples m) (hddLog m)"
    using assms(2) by (simp_all add: sampler_inv_def)
  obtain c r h where p: "polled i = (c, r, h)" by (cases "polled i")
  note cpu = logs_inv_step [OF ops(1,2) inv(1) refl, of "cpu_sample i"]
  note ram = logs_inv_step [OF ops(3,4) inv(2) refl, of "ram_sample i"]
  note hdd = logs_inv_step [OF ops(5,6) inv(3) refl, of "hdd_sample i"]
  show "sampler_inv B (ins @ [i]) (after_poll B ins i ts m)"
    using cpu(2) ram(2) hdd(2) p
    by (simp add: sampler_inv_def after_poll_def push_samples_def sample_defs)
  show "poll B i (m, w) =
      bindE (process_list (triggerActivate m) (triggerDeactivate m) (polled i) (triggerStates m) w)
        (\<lambda>(ts, w1). Inr (after_poll B ins i ts m, w1))"
    using cpu(1,3) ram(1,3) hdd(1,3) p
    by (cases "process_list (triggerActivate m) (triggerDeactivate m) (c, r, h) (triggerStates m) w")
      (auto simp: poll_def processTriggers_def processLogs_def push_samples_def after_poll_def
        sample_defs getCpuSamplesMean_def [abs_def] getRamSamplesMean_def [abs_def]
        getHddSamplesMean_def [abs_def])
qed


section \<open>Construction establishes the invariant\<close>

lemma max_resolutions_ge:
  assumes "max_resolutions ls (c, r, h) = (c', r', h')"
  shows "c \<le> c' \<and> r \<le> r' \<and> h \<le> h' \<and> (\<forall>l \<in> set ls. log_resolution l \<le>
    (case log_resource l of LOG_CPU \<Rightarrow> c' | LOG_MEMORY \<Rightarrow> r' | LOG_DISK \<Rightarrow> h'))"
  using assms
proof (induction ls arbitrary: c r h)
  case (Cons l ls)
  then show ?case by (cases "log_resource l") (fastforce split: LogResource.splits)+
qed simp

definition log_ok :: "LogType \<Rightarrow> bool" where
  "log_ok l \<longleftrightarrow> 0 \<le> log_duration l \<and> log_resolution l \<le> LONG_MAX"

lemma log_size_nonneg: "log_ok l \<Longrightarrow> 0 \<le> log_size l"
  by (simp add: log_ok_def log_size_def cdiv_nonneg pos_imp_zdiv_nonneg_iff)

text \<open>An empty log after no samples.\<close>

lemma log_inv_new:
  "circular_buffer ops \<Longrightarrow> log_ok l \<Longrightarrow> 0 \<le> n \<Longrightarrow> log_resolution k = log_resolution l
    \<Longrightarrow> log_inv ops add dv [] (k, cb_new ops n, 0)"
  by (simp add: log_inv_def log_ok_def circular_buffer.items_new log_entries_def newest_def)

definition fresh_logs ::
  "('b, 's) cbuf \<Rightarrow> ('s \<Rightarrow> 's \<Rightarrow> 's) \<Rightarrow> ('s \<Rightarrow> double \<Rightarrow> 's) \<Rightarrow> int \<Rightarrow> 'b logs \<Rightarrow> bool" where
  "fresh_logs ops add dv cap ls \<longleftrightarrow>
     (\<forall>e \<in> set ls. log_inv ops add dv [] e \<and> log_resolution (fst e) \<le> cap)"

lemma set_upsert:
  "e \<in> set (upsert eq k v m) \<Longrightarrow> e \<in> set m \<or> e = (k, v) \<or> (\<exists>k'. eq k' k \<and> e = (k', v))"
  by (induction eq k v m rule: upsert.induct) (auto split: if_splits)

lemma fresh_logs_upsert:
  assumes "circular_buffer ops" and "fresh_logs ops add dv cap ls" and "log_ok l"
    and "log_resolution l \<le> cap"
  shows "fresh_logs ops add dv cap (upsert LogType_eq l (cb_new ops (log_size l), 0) ls)"
proof -
  have new: "log_inv ops add dv [] (k, cb_new ops (log_size l), 0)"
    if "log_resolution k = log_resolution l" for k
    using assms(1,3) log_size_nonneg [OF assms(3)] that by (rule log_inv_new)
  show ?thesis unfolding fresh_logs_def
  proof
    fix e assume "e \<in> set (upsert LogType_eq l (cb_new ops (log_size l), 0) ls)"
    from set_upsert [OF this] show "log_inv ops add dv [] e \<and> log_resolution (fst e) \<le> cap"
      using assms(2,4) new by (auto simp: fresh_logs_def LogType_eq_def)
  qed
qed

lemma initializeLoggingBuffers_keeps:
  "cpuSamples (initializeLoggingBuffers B ls m) = cpuSamples m"
  "ramSamples (initializeLoggingBuffers B ls m) = ramSamples m"
  "hddSamples (initializeLoggingBuffers B ls m) = hddSamples m"
  "triggerStates (initializeLoggingBuffers B ls m) = triggerStates m"
  "triggerActivate (initializeLoggingBuffers B ls m) = triggerActivate m"
  "triggerDeactivate (initializeLoggingBuffers B ls m) = triggerDeactivate m"
  unfolding initializeLoggingBuffers_def
  by (induction ls arbitrary: m) (simp_all add: add_log_def split: LogResource.split)

lemma initializeLoggingBuffers_fresh:
  assumes "boost_ok B" and "\<forall>l \<in> set ls. log_ok l \<and> log_resolution l \<le>
      (case log_resource l of LOG_CPU \<Rightarrow> c | LOG_MEMORY \<Rightarrow> r | LOG_DISK \<Rightarrow> h)"
    and "fresh_logs (cpuLB B) cpu_add cpu_div c (cpuLog m)"
    and "fresh_logs (ramLB B) ram_add ram_div r (ramLog m)"
    and "fresh_logs (hddLB B) hdd_add hdd_div h (hddLog m)"
  defines "m' \<equiv> initializeLoggingBuffers B ls m"
  shows "fresh_logs (cpuLB B) cpu_add cpu_div c (cpuLog m')
    \<and> fresh_logs (ramLB B) ram_add ram_div r (ramLog m')
    \<and> fresh_logs (hddLB B) hdd_add hdd_div h (hddLog m')"
  using assms(2-5) unfolding m'_def initializeLoggingBuffers_def
proof (induction ls arbitrary: m)
  case (Cons l ls)
  have b: "circular_buffer (cpuLB B)" "circular_buffer (ramLB B)" "circular_buffer (hddLB B)"
    using assms(1) by (simp_all add: boost_ok_def)
  have l: "log_ok l" and ls: "\<forall>l \<in> set ls. log_ok l \<and> log_resolution l \<le>
      (case log_resource l of LOG_CPU \<Rightarrow> c | LOG_MEMORY \<Rightarrow> r | LOG_DISK \<Rightarrow> h)"
    using Cons.prems(1) by simp_all
  show ?case unfolding fold.simps comp_def
    using Cons.prems l b
    by (intro Cons.IH [OF ls]; cases "log_resource l") (simp_all add: add_log_def fresh_logs_upsert)
qed simp

lemma logs_inv_new:
  assumes "circular_buffer sops" and "fresh_logs lops add dv cap ls" and "1 \<le> cap"
  shows "logs_inv sops lops add dv [] (cb_new sops cap) ls"
proof -
  have "period l \<le> nat cap" if "(l, v) \<in> set ls" for l v
    using assms(2,3) that by (force simp: period_def fresh_logs_def)
  with assms show ?thesis
    by (auto simp: logs_inv_def samples_inv_def fresh_logs_def newest_def
        circular_buffer.items_new circular_buffer.capacity_new)
qed

lemma SamplingManager_new_inv:
  assumes "boost_ok B" and "\<forall>l \<in> set ls. log_ok l"
  shows "sampler_inv B [] (SamplingManager_new B ls ts act deact)"
proof -
  obtain c r h where m: "max_resolutions ls (1, 1, 1) = (c, r, h)" by (cases "max_resolutions ls (1, 1, 1)")
  note ge = max_resolutions_ge [OF m]
  define m0 :: "('a, 'b) SamplingManager" where
    "m0 = \<lparr>cpuSamples = cb_new (cpuSB B) c, ramSamples = cb_new (ramSB B) r,
        hddSamples = cb_new (hddSB B) h, cpuLog = [], ramLog = [], hddLog = [],
        triggerStates = [], triggerActivate = act, triggerDeactivate = deact, isSampling = False\<rparr>"
  have init: "SamplingManager_new B ls ts act deact =
      initializeTriggers ts (initializeLoggingBuffers B ls m0)"
    by (simp add: SamplingManager_new_def initializeSamplesBuffers_def m m0_def)
  have "fresh_logs (cpuLB B) cpu_add cpu_div c (cpuLog (initializeLoggingBuffers B ls m0))
    \<and> fresh_logs (ramLB B) ram_add ram_div r (ramLog (initializeLoggingBuffers B ls m0))
    \<and> fresh_logs (hddLB B) hdd_add hdd_div h (hddLog (initializeLoggingBuffers B ls m0))"
    using assms ge by (intro initializeLoggingBuffers_fresh) (auto simp: m0_def fresh_logs_def)
  then show ?thesis unfolding init
    using ge assms(1)
    by (auto simp: sampler_inv_def initializeTriggers_def initializeLoggingBuffers_keeps m0_def
        boost_ok_def intro: logs_inv_new)
qed

end
