(* ===== verification/SamplerRun.thy ===== *)
theory SamplerRun
  imports SamplingLogs
begin

text \<open>
  The polling loop as a whole. \<open>pollingFunction\<close> is two independent computations over the same
  readings: the trigger counters with the callbacks (\<open>run_triggers\<close>), and the logs, described by
  the invariant of the sampler. The properties of the sampler follow from the two.
\<close>

section \<open>The loop splits into triggers and logs\<close>

text \<open>How many polls a run makes: up to and including the first after which sampling is off.\<close>

fun polls_done :: "('i \<times> bool) list \<Rightarrow> nat" where
  "polls_done [] = 0"
| "polls_done ((i, still) # is) = Suc (if still then polls_done is else 0)"

definition run_inputs :: "(poll_input \<times> bool) list \<Rightarrow> poll_input list" where
  "run_inputs is = map fst (take (polls_done is) is)"

lemma run_inputs_simps [simp]:
  "run_inputs [] = []"
  "run_inputs ((i, still) # is) = i # (if still then run_inputs is else [])"
  by (simp_all add: run_inputs_def)

lemma length_run_inputs [simp]: "length (run_inputs is) = polls_done is"
  by (induction "is") auto

text \<open>The key, capacity and place of every log.\<close>

definition shape :: "('b, 's) cbuf \<Rightarrow> 'b logs \<Rightarrow> (LogType \<times> nat) list" where
  "shape ops ls = map (\<lambda>(l, b, _). (l, cb_capacity ops b)) ls"

lemma shape_steps:
  "circular_buffer ops \<Longrightarrow> shape ops (map (log_step ops add dv xs) ls) = shape ops ls"
  by (auto simp: shape_def log_step_def circular_buffer.capacity_push split: prod.split)

definition shapes :: "'b boost \<Rightarrow> ('b, 'w) SamplingManager \<Rightarrow> (LogType \<times> nat) list list" where
  "shapes B m = [shape (cpuLB B) (cpuLog m), shape (ramLB B) (ramLog m), shape (hddLB B) (hddLog m)]"

lemma after_poll_keeps:
  "triggerActivate (after_poll B ins i ts m) = triggerActivate m"
  "triggerDeactivate (after_poll B ins i ts m) = triggerDeactivate m"
  "triggerStates (after_poll B ins i ts m) = ts"
  "boost_ok B \<Longrightarrow> shapes B (after_poll B ins i ts m) = shapes B m"
  by (auto simp: after_poll_def push_samples_def shapes_def boost_ok_def shape_steps split: prod.split)

lemma switched_off [simp]:
  "sampler_inv B ins (m\<lparr>isSampling := b\<rparr>) = sampler_inv B ins m"
  "shapes B (m\<lparr>isSampling := b\<rparr>) = shapes B m"
  by (simp_all add: sampler_inv_def shapes_def)

lemma polling_triggers:
  assumes "boost_ok B" and "sampler_inv B ins m"
  shows "bindE (pollingFunction B is k m w) (\<lambda>(k', m', w'). Inr (k', triggerStates m', w')) =
    bindE (run_triggers (triggerActivate m) (triggerDeactivate m) (map polled (run_inputs is))
        (triggerStates m) w) (\<lambda>(ts, w'). Inr (k + polls_done is, ts, w'))"
  using assms(2)
proof (induction "is" arbitrary: ins k m w)
  case (Cons e "is")
  obtain i still where e: "e = (i, still)" by (cases e)
  note step = poll_eq [OF assms(1) Cons.prems, of i]
  show ?case
  proof (cases "process_list (triggerActivate m) (triggerDeactivate m) (polled i) (triggerStates m) w")
    case (Inr p)
    obtain ts w1 where p: "p = (ts, w1)" by (cases p)
    with step(1) Inr have "poll B i (m, w) = Inr (after_poll B ins i ts m, w1)" by simp
    with Cons.IH [OF step(2) [of ts], of "Suc k" w1] Inr p e show ?thesis by (simp add: after_poll_keeps)
  qed (simp add: e step(1))
qed simp

lemma polling_logs:
  assumes "boost_ok B" and "sampler_inv B ins m" and "pollingFunction B is k m w = Inr (k', m', w')"
  shows "sampler_inv B (ins @ run_inputs is) m' \<and> shapes B m' = shapes B m"
  using assms(2,3)
proof (induction "is" arbitrary: ins k m w)
  case Nil
  then show ?case by auto
next
  case (Cons e "is")
  obtain i still where e: "e = (i, still)" by (cases e)
  note step = poll_eq [OF assms(1) Cons.prems(1), of i]
  obtain ts w1 where "poll B i (m, w) = Inr (after_poll B ins i ts m, w1)"
    using Cons.prems(2) e by (auto simp: bindE_Inr_iff step(1))
  with Cons.prems(2) e Cons.IH [OF step(2) [of ts], of "Suc k" w1] step(2) [of ts] assms(1) show ?case
    by (cases still) (auto simp: after_poll_keeps)
qed

lemma polling_result:
  assumes "boost_ok B" and "sampler_inv B ins m"
    and "run_triggers (triggerActivate m) (triggerDeactivate m) (map polled (run_inputs is))
        (triggerStates m) w = Inr (ts, w')"
  shows "\<exists>m'. pollingFunction B is k m w = Inr (k + polls_done is, m', w') \<and> triggerStates m' = ts"
  using polling_triggers [OF assms(1,2), of "is" k w] assms(3)
  by (cases "pollingFunction B is k m w") auto

section \<open>The triggers of a new sampler\<close>

definition fresh_triggers :: "TriggerType list \<Rightarrow> (TriggerType \<times> long) list" where
  "fresh_triggers us = map (\<lambda>t. (t, 0)) us"

definition add_new :: "'a \<Rightarrow> 'a list \<Rightarrow> 'a list" where
  "add_new t us = (if t \<in> set us then us else us @ [t])"

lemma upsert_fresh: "upsert TriggerType_eq t 0 (fresh_triggers us) = fresh_triggers (add_new t us)"
  by (induction us) (auto simp: fresh_triggers_def add_new_def)

lemma initial_triggers:
  "fold (\<lambda>t. upsert TriggerType_eq t 0) ts (fresh_triggers us) = fresh_triggers (fold add_new ts us)"
  by (induction ts arbitrary: us) (simp_all add: upsert_fresh)

lemma fold_add_new:
  "distinct us \<Longrightarrow> distinct (fold add_new ts us) \<and> set (fold add_new ts us) = set us \<union> set ts"
  by (induction ts arbitrary: us) (auto simp: add_new_def)

definition trigger_ok :: "TriggerType \<Rightarrow> bool" where
  "trigger_ok t \<longleftrightarrow> unit_ok t \<and> 0 < duration t \<and> duration t \<le> LONG_MAX"

lemma SamplingManager_new_triggers:
  fixes B :: "'b boost" and ls :: "LogType list" and ts :: "TriggerType list"
    and act deact :: "TriggerType \<Rightarrow> 'w \<Rightarrow> 'w result"
  defines "m \<equiv> SamplingManager_new B ls ts act deact"
  shows "distinct (map fst (triggerStates m))" and "fst ` set (triggerStates m) = set ts"
    and "t \<in> set ts \<Longrightarrow> (t, 0) \<in> set (triggerStates m)"
    and "\<forall>t \<in> set ts. 0 < duration t \<and> duration t \<le> LONG_MAX \<Longrightarrow> counters_ok (triggerStates m)"
    and "triggerActivate m = act" and "triggerDeactivate m = deact"
proof -
  have "triggerStates m = fold (\<lambda>t. upsert TriggerType_eq t 0) ts (fresh_triggers [])"
    by (simp add: m_def SamplingManager_new_def initializeTriggers_def initializeLoggingBuffers_keeps
        initializeSamplesBuffers_def fresh_triggers_def split: prod.split)
  then have m: "triggerStates m = fresh_triggers (fold add_new ts [])" by (simp only: initial_triggers)
  note init = fold_add_new [of "[]" ts]
  from init show "distinct (map fst (triggerStates m))" and "fst ` set (triggerStates m) = set ts"
    and "t \<in> set ts \<Longrightarrow> (t, 0) \<in> set (triggerStates m)"
    unfolding m fresh_triggers_def by (simp_all add: comp_def image_image)
  from init show "\<forall>t \<in> set ts. 0 < duration t \<and> duration t \<le> LONG_MAX \<Longrightarrow> counters_ok (triggerStates m)"
    unfolding m fresh_triggers_def counters_ok_def counter_ok_def by simp
  show "triggerActivate m = act" and "triggerDeactivate m = deact"
    by (simp_all add: m_def SamplingManager_new_def initializeTriggers_def
        initializeLoggingBuffers_keeps initializeSamplesBuffers_def split: prod.split)
qed

context trigger_sink
begin

lemma run_triggers_ok:
  assumes "counters_ok ts" and "\<forall>t \<in> fst ` set ts. unit_ok t" and "inv w"
  shows "\<exists>ts' w'. run_triggers act deact rds ts w = Inr (ts', w') \<and> inv w'"
  using assms
proof (induction rds arbitrary: ts w)
  case (Cons rd rds)
  from process_list_ok [OF Cons.prems, of rd] obtain ts1 w1
    where h: "process_list act deact rd ts w = Inr (ts1, w1)" and w1: "inv w1" by blast
  from process_list_counters [OF Cons.prems(1) h]
  have "counters_ok ts1" and m: "map fst ts1 = map fst ts" by simp_all
  moreover from arg_cong [OF m, of set] have "\<forall>t \<in> fst ` set ts1. unit_ok t"
    using Cons.prems(2) by simp
  ultimately show ?case using Cons.IH [OF _ _ w1] h by simp
qed simp

lemma polling_ok:
  assumes "boost_ok B" and "\<forall>l \<in> set ls. log_ok l" and "\<forall>t \<in> set ts. trigger_ok t" and "inv w"
  shows "\<exists>m' w'. pollingFunction B is 0 (SamplingManager_new B ls ts act deact) w =
      Inr (polls_done is, m', w') \<and> inv w'"
proof -
  let ?m = "SamplingManager_new B ls ts act deact"
  note new = SamplingManager_new_triggers [where B = B and ls = ls and ts = ts and act = act and deact = deact]
  have "counters_ok (triggerStates ?m)" and "\<forall>t \<in> fst ` set (triggerStates ?m). unit_ok t"
    using assms(3) new(2) by (auto simp: trigger_ok_def intro: new(4))
  from run_triggers_ok [OF this assms(4), of "map polled (run_inputs is)"] obtain ts' w'
    where "run_triggers act deact (map polled (run_inputs is)) (triggerStates ?m) w = Inr (ts', w')"
      and "inv w'" by blast
  with polling_result [OF assms(1) SamplingManager_new_inv [OF assms(1,2)], of ts act deact "is" w ts' w' 0]
  show ?thesis by (auto simp: new(5,6))
qed

end


section \<open>Which log a key finds\<close>

text \<open>Of several logs with equivalent keys the last one configured fixes the capacity.\<close>

definition winner :: "LogType list \<Rightarrow> LogType \<Rightarrow> LogType" where
  "winner ls l = last (filter (\<lambda>k. LogType_eq k l) ls)"

definition shape_of :: "'b boost \<Rightarrow> ('b, 'w) SamplingManager \<Rightarrow> LogResource \<Rightarrow> (LogType \<times> nat) list" where
  "shape_of B m r = (case r of LOG_CPU \<Rightarrow> shapes B m ! 0 | LOG_MEMORY \<Rightarrow> shapes B m ! 1 | LOG_DISK \<Rightarrow> shapes B m ! 2)"

lemma shape_of_cong: "shapes B m = shapes B m' \<Longrightarrow> shape_of B m r = shape_of B m' r"
  by (cases r) (simp_all add: shape_of_def)

lemma shape_upsert:
  "shape ops (upsert eq l (b, s) ls) = upsert eq l (cb_capacity ops b) (shape ops ls)"
  by (induction ls) (auto simp: shape_def split: prod.split)

lemma lookup_shape:
  "lookup_by eq l (shape ops ls) = map_option (\<lambda>(b, _). cb_capacity ops b) (lookup_by eq l ls)"
  by (induction ls) (auto simp: shape_def)

lemma shape_of_add_log:
  assumes "boost_ok B" and "log_ok k"
  shows "lookup_by LogType_eq l (shape_of B (add_log B k m) (log_resource l)) =
    (if LogType_eq k l then Some (nat (log_size k))
     else lookup_by LogType_eq l (shape_of B m (log_resource l)))"
proof -
  have "circular_buffer (cpuLB B)" "circular_buffer (ramLB B)" "circular_buffer (hddLB B)"
    using assms(1) by (simp_all add: boost_ok_def)
  note caps = this [THEN circular_buffer.capacity_new, OF log_size_nonneg [OF assms(2)]]
  show ?thesis
    by (cases "log_resource l"; cases "log_resource k")
      (simp_all add: add_log_def shape_of_def shapes_def shape_upsert logkey.lookup_upsert caps LogType_eq_def)
qed

lemma shape_of_new:
  assumes "boost_ok B" and "\<forall>l \<in> set ls. log_ok l"
  shows "lookup_by LogType_eq l (shape_of B (SamplingManager_new B ls ts act deact) (log_resource l)) =
    (if \<exists>k \<in> set ls. LogType_eq k l then Some (nat (log_size (winner ls l))) else None)"
proof -
  have "lookup_by LogType_eq l (shape_of B (fold (add_log B) ls m) (log_resource l)) =
      (if \<exists>k \<in> set ls. LogType_eq k l then Some (nat (log_size (winner ls l)))
       else lookup_by LogType_eq l (shape_of B m (log_resource l)))" for m
    using assms(2)
  proof (induction ls rule: rev_induct)
    case (snoc k ls)
    then show ?case by (simp add: shape_of_add_log [OF assms(1)] winner_def)
  qed simp
  note run = this
  obtain m where m: "SamplingManager_new B ls ts act deact = initializeTriggers ts (fold (add_log B) ls m)"
    and none: "cpuLog m = []" "ramLog m = []" "hddLog m = []"
    by (simp add: SamplingManager_new_def initializeLoggingBuffers_def initializeSamplesBuffers_def
        split: prod.split)
  have "shape_of B (initializeTriggers ts m') = shape_of B m'" for m' :: "('a, 'b) SamplingManager"
    by (simp add: initializeTriggers_def shape_of_def shapes_def fun_eq_iff split: LogResource.split)
  moreover have "shape_of B m (log_resource l) = []"
    using none by (simp add: shape_of_def shapes_def shape_def split: LogResource.split)
  ultimately show ?thesis using run [of m] by (simp add: m)
qed

lemma lookup_log_inv:
  assumes "\<forall>e \<in> set ls. log_inv ops add dv xs e"
    and "lookup_by LogType_eq l (shape ops ls) = Some n"
  shows "\<exists>b s. lookup_by LogType_eq l ls = Some (b, s) \<and> cb_items ops b = newest n (log_entries add dv l xs)"
  using assms
proof (induction ls)
  case (Cons e ls)
  obtain k b s where e: "e = (k, b, s)" by (cases e)
  show ?case
  proof (cases "LogType_eq k l")
    case True
    then have "log_entries add dv k xs = log_entries add dv l xs"
      by (simp add: log_entries_def period_def LogType_eq_def)
    with True Cons.prems e show ?thesis by (simp add: shape_def log_inv_def)
  next
    case False
    with Cons e show ?thesis by (simp add: shape_def)
  qed
qed (simp add: shape_def)

text \<open>What a query returns, for the three resources.\<close>

lemma log_query:
  assumes "boost_ok B" and "sampler_inv B ins m"
  shows "lookup_by LogType_eq l (shape_of B m (log_resource l)) = Some n \<Longrightarrow>
      (case log_resource l of
         LOG_CPU \<Rightarrow> getCpuLog B m l = Inr (newest n (log_entries cpu_add cpu_div l (map cpu_sample ins)))
       | LOG_MEMORY \<Rightarrow> getRamLog B m l = Inr (newest n (log_entries ram_add ram_div l (map ram_sample ins)))
       | LOG_DISK \<Rightarrow> getHddLog B m l = Inr (newest n (log_entries hdd_add hdd_div l (map hdd_sample ins))))"
    and "lookup_by LogType_eq l (shape_of B m (log_resource l)) = None \<Longrightarrow>
      (case log_resource l of
         LOG_CPU \<Rightarrow> getCpuLog B m l = Inl Out_of_range
       | LOG_MEMORY \<Rightarrow> getRamLog B m l = Inl Out_of_range
       | LOG_DISK \<Rightarrow> getHddLog B m l = Inl Out_of_range)"
proof -
  have inv: "\<forall>e \<in> set (cpuLog m). log_inv (cpuLB B) cpu_add cpu_div (map cpu_sample ins) e"
    "\<forall>e \<in> set (ramLog m). log_inv (ramLB B) ram_add ram_div (map ram_sample ins) e"
    "\<forall>e \<in> set (hddLog m). log_inv (hddLB B) hdd_add hdd_div (map hdd_sample ins) e"
    using assms(2) by (simp_all add: sampler_inv_def logs_inv_def)
  note found = inv [THEN lookup_log_inv]
  show "lookup_by LogType_eq l (shape_of B m (log_resource l)) = Some n \<Longrightarrow>
      (case log_resource l of
         LOG_CPU \<Rightarrow> getCpuLog B m l = Inr (newest n (log_entries cpu_add cpu_div l (map cpu_sample ins)))
       | LOG_MEMORY \<Rightarrow> getRamLog B m l = Inr (newest n (log_entries ram_add ram_div l (map ram_sample ins)))
       | LOG_DISK \<Rightarrow> getHddLog B m l = Inr (newest n (log_entries hdd_add hdd_div l (map hdd_sample ins))))"
    by (cases "log_resource l")
      (auto simp: shape_of_def shapes_def getCpuLog_def getRamLog_def getHddLog_def map_at_def
        dest!: found)
  show "lookup_by LogType_eq l (shape_of B m (log_resource l)) = None \<Longrightarrow>
      (case log_resource l of
         LOG_CPU \<Rightarrow> getCpuLog B m l = Inl Out_of_range
       | LOG_MEMORY \<Rightarrow> getRamLog B m l = Inl Out_of_range
       | LOG_DISK \<Rightarrow> getHddLog B m l = Inl Out_of_range)"
    by (cases "log_resource l")
      (auto simp: shape_of_def shapes_def getCpuLog_def getRamLog_def getHddLog_def map_at_def lookup_shape)
qed


section \<open>Other callbacks\<close>

lemma fold_add_log_reconnect:
  "(fold (add_log B) ls m)\<lparr>triggerActivate := act, triggerDeactivate := deact\<rparr> =
    fold (add_log B) ls (m\<lparr>triggerActivate := act, triggerDeactivate := deact\<rparr>)"
proof (induction ls arbitrary: m)
  case (Cons l ls)
  have "(add_log B l m)\<lparr>triggerActivate := act, triggerDeactivate := deact\<rparr> =
      add_log B l (m\<lparr>triggerActivate := act, triggerDeactivate := deact\<rparr>)"
    by (simp add: add_log_def split: LogResource.split)
  with Cons.IH show ?case by simp
qed simp

lemma SamplingManager_new_reconnect:
  "(SamplingManager_new B ls ts act deact)\<lparr>triggerActivate := act', triggerDeactivate := deact'\<rparr> =
    SamplingManager_new B ls ts act' deact'"
proof -
  have "(initializeTriggers ts m)\<lparr>triggerActivate := act', triggerDeactivate := deact'\<rparr> =
      initializeTriggers ts (m\<lparr>triggerActivate := act', triggerDeactivate := deact'\<rparr>)"
    for m :: "('a, 'b) SamplingManager"
    by (simp add: initializeTriggers_def)
  then show ?thesis
    by (simp add: SamplingManager_new_def initializeLoggingBuffers_def fold_add_log_reconnect
        initializeSamplesBuffers_def split: prod.split)
qed

lemma new_run_triggers:
  assumes "boost_ok B" and "\<forall>l \<in> set ls. log_ok l"
  shows "bindE (pollingFunction B is 0 (SamplingManager_new B ls ts act deact) w)
      (\<lambda>(k, m', w'). Inr (k, triggerStates m', w')) =
    bindE (run_triggers act deact (map polled (run_inputs is))
      (triggerStates (SamplingManager_new B ls ts act deact)) w) (\<lambda>(ts', w'). Inr (polls_done is, ts', w'))"
  using polling_triggers [OF assms(1) SamplingManager_new_inv [OF assms], where k = 0]
  by (simp add: SamplingManager_new_triggers(5,6))

section \<open>A sample run\<close>

definition ex_log :: LogType where
  "ex_log = \<lparr>log_resource = LOG_CPU, log_duration = 4, log_resolution = 2\<rparr>"

definition ex_input :: "time \<Rightarrow> int \<Rightarrow> poll_input \<times> bool" where
  "ex_input now cpu = (\<lparr>cpuTime = now, ramTime = now, hddTime = now,
     polled = (CpuState_new (double_of_int cpu) (double_of_int 0), snd ex_reading)\<rparr>, True)"

definition ex_inputs :: "(poll_input \<times> bool) list" where
  "ex_inputs = [ex_input 1 10, ex_input 2 30, ex_input 3 50, ex_input 4 90, ex_input 5 90,
     ex_input 6 90, ex_input 7 90]"

abbreviation ex_sampler ::
  "TriggerType list \<Rightarrow> (any_buffer, signal list) SamplingManager" where
  "ex_sampler ts \<equiv> SamplingManager_new ring_boost [ex_log] ts record_act record_deact"

lemma ex_log_ok: "\<forall>l \<in> set [ex_log]. log_ok l"
  by (simp add: ex_log_def log_ok_def LONG_MAX_def)

lemma ex_triggers_ok: "\<forall>t \<in> set [ex_disk, ex_cpu]. trigger_ok t"
  by (simp add: ex_disk_def ex_cpu_def trigger_ok_def unit_ok_def LONG_MAX_def)

lemma ex_run: "\<exists>m' w'. pollingFunction ring_boost ex_inputs 0 (ex_sampler [ex_disk, ex_cpu]) [] = Inr (7, m', w')"
proof -
  have "polls_done ex_inputs = 7" by (simp add: ex_inputs_def ex_input_def)
  with recorder.polling_ok [OF ring_boost_ok ex_log_ok ex_triggers_ok TrueI, of ex_inputs "[]"]
  show ?thesis by auto
qed

section \<open>Properties of the sampler\<close>

lemma log_contents:
  assumes "boost_ok B" and "\<forall>l \<in> set ls. log_ok l" and "l \<in> set ls"
    and "pollingFunction B is 0 (SamplingManager_new B ls ts act deact) w = Inr (k, m', w')"
  shows "case log_resource l of
     LOG_CPU \<Rightarrow> getCpuLog B m' l = Inr (newest (nat (log_size (winner ls l)))
       (log_entries cpu_add cpu_div l (map cpu_sample (run_inputs is))))
   | LOG_MEMORY \<Rightarrow> getRamLog B m' l = Inr (newest (nat (log_size (winner ls l)))
       (log_entries ram_add ram_div l (map ram_sample (run_inputs is))))
   | LOG_DISK \<Rightarrow> getHddLog B m' l = Inr (newest (nat (log_size (winner ls l)))
       (log_entries hdd_add hdd_div l (map hdd_sample (run_inputs is))))"
proof -
  from polling_logs [OF assms(1) SamplingManager_new_inv [OF assms(1,2)] assms(4)]
  have inv: "sampler_inv B (run_inputs is) m'"
    and sh: "shapes B m' = shapes B (SamplingManager_new B ls ts act deact)" by simp_all
  have "\<exists>k \<in> set ls. LogType_eq k l" using assms(3) by (auto simp: LogType_eq_def)
  with shape_of_cong [OF sh] shape_of_new [OF assms(1,2), of l ts act deact]
  have "lookup_by LogType_eq l (shape_of B m' (log_resource l)) =
      Some (nat (log_size (winner ls l)))" by simp
  from log_query(1) [OF assms(1) inv this] show ?thesis .
qed

text \<open>C6: Every log holds one entry per completed block of samples as long as its resolution, the newest
  ones that fit into duration divided by resolution entries, oldest first. An entry is computed from the
  samples of its own block, all of them and no others, by the running division of the code
  (\<open>running_quotient\<close>), which is the mean for a resolution of one or two seconds only. If several configured
  logs have the same resource and resolution, the last of them fixes the capacity.\<close>

theorem logs_hold_block_entries:
  assumes "boost_ok B" and "\<forall>l \<in> set ls. log_ok l" and "l \<in> set ls"
    and "pollingFunction B is 0 (SamplingManager_new B ls ts act deact) w = Inr (k, m', w')"
  shows "case log_resource l of
     LOG_CPU \<Rightarrow> getCpuLog B m' l = Inr (newest (nat (log_size (winner ls l)))
       (log_entries cpu_add cpu_div l (map cpu_sample (run_inputs is))))
   | LOG_MEMORY \<Rightarrow> getRamLog B m' l = Inr (newest (nat (log_size (winner ls l)))
       (log_entries ram_add ram_div l (map ram_sample (run_inputs is))))
   | LOG_DISK \<Rightarrow> getHddLog B m' l = Inr (newest (nat (log_size (winner ls l)))
       (log_entries hdd_add hdd_div l (map hdd_sample (run_inputs is))))"
  using assms by (rule log_contents)

definition ex_thirds :: "(poll_input \<times> bool) list" where
  "ex_thirds = [ex_input 1 90, ex_input 2 90, ex_input 3 90, ex_input 4 9, ex_input 5 9, ex_input 6 9, ex_input 7 1]"

definition ex_log6 :: LogType where
  "ex_log6 = \<lparr>log_resource = LOG_CPU, log_duration = 6, log_resolution = 3\<rparr>"

text \<open>Two blocks of three samples, of 90 and of 9 per cent, are logged as 50 and as 5 per cent.\<close>

theorem logs_hold_block_entries_witness:
  "\<exists>m' w'. pollingFunction ring_boost ex_thirds 0
      (SamplingManager_new ring_boost [ex_log6] [] record_act record_deact) [] = Inr (7, m', w')
    \<and> getCpuLog ring_boost m' ex_log6 = Inr [CpuState_new (double_of_int 50) dzero, CpuState_new (double_of_int 5) dzero]"
proof -
  have ok: "\<forall>l \<in> set [ex_log6]. log_ok l" by (simp add: ex_log6_def log_ok_def LONG_MAX_def)
  have n: "polls_done ex_thirds = 7" by (simp add: ex_thirds_def ex_input_def)
  obtain m' w' where run: "pollingFunction ring_boost ex_thirds 0
      (SamplingManager_new ring_boost [ex_log6] [] record_act record_deact) [] = Inr (7, m', w')"
    using recorder.polling_ok [OF ring_boost_ok ok, of "[]" ex_thirds "[]"] n by auto
  have "log_resource ex_log6 = LOG_CPU" by (simp add: ex_log6_def)
  with logs_hold_block_entries [OF ring_boost_ok ok _ run, of ex_log6]
  have "getCpuLog ring_boost m' ex_log6 = Inr (newest (nat (log_size (winner [ex_log6] ex_log6)))
      (log_entries cpu_add cpu_div ex_log6 (map cpu_sample (run_inputs ex_thirds))))" by simp
  moreover have "newest (nat (log_size (winner [ex_log6] ex_log6)))
      (log_entries cpu_add cpu_div ex_log6 (map cpu_sample (run_inputs ex_thirds))) =
      [CpuState_new (double_of_int 50) dzero, CpuState_new (double_of_int 5) dzero]"
    by code_simp
  ultimately show ?thesis using run by metis
qed

text \<open>A query for a log that is not configured, its duration aside, throws \<open>out_of_range\<close>.\<close>

theorem unknown_log_throws:
  assumes "boost_ok B" and "\<forall>l \<in> set ls. log_ok l" and "\<forall>k \<in> set ls. \<not> LogType_eq k l"
    and "pollingFunction B is 0 (SamplingManager_new B ls ts act deact) w = Inr (k, m', w')"
  shows "case log_resource l of
     LOG_CPU \<Rightarrow> getCpuLog B m' l = Inl Out_of_range
   | LOG_MEMORY \<Rightarrow> getRamLog B m' l = Inl Out_of_range
   | LOG_DISK \<Rightarrow> getHddLog B m' l = Inl Out_of_range"
proof -
  from polling_logs [OF assms(1) SamplingManager_new_inv [OF assms(1,2)] assms(4)]
  have inv: "sampler_inv B (run_inputs is) m'"
    and sh: "shapes B m' = shapes B (SamplingManager_new B ls ts act deact)" by simp_all
  from shape_of_cong [OF sh] shape_of_new [OF assms(1,2), of l ts act deact] assms(3)
  have "lookup_by LogType_eq l (shape_of B m' (log_resource l)) = None" by auto
  from log_query(2) [OF assms(1) inv this] show ?thesis .
qed

theorem unknown_log_throws_witness:
  "\<exists>m' w'. pollingFunction ring_boost ex_inputs 0 (ex_sampler [ex_disk, ex_cpu]) [] = Inr (7, m', w')
    \<and> getRamLog ring_boost m' \<lparr>log_resource = LOG_MEMORY, log_duration = 4, log_resolution = 2\<rparr> = Inl Out_of_range"
proof -
  obtain m' w' where run: "pollingFunction ring_boost ex_inputs 0 (ex_sampler [ex_disk, ex_cpu]) [] = Inr (7, m', w')"
    using ex_run by blast
  from unknown_log_throws [OF ring_boost_ok ex_log_ok _ run,
      of "\<lparr>log_resource = LOG_MEMORY, log_duration = 4, log_resolution = 2\<rparr>"] run
  show ?thesis by (auto simp: ex_log_def LogType_eq_def)
qed

text \<open>C11: On a good world a sampler connected to the predicate engine, with logs and triggers in
  range, makes every poll of a run, never throws and keeps the world good.\<close>

theorem connected_sampler_runs:
  assumes "boost_ok B" and "\<forall>l \<in> set ls. log_ok l" and "\<forall>t \<in> set ts. trigger_ok t" and "wf_world w"
  shows "\<exists>m' w'. pollingFunction B is 0
      (connectPredicateEngine (SamplingManager_new B ls ts act deact)) w =
        Inr (polls_done is, m', w') \<and> wf_world w'"
proof -
  from engine_sink.polling_ok [OF assms] show ?thesis
    by (simp add: connectPredicateEngine_def SamplingManager_new_reconnect)
qed

theorem connected_sampler_runs_witness:
  "\<exists>m' w'. pollingFunction ring_boost ex_inputs 0
      (connectPredicateEngine (SamplingManager_new ring_boost [ex_log] [ex_disk, ex_cpu]
        triggerActivation triggerDeactivation)) \<lparr>predicates = Map.empty, heap = Map.empty, called = [] :: nat list\<rparr> =
        Inr (7, m', w') \<and> wf_world w'"
proof -
  have "polls_done ex_inputs = 7" by (simp add: ex_inputs_def ex_input_def)
  moreover have "wf_world \<lparr>predicates = Map.empty, heap = Map.empty, called = [] :: nat list\<rparr>"
    by (simp add: wf_world_def)
  ultimately show ?thesis
    using connected_sampler_runs [OF ring_boost_ok ex_log_ok ex_triggers_ok] by metis
qed

lemma recorded_signals:
  assumes "boost_ok B" and "\<forall>l \<in> set ls. log_ok l" and "\<forall>t \<in> set ts. trigger_ok t" and "t \<in> set ts"
    and "pollingFunction B is 0 (SamplingManager_new B ls ts record_act record_deact) [] = Inr (k, m', w')"
  shows "signals_of t w' =
    replicate (fires (nat (duration t)) 0 (map (exceeded t) (map polled (run_inputs is)))) (Activate t)"
proof -
  let ?m = "SamplingManager_new B ls ts record_act record_deact"
  note new = SamplingManager_new_triggers [where B = B and ls = ls and ts = ts
      and act = record_act and deact = record_deact]
  have t: "(t, int 0) \<in> set (triggerStates ?m)" and ok: "counters_ok (triggerStates ?m)"
    and "unit_ok t" and "0 < nat (duration t)"
    using new(3) [OF assms(4)] new(4) assms(3,4) by (auto simp: trigger_ok_def)
  moreover have "run_triggers record_act record_deact (map polled (run_inputs is)) (triggerStates ?m) [] =
      Inr (triggerStates m', w')"
    using new_run_triggers [OF assms(1,2), of "is" ts record_act record_deact "[]"] assms(5)
    by (cases "run_triggers record_act record_deact (map polled (run_inputs is)) (triggerStates ?m) []") auto
  ultimately show ?thesis
    using run_triggers_projection [OF ok new(1) t] by (simp add: signals_of_def)
qed

text \<open>C12: In a run every trigger signals for itself, as often as its condition held for another full
  duration, and no other signal about it is sent.\<close>

theorem triggers_signal_independently:
  assumes "boost_ok B" and "\<forall>l \<in> set ls. log_ok l" and "\<forall>t \<in> set ts. trigger_ok t" and "t \<in> set ts"
    and "pollingFunction B is 0 (SamplingManager_new B ls ts record_act record_deact) [] = Inr (k, m', w')"
  shows "signals_of t w' =
    replicate (fires (nat (duration t)) 0 (map (exceeded t) (map polled (run_inputs is)))) (Activate t)"
  using assms by (rule recorded_signals)

theorem triggers_signal_independently_witness:
  "\<exists>m' w'. pollingFunction ring_boost ex_inputs 0 (ex_sampler [ex_disk, ex_cpu]) [] = Inr (7, m', w')
    \<and> signals_of ex_disk w' = [Activate ex_disk, Activate ex_disk, Activate ex_disk]
    \<and> signals_of ex_cpu w' = []"
proof -
  obtain m' w' where run: "pollingFunction ring_boost ex_inputs 0 (ex_sampler [ex_disk, ex_cpu]) [] = Inr (7, m', w')"
    using ex_run by blast
  note sig = triggers_signal_independently [OF ring_boost_ok ex_log_ok ex_triggers_ok _ run]
  have "fires (nat (duration ex_disk)) 0 (map (exceeded ex_disk) (map polled (run_inputs ex_inputs))) = 3"
    "fires (nat (duration ex_cpu)) 0 (map (exceeded ex_cpu) (map polled (run_inputs ex_inputs))) = 0"
    by code_simp+
  with sig [of ex_disk] sig [of ex_cpu] run show ?thesis
    by (auto simp: eval_nat_numeral)
qed

text \<open>C32: With positive durations the deactivation callback is dead code: a run does the same to the
  world and to the counters whichever callback is given.\<close>

theorem deactivation_is_dead:
  assumes "boost_ok B" and "\<forall>l \<in> set ls. log_ok l"
    and "\<forall>t \<in> set ts. 0 < duration t \<and> duration t \<le> LONG_MAX"
  shows "bindE (pollingFunction B is 0 (SamplingManager_new B ls ts act deact) w)
      (\<lambda>(k, m', w'). Inr (k, triggerStates m', w')) =
    bindE (pollingFunction B is 0 (SamplingManager_new B ls ts act deact') w)
      (\<lambda>(k, m', w'). Inr (k, triggerStates m', w'))"
proof -
  have "triggerStates (SamplingManager_new B ls ts act deact) =
      triggerStates (SamplingManager_new B ls ts act deact')"
    by (simp add: SamplingManager_new_def initializeTriggers_def initializeLoggingBuffers_keeps
        initializeSamplesBuffers_def split: prod.split)
  then show ?thesis
    unfolding new_run_triggers [OF assms(1,2)]
    using run_triggers_no_deact [OF SamplingManager_new_triggers(4) [OF assms(3)]] by metis
qed

theorem deactivation_is_dead_witness:
  "bindE (pollingFunction ring_boost ex_inputs 0 (ex_sampler [ex_disk, ex_cpu]) [])
      (\<lambda>(k, m', w'). Inr (k, triggerStates m', w')) =
    bindE (pollingFunction ring_boost ex_inputs 0
        (SamplingManager_new ring_boost [ex_log] [ex_disk, ex_cpu] record_act (\<lambda>t w. Inl Terminate)) [])
      (\<lambda>(k, m', w'). Inr (k, triggerStates m', w'))"
proof -
  have "\<forall>t \<in> set [ex_disk, ex_cpu]. 0 < duration t \<and> duration t \<le> LONG_MAX"
    by (simp add: ex_disk_def ex_cpu_def LONG_MAX_def)
  from deactivation_is_dead [OF ring_boost_ok ex_log_ok this] show ?thesis .
qed


lemma first_bad:
  assumes "t \<in> set us" and "\<not> P t"
  shows "\<exists>pre u post. us = pre @ u # post \<and> \<not> P u \<and> (\<forall>x \<in> set pre. P x)"
  using split_list_first_prop [of us "\<lambda>x. \<not> P x"] assms by blast

text \<open>If the unit of one trigger does not fit its resource, the first poll of a sampler connected
  to the predicate engine ends in a failed assertion.\<close>

theorem wrong_unit_aborts:
  fixes w :: "'c world" and B :: "'b boost"
  assumes "boost_ok B" and "\<forall>l \<in> set ls. log_ok l"
    and "\<forall>t \<in> set ts. 0 < duration t \<and> duration t \<le> LONG_MAX" and "t \<in> set ts" and "\<not> unit_ok t"
    and "wf_world w"
  shows "pollingFunction B (i # is) 0
      (SamplingManager_new B ls ts triggerActivation triggerDeactivation) w = Inl Assertion_failed"
proof -
  let ?m = "SamplingManager_new B ls ts triggerActivation triggerDeactivation :: ('b, 'c world) SamplingManager"
  note new = SamplingManager_new_triggers [where B = B and ls = ls and ts = ts
      and act = "triggerActivation :: TriggerType \<Rightarrow> 'c world \<Rightarrow> 'c world result"
      and deact = triggerDeactivation]
  obtain x still where i: "i = (x, still)" by (cases i)
  have "t \<in> set (map fst (triggerStates ?m))" using new(2) assms(4) by simp
  from first_bad [OF this, of unit_ok] assms(5) obtain ps u qs where
    us: "map fst (triggerStates ?m) = ps @ u # qs" and u: "\<not> unit_ok u" and ps: "\<forall>x \<in> set ps. unit_ok x"
    by blast
  then obtain pre n post where m: "triggerStates ?m = pre @ (u, n) # post" and pre: "map fst pre = ps"
    by (auto simp: map_eq_append_conv map_eq_Cons_conv)
  have "counters_ok pre" using new(4) [OF assms(3)] m by (simp add: counters_ok_def)
  moreover have "\<forall>t \<in> fst ` set pre. unit_ok t" using ps pre by force
  ultimately obtain pre' w' where
    "process_list triggerActivation triggerDeactivation (polled x) pre w = Inr (pre', w')"
    using engine_sink.process_list_ok [OF _ _ assms(6)] by blast
  from process_list_assert [OF u this] m have
    "process_list triggerActivation triggerDeactivation (polled x) (triggerStates ?m) w = Inl Assertion_failed"
    by simp
  with poll_eq(1) [OF assms(1) SamplingManager_new_inv [OF assms(1,2)], of x ts triggerActivation triggerDeactivation w]
  show ?thesis by (simp add: i new(5,6))
qed

definition ex_wrong :: TriggerType where
  "ex_wrong = ex_cpu\<lparr>triggerValue := \<lparr>unitType = MB, rvalue = 200\<rparr>\<rparr>"

theorem wrong_unit_aborts_witness:
  "pollingFunction ring_boost ex_inputs 0
      (SamplingManager_new ring_boost [ex_log] [ex_disk, ex_wrong] triggerActivation triggerDeactivation)
      \<lparr>predicates = Map.empty, heap = Map.empty, called = [] :: nat list\<rparr> = Inl Assertion_failed"
proof -
  have "\<forall>t \<in> set [ex_disk, ex_wrong]. 0 < duration t \<and> duration t \<le> LONG_MAX"
    by (simp add: ex_disk_def ex_wrong_def ex_cpu_def LONG_MAX_def)
  moreover have "\<not> unit_ok ex_wrong" by (simp add: ex_wrong_def ex_cpu_def unit_ok_def)
  moreover have "wf_world \<lparr>predicates = Map.empty, heap = Map.empty, called = [] :: nat list\<rparr>"
    by (simp add: wf_world_def)
  ultimately show ?thesis unfolding ex_inputs_def
    by (intro wrong_unit_aborts [OF ring_boost_ok ex_log_ok]) auto
qed

definition ex_log3 :: LogType where
  "ex_log3 = \<lparr>log_resource = LOG_CPU, log_duration = 3, log_resolution = 3\<rparr>"

definition ex_constant :: "(poll_input \<times> bool) list" where
  "ex_constant = [ex_input 1 90, ex_input 2 90, ex_input 3 90]"

text \<open>The mean functions divide the running sum at every step: three polls at a constant load of 90 per
  cent are logged as 50 per cent by a log with a resolution of three seconds.\<close>

theorem constant_load_logged_low:
  assumes "boost_ok B"
  shows "\<exists>m' w'. pollingFunction B ex_constant 0
      (SamplingManager_new B [ex_log3] [] record_act record_deact) [] = Inr (3, m', w')
    \<and> getCpuLog B m' ex_log3 = Inr [CpuState_new (double_of_int 50) dzero]"
proof -
  let ?m = "SamplingManager_new B [ex_log3] [] record_act record_deact"
  have ok: "\<forall>l \<in> set [ex_log3]. log_ok l" by (simp add: ex_log3_def log_ok_def LONG_MAX_def)
  obtain m' w' where run: "pollingFunction B ex_constant 0 ?m [] = Inr (polls_done ex_constant, m', w')"
    using recorder.polling_ok [OF assms ok] by (metis empty_iff empty_set)
  from polling_logs [OF assms SamplingManager_new_inv [OF assms ok] run]
  have inv: "sampler_inv B (run_inputs ex_constant) m'" and sh: "shapes B m' = shapes B ?m" by simp_all
  from shape_of_cong [OF sh] shape_of_new [OF assms ok, of ex_log3 "[]" record_act record_deact]
  have "lookup_by LogType_eq ex_log3 (shape_of B m' (log_resource ex_log3)) =
      Some (nat (log_size (winner [ex_log3] ex_log3)))" by (simp add: LogType_eq_def)
  note query = log_query(1) [OF assms inv this]
  have "newest (nat (log_size (winner [ex_log3] ex_log3)))
      (log_entries cpu_add cpu_div ex_log3 (map cpu_sample (run_inputs ex_constant))) =
      [CpuState_new (double_of_int 50) dzero]"
    by code_simp
  with query have "getCpuLog B m' ex_log3 = Inr [CpuState_new (double_of_int 50) dzero]"
    by (simp add: ex_log3_def)
  moreover have "polls_done ex_constant = 3" by (simp add: ex_constant_def ex_input_def)
  ultimately show ?thesis using run by auto
qed

theorem constant_load_logged_low_witness:
  "\<exists>m' w'. pollingFunction ring_boost ex_constant 0
      (SamplingManager_new ring_boost [ex_log3] [] record_act record_deact) [] = Inr (3, m', w')
    \<and> getCpuLog ring_boost m' ex_log3 = Inr [CpuState_new (double_of_int 50) dzero]"
  by (rule constant_load_logged_low [OF ring_boost_ok])

end
