(* ===== verification/WebHandlers.thy ===== *)
theory WebHandlers
  imports QueryStrings SamplerRun "HOL-Library.Multiset"
begin

text \<open>
  The request handlers of \<open>src/main.cpp\<close>. A handler gets the query of a request and returns the text
  it sends; an exception leaves it (the server catches it). The multimap of the parsed query iterates
  in an order that is up to the library: the parameter \<open>iter\<close>. An email is the callback value of a
  predicate, so the callbacks the engine calls are the emails the program sends.
\<close>

section \<open>State\<close>

record mail =
  mail_name :: string
  mail_to :: string
  mail_text :: string

record web =
  userName :: string
  userEmail :: string
  predicates_owned :: "nat list"
  engine :: "mail world"

text \<open>What the server is built with: the parsed configuration and how a double is printed.\<close>

record config =
  conf_triggers :: "TriggerType list"
  conf_logs :: "LogType list"
  fmt :: "double \<Rightarrow> string"

section \<open>Shared pieces\<close>

definition crlf :: string where "crlf = [CHR 0x0D, CHR 0x0A]"

definition ok_response :: "string \<Rightarrow> string" where
  "ok_response resp = ''HTTP/1.1 200 OK'' @ crlf @ ''Content-Length: '' @ show_nat (length resp)
     @ crlf @ crlf @ resp"

text \<open>The fields written to a stream and read back in pieces: \<open>getline\<close> with \<open>:\<close> yields no last
  empty piece.\<close>

definition stream_fields :: "fields \<Rightarrow> string" where
  "stream_fields fs = concat (map (\<lambda>(n, v). n @ '': '' @ v @ '':'') fs)"

definition segments :: "string \<Rightarrow> string list" where
  "segments s = (let ps = split_on CHR '':'' s in if last ps = [] then butlast ps else ps)"

definition seglist :: "fields \<Rightarrow> string list" where
  "seglist fs = segments (stream_fields fs)"

text \<open>\<open>confParser->getTriggerTypes().at(std::stoi(seglist.at(k)))\<close>: a negative number becomes a
  \<open>size_t\<close> beyond every vector. The order in which C++ evaluates the arguments of a call, here and in
  \<open>choose_predicate\<close>, can only decide which of two exceptions is thrown: none of the evaluations changes
  anything (\<open>choose_throws\<close>).\<close>

definition trigger_at :: "config \<Rightarrow> string list \<Rightarrow> int \<Rightarrow> TriggerType result" where
  "trigger_at cfg segs k =
     bindE (vec_at segs k) (\<lambda>s. bindE (stoi s) (\<lambda>i. vec_at (conf_triggers cfg) i))"

section \<open>The page\<close>

definition options :: "('a \<Rightarrow> string) \<Rightarrow> 'a list \<Rightarrow> string" where
  "options put xs = concat (map (\<lambda>(i, x). ''<option value=\"'' @ show_nat i @ ''\">'' @ put x @ ''</option>\<newline>'')
     (enumerate 0 xs))"

definition writeHtmlToString :: "config \<Rightarrow> string" where
  "writeHtmlToString cfg =
     (let triggerSelections = options put_TriggerType (conf_triggers cfg);
          logSelections = options put_LogType (conf_logs cfg);
          form = ''<input type=\"submit\" value=\"Submit\">\<newline></form>\<newline><form method=\"GET\" action=\"/trigger_choose\">\<newline><select name=\"trigger0\" required>''
      in ''<html>\<newline><head>\<newline><title>Simple-Web-Server html-file</title>\<newline></head>\<newline><body>''
       @ ''Choose your trigger type and subscribe for e-mail!\<newline>''
       @ ''</br></br></br>\<newline><form action = \"/set_email\" method = \"get\">\<newline>''
       @ ''Email: <input type = \"text\" name = \"email\">\<newline>''
       @ ''User name: <input type = \"text\" name = \"name\" />\<newline>''
       @ ''<input type = \"submit\" value = \"Apply\" />\<newline></br></br>''
       @ ''</form>\<newline><form method=\"GET\" action=\"/trigger_choose\">\<newline>''
       @ ''<select name=\"trigger0\" required>''
       @ triggerSelections @ '' </select>OR<select name=\"trigger1\" required>\<newline>''
       @ triggerSelections @ '' </select>AND<select name=\"trigger2\" required>\<newline>''
       @ triggerSelections @ ''</select>\<newline>'' @ form
       @ triggerSelections @ '' </select>AND<select name=\"trigger1\" required>\<newline>''
       @ triggerSelections @ ''</select>\<newline>'' @ form
       @ triggerSelections
       @ ''</select>\<newline><input type=\"submit\" value=\"Submit\">\<newline>''
       @ ''</form>\<newline></br></br></br><form method=\"GET\" action=\"/getlogs\">\<newline>''
       @ ''Show logs of type\<newline>'' @ ''<select name=\"trigger\" required>\<newline>''
       @ logSelections
       @ ''</select>\<newline>'' @ ''<input type=\"submit\" value=\"Submit\">\<newline>'' @ ''</form>\<newline></body>\<newline></html>'')"

text \<open>The default resource.\<close>

definition default_page :: "config \<Rightarrow> string" where
  "default_page cfg = ok_response (writeHtmlToString cfg)"

section \<open>The handlers\<close>

definition put_lines :: "('s \<Rightarrow> string) \<Rightarrow> 's list \<Rightarrow> string" where
  "put_lines put ss = concat (map (\<lambda>s. put s @ ''\<newline>'') ss)"

text \<open>\<open>^/getlogs$\<close>: \<open>unsigned logNumber = std::stoi(...)\<close> wraps a negative number.\<close>

definition getlogs ::
  "(fields \<Rightarrow> fields) \<Rightarrow> config \<Rightarrow> 'b boost \<Rightarrow> ('b, 'w) SamplingManager \<Rightarrow> string \<Rightarrow> string result" where
  "getlogs iter cfg B m query =
     bindE (QueryString_parse query) (\<lambda>fs.
     let segs = seglist (iter fs) in
     bindE (vec_at segs 1) (\<lambda>s.
     bindE (stoi s) (\<lambda>i.
     bindE (vec_at (conf_logs cfg) (i mod 4294967296)) (\<lambda>selectedLogType.
     bindE (case log_resource selectedLogType of
         LOG_CPU \<Rightarrow> bindE (getCpuLog B m selectedLogType) (\<lambda>ss. Inr (put_lines (put_CpuState (fmt cfg)) ss))
       | LOG_MEMORY \<Rightarrow> bindE (getRamLog B m selectedLogType) (\<lambda>ss. Inr (put_lines (put_RamState (fmt cfg)) ss))
       | LOG_DISK \<Rightarrow> bindE (getHddLog B m selectedLogType) (\<lambda>ss. Inr (put_lines (put_HddState (fmt cfg)) ss)))
       (\<lambda>resp. Inr (ok_response resp))))))"

text \<open>
  \<open>^/trigger_choose$\<close>. The predicate is built with an empty callback and gets its own afterwards. The
  address of a new object is one that is not in use.
\<close>

definition choose_predicate :: "config \<Rightarrow> fields \<Rightarrow> string list \<Rightarrow> mail \<Rightarrow> mail Predicate option result" where
  "choose_predicate cfg fs segs empty_callback =
     (if length fs = 3 then
        bindE (trigger_at cfg segs 5) (\<lambda>t5. bindE (trigger_at cfg segs 3) (\<lambda>t3.
        bindE (trigger_at cfg segs 1) (\<lambda>t1. Inr (Some (new_1or2and3 empty_callback t5 t3 t1)))))
      else if length fs = 2 then
        bindE (trigger_at cfg segs 3) (\<lambda>t3. bindE (trigger_at cfg segs 1) (\<lambda>t1.
          Inr (Some (new_1and2 empty_callback t3 t1))))
      else if length fs = 1 then
        bindE (trigger_at cfg segs 1) (\<lambda>t1. Inr (Some (new_1element empty_callback t1)))
      else Inr None)"

definition notification :: "web \<Rightarrow> string \<Rightarrow> mail" where
  "notification s auxString =
     \<lparr>mail_name = userName s, mail_to = userEmail s,
      mail_text = ''Hello'' @ userName s @ '',\<newline>following trigger has been exceeded:\<newline>'' @ auxString
        @ ''\<newline>\<newline>Your ZPRMonitor''\<rparr>"

definition trigger_choose ::
  "(fields \<Rightarrow> fields) \<Rightarrow> config \<Rightarrow> (web \<Rightarrow> nat) \<Rightarrow> mail \<Rightarrow> string \<Rightarrow> web \<Rightarrow> (string \<times> web) result" where
  "trigger_choose iter cfg new_address empty_callback query s =
     bindE (QueryString_parse query) (\<lambda>fs.
     let query_fields = iter fs; segs = seglist query_fields in
     bindE (choose_predicate cfg query_fields segs empty_callback) (\<lambda>pred.
     case pred of
       None \<Rightarrow> Inr (ok_response ''Wrong data!'', s)
     | Some p \<Rightarrow>
         let i = new_address s;
             q = setCallback (notification s (put_Predicate (kind p))) p;
             w = (engine s)\<lparr>heap := (heap (engine s))(i \<mapsto> q)\<rparr> in
         bindE (addPredicate i w) (\<lambda>w'.
           Inr (ok_response ''Your subscription has been saved!'',
             s\<lparr>predicates_owned := predicates_owned s @ [i], engine := w'\<rparr>))))"

text \<open>\<open>^/set_email\<close>.\<close>

definition set_email :: "(fields \<Rightarrow> fields) \<Rightarrow> config \<Rightarrow> string \<Rightarrow> web \<Rightarrow> (string \<times> web) result" where
  "set_email iter cfg query s =
     bindE (QueryString_parse query) (\<lambda>fs.
     let query_fields = iter fs in
     if length query_fields \<noteq> 2 then Inr (ok_response ''Wrong name or email!'', s)
     else let segs = seglist query_fields in
       bindE (vec_at segs 1) (\<lambda>name. bindE (vec_at segs 3) (\<lambda>email.
         Inr (ok_response (writeHtmlToString cfg), s\<lparr>userName := name, userEmail := email\<rparr>))))"

section \<open>Reading the fields back\<close>

definition plain :: "string \<Rightarrow> bool" where
  "plain s \<longleftrightarrow> CHR '':'' \<notin> set s"

lemma split_on_fields:
  "list_all (\<lambda>(n, v). plain n \<and> plain v) fs \<Longrightarrow>
    split_on CHR '':'' (stream_fields fs) = concat (map (\<lambda>(n, v). [n, CHR '' '' # v]) fs) @ [[]]"
proof (induction fs)
  case (Cons f fs)
  obtain n v where f: "f = (n, v)" by (cases f)
  with Cons show ?case
    using split_on_append [of "CHR '':''" n] split_on_append [of "CHR '':''" "CHR '' '' # v"]
    by (simp add: stream_fields_def plain_def)
qed (simp add: stream_fields_def)

lemma seglist_fields:
  "list_all (\<lambda>(n, v). plain n \<and> plain v) fs \<Longrightarrow>
    seglist fs = concat (map (\<lambda>(n, v). [n, CHR '' '' # v]) fs)"
  by (simp add: seglist_def segments_def split_on_fields Let_def)

definition INT_MAX :: int where "INT_MAX = 2147483647"

lemma digit_chars: "list_all is_digit s \<Longrightarrow> \<not> is_digit c \<Longrightarrow> c \<notin> set s"
  by (auto simp: list_all_iff)

lemma show_nat_no: "\<not> is_digit c \<Longrightarrow> c \<notin> set (show_nat n)"
  using digit_chars [OF show_nat_digits] .

lemma plain_show_nat [simp]: "plain (show_nat n)"
  using show_nat_no [of "CHR '':''" n] by (simp add: plain_def is_digit_def)

lemma stoi_show_nat: "int n \<le> INT_MAX \<Longrightarrow> stoi (CHR '' '' # show_nat n) = Inr (int n)"
proof -
  assume n: "int n \<le> INT_MAX"
  have "strtol10 (CHR '' '' # show_nat n) = strtol10 (show_nat n)"
    by (simp add: strtol10_def is_space_def)
  moreover have "saturate (int n) = int n" using n by (simp add: saturate_id is_longI INT_MAX_def LONG_MAX_def)
  ultimately show ?thesis using n
    by (simp add: stoi_def strtol10_digits show_nat_digits show_nat_not_Nil read_digits_show_nat INT_MAX_def)
qed

text \<open>A field whose value is a number below a bound: what the page's selections send.\<close>

lemma decode_digits: "list_all is_digit s \<Longrightarrow> Percent_decode s = s"
proof (induction s)
  case (Cons c s)
  then have "c \<noteq> CHR ''%''" "c \<noteq> CHR ''+''" by (auto simp: is_digit_def)
  with Cons show ?case by (simp add: decode_Cons decode_plain_def)
qed simp

definition select_text :: "string \<times> nat \<Rightarrow> string" where
  "select_text f = fst f @ ''='' @ show_nat (snd f)"

definition select_field :: "string \<times> nat \<Rightarrow> string \<times> string" where
  "select_field f = (fst f, show_nat (snd f))"

definition select_ok :: "string \<times> nat \<Rightarrow> bool" where
  "select_ok f \<longleftrightarrow> fst f \<noteq> [] \<and> CHR ''&'' \<notin> set (fst f) \<and> plain (fst f)"

lemma select_piece:
  assumes "select_ok f"
  shows "CHR ''&'' \<notin> set (select_text f)" "piece_fields (select_text f) = [select_field f]"
proof -
  show "CHR ''&'' \<notin> set (select_text f)"
    using assms show_nat_no [of "CHR ''&''" "snd f"] by (simp add: select_ok_def select_text_def is_digit_def)
  have "last_eq (select_text f) = Some (length (fst f))"
    unfolding select_text_def using show_nat_no [of "CHR ''=''" "snd f"] last_eq_append by (simp add: is_digit_def)
  then show "piece_fields (select_text f) = [select_field f]"
    using assms by (simp add: piece_fields_def select_text_def select_field_def select_ok_def
        decode_digits show_nat_digits)
qed

fun form_query :: "(string \<times> nat) list \<Rightarrow> string" where
  "form_query [] = []"
| "form_query [f] = select_text f"
| "form_query (f # fs) = select_text f @ CHR ''&'' # form_query fs"

lemma parse_form: "list_all select_ok fs \<Longrightarrow> QueryString_parse (form_query fs) = Inr (map select_field fs)"
proof -
  assume "list_all select_ok fs"
  then have "query_fields (form_query fs) = map select_field fs"
  proof (induction fs rule: form_query.induct)
    case (2 f)
    then show ?case by (simp add: query_fields_def split_on_free select_piece)
  next
    case (3 f g fs)
    then show ?case by (simp add: query_fields_def split_on_append select_piece)
  qed (simp add: query_fields_def piece_fields_def)
  then show ?thesis by (simp add: query_parse_fields)
qed

lemma set_callback_new [simp]:
  "setCallback m (new_1or2and3 e a b c) = new_1or2and3 m a b c"
  "setCallback m (new_1and2 e a b) = new_1and2 m a b"
  "setCallback m (new_1element e a) = new_1element m a"
  by (simp_all add: setCallback_def new_1or2and3_def new_1and2_def new_1element_def)

text \<open>The predicate that a query with up to three numbers selects, in the order of iteration.\<close>

fun chosen :: "'c \<Rightarrow> TriggerType list \<Rightarrow> 'c Predicate option" where
  "chosen m [t1] = Some (new_1element m t1)"
| "chosen m [t1, t3] = Some (new_1and2 m t3 t1)"
| "chosen m [t1, t3, t5] = Some (new_1or2and3 m t5 t3 t1)"
| "chosen m ts = None"

lemma short_list_cases:
  obtains "xs = []" | x where "xs = [x]" | x y where "xs = [x, y]" | x y z where "xs = [x, y, z]"
    | x y z u us where "xs = x # y # z # u # us"
  by (metis list.exhaust)

definition number_ok :: "string \<times> nat \<Rightarrow> bool" where
  "number_ok f \<longleftrightarrow> select_ok f \<and> int (snd f) \<le> INT_MAX"

lemma trigger_at_fields:
  assumes "list_all number_ok fs" and k: "k < length fs"
  shows "trigger_at cfg (seglist (map select_field fs)) (2 * int k + 1) =
    vec_at (conf_triggers cfg) (int (snd (fs ! k)))"
proof -
  let ?segs = "concat (map (\<lambda>(n, v). [n, CHR '' '' # v]) (map select_field fs))"
  have segs: "seglist (map select_field fs) = ?segs"
    using assms by (intro seglist_fields) (auto simp: list_all_iff number_ok_def select_ok_def select_field_def)
  have "2 * k + 1 < length ?segs \<and> ?segs ! (2 * k + 1) = CHR '' '' # show_nat (snd (fs ! k))"
    using k by (induction fs arbitrary: k) (auto simp: nth_Cons' select_field_def less_Suc_eq_0_disj)
  moreover have "int (snd (fs ! k)) \<le> INT_MAX" using assms by (simp add: list_all_length number_ok_def)
  ultimately have "trigger_at cfg ?segs (int (2 * k + 1)) = vec_at (conf_triggers cfg) (int (snd (fs ! k)))"
    by (simp add: trigger_at_def stoi_show_nat del: of_nat_add of_nat_mult of_nat_Suc)
  then show ?thesis unfolding segs by (simp add: algebra_simps)
qed

lemma choose_chosen:
  assumes "list_all number_ok fs" and "\<forall>f \<in> set fs. snd f < length (conf_triggers cfg)"
  shows "choose_predicate cfg (map select_field fs) (seglist (map select_field fs)) e =
    Inr (chosen e (map (\<lambda>f. conf_triggers cfg ! snd f) fs))"
  by (cases rule: short_list_cases [of fs])
    (use trigger_at_fields [OF assms(1), of 0 cfg] trigger_at_fields [OF assms(1), of 1 cfg]
      trigger_at_fields [OF assms(1), of 2 cfg] assms(2) in \<open>auto simp: choose_predicate_def\<close>)

text \<open>A trigger that cannot be found makes every choice that needs it fail, in whatever order the triggers
  are looked up, and every failure is one the server catches.\<close>

lemma trigger_at_throws: "trigger_at cfg segs k = Inl x \<Longrightarrow> x = Out_of_range \<or> x = Invalid_argument"
  by (auto simp: trigger_at_def vec_at_def stoi_def bindE_Inl_iff Let_def split: if_splits option.splits list.splits prod.splits)

lemma choose_throws:
  assumes "trigger_at cfg segs k = Inl x" and "k = 1 \<or> k = 3 \<and> 1 < length fs \<or> k = 5 \<and> 2 < length fs"
    and "fs \<noteq> []" and "length fs \<le> 3"
  shows "\<exists>y. choose_predicate cfg fs segs e = Inl y \<and> (y = Out_of_range \<or> y = Invalid_argument)"
proof -
  have "\<exists>y. choose_predicate cfg fs segs e = Inl y"
    using assms by (cases rule: short_list_cases [of fs];
        cases "trigger_at cfg segs 1"; cases "trigger_at cfg segs 3"; cases "trigger_at cfg segs 5")
      (auto simp: choose_predicate_def)
  moreover have "y = Out_of_range \<or> y = Invalid_argument" if "choose_predicate cfg fs segs e = Inl y" for y
    using that by (auto simp: choose_predicate_def bindE_Inl_iff split: if_splits dest: trigger_at_throws)
  ultimately show ?thesis by blast
qed

lemma choose_out_of_range:
  assumes "list_all number_ok fs" and "length fs \<le> 3" and "\<exists>f \<in> set fs. length (conf_triggers cfg) \<le> snd f"
  shows "choose_predicate cfg (map select_field fs) (seglist (map select_field fs)) e = Inl Out_of_range"
  by (cases rule: short_list_cases [of fs])
    (use trigger_at_fields [OF assms(1), of 0 cfg] trigger_at_fields [OF assms(1), of 1 cfg]
      trigger_at_fields [OF assms(1), of 2 cfg] assms(2,3) in
      \<open>auto simp: choose_predicate_def vec_at_def bindE_Inl_iff split: if_splits\<close>)

section \<open>Subscriptions\<close>

text \<open>What the forms of the page mean: one trigger, \<open>trigger0 AND trigger1\<close>, or
  \<open>(trigger0 OR trigger1) AND trigger2\<close>.\<close>

fun page_predicate :: "'c \<Rightarrow> TriggerType list \<Rightarrow> 'c Predicate option" where
  "page_predicate m [t0] = Some (new_1element m t0)"
| "page_predicate m [t0, t1] = Some (new_1and2 m t0 t1)"
| "page_predicate m [t0, t1, t2] = Some (new_1or2and3 m t0 t1 t2)"
| "page_predicate m ts = None"

lemma chosen_long: "3 < length ts \<Longrightarrow> chosen m ts = None"
  by (cases "(m, ts)" rule: chosen.cases) auto

lemma chosen_rev: "chosen m (rev ts) = page_predicate m ts"
  by (cases rule: short_list_cases [of ts]) (auto intro: chosen_long)

lemma page_predicate_props:
  assumes "ts \<noteq> []" and "length ts \<le> 3"
  shows "\<exists>k. (\<forall>m. \<exists>p. page_predicate m ts = Some p \<and> kind p = k \<and> callback p = m \<and> wf_predicate p)
    \<and> getPredicateOperands k = ts \<and> (\<forall>m p n. page_predicate m ts = Some p \<longrightarrow> page_predicate n ts = Some (setCallback n p))"
  using assms by (cases rule: short_list_cases [of ts])
    (auto simp: wf_new, simp_all add: new_1or2and3_def new_1and2_def new_1element_def)

lemma subscribe:
  assumes fs: "list_all number_ok fs" "\<forall>f \<in> set fs. snd f < length (conf_triggers cfg)" "fs \<noteq> []" "length fs \<le> 3"
    and gs: "mset gs = mset fs" "iter (map select_field fs) = map select_field gs"
    and ts: "ts = rev (map (\<lambda>f. conf_triggers cfg ! snd f) gs)"
  obtains k p w' where "getPredicateOperands k = ts" "page_predicate (notification s (put_Predicate k)) ts = Some p"
    "kind p = k" "wf_predicate p" "callback p = notification s (put_Predicate k)"
    "addPredicate (na s) ((engine s)\<lparr>heap := (heap (engine s))(na s \<mapsto> p)\<rparr>) = Inr w'"
    "trigger_choose iter cfg na e (form_query fs) s = Inr (ok_response ''Your subscription has been saved!'',
      s\<lparr>predicates_owned := predicates_owned s @ [na s], engine := w'\<rparr>)"
proof -
  have same: "set gs = set fs" "length gs = length fs" using gs(1) by (metis set_mset_mset, metis size_mset)
  then have tss: "ts \<noteq> []" "length ts \<le> 3" using ts fs by auto
  from page_predicate_props [OF tss] obtain k where
    k: "\<forall>m :: mail. \<exists>p. page_predicate m ts = Some p \<and> kind p = k \<and> callback p = m \<and> wf_predicate p"
    "getPredicateOperands k = ts"
    "\<forall>m p (n :: mail). page_predicate m ts = Some p \<longrightarrow> page_predicate n ts = Some (setCallback n p)" by (elim exE conjE)
  obtain p0 where p0: "page_predicate e ts = Some p0" "kind p0 = k" using k(1) by blast
  let ?m = "notification s (put_Predicate k)"
  obtain p where p: "page_predicate ?m ts = Some p" "kind p = k" "callback p = ?m" "wf_predicate p" using k(1) by blast
  then have set: "setCallback ?m p0 = p" using k(3) p0(1) by (metis option.inject)
  have "list_all select_ok fs" using fs by (auto simp: list_all_iff number_ok_def)
  note parse = parse_form [OF this]
  have "choose_predicate cfg (map select_field gs) (seglist (map select_field gs)) e =
      Inr (chosen e (map (\<lambda>f. conf_triggers cfg ! snd f) gs))"
    using fs same by (intro choose_chosen) (simp_all add: list_all_iff)
  then have choose: "choose_predicate cfg (map select_field gs) (seglist (map select_field gs)) e = Inr (Some p0)"
    using p0(1) chosen_rev [of e ts] by (simp add: ts)
  let ?w = "(engine s)\<lparr>heap := (heap (engine s))(na s \<mapsto> p)\<rparr>"
  obtain w' where w': "addPredicate (na s) ?w = Inr w'" using addPredicate_effect [of ?w "na s" p] by auto
  have "trigger_choose iter cfg na e (form_query fs) s = Inr (ok_response ''Your subscription has been saved!'',
      s\<lparr>predicates_owned := predicates_owned s @ [na s], engine := w'\<rparr>)"
    using parse choose w' set p0(2) by (simp add: trigger_choose_def gs(2) Let_def)
  from that [OF k(2) p(1,2,4,3) w' this] show thesis .
qed

text \<open>C25: A submitted form with one to three triggers registers one new predicate, of the class of the page
  for that number of fields, whose operands are the triggers of the fields in the reverse of the order
  \<open>gs\<close> in which the container visits them; it is the page's own formula if the container visits the fields
  from the last to the first. The address \<open>na s\<close> is a new one. The predicate mails to the address set last, the
  text is its own, it is put once into the vector of every operand; no other predicate and no vector
  besides changes, nothing is called, and the visitor gets the answer of success.\<close>

theorem subscription_registers:
  assumes "list_all number_ok fs" and "\<forall>f \<in> set fs. snd f < length (conf_triggers cfg)" and "fs \<noteq> []"
    and "length fs \<le> 3" and "mset gs = mset fs" and "iter (map select_field fs) = map select_field gs"
    and "ts = rev (map (\<lambda>f. conf_triggers cfg ! snd f) gs)" and "heap (engine s) (na s) = None"
  shows "\<exists>k p w'. trigger_choose iter cfg na e (form_query fs) s =
      Inr (ok_response ''Your subscription has been saved!'',
        s\<lparr>predicates_owned := predicates_owned s @ [na s], engine := w'\<rparr>)
    \<and> page_predicate (notification s (put_Predicate k)) ts = Some p \<and> kind p = k
    \<and> heap w' (na s) = Some p \<and> (\<forall>j q. heap (engine s) j = Some q \<longrightarrow> heap w' j = Some q)
    \<and> dom (heap w') = insert (na s) (dom (heap (engine s))) \<and> called w' = called (engine s)
    \<and> (\<forall>t. bucket w' t = bucket (engine s) t @ replicate (count_list ts t) (na s))"
proof -
  obtain k p w' where k: "getPredicateOperands k = ts" and p: "page_predicate (notification s (put_Predicate k)) ts = Some p"
    "kind p = k" and w': "addPredicate (na s) ((engine s)\<lparr>heap := (heap (engine s))(na s \<mapsto> p)\<rparr>) = Inr w'"
    and t: "trigger_choose iter cfg na e (form_query fs) s = Inr (ok_response ''Your subscription has been saved!'',
      s\<lparr>predicates_owned := predicates_owned s @ [na s], engine := w'\<rparr>)"
    using subscribe [where iter = iter and na = na and e = e and s = s, OF assms(1-7)] by metis
  have "heap w' = (heap (engine s))(na s \<mapsto> p) \<and> called w' = called (engine s)
      \<and> (\<forall>t. bucket w' t = bucket (engine s) t @ replicate (count_list ts t) (na s))"
    using addPredicate_effect [of "(engine s)\<lparr>heap := (heap (engine s))(na s \<mapsto> p)\<rparr>" "na s" p] w' k p(2)
    by (simp add: bucket_def)
  then have "heap w' (na s) = Some p \<and> (\<forall>j q. heap (engine s) j = Some q \<longrightarrow> heap w' j = Some q)
    \<and> dom (heap w') = insert (na s) (dom (heap (engine s))) \<and> called w' = called (engine s)
    \<and> (\<forall>t. bucket w' t = bucket (engine s) t @ replicate (count_list ts t) (na s))"
    using assms(8) by auto
  with t p show ?thesis by blast
qed

definition ex_cfg :: config where
  "ex_cfg = \<lparr>conf_triggers = [ex_cpu, ex_mem, ex_disk], conf_logs = [], fmt = (\<lambda>_. ''x'')\<rparr>"

definition ex_web :: web where
  "ex_web = \<lparr>userName = '' ann'', userEmail = '' ann@x'', predicates_owned = [],
     engine = \<lparr>predicates = Map.empty, heap = Map.empty, called = []\<rparr>\<rparr>"

text \<open>The form for \<open>(cpu OR disk) AND memory\<close>, with a container that visits the first field last.\<close>

theorem subscription_registers_witness:
  "\<exists>k p w'. trigger_choose rotate1 ex_cfg (\<lambda>_. 7) (notification ex_web [])
      (form_query [(''trigger0'', 0), (''trigger1'', 2), (''trigger2'', 1)]) ex_web =
      Inr (ok_response ''Your subscription has been saved!'', ex_web\<lparr>predicates_owned := [7], engine := w'\<rparr>)
    \<and> p = new_1or2and3 (notification ex_web (put_Predicate k)) ex_cpu ex_mem ex_disk
    \<and> heap w' 7 = Some p \<and> bucket w' ex_disk = [7]"
proof -
  let ?fs = "[(''trigger0'', 0 :: nat), (''trigger1'', 2), (''trigger2'', 1)]" and ?e = "notification ex_web []"
  have fs: "list_all number_ok ?fs" "\<forall>f \<in> set ?fs. snd f < length (conf_triggers ex_cfg)" "?fs \<noteq> []" "length ?fs \<le> 3"
    "mset (rotate1 ?fs) = mset ?fs" "rotate1 (map select_field ?fs) = map select_field (rotate1 ?fs)"
    "[ex_cpu, ex_mem, ex_disk] = rev (map (\<lambda>f. conf_triggers ex_cfg ! snd f) (rotate1 ?fs))"
    by (simp_all add: number_ok_def select_ok_def plain_def INT_MAX_def ex_cfg_def)
  have web: "heap (engine ex_web) ((\<lambda>_. 7) ex_web) = None" "predicates_owned ex_web @ [7] = [7]"
    "bucket (engine ex_web) ex_disk = []"
    by (simp_all add: ex_web_def bucket_def)
  have three: "page_predicate (notification ex_web (put_Predicate k)) [ex_cpu, ex_mem, ex_disk] =
      Some (new_1or2and3 (notification ex_web (put_Predicate k)) ex_cpu ex_mem ex_disk)" for k by simp
  have one: "count_list [ex_cpu, ex_mem, ex_disk] ex_disk = 1" by (simp add: ex_cpu_def ex_mem_def ex_disk_def)
  from subscription_registers [where e = ?e and iter = rotate1 and s = ex_web and na = "\<lambda>_. 7" and cfg = ex_cfg, OF fs web(1)] obtain k p w' where
    "trigger_choose rotate1 ex_cfg (\<lambda>_. 7) ?e (form_query ?fs) ex_web =
      Inr (ok_response ''Your subscription has been saved!'', ex_web\<lparr>predicates_owned := [7], engine := w'\<rparr>)"
    and "p = new_1or2and3 (notification ex_web (put_Predicate k)) ex_cpu ex_mem ex_disk" and "heap w' 7 = Some p"
    and "bucket w' ex_disk = bucket (engine ex_web) ex_disk @ replicate (count_list [ex_cpu, ex_mem, ex_disk] ex_disk) 7"
    unfolding three web(2) by blast
  then show ?thesis unfolding one web(3) by (intro exI conjI) (assumption, assumption, assumption, simp)
qed

text \<open>The operands depend on the order in which the container iterates: if it iterates in the
  order of the query, the form for \<open>(t0 OR t1) AND t2\<close> registers \<open>(t2 OR t1) AND t0\<close>.\<close>

theorem operands_follow_iteration:
  assumes "list_all number_ok [f, g, h]" and "\<forall>x \<in> set [f, g, h]. snd x < length (conf_triggers cfg)"
  shows "\<exists>w'. trigger_choose (\<lambda>fs. fs) cfg na e (form_query [f, g, h]) s =
      Inr (ok_response ''Your subscription has been saved!'',
        s\<lparr>predicates_owned := predicates_owned s @ [na s], engine := w'\<rparr>)
    \<and> (\<exists>m. heap w' (na s) = Some (new_1or2and3 m (conf_triggers cfg ! snd h) (conf_triggers cfg ! snd g)
        (conf_triggers cfg ! snd f)))"
proof -
  let ?p = "\<lambda>m. new_1or2and3 m (conf_triggers cfg ! snd h) (conf_triggers cfg ! snd g) (conf_triggers cfg ! snd f)"
  have "list_all select_ok [f, g, h]" using assms(1) by (simp add: number_ok_def)
  note parse = parse_form [OF this]
  note choose = choose_chosen [OF assms, of e]
  let ?m = "notification s (put_Predicate (kind (?p e)))"
  obtain w' where w': "addPredicate (na s) ((engine s)\<lparr>heap := (heap (engine s))(na s \<mapsto> ?p ?m)\<rparr>) = Inr w'"
    "heap w' = (heap (engine s))(na s \<mapsto> ?p ?m)"
    using addPredicate_effect [of "(engine s)\<lparr>heap := (heap (engine s))(na s \<mapsto> ?p ?m)\<rparr>" "na s" "?p ?m"] by auto
  then have "trigger_choose (\<lambda>fs. fs) cfg na e (form_query [f, g, h]) s =
      Inr (ok_response ''Your subscription has been saved!'',
        s\<lparr>predicates_owned := predicates_owned s @ [na s], engine := w'\<rparr>)"
    using parse choose by (simp add: trigger_choose_def Let_def)
  moreover have "\<exists>m. heap w' (na s) = Some (?p m)" using w'(2) by auto
  ultimately show ?thesis by blast
qed

theorem operands_follow_iteration_witness:
  "\<exists>w' m. trigger_choose (\<lambda>fs. fs) ex_cfg (\<lambda>_. 7) (notification ex_web '''')
      (form_query [(''trigger0'', 0), (''trigger1'', 2), (''trigger2'', 1)]) ex_web =
      Inr (ok_response ''Your subscription has been saved!'', ex_web\<lparr>predicates_owned := [7], engine := w'\<rparr>)
    \<and> heap w' 7 = Some (new_1or2and3 m ex_mem ex_disk ex_cpu)"
proof -
  have "list_all number_ok [(''trigger0'', 0), (''trigger1'', 2), (''trigger2'', 1)]"
    by (simp add: number_ok_def select_ok_def plain_def INT_MAX_def)
  from operands_follow_iteration [OF this, of ex_cfg "\<lambda>_. 7" "notification ex_web ''''" ex_web]
  show ?thesis by (auto simp: ex_cfg_def ex_web_def)
qed

text \<open>A form with a number beyond the configured triggers throws \<open>out_of_range\<close>, whatever the
  order of iteration, and a form with no field or more than three is refused without a change.\<close>

theorem bad_subscription:
  assumes "list_all number_ok fs" and "iter (map select_field fs) = map select_field gs" and "set gs = set fs"
    and "length gs = length fs"
  shows "(fs = [] \<or> 3 < length fs \<longrightarrow>
      trigger_choose iter cfg na e (form_query fs) s = Inr (ok_response ''Wrong data!'', s))
    \<and> (length fs \<le> 3 \<and> (\<exists>f \<in> set fs. length (conf_triggers cfg) \<le> snd f) \<longrightarrow>
      trigger_choose iter cfg na e (form_query fs) s = Inl Out_of_range)"
proof -
  have gs: "list_all number_ok gs" using assms(1,3) by (simp add: list_all_iff)
  have "list_all select_ok fs" using assms(1) by (auto simp: list_all_iff number_ok_def)
  note parse = parse_form [OF this]
  show ?thesis
  proof (intro conjI impI)
    assume "fs = [] \<or> 3 < length fs"
    then have "choose_predicate cfg (map select_field gs) (seglist (map select_field gs)) e = Inr None"
      using assms(4) by (auto simp: choose_predicate_def)
    then show "trigger_choose iter cfg na e (form_query fs) s = Inr (ok_response ''Wrong data!'', s)"
      using parse assms(2) by (simp add: trigger_choose_def Let_def)
  next
    assume "length fs \<le> 3 \<and> (\<exists>f \<in> set fs. length (conf_triggers cfg) \<le> snd f)"
    then have "choose_predicate cfg (map select_field gs) (seglist (map select_field gs)) e = Inl Out_of_range"
      using choose_out_of_range [OF gs] assms(3,4) by simp
    then show "trigger_choose iter cfg na e (form_query fs) s = Inl Out_of_range"
      using parse assms(2) by (simp add: trigger_choose_def Let_def)
  qed
qed

theorem bad_subscription_witness:
  "trigger_choose rev ex_cfg (\<lambda>_. 7) (notification ex_web '''') (form_query [(''trigger0'', 3)]) ex_web = Inl Out_of_range"
proof -
  have "list_all number_ok [(''trigger0'', 3)]"
    by (simp add: number_ok_def select_ok_def plain_def INT_MAX_def)
  from bad_subscription [OF this, of rev "[(''trigger0'', 3)]" ex_cfg "\<lambda>_. 7" "notification ex_web ''''" ex_web]
  show ?thesis by (simp add: ex_cfg_def)
qed

section \<open>The address\<close>

text \<open>What a browser sends for the form with the fields \<open>email\<close> and \<open>name\<close>.\<close>

definition email_query :: "string \<Rightarrow> string \<Rightarrow> string" where
  "email_query email name = QueryString_create [(''email'', email), (''name'', name)]"

lemma parse_email:
  assumes "CHR ''%'' \<notin> set email" and "CHR ''%'' \<notin> set name"
  shows "QueryString_parse (email_query email name) = Inr [(''email'', email), (''name'', name)]"
  using create_fields [of "[(''email'', email), (''name'', name)]"] assms
  by (simp add: email_query_def query_parse_fields field_ok_def)

lemma seglist_email:
  assumes "plain email" and "split_on CHR '':'' name = p # ps"
  shows "seglist [(''name'', name), (''email'', email)] =
    ''name'' # (CHR '' '' # p) # ps @ [''email'', CHR '' '' # email]"
proof -
  have "stream_fields [(''name'', name), (''email'', email)] =
      ''name'' @ CHR '':'' # (CHR '' '' # name) @ CHR '':'' # ''email'' @ CHR '':'' # (CHR '' '' # email) @ CHR '':'' # []"
    by (simp add: stream_fields_def)
  then have "split_on CHR '':'' (stream_fields [(''name'', name), (''email'', email)]) =
      [''name''] @ ((CHR '' '' # p) # ps) @ [''email''] @ [CHR '' '' # email] @ [[]]"
    using assms by (simp only: split_on_join) (simp add: split_on_free plain_def)
  then show ?thesis by (simp add: seglist_def segments_def butlast_append)
qed

text \<open>With fields that iterate from the last to the first, the submitted name and email are stored
  for the subscriptions that follow, each with a space in front. But the name is cut at its first
  colon, and its further pieces push the email away: after \<open>a:b:c\<close> mails go to the address \<open>c\<close>.\<close>

theorem set_email_stores:
  assumes "CHR ''%'' \<notin> set email" and "CHR ''%'' \<notin> set name" and "plain email"
    and "iter [(''email'', email), (''name'', name)] = [(''name'', name), (''email'', email)]"
    and "split_on CHR '':'' name = p # ps"
  shows "set_email iter cfg (email_query email name) s = Inr (ok_response (writeHtmlToString cfg),
      s\<lparr>userName := CHR '' '' # p, userEmail := (ps @ [''email'', CHR '' '' # email]) ! 1\<rparr>)"
  using parse_email [OF assms(1,2)] seglist_email [OF assms(3,5)] assms(4)
  by (simp add: set_email_def vec_at_def numeral_3_eq_3)

theorem set_email_stores_witness:
  "set_email rev ex_cfg (email_query ''b@y'' ''bob'') ex_web = Inr (ok_response (writeHtmlToString ex_cfg),
     ex_web\<lparr>userName := '' bob'', userEmail := '' b@y''\<rparr>)
   \<and> set_email rev ex_cfg (email_query ''b@y'' ''a:b:c'') ex_web = Inr (ok_response (writeHtmlToString ex_cfg),
     ex_web\<lparr>userName := '' a'', userEmail := ''c''\<rparr>)"
  using set_email_stores [of "''b@y''" "''bob''" rev "''bob''" "[]" ex_cfg ex_web]
    set_email_stores [of "''b@y''" "''a:b:c''" rev "''a''" "[''b'', ''c'']" ex_cfg ex_web]
  by (simp add: plain_def)

end
