(* ===== verification/SignalSchedule.thy ===== *)
theory SignalSchedule
  imports SamplerRun
begin

text \<open>
  What a run of the sampler sends, told from the readings alone: no counters, no resets. A trigger is due
  at a poll when the number of polls in an unbroken row, this one the last, on which its condition held is
  a positive multiple of its duration. The sampler is shown to send exactly the signals that are due, poll
  by poll and within a poll in the order of its map of triggers, to whatever sink it is connected; this
  also holds of a part of a run, across a change of the callbacks.
\<close>

section \<open>When a trigger is due\<close>

definition held :: "TriggerType \<Rightarrow> reading list \<Rightarrow> bool list" where
  "held t rds = map (exceeded t) rds"

text \<open>On how many of the last polls, without a gap, the condition held.\<close>

definition trailing :: "bool list \<Rightarrow> nat" where
  "trailing bs = length (takeWhile id (rev bs))"

definition is_due :: "nat \<Rightarrow> bool list \<Rightarrow> bool" where
  "is_due d bs \<longleftrightarrow> 0 < trailing bs \<and> d dvd trailing bs"

text \<open>The signals of the last of the polls \<open>rds\<close>, and of the polls \<open>rds\<close> after the polls \<open>before\<close>.\<close>

definition poll_signals :: "TriggerType list \<Rightarrow> reading list \<Rightarrow> signal list" where
  "poll_signals us rds = map Activate (filter (\<lambda>t. is_due (nat (duration t)) (held t rds)) us)"

definition signals_due :: "TriggerType list \<Rightarrow> reading list \<Rightarrow> reading list \<Rightarrow> signal list" where
  "signals_due us before rds = concat (map (\<lambda>j. poll_signals us (before @ take j rds)) [1..<Suc (length rds)])"

definition times_due :: "TriggerType \<Rightarrow> reading list \<Rightarrow> reading list \<Rightarrow> nat" where
  "times_due t before rds =
     length (filter (\<lambda>j. is_due (nat (duration t)) (held t (before @ take j rds))) [1..<Suc (length rds)])"

text \<open>The counters that the sampler keeps for this.\<close>

definition counts :: "TriggerType list \<Rightarrow> reading list \<Rightarrow> (TriggerType \<times> long) list" where
  "counts us rds = map (\<lambda>t. (t, int (trailing (held t rds) mod nat (duration t)))) us"

lemma trailing_simps [simp]: "trailing [] = 0" "trailing (bs @ [b]) = (if b then Suc (trailing bs) else 0)"
  by (simp_all add: trailing_def)

lemma held_simps [simp]: "held t [] = []" "held t (rds @ [rd]) = held t rds @ [exceeded t rd]"
  by (simp_all add: held_def)

lemma upto_Suc_length: "[1..<Suc (length (xs @ [x]))] = [1..<Suc (length xs)] @ [Suc (length xs)]"
  by simp

lemma prefixes_snoc:
  "map (\<lambda>j. f (before @ take j (rds @ [rd]))) [1..<Suc (length (rds @ [rd]))] =
    map (\<lambda>j. f (before @ take j rds)) [1..<Suc (length rds)] @ [f (before @ rds @ [rd])]"
proof -
  have "map (\<lambda>j. f (before @ take j (rds @ [rd]))) [1..<Suc (length rds)] =
      map (\<lambda>j. f (before @ take j rds)) [1..<Suc (length rds)]"
    by (rule map_cong) auto
  then show ?thesis unfolding upto_Suc_length map_append by simp
qed

lemma signals_due_simps [simp]:
  "signals_due us before [] = []"
  "signals_due us before (rds @ [rd]) = signals_due us before rds @ poll_signals us (before @ rds @ [rd])"
  unfolding signals_due_def prefixes_snoc by simp_all

lemma times_due_simps [simp]:
  "times_due t before [] = 0"
  "times_due t before (rds @ [rd]) =
    times_due t before rds + (if is_due (nat (duration t)) (held t (before @ rds @ [rd])) then 1 else 0)"
proof -
  have "length (filter P [1..<Suc (length (xs @ [x]))]) = length (filter P [1..<Suc (length xs)])
      + (if P (Suc (length xs)) then 1 else 0)" for P and xs :: "reading list" and x
    by simp
  moreover have "filter (\<lambda>j. is_due (nat (duration t)) (held t (before @ take j (rds @ [rd])))) [1..<Suc (length rds)] =
      filter (\<lambda>j. is_due (nat (duration t)) (held t (before @ take j rds))) [1..<Suc (length rds)]"
    by (rule filter_cong) auto
  ultimately show "times_due t before (rds @ [rd]) =
    times_due t before rds + (if is_due (nat (duration t)) (held t (before @ rds @ [rd])) then 1 else 0)"
    unfolding times_due_def by simp
qed (simp add: times_due_def)

lemma signals_due_append: "signals_due us a (b @ c) = signals_due us a b @ signals_due us (a @ b) c"
proof (induction c rule: rev_induct)
  case (snoc x c)
  have "signals_due us a ((b @ c) @ [x]) = signals_due us a (b @ c) @ poll_signals us (a @ (b @ c) @ [x])"
    by (rule signals_due_simps)
  with snoc show ?case by simp
qed simp

lemma map_fst_counts [simp]: "map fst (counts us rds) = us"
  by (simp add: counts_def comp_def)

text \<open>The signals about one trigger.\<close>

lemma signals_due_of:
  assumes "distinct us" and "t \<in> set us"
  shows "filter (\<lambda>s. signal_trigger s = t) (signals_due us before rds) =
    replicate (times_due t before rds) (Activate t)"
proof (induction rds rule: rev_induct)
  case (snoc rd rds)
  have "filter (\<lambda>s. signal_trigger s = t) (poll_signals us xs) =
      (if is_due (nat (duration t)) (held t xs) then [Activate t] else [])" for xs
    using assms
  proof (induction us)
    case (Cons u us)
    have "filter (\<lambda>s. signal_trigger s = t) (poll_signals us xs) = []" if "t \<notin> set us"
      using that by (auto simp: poll_signals_def filter_empty_conv)
    with Cons show ?case by (auto simp: poll_signals_def)
  qed simp
  with snoc show ?case by (simp add: replicate_append_same)
qed simp

section \<open>The triggers of a run\<close>

text \<open>A signal sent to the callbacks of a sampler.\<close>

fun send :: "(TriggerType \<Rightarrow> 'w \<Rightarrow> 'w result) \<Rightarrow> (TriggerType \<Rightarrow> 'w \<Rightarrow> 'w result) \<Rightarrow> signal \<Rightarrow> 'w \<Rightarrow> 'w result" where
  "send act deact (Activate t) w = act t w"
| "send act deact (Deactivate t) w = deact t w"

lemma bindE_Inr_right [simp]: "bindE m Inr = m"
  by (cases m) simp_all

lemma send_engine: "foldE (send triggerActivation triggerDeactivation) =
    (engine_run :: signal list \<Rightarrow> 'c world \<Rightarrow> 'c world result)"
proof -
  have "send triggerActivation triggerDeactivation = (engine_step :: signal \<Rightarrow> 'c world \<Rightarrow> 'c world result)"
    by (intro ext) (metis engine_step.simps send.simps signal.exhaust)
  then show ?thesis by (simp add: engine_run_def)
qed

lemma send_record: "foldE (send record_act record_deact) ss w = Inr (w @ ss)"
proof (induction ss arbitrary: w)
  case (Cons s ss)
  then show ?case by (cases s) (simp_all add: record_act_def record_deact_def)
qed simp

lemma process_list_due:
  assumes "\<forall>t \<in> set us. trigger_ok t"
  shows "process_list act deact rd (counts us rds) w =
    bindE (foldE (send act deact) (poll_signals us (rds @ [rd])) w) (\<lambda>w'. Inr (counts us (rds @ [rd]), w'))"
  using assms
proof (induction us arbitrary: w)
  case (Cons t us)
  let ?d = "nat (duration t)" and ?k = "trailing (held t rds)"
  have d: "0 < ?d" "duration t = int ?d" "int ?d \<le> LONG_MAX" "unit_ok t"
    using Cons.prems by (simp_all add: trigger_ok_def)
  have IH: "process_list act deact rd (counts us rds) w' =
      bindE (foldE (send act deact) (poll_signals us (rds @ [rd])) w') (\<lambda>w'. Inr (counts us (rds @ [rd]), w'))" for w'
    using Cons by simp
  note step = process_trigger_streak [OF d(1-3) exceeded_reading [OF d(4), of rd], of act deact ?k w]
  have c: "counts (t # us) xs = (t, int (trailing (held t xs) mod ?d)) # counts us xs" for xs
    by (simp add: counts_def)
  show ?case
  proof (cases "is_due ?d (held t (rds @ [rd]))")
    case True
    then have e: "exceeded t rd" "Suc ?k mod ?d = 0" by (auto simp: is_due_def split: if_splits)
    have p: "poll_signals (t # us) (rds @ [rd]) = Activate t # poll_signals us (rds @ [rd])"
      using True by (simp add: poll_signals_def)
    show ?thesis
      using step e unfolding c p by (cases "act t w") (simp_all add: IH bindE_assoc)
  next
    case False
    then have e: "\<not> (exceeded t rd \<and> Suc ?k mod ?d = 0)" by (auto simp: is_due_def mod_greater_zero_iff_not_dvd)
    have p: "poll_signals (t # us) (rds @ [rd]) = poll_signals us (rds @ [rd])"
      using False by (simp add: poll_signals_def)
    have "process_trigger act deact t rd (int (?k mod ?d), w) = Inr (int (trailing (held t (rds @ [rd])) mod ?d), w)"
      using step e by (auto simp: Let_def)
    then show ?thesis unfolding c p by (simp add: IH bindE_assoc)
  qed
qed (simp add: counts_def poll_signals_def)

lemma run_triggers_append:
  "run_triggers act deact (a @ b) ts w =
    bindE (run_triggers act deact a ts w) (\<lambda>(ts', w'). run_triggers act deact b ts' w')"
  by (induction a arbitrary: ts w) (auto simp: bindE_assoc split_def)

lemma run_triggers_due:
  assumes "\<forall>t \<in> set us. trigger_ok t"
  shows "run_triggers act deact rds (counts us []) w =
    bindE (foldE (send act deact) (signals_due us [] rds) w) (\<lambda>w'. Inr (counts us rds, w'))"
proof (induction rds rule: rev_induct)
  case (snoc rd rds)
  show ?case
    unfolding run_triggers_append snoc
    by (simp add: bindE_assoc process_list_due [OF assms] foldE_append)
qed simp

section \<open>A sampler that is running\<close>

text \<open>The sampler after the polls \<open>ins\<close>, whatever its callbacks are and have been.\<close>

definition sampled_so_far :: "'b boost \<Rightarrow> TriggerType list \<Rightarrow> poll_input list \<Rightarrow> ('b, 'w) SamplingManager \<Rightarrow> bool" where
  "sampled_so_far B us ins m \<longleftrightarrow> sampler_inv B ins m \<and> triggerStates m = counts us (map polled ins)"

lemma new_counts:
  "triggerStates (SamplingManager_new B ls ts act deact) = counts (fold add_new ts []) []"
proof -
  have "triggerStates (SamplingManager_new B ls ts act deact) = fold (\<lambda>t. upsert TriggerType_eq t 0) ts (fresh_triggers [])"
    by (simp add: SamplingManager_new_def initializeTriggers_def initializeLoggingBuffers_keeps
        initializeSamplesBuffers_def fresh_triggers_def split: prod.split)
  also have "\<dots> = fresh_triggers (fold add_new ts [])" by (rule initial_triggers)
  finally show ?thesis by (simp add: fresh_triggers_def counts_def)
qed

lemma trigger_order: "distinct (fold add_new ts [])" "set (fold add_new ts []) = set ts"
  using fold_add_new [of "[]" ts] by simp_all

lemma sampling_new:
  assumes "boost_ok B" and "\<forall>l \<in> set ls. log_ok l"
  shows "sampled_so_far B (fold add_new ts []) [] (SamplingManager_new B ls ts act deact)"
  by (simp add: sampled_so_far_def SamplingManager_new_inv [OF assms] new_counts)

lemma sampling_switched [simp]:
  "sampled_so_far B us ins (m\<lparr>isSampling := b\<rparr>) = sampled_so_far B us ins m"
  "sampled_so_far B us ins (m\<lparr>triggerActivate := a, triggerDeactivate := d\<rparr>) = sampled_so_far B us ins m"
  by (simp_all add: sampled_so_far_def sampler_inv_def)

lemma poll_due:
  assumes "boost_ok B" and "sampled_so_far B us ins m" and "\<forall>t \<in> set us. trigger_ok t"
    and "foldE (send (triggerActivate m) (triggerDeactivate m)) (poll_signals us (map polled (ins @ [i]))) w = Inr w'"
  obtains m' where "poll B i (m, w) = Inr (m', w')" and "sampled_so_far B us (ins @ [i]) m'"
    and "triggerActivate m' = triggerActivate m" and "triggerDeactivate m' = triggerDeactivate m"
proof -
  have inv: "sampler_inv B ins m" and ts: "triggerStates m = counts us (map polled ins)"
    using assms(2) by (simp_all add: sampled_so_far_def)
  let ?m' = "after_poll B ins i (counts us (map polled (ins @ [i]))) m"
  have "poll B i (m, w) = Inr (?m', w')"
    using assms(4) unfolding poll_eq(1) [OF assms(1) inv] ts by (simp add: process_list_due [OF assms(3)])
  moreover have "sampled_so_far B us (ins @ [i]) ?m'"
    using poll_eq(2) [OF assms(1) inv] by (simp add: sampled_so_far_def after_poll_keeps)
  ultimately show thesis using that by (simp add: after_poll_keeps)
qed

section \<open>The sampler and the engine\<close>

lemma sampler_run_due:
  assumes "boost_ok B" and "\<forall>l \<in> set ls. log_ok l" and "\<forall>t \<in> set ts. trigger_ok t"
    and "foldE (send act deact) (signals_due (fold add_new ts []) [] (map polled (run_inputs is))) w = Inr w'"
  shows "\<exists>m'. pollingFunction B is 0 (SamplingManager_new B ls ts act deact) w = Inr (polls_done is, m', w')
    \<and> triggerStates m' = counts (fold add_new ts []) (map polled (run_inputs is))"
proof -
  let ?us = "fold add_new ts []"
  have ok: "\<forall>t \<in> set ?us. trigger_ok t" using assms(3) by (simp add: trigger_order)
  have "run_triggers act deact (map polled (run_inputs is)) (triggerStates (SamplingManager_new B ls ts act deact)) w =
      Inr (counts ?us (map polled (run_inputs is)), w')"
    by (simp add: new_counts run_triggers_due [OF ok] assms(4))
  with new_run_triggers [OF assms(1,2), of "is" ts act deact w] show ?thesis
    by (cases "pollingFunction B is 0 (SamplingManager_new B ls ts act deact) w") auto
qed

text \<open>The same run with a recorder and with the engine.\<close>

lemma sampler_engine:
  fixes B :: "'b boost" and w :: "'c world"
  assumes "boost_ok B" and "\<forall>l \<in> set ls. log_ok l" and "\<forall>t \<in> set ts. trigger_ok t" and w: "wf_world w"
  obtains m1 ss m' w' where
    "pollingFunction B is 0 (SamplingManager_new B ls ts record_act record_deact) [] = Inr (polls_done is, m1, ss)"
    "pollingFunction B is 0 (connectPredicateEngine (SamplingManager_new B ls ts act deact)) w =
       Inr (polls_done is, m', w')"
    "engine_run ss w = Inr w'" "triggerStates m' = counts (fold add_new ts []) (map polled (run_inputs is))"
    "ss = signals_due (fold add_new ts []) [] (map polled (run_inputs is))"
proof -
  let ?ss = "signals_due (fold add_new ts []) [] (map polled (run_inputs is))"
  have rec: "foldE (send record_act record_deact) ?ss [] = Inr ?ss" by (simp add: send_record)
  obtain w' where w': "engine_run ?ss w = Inr w'" using engine_run_ok [OF w, of ?ss] by blast
  then have "foldE (send triggerActivation triggerDeactivation) ?ss w = Inr w'" by (simp add: send_engine)
  from sampler_run_due [OF assms(1-3) this] sampler_run_due [OF assms(1-3) rec] w' show thesis
    using that by (auto simp: connectPredicateEngine_def SamplingManager_new_reconnect)
qed

text \<open>C4: What a run does to a connected predicate engine is told by the readings alone: poll by poll, and
  within a poll in the order of the triggers in the map of the sampler, every trigger is activated for which
  the number of polls in an unbroken row, this one the last, on which its condition held is a positive
  multiple of its duration; nothing else is sent, no exception is thrown, and the counters that are left are
  the current rows modulo the durations.\<close>

theorem sampler_drives_engine:
  assumes "boost_ok B" and "\<forall>l \<in> set ls. log_ok l" and "\<forall>t \<in> set ts. trigger_ok t" and "wf_world w"
    and "us = map fst (triggerStates (SamplingManager_new B ls ts act deact))"
  shows "\<exists>m' w'. pollingFunction B is 0 (connectPredicateEngine (SamplingManager_new B ls ts act deact)) w =
       Inr (polls_done is, m', w')
    \<and> engine_run (signals_due us [] (map polled (run_inputs is))) w = Inr w'
    \<and> triggerStates m' = map (\<lambda>t. (t, int (trailing (held t (map polled (run_inputs is))) mod nat (duration t)))) us"
proof -
  have us: "us = fold add_new ts []" by (simp add: assms(5) new_counts)
  obtain m' w' where "pollingFunction B is 0 (connectPredicateEngine (SamplingManager_new B ls ts act deact)) w =
       Inr (polls_done is, m', w')"
    and "engine_run (signals_due us [] (map polled (run_inputs is))) w = Inr w'"
    and "triggerStates m' = counts us (map polled (run_inputs is))"
    using sampler_engine [OF assms(1-4), of "is" act deact] unfolding us by blast
  then show ?thesis unfolding counts_def by blast
qed

theorem sampler_drives_engine_witness:
  "\<exists>m' w'. pollingFunction ring_boost ex_inputs 0 (connectPredicateEngine (SamplingManager_new ring_boost [ex_log]
        [ex_disk, ex_cpu\<lparr>duration := 3\<rparr>] (\<lambda>t w. Inr w) (\<lambda>t w. Inr w))) ex_world = Inr (7, m', w')
    \<and> engine_run [Activate ex_disk, Activate ex_disk, Activate ex_disk, Activate (ex_cpu\<lparr>duration := 3\<rparr>)] ex_world = Inr w'
    \<and> triggerStates m' = [(ex_disk, 1), (ex_cpu\<lparr>duration := 3\<rparr>, 1)]"
proof -
  let ?c = "ex_cpu\<lparr>duration := 3\<rparr>"
  have n: "polls_done ex_inputs = 7" by (simp add: ex_inputs_def ex_input_def)
  have ok: "\<forall>t \<in> set [ex_disk, ?c]. trigger_ok t"
    by (simp add: ex_disk_def ex_cpu_def trigger_ok_def unit_ok_def LONG_MAX_def)
  have us: "[ex_disk, ?c] = map fst (triggerStates (SamplingManager_new ring_boost [ex_log] [ex_disk, ?c]
      (\<lambda>t w. Inr w) (\<lambda>t w. Inr w :: nat world result)))"
    unfolding new_counts by (simp add: add_new_def ex_disk_def ex_cpu_def)
  have s: "signals_due [ex_disk, ?c] [] (map polled (run_inputs ex_inputs)) =
      [Activate ex_disk, Activate ex_disk, Activate ex_disk, Activate ?c]"
    "map (\<lambda>t. (t, int (trailing (held t (map polled (run_inputs ex_inputs))) mod nat (duration t)))) [ex_disk, ?c] =
      [(ex_disk, 1), (?c, 1)]"
    by code_simp+
  show ?thesis
    using sampler_drives_engine [OF ring_boost_ok ex_log_ok ok ex_world_wf us, of ex_inputs] unfolding n s by blast
qed

end
