(* ===== verification/Monitor.thy ===== *)
theory Monitor
  imports WebHandlers ConfigParser SignalSchedule
begin

text \<open>
  The start of the program, \<open>main\<close> of \<open>src/main.cpp\<close>: the parsed configuration builds the sampler, and its
  polling thread is started before the predicate engine is connected to it. Also what a subscription to one
  trigger means for the signals that come after it.
\<close>

section \<open>The main program\<close>

definition empty_web :: web where
  "empty_web = \<lparr>userName = [], userEmail = [], predicates_owned = [],
     engine = \<lparr>predicates = Map.empty, heap = Map.empty, called = []\<rparr>\<rparr>"

text \<open>The callback of a new sampler prints a line. After \<open>startSampling\<close> the polling thread runs with it, until
  \<open>connectPredicateEngine\<close>, the next statement of \<open>main\<close>, puts the functions of the engine in its place. What
  happens from then on is a schedule of polls and connections: \<open>HttpService\<close>.\<close>

definition main_start :: "'b boost \<Rightarrow> (double \<Rightarrow> string) \<Rightarrow> string \<Rightarrow> parser
    \<Rightarrow> (config \<times> ('b, mail world) SamplingManager \<times> web) run" where
  "main_start B put text g =
     (case ConfigurationParser_run text g of
        None \<Rightarrow> None
      | Some (Inl e) \<Rightarrow> Some (Inl e)
      | Some (Inr (ts, ls, g')) \<Rightarrow> Some (Inr (\<lparr>conf_triggers = ts, conf_logs = ls, fmt = put\<rparr>,
          (SamplingManager_new B ls ts (\<lambda>t w. Inr w) (\<lambda>t w. Inr w))\<lparr>isSampling := True\<rparr>, empty_web)))"

lemma main_start_rendered:
  assumes "list_all line_ok ls"
  obtains cfg where "conf_triggers cfg = concat (map line_triggers ls)" "conf_logs cfg = concat (map line_logs ls)"
    "main_start B put (render_config ls) parser_init = Some (Inr (cfg,
      (SamplingManager_new B (conf_logs cfg) (conf_triggers cfg) (\<lambda>t w. Inr w) (\<lambda>t w. Inr w))\<lparr>isSampling := True\<rparr>, empty_web))"
  using run_config [OF assms] that [where cfg = "\<lparr>conf_triggers = concat (map line_triggers ls),
      conf_logs = concat (map line_logs ls), fmt = put\<rparr>"] by (auto simp: main_start_def)

section \<open>A subscription to one trigger\<close>

lemma count_replicate [simp]: "count_list (replicate n x) x = n"
  by (induction n) simp_all

lemma count_one_trigger: "count_list (filter (\<lambda>s. signal_trigger s \<in> {t}) ss) (Activate t) = count_list ss (Activate t)"
  by (induction ss) auto

lemma count_due:
  assumes "distinct us" and "t \<in> set us"
  shows "count_list (signals_due us before rds) (Activate t) = times_due t before rds"
  using signals_due_of [OF assms, of before rds] count_one_trigger [of t "signals_due us before rds"] by simp

lemma one_trigger_subscription:
  assumes f: "number_ok f" "snd f < length (conf_triggers cfg)" "iter [select_field f] = [select_field f]"
    and t: "t = conf_triggers cfg ! snd f" and m: "m = notification s (put_TriggerType t)"
    and w: "wf_world (engine s)" "\<forall>u. na s \<notin> set (bucket (engine s) u)"
    and own: "\<forall>j q. heap (engine s) j = Some q \<longrightarrow> callback q \<noteq> m"
  obtains w0 where "trigger_choose iter cfg na e (form_query [f]) s =
      Inr (ok_response ''Your subscription has been saved!'', s\<lparr>predicates_owned := predicates_owned s @ [na s], engine := w0\<rparr>)"
    and "wf_world w0" and "called w0 = called (engine s)"
    and "heap w0 = (heap (engine s))(na s \<mapsto> new_1element m t)"
    and "\<And>ss. \<exists>w'. engine_run ss w0 = Inr w' \<and> filter ((=) m) (called w') =
      filter ((=) m) (called (engine s)) @ replicate (count_list ss (Activate t)) m"
proof -
  let ?i = "na s" and ?ss = "\<lambda>ss. filter (\<lambda>x. signal_trigger x \<in> {t}) ss"
  obtain k p w0 where sub: "getPredicateOperands k = [t]" "page_predicate (notification s (put_Predicate k)) [t] = Some p"
    "kind p = k" "addPredicate ?i ((engine s)\<lparr>heap := (heap (engine s))(?i \<mapsto> p)\<rparr>) = Inr w0"
    "trigger_choose iter cfg na e (form_query [f]) s = Inr (ok_response ''Your subscription has been saved!'',
      s\<lparr>predicates_owned := predicates_owned s @ [?i], engine := w0\<rparr>)"
  proof -
    have "list_all number_ok [f]" "\<forall>x \<in> set [f]. snd x < length (conf_triggers cfg)" "[f] \<noteq> []" "length [f] \<le> 3"
      "mset [f] = mset [f]" "iter (map select_field [f]) = map select_field [f]"
      "[t] = rev (map (\<lambda>f. conf_triggers cfg ! snd f) [f])"
      using f t by simp_all
    from subscribe [where iter = iter and na = na and e = e and s = s, OF this] that show thesis by metis
  qed
  then have k: "k = Predicate_1element t" and p: "p = new_1element m t"
    using m by (auto simp: new_1element_def)
  have w0: "heap w0 = (heap (engine s))(?i \<mapsto> p)" "called w0 = called (engine s)"
    "\<And>u. bucket w0 u = bucket (engine s) u @ (if u = t then [?i] else [])"
    using addPredicate_effect [of "(engine s)\<lparr>heap := (heap (engine s))(?i \<mapsto> p)\<rparr>" ?i p] sub(1,3,4)
    by (auto simp: bucket_def)
  have "wf_predicate p" "callback p = m" "kind p = Predicate_1element t"
    using wf_new(3) [of m t] by (simp_all add: p new_1element_def)
  moreover have "count_list (bucket (engine s) u) ?i = 0" for u
    using w(2) by (simp add: count_list_0_iff)
  ultimately have g: "wf_world w0" "registered ?i w0" "own_callback ?i w0" "heap w0 ?i = Some p"
    using w(1) own by (auto simp: wf_world_def registered_def own_callback_def w0)
  have "\<exists>w'. engine_run ss w0 = Inr w' \<and> filter ((=) m) (called w') =
      filter ((=) m) (called (engine s)) @ replicate (count_list ss (Activate t)) m" for ss
  proof -
    have "set (?ss ss) \<subseteq> {Activate t, Deactivate t}"
      by (auto, metis signal.exhaust signal_trigger.simps)
    from one_element_run [OF this, of m] obtain q where
      "run_signals (?ss ss) p = Inr (q, replicate (count_list ss (Activate t)) m)"
      unfolding count_one_trigger p by blast
    moreover from engine_run_delivers [OF g, of ss] obtain w' q cs where "engine_run ss w0 = Inr w'"
      "run_signals (?ss ss) p = Inr (q, cs)" "filter ((=) m) (called w') = filter ((=) m) (called w0) @ cs"
      using sub(1,3) k \<open>callback p = m\<close> by auto
    ultimately show ?thesis using w0(2) by auto
  qed
  then show thesis using that [OF sub(5) g(1) w0(2)] w0(1) p by simp
qed

text \<open>If all predicates have one callback, no other is called; without a predicate none is.\<close>

lemma deliver_one_callbacks:
  assumes "deliver_one s i w = Inr w'" and "wf_world w"
    and "\<forall>j q. heap w j = Some q \<longrightarrow> callback q = m" and "set (called w) \<subseteq> {m}"
  shows "wf_world w' \<and> (\<forall>j q. heap w' j = Some q \<longrightarrow> callback q = m) \<and> set (called w') \<subseteq> {m}"
proof (cases "heap w i")
  case (Some p)
  then have p: "wf_predicate p" using assms(2) by (simp add: wf_world_def)
  obtain q cs where d: "deliver s p = Inr (q, cs)" using deliver_wf [OF p] by blast
  then have "w' = w\<lparr>heap := (heap w)(i \<mapsto> q), called := called w @ cs\<rparr>"
    using assms(1) Some by (simp add: deliver_one_def)
  moreover note deliver_active [OF p d] deliver_calls [OF p d]
  moreover have "callback p = m" using assms(3) Some by blast
  ultimately show ?thesis using assms(2-4) by (auto simp: wf_world_def)
qed (use assms in \<open>simp add: deliver_one_def\<close>)

lemma engine_run_callbacks:
  assumes "wf_world w" and "\<forall>j q. heap w j = Some q \<longrightarrow> callback q = m" and "set (called w) \<subseteq> {m}"
    and "engine_run ss w = Inr w'"
  shows "set (called w') \<subseteq> {m}"
proof -
  let ?I = "\<lambda>v. wf_world v \<and> (\<forall>j q. heap v j = Some q \<longrightarrow> callback q = m) \<and> set (called v) \<subseteq> {m}"
  have one: "\<exists>v'. deliver_one s i v = Inr v' \<and> ?I v'" if v: "?I v" for s i v
  proof -
    from v deliver_one_wf [of v s i] obtain v' where d: "deliver_one s i v = Inr v'" by blast
    with v deliver_one_callbacks [OF d, of m] show ?thesis by blast
  qed
  have "\<exists>v'. engine_step s v = Inr v' \<and> ?I v'" if "?I v" for s v
    unfolding engine_step_deliver by (rule foldE_invariant) (use one that in \<open>auto simp: wf_world_def\<close>)
  then have "\<exists>v'. engine_run ss w = Inr v' \<and> ?I v'"
    unfolding engine_run_def by (intro foldE_invariant) (use assms in auto)
  with assms(4) show ?thesis by auto
qed

lemma engine_run_idle:
  assumes "\<forall>t. bucket w t = []"
  shows "\<exists>w'. engine_run ss w = Inr w' \<and> heap w' = heap w \<and> called w' = called w \<and> bucket w' = bucket w"
proof -
  have "\<exists>v'. engine_step s v = Inr v' \<and> heap v' = heap w \<and> called v' = called w \<and> bucket v' = bucket w"
    if "heap v = heap w \<and> called v = called w \<and> bucket v = bucket w" for s v
    using that assms unfolding engine_step_deliver by simp
  then show ?thesis unfolding engine_run_def by (intro foldE_invariant) auto
qed

definition ex_lines :: "definition_line list" where
  "ex_lines = [Trigger_line \<lparr>margin = [], last_for = False\<rparr> CPU OVER (One (70, PERCENT, ''%'')) (Braces [[(1, Sec)], [(2, Sec)]]),
     Log_line \<lparr>margin = [], last_for = False\<rparr> LOG_CPU (One [(4, Sec)]) (One [(2, Sec)])]"

end
