(* ===== verification/UnitTests.thy ===== *)
theory UnitTests
  imports Monitor
begin

text \<open>
  The unit tests of \<open>tests_src\<close> as programs over the model: the test doubles of the resource provider and
  the sampler, the texts of the configurations, and every test case with its checks. A test returns the
  outcomes of its checks and the variables the parser leaves to the next test. The circular buffers, the
  iteration order of the trigger map and the clock are parameters here too, so what is shown below is what
  the tests establish on any platform: all checks hold, except that two of them need a certain iteration
  order.
\<close>

section \<open>Test doubles\<close>

record ResProviderMock =
  CPU_USE :: double
  RAM_USE :: double
  HDD_USE :: double

definition ResProviderMock_new :: ResProviderMock where
  "ResProviderMock_new = \<lparr>CPU_USE = double_of_int 85, RAM_USE = double_of_int 500, HDD_USE = double_of_int 100\<rparr>"

definition mock_getCpuState :: "ResProviderMock \<Rightarrow> CpuState" where
  "mock_getCpuState p = CpuState_new (CPU_USE p) (double_of_int 10)"

definition mock_getRamState :: "ResProviderMock \<Rightarrow> RamState" where
  "mock_getRamState p = RamState_new (double_of_int 1000) (RAM_USE p) (double_of_int 100)"

definition mock_getHddState :: "ResProviderMock \<Rightarrow> HddState" where
  "mock_getHddState p = HddState_new (HDD_USE p) (HDD_USE p) (double_of_int 2000) (double_of_int 2000)"

definition SAMPLES_NUMBER :: long where "SAMPLES_NUMBER = 10"

text \<open>\<open>afterPollCallback\<close> of the sampler double: what the flag \<open>isSampling\<close> is after poll number \<open>n\<close>.\<close>

definition mock_afterPoll :: "long \<Rightarrow> bool \<Rightarrow> bool" where
  "mock_afterPoll n sampling = (if SAMPLES_NUMBER \<le> n then False else sampling)"

text \<open>Poll number \<open>n\<close>: the clock, which is read three times, the provider, and the flag afterwards.\<close>

definition mock_poll :: "(nat \<Rightarrow> time) \<Rightarrow> ResProviderMock \<Rightarrow> nat \<Rightarrow> poll_input \<times> bool" where
  "mock_poll clock p n =
     (\<lparr>cpuTime = clock (3 * n), ramTime = clock (3 * n + 1), hddTime = clock (3 * n + 2),
       polled = (mock_getCpuState p, mock_getRamState p, mock_getHddState p)\<rparr>, mock_afterPoll (int n) True)"

text \<open>The platform: the circular buffers, the iteration order of the trigger map, and the clock.\<close>

record 'b platform =
  buffers :: "'b boost"
  order :: "TriggerType list \<Rightarrow> TriggerType list"
  clock :: "nat \<Rightarrow> time"

definition SamplerManagerMock_new ::
  "'b platform \<Rightarrow> LogType list \<Rightarrow> TriggerType list \<Rightarrow> (TriggerType \<Rightarrow> 'w \<Rightarrow> 'w result) \<Rightarrow> ('b, 'w) SamplingManager" where
  "SamplerManagerMock_new P ls ts triggerCallback =
     SamplingManager_new (buffers P) ls (order P ts) triggerCallback (\<lambda>t w. Inr w)"

text \<open>\<open>startSampling\<close> and \<open>waitForEndOfSampling\<close>: there could be twice as many polls, the flag ends them.\<close>

definition sample_to_end ::
  "'b platform \<Rightarrow> ResProviderMock \<Rightarrow> ('b, 'w) SamplingManager \<Rightarrow> 'w \<Rightarrow> (nat \<times> ('b, 'w) SamplingManager \<times> 'w) result" where
  "sample_to_end P p m w = pollingFunction (buffers P) (map (mock_poll (clock P) p) [1..<Suc (2 * nat SAMPLES_NUMBER)]) 0 m w"

text \<open>A test: a parser is run on the text of the configuration, the rest is computed from its vectors.\<close>

definition with_parser ::
  "string \<Rightarrow> (TriggerType list \<Rightarrow> LogType list \<Rightarrow> bool list result) \<Rightarrow> parser \<Rightarrow> (bool list \<times> parser) run" where
  "with_parser conf test g = (case ConfigurationParser_run conf g of
       None \<Rightarrow> None
     | Some (Inl e) \<Rightarrow> Some (Inl e)
     | Some (Inr (ts, ls, g')) \<Rightarrow> Some (bindE (test ts ls) (\<lambda>checks. Inr (checks, g'))))"

section \<open>The tests of the predicate engine\<close>

definition engine_conf :: string where
  "engine_conf = ''\<newline>''
     @ ''    trigger cpu over 80% last for 8s\<newline>''
     @ ''    trigger memory over 200MB last for 6s\<newline>''
     @ ''    trigger disk under 10MB/s last for 2s\<newline>''
     @ ''    trigger memory over 75% last for 10s\<newline>''
     @ ''    trigger disk over 9mb/s last for 1m2s\<newline>''
     @ ''\<newline>''
     @ ''    log cpu for {3h} resolution {7s}\<newline>''
     @ ''    log memory for {12h} resolution {1h}\<newline>''
     @ ''    log disk for 3h resolution 4s\<newline>''"

text \<open>The part that all tests of this file share: the predicate is registered, the sampler is connected to
  the engine and runs, and the calls of the callback are counted.\<close>

definition count_fired ::
  "'b platform \<Rightarrow> TriggerType list \<Rightarrow> LogType list \<Rightarrow> unit Predicate \<Rightarrow> nat result" where
  "count_fired P ts ls predicate =
     bindE (addPredicate 0 \<lparr>predicates = Map.empty, heap = [0 \<mapsto> predicate], called = []\<rparr>) (\<lambda>engine.
     bindE (sample_to_end P ResProviderMock_new
         (connectPredicateEngine (SamplerManagerMock_new P ls ts (\<lambda>t w. Inr w))) engine)
       (\<lambda>(k, m, w). Inr (length (called w))))"

definition predicate_1or2and3_both_or_active :: "'b platform \<Rightarrow> parser \<Rightarrow> (bool list \<times> parser) run" where
  "predicate_1or2and3_both_or_active P = with_parser engine_conf (\<lambda>ts ls.
     bindE (vec_at ts 0) (\<lambda>t0. bindE (vec_at ts 1) (\<lambda>t1. bindE (vec_at ts 2) (\<lambda>t2.
     bindE (count_fired P ts ls (new_1or2and3 () t0 t1 t2)) (\<lambda>fired. Inr [fired = 2])))))"

definition predicate_1or2and3_one_or_active :: "'b platform \<Rightarrow> parser \<Rightarrow> (bool list \<times> parser) run" where
  "predicate_1or2and3_one_or_active P = with_parser engine_conf (\<lambda>ts ls.
     bindE (vec_at ts 0) (\<lambda>t0. bindE (vec_at ts 3) (\<lambda>t3. bindE (vec_at ts 2) (\<lambda>t2.
     bindE (count_fired P ts ls (new_1or2and3 () t0 t3 t2)) (\<lambda>fired. Inr [fired = 3])))))"

definition predicate_1or2and3_none_or_active :: "'b platform \<Rightarrow> parser \<Rightarrow> (bool list \<times> parser) run" where
  "predicate_1or2and3_none_or_active P = with_parser engine_conf (\<lambda>ts ls.
     bindE (vec_at ts 4) (\<lambda>t4. bindE (vec_at ts 3) (\<lambda>t3. bindE (vec_at ts 2) (\<lambda>t2.
     bindE (count_fired P ts ls (new_1or2and3 () t4 t3 t2)) (\<lambda>fired. Inr [fired = 0])))))"

definition predicate_1and2_both_active :: "'b platform \<Rightarrow> parser \<Rightarrow> (bool list \<times> parser) run" where
  "predicate_1and2_both_active P = with_parser engine_conf (\<lambda>ts ls.
     bindE (vec_at ts 0) (\<lambda>t0. bindE (vec_at ts 1) (\<lambda>t1.
     bindE (count_fired P ts ls (new_1and2 () t0 t1)) (\<lambda>fired. Inr [fired = 1]))))"

definition predicate_1and2_one_active :: "'b platform \<Rightarrow> parser \<Rightarrow> (bool list \<times> parser) run" where
  "predicate_1and2_one_active P = with_parser engine_conf (\<lambda>ts ls.
     bindE (vec_at ts 0) (\<lambda>t0. bindE (vec_at ts 3) (\<lambda>t3.
     bindE (count_fired P ts ls (new_1and2 () t0 t3)) (\<lambda>fired. Inr [fired = 0]))))"

definition predicate_1and2_none_active :: "'b platform \<Rightarrow> parser \<Rightarrow> (bool list \<times> parser) run" where
  "predicate_1and2_none_active P = with_parser engine_conf (\<lambda>ts ls.
     bindE (vec_at ts 4) (\<lambda>t4. bindE (vec_at ts 3) (\<lambda>t3.
     bindE (count_fired P ts ls (new_1and2 () t4 t3)) (\<lambda>fired. Inr [fired = 0]))))"

definition predicate_1operator_active :: "'b platform \<Rightarrow> parser \<Rightarrow> (bool list \<times> parser) run" where
  "predicate_1operator_active P = with_parser engine_conf (\<lambda>ts ls.
     bindE (vec_at ts 0) (\<lambda>t0. bindE (count_fired P ts ls (new_1element () t0)) (\<lambda>fired. Inr [fired = 1])))"

definition predicate_1operator_not_active :: "'b platform \<Rightarrow> parser \<Rightarrow> (bool list \<times> parser) run" where
  "predicate_1operator_not_active P = with_parser engine_conf (\<lambda>ts ls.
     bindE (vec_at ts 3) (\<lambda>t3. bindE (count_fired P ts ls (new_1element () t3)) (\<lambda>fired. Inr [fired = 0])))"

section \<open>The tests of the sampler\<close>

definition sampler_conf :: string where
  "sampler_conf = ''\<newline>''
     @ ''    trigger cpu over {70%, 80%, 90%} last for {8s, 1m}\<newline>''
     @ ''    trigger memory over 200MB last for 6s\<newline>''
     @ ''    trigger memory over 75% last for 10s\<newline>''
     @ ''    trigger disk over 9mb/s last for 1m2s\<newline>''
     @ ''    trigger disk under 10MB/s last for 2s\<newline>''
     @ ''\<newline>''
     @ ''    log cpu for {3h} resolution {7s}\<newline>''
     @ ''    log memory for {12h} resolution {1h}\<newline>''
     @ ''    log disk for 3h resolution 4s\<newline>''"

text \<open>The callback of both tests counts the calls per resource.\<close>

definition count_resource :: "TriggerType \<Rightarrow> nat \<times> nat \<times> nat \<Rightarrow> (nat \<times> nat \<times> nat) result" where
  "count_resource trigger n = (case n of (cpuTriggers, ramTriggers, hddTriggers) \<Rightarrow>
     Inr (if resource trigger = CPU then cpuTriggers + 1 else cpuTriggers,
          if resource trigger = MEMORY then ramTriggers + 1 else ramTriggers,
          if resource trigger = DISK then hddTriggers + 1 else hddTriggers))"

definition log_checks :: "'b platform \<Rightarrow> ('b, 'w) SamplingManager \<Rightarrow> LogType \<Rightarrow> bool list result" where
  "log_checks P m l = (case log_resource l of
       LOG_CPU \<Rightarrow> bindE (getCpuLog (buffers P) m l) (\<lambda>b. Inr [length b = 1])
     | LOG_MEMORY \<Rightarrow> bindE (getRamLog (buffers P) m l) (\<lambda>b. Inr [length b = 0])
     | LOG_DISK \<Rightarrow> bindE (getHddLog (buffers P) m l) (\<lambda>b. Inr [length b = 2]))"

definition log_test :: "'b platform \<Rightarrow> parser \<Rightarrow> (bool list \<times> parser) run" where
  "log_test P = with_parser sampler_conf (\<lambda>ts ls.
     bindE (sample_to_end P ResProviderMock_new (SamplerManagerMock_new P ls ts count_resource) (0, 0, 0)) (\<lambda>(k, m, n).
       foldE (\<lambda>l checks. bindE (log_checks P m l) (\<lambda>c. Inr (checks @ c))) ls []))"

definition trigger_test :: "'b platform \<Rightarrow> parser \<Rightarrow> (bool list \<times> parser) run" where
  "trigger_test P = with_parser sampler_conf (\<lambda>ts ls.
     bindE (sample_to_end P ResProviderMock_new (SamplerManagerMock_new P ls ts count_resource) (0, 0, 0))
       (\<lambda>(k, m, cpuTriggers, ramTriggers, hddTriggers). Inr [cpuTriggers = 2, ramTriggers = 1, hddTriggers = 5]))"

section \<open>The test of the parser\<close>

text \<open>The file \<open>tests_src/conf_parser/example\<close>.\<close>

definition example_file :: string where
  "example_file = ''\<newline>''
     @ ''    trigger cpu over {70%, 80%, 90%} last for {20s, 1m}\<newline>''
     @ ''    trigger cpu under {5%, 50%} last for {2s, 20s}\<newline>''
     @ ''    trigger memory over 200MB last for 1s\<newline>''
     @ ''    trigger memory over 75% last for 10s\<newline>''
     @ ''    trigger disk over 9mb/s last for 1m2s\<newline>''
     @ ''\<newline>''
     @ ''    log cpu for {3h, 6h, 12h} resolution {30s, 5m, 15m, 30m, 1h}\<newline>''
     @ ''    log memory for {12h, 1d, 1d12h, 2d} resolution {1h, 6h}\<newline>''
     @ ''    log memory for {2h, 8h} resolution {15s}\<newline>''
     @ ''    trigger disk under 1MB/s last for 2s\<newline>''
     @ ''    log disk for 72h resolution {1h}\<newline>''
     @ ''    log disk for 72h resolution {2h}\<newline>''
     @ ''    log disk for 72h resolution 3h\<newline>''"

definition first_test :: "parser \<Rightarrow> (bool list \<times> parser) run" where
  "first_test = with_parser example_file (\<lambda>ts ls. Inr [length ts = 14, length ls = 28])"

section \<open>The tests of the states\<close>

definition CpuState_setters_getters_test :: "bool list" where
  "CpuState_setters_getters_test =
     (let m = ddiv (double_of_int 89) (double_of_int 10);
          s1 = cpu_setPercentageUsed m CpuState_default; s2 = cpu_setMonitorPercentageUsed m s1
      in [deq (cpu_currPercentageUsed s1) m, deq (cpu_currMonitorPercentageUsed s2) m])"

definition HddState_setters_getters_test :: "bool list" where
  "HddState_setters_getters_test =
     (let m = double_of_int 17;
          s1 = setKBsUsedRead m HddState_default; s2 = setKBsUsedWrite m s1;
          s3 = setMonitorKBsUsedRead m s2; s4 = setMonitorKBsUsedWrite m s3
      in [deq (currKBsUsedRead s1) m, deq (currKBsUsedWrite s2) m,
          deq (currMonitorKBsUsedRead s3) m, deq (currMonitorKBsUsedWrite s4) m])"

definition RamState_setters_getters_test :: "bool list" where
  "RamState_setters_getters_test =
     (let r = double_of_int 1;
          s1 = setMBUsed r RamState_default; s2 = setMonitorMBUsed r s1; s3 = setTotalMB r s2
      in [deq (currMBUsed s1) r, deq (currMonitorMBUsed s2) r, deq (totalMB s3) r])"

definition RamState_percent_getter_test :: "bool list" where
  "RamState_percent_getter_test =
     (let total = double_of_int 100; usedTotal = double_of_int 12; usedMonitor = double_of_int 5;
          s1 = setMBUsed usedTotal (setTotalMB total RamState_default);
          s2 = setMonitorMBUsed usedMonitor s1
      in [deq (currPercentageUsed s1) usedTotal, deq (currMonitorPercentageUsed s2) usedMonitor])"

end
