(* ===== verification/UnitTestRuns.thy ===== *)
theory UnitTestRuns
  imports UnitTests "HOL-Library.Multiset"
begin

text \<open>
  What the unit tests show. Under a load that never changes the poller's signals are known in closed form:
  poll \<open>k\<close> activates, in the iteration order of the map, the triggers whose condition holds and whose
  duration divides \<open>k\<close>. The rest is the delivery of these signals and the parsing of three texts.
\<close>

section \<open>Constant load\<close>

definition holds :: "reading \<Rightarrow> TriggerType \<Rightarrow> bool" where
  "holds rd t \<longleftrightarrow> exceeds rd t = Inr True"

definition due :: "reading \<Rightarrow> nat \<Rightarrow> TriggerType \<Rightarrow> bool" where
  "due rd k t \<longleftrightarrow> holds rd t \<and> nat (duration t) dvd k"

definition counter_after :: "reading \<Rightarrow> nat \<Rightarrow> TriggerType \<Rightarrow> long" where
  "counter_after rd k t = (if holds rd t then int (k mod nat (duration t)) else 0)"

definition counters_after :: "reading \<Rightarrow> nat \<Rightarrow> TriggerType list \<Rightarrow> (TriggerType \<times> long) list" where
  "counters_after rd k ts = map (\<lambda>t. (t, counter_after rd k t)) ts"

lemma constant_trigger:
  assumes "trigger_ok t"
  shows "process_trigger record_act record_deact t rd (counter_after rd k t, ss) =
    Inr (counter_after rd (Suc k) t, ss @ (if due rd (Suc k) t then [Activate t] else []))"
proof -
  let ?d = "nat (duration t)"
  have d: "0 < ?d" "duration t = int ?d" "int ?d \<le> LONG_MAX" using assms by (simp_all add: trigger_ok_def)
  obtain b where b: "exceeds rd t = Inr b" using exceeds_total [of t rd] assms unfolding trigger_ok_def by blast
  have h: "holds rd t = b" using b by (simp add: holds_def)
  have c: "counter_after rd k t = int ((if b then k else 0) mod ?d)" by (simp add: counter_after_def h)
  show ?thesis unfolding c process_trigger_streak [OF d b]
    by (auto simp: Let_def record_act_def counter_after_def due_def h dvd_eq_mod_eq_0)
qed

lemma constant_poll:
  assumes "\<forall>t \<in> set ts. trigger_ok t"
  shows "process_list record_act record_deact rd (counters_after rd k ts) ss =
    Inr (counters_after rd (Suc k) ts, ss @ map Activate (filter (due rd (Suc k)) ts))"
  using assms
proof (induction ts arbitrary: ss)
  case (Cons t ts)
  then show ?case by (simp add: counters_after_def constant_trigger)
qed (simp add: counters_after_def)

definition constant_signals :: "reading \<Rightarrow> nat \<Rightarrow> nat \<Rightarrow> TriggerType list \<Rightarrow> signal list" where
  "constant_signals rd k n ts = concat (map (\<lambda>i. map Activate (filter (due rd i) ts)) [Suc k..<Suc (k + n)])"

lemma constant_run:
  assumes "\<forall>t \<in> set ts. trigger_ok t"
  shows "run_triggers record_act record_deact (replicate n rd) (counters_after rd k ts) ss =
    Inr (counters_after rd (k + n) ts, ss @ constant_signals rd k n ts)"
  using assms
proof (induction n arbitrary: k ss)
  case 0
  then show ?case by (simp add: constant_signals_def)
next
  case (Suc n)
  have "[Suc k..<Suc (k + Suc n)] = Suc k # [Suc (Suc k)..<Suc (Suc k + n)]" by (simp add: upt_conv_Cons)
  with Suc show ?case by (simp add: constant_poll constant_signals_def)
qed

section \<open>A run of the sampler\<close>

lemma mock_reading:
  "(mock_getCpuState ResProviderMock_new, mock_getRamState ResProviderMock_new, mock_getHddState ResProviderMock_new) = ex_reading"
  by (simp add: ex_reading_def mock_getCpuState_def mock_getRamState_def mock_getHddState_def ResProviderMock_new_def)

definition mock_inputs :: "(nat \<Rightarrow> time) \<Rightarrow> (poll_input \<times> bool) list" where
  "mock_inputs c = map (mock_poll c ResProviderMock_new) [1..<Suc (2 * nat SAMPLES_NUMBER)]"

lemma sample_to_end_eq:
  "sample_to_end P ResProviderMock_new m w = pollingFunction (buffers P) (mock_inputs (clock P)) 0 m w"
  by (simp only: sample_to_end_def mock_inputs_def)

lemma mock_polls: "polls_done (mock_inputs c) = 10" "map polled (run_inputs (mock_inputs c)) = replicate 10 ex_reading"
proof -
  have u: "[1..<Suc (2 * nat SAMPLES_NUMBER)] = [1, 2, 3, 4, 5, 6, 7, 8, 9, 10, 11, 12, 13, 14, 15, 16, 17, 18, 19, 20]"
    by (simp add: SAMPLES_NUMBER_def upt_rec)
  show "polls_done (mock_inputs c) = 10"
    unfolding mock_inputs_def u by (simp add: mock_poll_def mock_afterPoll_def SAMPLES_NUMBER_def)
  show "map polled (run_inputs (mock_inputs c)) = replicate 10 ex_reading"
    unfolding mock_inputs_def u by (simp add: mock_poll_def mock_afterPoll_def SAMPLES_NUMBER_def mock_reading eval_nat_numeral)
qed

definition platform_ok :: "'b platform \<Rightarrow> bool" where
  "platform_ok P \<longleftrightarrow> boost_ok (buffers P) \<and> (\<forall>ts. distinct ts \<longrightarrow> mset (order P ts) = mset ts)"

definition conf_ok :: "TriggerType list \<Rightarrow> LogType list \<Rightarrow> bool" where
  "conf_ok ts ls \<longleftrightarrow> distinct ts \<and> (\<forall>t \<in> set ts. trigger_ok t) \<and> (\<forall>l \<in> set ls. log_ok l)"

lemma order_facts:
  assumes "platform_ok P" and "conf_ok ts ls"
  shows "set (order P ts) = set ts" and "distinct (order P ts)" and "\<forall>t \<in> set (order P ts). trigger_ok t"
proof -
  have m: "mset (order P ts) = mset ts" using assms by (simp add: platform_ok_def conf_ok_def)
  then show s: "set (order P ts) = set ts" by (rule mset_eq_setD)
  show "distinct (order P ts)" using mset_eq_imp_distinct_iff [OF m] assms(2) by (simp add: conf_ok_def)
  show "\<forall>t \<in> set (order P ts). trigger_ok t" unfolding s using assms(2) by (simp add: conf_ok_def)
qed

lemma fold_add_new_distinct: "distinct (us @ ts) \<Longrightarrow> fold add_new ts us = us @ ts"
proof (induction ts arbitrary: us)
  case (Cons t ts)
  then have "add_new t us = us @ [t]" by (simp add: add_new_def)
  with Cons.IH [of "us @ [t]"] Cons.prems show ?case by simp
qed simp

lemma new_triggerStates:
  "distinct ts \<Longrightarrow> triggerStates (SamplingManager_new B ls ts act deact) = counters_after rd 0 ts"
  using initial_triggers [of ts "[]"] fold_add_new_distinct [of "[]" ts]
  by (simp add: SamplingManager_new_def initializeTriggers_def initializeLoggingBuffers_keeps
      initializeSamplesBuffers_def fresh_triggers_def counters_after_def counter_after_def split: prod.split)

abbreviation test_signals :: "TriggerType list \<Rightarrow> signal list" where
  "test_signals \<equiv> constant_signals ex_reading 0 10"

lemma test_run_triggers:
  assumes "platform_ok P" and "conf_ok ts ls"
  shows "run_triggers record_act record_deact (replicate 10 ex_reading)
      (triggerStates (SamplingManager_new (buffers P) ls (order P ts) act deact)) [] =
    Inr (counters_after ex_reading 10 (order P ts), test_signals (order P ts))"
  using constant_run [OF order_facts(3) [OF assms], of 10 ex_reading 0 "[]"]
  by (simp add: new_triggerStates [OF order_facts(2) [OF assms], where rd = ex_reading])

lemma sample_recorded:
  assumes "platform_ok P" and "conf_ok ts ls"
  shows "\<exists>m. sample_to_end P ResProviderMock_new (SamplingManager_new (buffers P) ls (order P ts) record_act record_deact) [] =
    Inr (10, m, test_signals (order P ts))"
proof -
  let ?is = "mock_inputs (clock P)"
  have B: "boost_ok (buffers P)" "\<forall>l \<in> set ls. log_ok l" using assms by (simp_all add: platform_ok_def conf_ok_def)
  from recorder.polling_ok [OF B order_facts(3) [OF assms] TrueI, of ?is "[]"] obtain m ss where
    run: "pollingFunction (buffers P) ?is 0 (SamplingManager_new (buffers P) ls (order P ts) record_act record_deact) [] =
      Inr (10, m, ss)" unfolding mock_polls(1) by blast
  with new_run_triggers [OF B, of ?is "order P ts" record_act record_deact "[]"]
  have "ss = test_signals (order P ts)"
    unfolding mock_polls test_run_triggers [OF assms] by simp
  with run show ?thesis by (auto simp: sample_to_end_eq)
qed

lemma count_list_distinct: "distinct xs \<Longrightarrow> count_list xs t = (if t \<in> set xs then 1 else 0)"
  by (induction xs) (auto simp: count_list_0_iff)

lemma count_fired_eq:
  assumes P: "platform_ok P" "conf_ok ts ls" and p: "wf_predicate p" "distinct (getPredicateOperands (kind p))"
    and run: "run_signals (filter (\<lambda>s. signal_trigger s \<in> set (getPredicateOperands (kind p))) (test_signals (order P ts))) p
      = Inr (q, cs)"
  shows "count_fired P ts ls p = Inr (length cs)"
proof -
  let ?w = "\<lparr>predicates = Map.empty, heap = [0 \<mapsto> p], called = []\<rparr>"
  let ?is = "mock_inputs (clock P)"
  obtain v where v: "addPredicate 0 ?w = Inr v" and h: "heap v = [0 \<mapsto> p]" and c: "called v = []"
    and b: "\<And>t. bucket v t = replicate (count_list (getPredicateOperands (kind p)) t) 0"
    using addPredicate_effect [of ?w 0 p] by (auto simp: bucket_def)
  note one = count_list_distinct [OF p(2)]
  have g: "wf_world v" "registered 0 v" "own_callback 0 v" "heap v 0 = Some p"
    using h b one p(1) by (auto simp: wf_world_def registered_def own_callback_def split: if_splits)
  have B: "boost_ok (buffers P)" "\<forall>l \<in> set ls. log_ok l" using P by (simp_all add: platform_ok_def conf_ok_def)
  obtain m1 ss m' w' where rec: "pollingFunction (buffers P) ?is 0
      (SamplingManager_new (buffers P) ls (order P ts) record_act record_deact) [] = Inr (polls_done ?is, m1, ss)"
    and run': "pollingFunction (buffers P) ?is 0
      (connectPredicateEngine (SamplingManager_new (buffers P) ls (order P ts) (\<lambda>t w. Inr w) (\<lambda>t w. Inr w))) v =
      Inr (polls_done ?is, m', w')" and eng: "engine_run ss v = Inr w'"
    using sampler_engine [OF B order_facts(3) [OF P] g(1)] by metis
  have "ss = test_signals (order P ts)" using sample_recorded [OF P] rec by (auto simp: sample_to_end_eq)
  with engine_run_delivers [OF g, of ss] run eng have "called w' = cs" using c by (simp add: filter_True)
  with v run' show ?thesis
    by (simp add: count_fired_def sample_to_end_eq SamplerManagerMock_new_def)
qed

section \<open>The configurations\<close>

text \<open>The variables of the parser are such that a parse can start; a parse of a file of definitions leaves them so.\<close>

definition ready :: "parser \<Rightarrow> bool" where
  "ready g \<longleftrightarrow> idle (fresh_start g)"

lemma ready_init [simp]: "ready parser_init"
  by (simp add: ready_def idle_def fresh_start_def parser_init_def)

lemma run_config_ready:
  assumes "ready g" and "list_all line_ok ls"
  shows "\<exists>g'. ConfigurationParser_run (render_config ls) g =
    Some (Inr (concat (map line_triggers ls), concat (map line_logs ls), g')) \<and> ready g'"
proof -
  from scan_config [OF assms(1) [unfolded ready_def] assms(2), of "[]"] obtain g' where
    s: "scan (render_config ls) (fresh_start g) [] = Some (Inr (g', []))" "idle g'"
      "triggerTypes g' = concat (map line_triggers ls)" "logTypes g' = concat (map line_logs ls)"
    by (auto simp: fresh_start_def)
  from s(2) have "ready g'" by (simp add: ready_def idle_def fresh_start_def)
  with s show ?thesis by (auto simp: run_eq)
qed

lemma with_parser_eq:
  assumes "ready g" and "list_all line_ok ls" and "render_config ls = conf"
    and "test (concat (map line_triggers ls)) (concat (map line_logs ls)) = Inr checks"
  shows "\<exists>g'. with_parser conf test g = Some (Inr (checks, g')) \<and> ready g'"
  using run_config_ready [OF assms(1,2)] assms(3,4) by (auto simp: with_parser_def)

abbreviation indented :: layout where
  "indented \<equiv> \<lparr>margin = ''    '', last_for = True\<rparr>"

abbreviation after_gap :: layout where
  "after_gap \<equiv> \<lparr>margin = ''\<newline>    '', last_for = True\<rparr>"

definition engine_lines :: "definition_line list" where
  "engine_lines =
     [Trigger_line after_gap CPU OVER (One (80, PERCENT, ''%'')) (One [(8, Sec)]),
      Trigger_line indented MEMORY OVER (One (200, MB, ''MB'')) (One [(6, Sec)]),
      Trigger_line indented DISK UNDER (One (10, MB, ''MB/s'')) (One [(2, Sec)]),
      Trigger_line indented MEMORY OVER (One (75, PERCENT, ''%'')) (One [(10, Sec)]),
      Trigger_line indented DISK OVER (One (9, MB, ''mb/s'')) (One [(1, Min), (2, Sec)]),
      Log_line after_gap LOG_CPU (Braces [[(3, Hour)]]) (Braces [[(7, Sec)]]),
      Log_line indented LOG_MEMORY (Braces [[(12, Hour)]]) (Braces [[(1, Hour)]]),
      Log_line indented LOG_DISK (One [(3, Hour)]) (One [(4, Sec)])]"

definition sampler_lines :: "definition_line list" where
  "sampler_lines =
     [Trigger_line after_gap CPU OVER (Braces [(70, PERCENT, ''%''), (80, PERCENT, ''%''), (90, PERCENT, ''%'')])
        (Braces [[(8, Sec)], [(1, Min)]]),
      Trigger_line indented MEMORY OVER (One (200, MB, ''MB'')) (One [(6, Sec)]),
      Trigger_line indented MEMORY OVER (One (75, PERCENT, ''%'')) (One [(10, Sec)]),
      Trigger_line indented DISK OVER (One (9, MB, ''mb/s'')) (One [(1, Min), (2, Sec)]),
      Trigger_line indented DISK UNDER (One (10, MB, ''MB/s'')) (One [(2, Sec)]),
      Log_line after_gap LOG_CPU (Braces [[(3, Hour)]]) (Braces [[(7, Sec)]]),
      Log_line indented LOG_MEMORY (Braces [[(12, Hour)]]) (Braces [[(1, Hour)]]),
      Log_line indented LOG_DISK (One [(3, Hour)]) (One [(4, Sec)])]"

definition example_lines :: "definition_line list" where
  "example_lines =
     [Trigger_line after_gap CPU OVER (Braces [(70, PERCENT, ''%''), (80, PERCENT, ''%''), (90, PERCENT, ''%'')])
        (Braces [[(20, Sec)], [(1, Min)]]),
      Trigger_line indented CPU UNDER (Braces [(5, PERCENT, ''%''), (50, PERCENT, ''%'')]) (Braces [[(2, Sec)], [(20, Sec)]]),
      Trigger_line indented MEMORY OVER (One (200, MB, ''MB'')) (One [(1, Sec)]),
      Trigger_line indented MEMORY OVER (One (75, PERCENT, ''%'')) (One [(10, Sec)]),
      Trigger_line indented DISK OVER (One (9, MB, ''mb/s'')) (One [(1, Min), (2, Sec)]),
      Log_line after_gap LOG_CPU (Braces [[(3, Hour)], [(6, Hour)], [(12, Hour)]])
        (Braces [[(30, Sec)], [(5, Min)], [(15, Min)], [(30, Min)], [(1, Hour)]]),
      Log_line indented LOG_MEMORY (Braces [[(12, Hour)], [(1, Day)], [(1, Day), (12, Hour)], [(2, Day)]])
        (Braces [[(1, Hour)], [(6, Hour)]]),
      Log_line indented LOG_MEMORY (Braces [[(2, Hour)], [(8, Hour)]]) (Braces [[(15, Sec)]]),
      Trigger_line indented DISK UNDER (One (1, MB, ''MB/s'')) (One [(2, Sec)]),
      Log_line indented LOG_DISK (One [(72, Hour)]) (Braces [[(1, Hour)]]),
      Log_line indented LOG_DISK (One [(72, Hour)]) (Braces [[(2, Hour)]]),
      Log_line indented LOG_DISK (One [(72, Hour)]) (One [(3, Hour)])]"

lemma texts:
  "render_config engine_lines = engine_conf" "render_config sampler_lines = sampler_conf"
  "render_config example_lines = example_file"
  by code_simp+

lemmas line_oks = span_ok_def amount_ok_def layout_ok_def spaces_def blanks_def LONG_MAX_def SEC_IN_MIN_def
  SEC_IN_HOUR_def SEC_IN_DAY_def

lemma lines_ok: "list_all line_ok engine_lines" "list_all line_ok sampler_lines" "list_all line_ok example_lines"
  by (simp_all add: engine_lines_def sampler_lines_def example_lines_def line_oks)

text \<open>The triggers of the tests. Under the load of the test double \<open>over_75\<close>, \<open>disk_over_9\<close> and \<open>cpu_over_90\<close> do
  not hold.\<close>

definition over_75 :: TriggerType where
  "over_75 = \<lparr>resource = MEMORY, fluctuationType = OVER, triggerValue = \<lparr>unitType = PERCENT, rvalue = 75\<rparr>, duration = 10\<rparr>"

definition disk_over_9 :: TriggerType where
  "disk_over_9 = \<lparr>resource = DISK, fluctuationType = OVER, triggerValue = \<lparr>unitType = MB, rvalue = 9\<rparr>, duration = 62\<rparr>"

definition cpu_over :: "long \<Rightarrow> long \<Rightarrow> TriggerType" where
  "cpu_over v d = \<lparr>resource = CPU, fluctuationType = OVER, triggerValue = \<lparr>unitType = PERCENT, rvalue = v\<rparr>, duration = d\<rparr>"

definition test_logs :: "LogType list" where
  "test_logs = [\<lparr>log_resource = LOG_CPU, log_duration = 10800, log_resolution = 7\<rparr>,
     \<lparr>log_resource = LOG_MEMORY, log_duration = 43200, log_resolution = 3600\<rparr>,
     \<lparr>log_resource = LOG_DISK, log_duration = 10800, log_resolution = 4\<rparr>]"

abbreviation engine_triggers :: "TriggerType list" where
  "engine_triggers \<equiv> [ex_cpu, ex_mem, ex_disk, over_75, disk_over_9]"

abbreviation sampler_triggers :: "TriggerType list" where
  "sampler_triggers \<equiv> [cpu_over 70 8, cpu_over 70 60, cpu_over 80 8, cpu_over 80 60, cpu_over 90 8, cpu_over 90 60,
     ex_mem, over_75, disk_over_9, ex_disk]"

lemmas test_trigger_defs = ex_cpu_def ex_mem_def ex_disk_def over_75_def disk_over_9_def cpu_over_def

lemma lines_meaning:
  "concat (map line_triggers engine_lines) = engine_triggers" "concat (map line_logs engine_lines) = test_logs"
  "concat (map line_triggers sampler_lines) = sampler_triggers" "concat (map line_logs sampler_lines) = test_logs"
  by (simp_all add: engine_lines_def sampler_lines_def test_logs_def test_trigger_defs amount_value_def
      SEC_IN_MIN_def SEC_IN_HOUR_def)

lemma confs_ok: "conf_ok engine_triggers test_logs" "conf_ok sampler_triggers test_logs"
  by (simp_all add: conf_ok_def test_trigger_defs test_logs_def trigger_ok_def unit_ok_def log_ok_def LONG_MAX_def)

lemma loads:
  "holds ex_reading (cpu_over 70 d)" "holds ex_reading (cpu_over 80 d)" "\<not> holds ex_reading (cpu_over 90 d)"
  "holds ex_reading ex_cpu" "holds ex_reading ex_mem" "holds ex_reading ex_disk"
  "\<not> holds ex_reading over_75" "\<not> holds ex_reading disk_over_9"
proof -
  have d: "dgt (double_of_int 85) (double_of_int 70)" "dgt (double_of_int 85) (double_of_int 80)"
    "\<not> dgt (double_of_int 85) (double_of_int 90)" by code_simp+
  then show "holds ex_reading (cpu_over 70 d)" "holds ex_reading (cpu_over 80 d)" "\<not> holds ex_reading (cpu_over 90 d)"
    by (simp_all add: holds_def exceeds_def cpu_gt_def cpu_over_def ex_reading_def CpuState_new_def)
  show "holds ex_reading ex_cpu" "holds ex_reading ex_mem" "holds ex_reading ex_disk"
    by (simp_all add: holds_def ex_reading_exceeds)
  show "\<not> holds ex_reading over_75" "\<not> holds ex_reading disk_over_9" by code_simp+
qed

section \<open>The signals of the tests\<close>

text \<open>Which of two triggers the iteration visits first.\<close>

fun before :: "'a \<Rightarrow> 'a \<Rightarrow> 'a list \<Rightarrow> bool" where
  "before a b [] \<longleftrightarrow> False"
| "before a b (x # xs) \<longleftrightarrow> x = a \<or> x \<noteq> b \<and> before a b xs"

lemma filter_one: "distinct xs \<Longrightarrow> a \<in> set xs \<Longrightarrow> filter (\<lambda>t. t = a) xs = [a]"
  by (induction xs) (auto simp: filter_empty_conv)

lemma filter_two:
  "distinct xs \<Longrightarrow> a \<in> set xs \<Longrightarrow> b \<in> set xs \<Longrightarrow> a \<noteq> b \<Longrightarrow>
     filter (\<lambda>t. t = a \<or> t = b) xs = (if before a b xs then [a, b] else [b, a])"
proof (induction xs)
  case (Cons x xs)
  show ?case
  proof (cases "x = a \<or> x = b")
    case True
    then have "filter (\<lambda>t. t = a \<or> t = b) xs = (if x = a then [b] else [a])"
      using Cons.prems filter_one [of xs] by (auto intro!: trans [OF filter_cong filter_one])
    with True Cons.prems show ?thesis by auto
  next
    case False
    with Cons show ?thesis by auto
  qed
qed simp

lemma ten: "[Suc 0..<Suc (0 + 10)] = [1, 2, 3, 4, 5, 6, 7, 8, 9, 10]"
  by (simp add: upt_rec)

definition engine_due :: "nat \<Rightarrow> TriggerType \<Rightarrow> bool" where
  "engine_due k t \<longleftrightarrow> t = ex_cpu \<and> 8 dvd k \<or> t = ex_mem \<and> 6 dvd k \<or> t = ex_disk \<and> 2 dvd k"

lemma engine_due:
  assumes "t \<in> set engine_triggers"
  shows "due ex_reading k t = engine_due k t"
proof -
  have n: "ex_cpu \<noteq> ex_mem" "ex_cpu \<noteq> ex_disk" "ex_mem \<noteq> ex_disk" "over_75 \<notin> {ex_cpu, ex_mem, ex_disk}"
    "disk_over_9 \<notin> {ex_cpu, ex_mem, ex_disk}" "nat (duration ex_cpu) = 8" "nat (duration ex_mem) = 6"
    "nat (duration ex_disk) = 2"
    by (simp_all add: test_trigger_defs)
  from assms consider "t = ex_cpu" | "t = ex_mem" | "t = ex_disk" | "t = over_75" | "t = disk_over_9" by auto
  then show ?thesis by cases (use n loads in \<open>simp_all add: due_def engine_due_def\<close>)
qed

lemma engine_signals:
  assumes "set ts = set engine_triggers" and "distinct ts"
  shows "test_signals ts = map Activate ([ex_disk, ex_disk]
    @ (if before ex_mem ex_disk ts then [ex_mem, ex_disk] else [ex_disk, ex_mem])
    @ (if before ex_cpu ex_disk ts then [ex_cpu, ex_disk] else [ex_disk, ex_cpu]) @ [ex_disk])"
proof -
  have ne: "ex_cpu \<noteq> ex_disk" "ex_mem \<noteq> ex_disk" "ex_cpu \<noteq> ex_mem" by (simp_all add: test_trigger_defs)
  have m: "ex_cpu \<in> set ts" "ex_mem \<in> set ts" "ex_disk \<in> set ts" using assms(1) by simp_all
  have f: "filter (due ex_reading k) ts = filter (engine_due k) ts" for k
    by (rule filter_cong [OF refl]) (use assms(1) engine_due in blast)
  have none: "filter (engine_due k) ts = []" if "k \<in> {1, 3, 5, 7, 9}" for k
    using that by (auto simp: engine_due_def)
  have one: "filter (engine_due k) ts = [ex_disk]" if "k \<in> {2, 4, 10}" for k
  proof -
    have "engine_due k = (\<lambda>t. t = ex_disk)" using that by (auto simp: engine_due_def fun_eq_iff)
    then show ?thesis using filter_one [OF assms(2) m(3)] by simp
  qed
  have "engine_due 6 = (\<lambda>t. t = ex_mem \<or> t = ex_disk)" "engine_due 8 = (\<lambda>t. t = ex_cpu \<or> t = ex_disk)"
    by (auto simp: engine_due_def fun_eq_iff)
  then have two: "filter (engine_due 6) ts = (if before ex_mem ex_disk ts then [ex_mem, ex_disk] else [ex_disk, ex_mem])"
    "filter (engine_due 8) ts = (if before ex_cpu ex_disk ts then [ex_cpu, ex_disk] else [ex_disk, ex_cpu])"
    using filter_two [OF assms(2)] m ne by simp_all
  show ?thesis unfolding constant_signals_def ten f by (simp add: none one two)
qed

section \<open>The predicates under these signals\<close>

lemmas signal_run = activate_def init_triggerState_def state_at_def andE_def orE_def deactivate_def

lemma test_triggers_distinct: "ex_cpu \<noteq> ex_mem" "ex_cpu \<noteq> ex_disk" "ex_mem \<noteq> ex_disk" "ex_mem \<noteq> ex_cpu" "ex_disk \<noteq> ex_cpu"
    "ex_disk \<noteq> ex_mem" "over_75 \<noteq> ex_cpu" "over_75 \<noteq> ex_mem" "over_75 \<noteq> ex_disk" "ex_cpu \<noteq> over_75" "ex_mem \<noteq> over_75"
    "ex_disk \<noteq> over_75" "disk_over_9 \<noteq> ex_cpu" "disk_over_9 \<noteq> ex_mem" "disk_over_9 \<noteq> ex_disk" "disk_over_9 \<noteq> over_75"
    "ex_cpu \<noteq> disk_over_9" "ex_mem \<noteq> disk_over_9" "ex_disk \<noteq> disk_over_9" "over_75 \<noteq> disk_over_9"
  by (simp_all add: test_trigger_defs)

lemma Ex_Not [simp]: "Ex Not"
  by (rule exI [of _ False]) simp

lemma fired_counts:
  assumes "platform_ok P"
  defines "ts \<equiv> order P engine_triggers"
  shows "count_fired P engine_triggers test_logs (new_1or2and3 () ex_cpu ex_mem ex_disk) =
      Inr (if before ex_mem ex_disk ts then if before ex_cpu ex_disk ts then 2 else 3
           else if before ex_cpu ex_disk ts then 1 else 2)"
    and "count_fired P engine_triggers test_logs (new_1or2and3 () ex_cpu over_75 ex_disk) =
      Inr (if before ex_cpu ex_disk ts then 3 else 2)"
    and "count_fired P engine_triggers test_logs (new_1or2and3 () disk_over_9 over_75 ex_disk) = Inr 0"
    and "count_fired P engine_triggers test_logs (new_1and2 () ex_cpu ex_mem) = Inr 1"
    and "count_fired P engine_triggers test_logs (new_1and2 () ex_cpu over_75) = Inr 0"
    and "count_fired P engine_triggers test_logs (new_1and2 () disk_over_9 over_75) = Inr 0"
    and "count_fired P engine_triggers test_logs (new_1element () ex_cpu) = Inr 1"
    and "count_fired P engine_triggers test_logs (new_1element () over_75) = Inr 0"
proof -
  note ord = order_facts [OF assms(1) confs_ok(1), folded ts_def]
  note sig = engine_signals [OF ord(1,2)]
  have run: "count_fired P engine_triggers test_logs p = Inr n"
    if "wf_predicate p" "distinct (getPredicateOperands (kind p))"
      "\<exists>q cs. run_signals (filter (\<lambda>s. signal_trigger s \<in> set (getPredicateOperands (kind p))) (test_signals ts)) p
        = Inr (q, cs) \<and> length cs = n" for p n
    using count_fired_eq [OF assms(1) confs_ok(1) that(1,2)] that(3) unfolding ts_def by blast
  note s = sig signal_run test_triggers_distinct
  show "count_fired P engine_triggers test_logs (new_1or2and3 () ex_cpu ex_mem ex_disk) =
      Inr (if before ex_mem ex_disk ts then if before ex_cpu ex_disk ts then 2 else 3
           else if before ex_cpu ex_disk ts then 1 else 2)"
    by (rule run; simp add: s new_1or2and3_def wf_predicate_def)
  show "count_fired P engine_triggers test_logs (new_1or2and3 () ex_cpu over_75 ex_disk) =
      Inr (if before ex_cpu ex_disk ts then 3 else 2)"
    by (rule run; simp add: s new_1or2and3_def wf_predicate_def)
  show "count_fired P engine_triggers test_logs (new_1or2and3 () disk_over_9 over_75 ex_disk) = Inr 0"
    by (rule run; simp add: s new_1or2and3_def wf_predicate_def)
  show "count_fired P engine_triggers test_logs (new_1and2 () ex_cpu ex_mem) = Inr 1"
    by (rule run; simp add: s new_1and2_def wf_predicate_def)
  show "count_fired P engine_triggers test_logs (new_1and2 () ex_cpu over_75) = Inr 0"
    by (rule run; simp add: s new_1and2_def wf_predicate_def)
  show "count_fired P engine_triggers test_logs (new_1and2 () disk_over_9 over_75) = Inr 0"
    by (rule run; simp add: s new_1and2_def wf_predicate_def)
  show "count_fired P engine_triggers test_logs (new_1element () ex_cpu) = Inr 1"
    by (rule run; simp add: s new_1element_def wf_predicate_def)
  show "count_fired P engine_triggers test_logs (new_1element () over_75) = Inr 0"
    by (rule run; simp add: s new_1element_def wf_predicate_def)
qed

section \<open>The tests of the sampler under these signals\<close>

lemma count_signals:
  "foldE (send count_resource (\<lambda>t w. Inr w)) (map Activate ts) (c, r, h) =
    Inr (c + length (filter (\<lambda>t. resource t = CPU) ts), r + length (filter (\<lambda>t. resource t = MEMORY) ts),
      h + length (filter (\<lambda>t. resource t = DISK) ts))"
proof (induction ts arbitrary: c r h)
  case (Cons t ts)
  then show ?case by (cases "resource t") (simp_all add: count_resource_def)
qed simp

text \<open>Counting does not see the iteration order.\<close>

definition due_triggers :: "TriggerType list \<Rightarrow> TriggerType list" where
  "due_triggers ts = concat (map (\<lambda>k. filter (due ex_reading k) ts) [1, 2, 3, 4, 5, 6, 7, 8, 9, 10])"

lemma test_signals_due: "test_signals ts = map Activate (due_triggers ts)"
  unfolding constant_signals_def due_triggers_def ten by (simp add: map_concat)

lemma due_triggers_order: "mset ts = mset us \<Longrightarrow> mset (due_triggers ts) = mset (due_triggers us)"
  by (simp add: due_triggers_def)

lemma length_filter_mset: "mset xs = mset ys \<Longrightarrow> length (filter R xs) = length (filter R ys)"
  by (metis mset_filter size_mset)

lemma sampler_due:
  "length (filter (\<lambda>t. resource t = CPU) (due_triggers sampler_triggers)) = 2"
  "length (filter (\<lambda>t. resource t = MEMORY) (due_triggers sampler_triggers)) = 1"
  "length (filter (\<lambda>t. resource t = DISK) (due_triggers sampler_triggers)) = 5"
proof -
  have d: "due ex_reading k ex_mem \<longleftrightarrow> 6 dvd k" "due ex_reading k ex_disk \<longleftrightarrow> 2 dvd k" "\<not> due ex_reading k over_75"
    "\<not> due ex_reading k disk_over_9" "due ex_reading k (cpu_over 70 8) \<longleftrightarrow> 8 dvd k" "due ex_reading k (cpu_over 80 8) \<longleftrightarrow> 8 dvd k"
    "due ex_reading k (cpu_over 70 60) \<longleftrightarrow> 60 dvd k" "due ex_reading k (cpu_over 80 60) \<longleftrightarrow> 60 dvd k"
    "\<not> due ex_reading k (cpu_over 90 d)" for k d
    using loads by (simp_all add: due_def test_trigger_defs)
  have r: "resource ex_mem = MEMORY" "resource ex_disk = DISK" "resource (cpu_over v d) = CPU" for v d
    by (simp_all add: test_trigger_defs)
  have "due_triggers sampler_triggers = [ex_disk, ex_disk, ex_mem, ex_disk, cpu_over 70 8, cpu_over 80 8, ex_disk, ex_disk]"
    unfolding due_triggers_def by (simp add: d)
  then show "length (filter (\<lambda>t. resource t = CPU) (due_triggers sampler_triggers)) = 2"
    "length (filter (\<lambda>t. resource t = MEMORY) (due_triggers sampler_triggers)) = 1"
    "length (filter (\<lambda>t. resource t = DISK) (due_triggers sampler_triggers)) = 5" by (simp_all add: r)
qed

lemma sampler_counts:
  assumes "platform_ok P"
  shows "\<exists>m. sample_to_end P ResProviderMock_new (SamplerManagerMock_new P test_logs sampler_triggers count_resource)
    (0, 0, 0) = Inr (10, m, 2, 1, 5)"
proof -
  let ?ts = "order P sampler_triggers" and ?is = "mock_inputs (clock P)" and ?act = "count_resource"
    and ?deact = "\<lambda>t w. Inr w :: (nat \<times> nat \<times> nat) result"
  note ord = order_facts [OF assms confs_ok(2)]
  have B: "boost_ok (buffers P)" "\<forall>l \<in> set test_logs. log_ok l"
    using assms confs_ok(2) by (simp_all add: platform_ok_def conf_ok_def)
  have new: "counts ?ts [] = counters_after ex_reading 0 ?ts"
    by (simp add: counts_def counters_after_def counter_after_def)
  have rec: "run_triggers record_act record_deact (replicate 10 ex_reading) (counters_after ex_reading 0 ?ts) [] =
      Inr (counters_after ex_reading 10 ?ts, test_signals ?ts)"
    using constant_run [OF ord(3), of 10 ex_reading 0 "[]"] by simp
  with run_triggers_due [OF ord(3), of record_act record_deact "replicate 10 ex_reading" "[]"]
  have sig: "signals_due ?ts [] (replicate 10 ex_reading) = test_signals ?ts"
    "counts ?ts (replicate 10 ex_reading) = counters_after ex_reading 10 ?ts"
    by (simp_all add: new send_record)
  have m: "mset (due_triggers ?ts) = mset (due_triggers sampler_triggers)"
    using assms confs_ok(2) by (intro due_triggers_order) (simp add: platform_ok_def conf_ok_def)
  have "foldE (send ?act ?deact) (test_signals ?ts) (0, 0, 0) = Inr (2, 1, 5)"
    unfolding test_signals_due count_signals
    using sampler_due length_filter_mset [OF m] by simp
  then have "run_triggers ?act ?deact (replicate 10 ex_reading) (counters_after ex_reading 0 ?ts) (0, 0, 0) =
      Inr (counters_after ex_reading 10 ?ts, 2, 1, 5)"
    using run_triggers_due [OF ord(3), of ?act ?deact "replicate 10 ex_reading" "(0, 0, 0)"] by (simp add: new sig)
  with new_run_triggers [OF B, of ?is ?ts ?act ?deact "(0, 0, 0)"]
  have "bindE (pollingFunction (buffers P) ?is 0 (SamplingManager_new (buffers P) test_logs ?ts ?act ?deact) (0, 0, 0))
      (\<lambda>(k, m', w'). Inr (k, triggerStates m', w')) = Inr (10, counters_after ex_reading 10 ?ts, 2, 1, 5)"
    unfolding mock_polls new_triggerStates [OF ord(2), where rd = ex_reading] by simp
  then show ?thesis
    by (auto simp: sample_to_end_eq SamplerManagerMock_new_def bindE_Inr_iff split: prod.splits)
qed

lemma sampler_logs:
  assumes "platform_ok P" and "sample_to_end P ResProviderMock_new
      (SamplerManagerMock_new P test_logs sampler_triggers count_resource) (0, 0, 0) = Inr (10, m, n)"
  shows "foldE (\<lambda>l checks. bindE (log_checks P m l) (\<lambda>c. Inr (checks @ c))) test_logs [] = Inr [True, True, True]"
proof -
  let ?is = "mock_inputs (clock P)"
  have B: "boost_ok (buffers P)" "\<forall>l \<in> set test_logs. log_ok l"
    using assms confs_ok(2) by (simp_all add: platform_ok_def conf_ok_def)
  note logs = log_contents [OF B _ assms(2) [unfolded sample_to_end_eq SamplerManagerMock_new_def]]
  have len: "length (map f (run_inputs ?is)) = 10" for f :: "poll_input \<Rightarrow> 'z" using mock_polls(1) by simp
  have w: "winner test_logs l = l" if "l \<in> set test_logs" for l
    using that by (auto simp: winner_def test_logs_def LogType_eq_def)
  have "log_checks P m l = Inr [True]" if l: "l \<in> set test_logs" for l
    using logs [OF l, unfolded w [OF l]] l unfolding test_logs_def
    by (auto simp: log_checks_def length_newest log_entries_def blocks_def period_def len log_size_def cdiv_def mock_polls
        newest_def [of _ "[]"])
  then show ?thesis by (simp add: test_logs_def)
qed

section \<open>The test suites\<close>

definition all_tests :: "'b platform \<Rightarrow> (parser \<Rightarrow> (bool list \<times> parser) run) list" where
  "all_tests P = [first_test, predicate_1or2and3_both_or_active P, predicate_1or2and3_one_or_active P,
     predicate_1or2and3_none_or_active P, predicate_1and2_both_active P, predicate_1and2_one_active P,
     predicate_1and2_none_active P, predicate_1operator_active P, predicate_1operator_not_active P,
     log_test P, trigger_test P]"

text \<open>One test after the other: each gets the variables the last one has left.\<close>

fun run_suite :: "(parser \<Rightarrow> (bool list \<times> parser) run) list \<Rightarrow> parser \<Rightarrow> (bool list list \<times> parser) run" where
  "run_suite [] g = Some (Inr ([], g))"
| "run_suite (t # ts) g = (case t g of
       None \<Rightarrow> None
     | Some (Inl e) \<Rightarrow> Some (Inl e)
     | Some (Inr (checks, g1)) \<Rightarrow> (case run_suite ts g1 of
           None \<Rightarrow> None
         | Some (Inl e) \<Rightarrow> Some (Inl e)
         | Some (Inr (rest, g2)) \<Rightarrow> Some (Inr (checks # rest, g2))))"

text \<open>The order of iteration that the tests take for granted.\<close>

definition disk_last :: "'b platform \<Rightarrow> bool" where
  "disk_last P \<longleftrightarrow> before ex_cpu ex_disk (order P engine_triggers) \<and> before ex_mem ex_disk (order P engine_triggers)"

definition gives :: "(parser \<Rightarrow> (bool list \<times> parser) run) \<Rightarrow> bool list \<Rightarrow> bool" where
  "gives test checks \<longleftrightarrow> (\<forall>g. ready g \<longrightarrow> (\<exists>g'. test g = Some (Inr (checks, g')) \<and> ready g'))"

lemma gives_parsed:
  assumes "list_all line_ok ls" and "render_config ls = conf"
    and "test (concat (map line_triggers ls)) (concat (map line_logs ls)) = Inr checks"
  shows "gives (with_parser conf test) checks"
  unfolding gives_def using with_parser_eq [where ls = ls and conf = conf and test = test, OF _ assms] by blast

lemma vec_at_engine [simp]:
  "vec_at engine_triggers 0 = Inr ex_cpu" "vec_at engine_triggers 1 = Inr ex_mem" "vec_at engine_triggers 2 = Inr ex_disk"
  "vec_at engine_triggers 3 = Inr over_75" "vec_at engine_triggers 4 = Inr disk_over_9"
  by (simp_all add: vec_at_def)

lemma engine_tests:
  assumes "platform_ok P"
  defines "ts \<equiv> order P engine_triggers"
  shows "gives (predicate_1or2and3_both_or_active P) [before ex_mem ex_disk ts = before ex_cpu ex_disk ts]"
    and "gives (predicate_1or2and3_one_or_active P) [before ex_cpu ex_disk ts]"
    and "gives (predicate_1or2and3_none_or_active P) [True]" and "gives (predicate_1and2_both_active P) [True]"
    and "gives (predicate_1and2_one_active P) [True]" and "gives (predicate_1and2_none_active P) [True]"
    and "gives (predicate_1operator_active P) [True]" and "gives (predicate_1operator_not_active P) [True]"
  unfolding predicate_1or2and3_both_or_active_def predicate_1or2and3_one_or_active_def
    predicate_1or2and3_none_or_active_def predicate_1and2_both_active_def predicate_1and2_one_active_def
    predicate_1and2_none_active_def predicate_1operator_active_def predicate_1operator_not_active_def ts_def
  by (rule gives_parsed [OF lines_ok(1) texts(1)], unfold lines_meaning, simp add: fired_counts [OF assms(1)])+

lemma sampler_tests:
  assumes "platform_ok P"
  shows "gives (log_test P) [True, True, True]" and "gives (trigger_test P) [True, True, True]"
proof -
  from sampler_counts [OF assms] obtain m where m: "sample_to_end P ResProviderMock_new
      (SamplerManagerMock_new P test_logs sampler_triggers count_resource) (0, 0, 0) = Inr (10, m, 2, 1, 5)" by blast
  show "gives (log_test P) [True, True, True]" unfolding log_test_def
    by (rule gives_parsed [OF lines_ok(2) texts(2)]) (unfold lines_meaning, simp add: m sampler_logs [OF assms m])
  show "gives (trigger_test P) [True, True, True]" unfolding trigger_test_def
    by (rule gives_parsed [OF lines_ok(2) texts(2)]) (unfold lines_meaning, simp add: m)
qed

lemma parser_test: "gives first_test [True, True]"
  unfolding first_test_def
  by (rule gives_parsed [OF lines_ok(3) texts(3)]) (simp add: example_lines_def)

lemma gives_suite:
  assumes "\<forall>t \<in> set tests. \<exists>c. gives t c \<and> list_all (\<lambda>b. b) c" and "ready g"
  shows "\<exists>css g'. run_suite tests g = Some (Inr (css, g')) \<and> length css = length tests
    \<and> list_all (list_all (\<lambda>b. b)) css"
  using assms
proof (induction tests arbitrary: g)
  case (Cons t tests)
  from Cons.prems obtain c g1 where "t g = Some (Inr (c, g1))" "ready g1" "list_all (\<lambda>b. b) c"
    by (auto simp: gives_def)
  with Cons.IH [of g1] Cons.prems(1) show ?case by auto
qed simp

lemma state_tests:
  "CpuState_setters_getters_test = [True, True]" "HddState_setters_getters_test = [True, True, True, True]"
  "RamState_setters_getters_test = [True, True, True]" "RamState_percent_getter_test = [True, True]"
  by code_simp+

lemma engine_checks:
  assumes "platform_ok P" and "disk_last P" and "t \<in> set (all_tests P)"
  shows "\<exists>c. gives t c \<and> list_all (\<lambda>b. b) c"
proof -
  have T: "gives t c \<Longrightarrow> c \<in> {[True], [True, True], [True, True, True]} \<Longrightarrow> ?thesis" for c by auto
  note e = engine_tests [OF assms(1)]
  have "gives (predicate_1or2and3_both_or_active P) [True]" "gives (predicate_1or2and3_one_or_active P) [True]"
    using e(1,2) assms(2) by (simp_all add: disk_last_def)
  with e(3-8) sampler_tests [OF assms(1)] parser_test assms(3) T show ?thesis
    unfolding all_tests_def list.set by blast
qed

text \<open>C24: The unit tests of the repository hold of the model: run in any order and as often as one likes,
  with what each leaves in the parser's variables, none of them throws and every check succeeds, on every
  platform whose trigger map visits the disk trigger after the processor and the memory trigger; the
  tests of the states need no platform at all.\<close>

theorem unit_tests_pass:
  assumes "platform_ok P" and "disk_last P" and "set tests \<subseteq> set (all_tests P)"
  shows "(\<exists>css g'. run_suite tests parser_init = Some (Inr (css, g')) \<and> length css = length tests
      \<and> list_all (list_all (\<lambda>b. b)) css)
    \<and> list_all (\<lambda>b. b) (CpuState_setters_getters_test @ HddState_setters_getters_test
        @ RamState_setters_getters_test @ RamState_percent_getter_test)"
proof (rule conjI)
  show "\<exists>css g'. run_suite tests parser_init = Some (Inr (css, g')) \<and> length css = length tests
      \<and> list_all (list_all (\<lambda>b. b)) css"
    by (rule gives_suite) (use engine_checks [OF assms(1,2)] assms(3) in auto)
qed (simp add: state_tests)

text \<open>Two tests of the predicate engine depend on the order in which \<open>std::unordered_map\<close> visits the
  triggers: both succeed exactly if the disk trigger comes after the processor and the memory trigger. The
  standard leaves that order open.\<close>

theorem two_tests_need_order:
  assumes "platform_ok P"
  shows "(\<exists>g'. run_suite [predicate_1or2and3_both_or_active P, predicate_1or2and3_one_or_active P] parser_init =
      Some (Inr ([[True], [True]], g'))) \<longleftrightarrow> disk_last P"
proof -
  let ?m = "before ex_mem ex_disk (order P engine_triggers)" and ?c = "before ex_cpu ex_disk (order P engine_triggers)"
  note e = engine_tests [OF assms]
  obtain g1 where g1: "predicate_1or2and3_both_or_active P parser_init = Some (Inr ([?m = ?c], g1))" "ready g1"
    using e(1) ready_init unfolding gives_def by blast
  obtain g2 where g2: "predicate_1or2and3_one_or_active P g1 = Some (Inr ([?c], g2))"
    using e(2) g1(2) unfolding gives_def by blast
  show ?thesis unfolding run_suite.simps g1(1) option.case sum.case prod.case g2 disk_last_def by auto
qed

definition ex_platform :: "(TriggerType list \<Rightarrow> TriggerType list) \<Rightarrow> any_buffer platform" where
  "ex_platform f = \<lparr>buffers = ring_boost, order = f, clock = int\<rparr>"

lemma ex_platform_ok: "platform_ok (ex_platform (\<lambda>ts. ts))" "platform_ok (ex_platform rev)"
  by (simp_all add: platform_ok_def ex_platform_def ring_boost_ok)

lemma ex_platform_order: "disk_last (ex_platform (\<lambda>ts. ts))" "\<not> disk_last (ex_platform rev)"
  by (simp_all add: disk_last_def ex_platform_def test_trigger_defs)

theorem unit_tests_pass_witness:
  "\<exists>css g'. run_suite (all_tests (ex_platform (\<lambda>ts. ts))) parser_init = Some (Inr (css, g')) \<and> length css = 11
    \<and> list_all (list_all (\<lambda>b. b)) css"
proof -
  have "length (all_tests (ex_platform (\<lambda>ts. ts))) = 11" by (simp add: all_tests_def)
  with unit_tests_pass [OF ex_platform_ok(1) ex_platform_order(1) order_refl] show ?thesis by metis
qed

theorem two_tests_need_order_witness:
  "(\<exists>g'. run_suite [predicate_1or2and3_both_or_active (ex_platform rev), predicate_1or2and3_one_or_active (ex_platform rev)]
    parser_init = Some (Inr ([[True], [True]], g'))) = False"
  using two_tests_need_order [OF ex_platform_ok(2)] ex_platform_order(2) by simp

end
