(* ===== verification/HttpMessages.thy ===== *)
theory HttpMessages
  imports QueryStrings
begin

text \<open>
  The message parsers of \<open>include/utility.hpp\<close>: header fields, request line and status line. The
  loop over the header lines ends only at a line without a colon, and \<open>getline\<close> on an exhausted
  stream leaves the line as it was, so the loop is a partial function: \<open>None\<close> is a call that does
  not return.
\<close>

section \<open>Header fields\<close>

type_synonym 'a call = "'a result option"

text \<open>One line with a colon at \<open>param_end\<close>.\<close>

definition header_line :: "string \<Rightarrow> nat \<Rightarrow> fields result" where
  "header_line line param_end =
     (if param_end + 1 < length line then
        let value_start = (if line ! (param_end + 1) = CHR '' '' then param_end + 2 else param_end + 1) in
        if value_start < length line then
          bindE (substr line 0 (Some param_end)) (\<lambda>name.
          bindE (substr line value_start (usub (length line - 1) value_start)) (\<lambda>value.
            Inr [(name, value)]))
        else Inr []
      else Inr [])"

partial_function (option) header_loop :: "string \<Rightarrow> istream \<Rightarrow> fields \<Rightarrow> (fields \<times> istream) call" where
  "header_loop line st result =
     (case find_char line CHR '':'' of
        None \<Rightarrow> Some (Inr (result, st))
      | Some param_end \<Rightarrow>
          (case header_line line param_end of
             Inl e \<Rightarrow> Some (Inl e)
           | Inr fs \<Rightarrow> (case getline line st of (line', st') \<Rightarrow> header_loop line' st' (result @ fs))))"

definition HttpHeader_parse :: "istream \<Rightarrow> (fields \<times> istream) call" where
  "HttpHeader_parse st = (case getline [] st of (line, st') \<Rightarrow> header_loop line st' [])"

section \<open>Request and status line\<close>

text \<open>The variables a request is parsed into; a failed parse leaves some of them unchanged.\<close>

record request =
  rq_method :: string
  rq_path :: string
  rq_query_string :: string
  rq_version :: string
  rq_header :: fields

text \<open>The loop over the target of the request line, from position \<open>i\<close> on: the start of the query and
  the end of the target.\<close>

fun target_loop :: "nat \<Rightarrow> string \<Rightarrow> nat option \<Rightarrow> nat option \<times> nat option" where
  "target_loop i [] query_start = (query_start, None)"
| "target_loop i (c # cs) query_start =
     (if c = CHR ''?'' \<and> cs \<noteq> [] then target_loop (i + 1) cs (Some (i + 1))
      else if c = CHR '' '' then (query_start, Some i)
      else target_loop (i + 1) cs query_start)"

definition request_target :: "string \<Rightarrow> nat \<Rightarrow> nat option \<Rightarrow> nat \<Rightarrow> request \<Rightarrow> request result" where
  "request_target line method_end query_start target_end rq =
     (case query_start of
        Some qs \<Rightarrow>
          bindE (substr line (method_end + 1) (usub qs (method_end + 2))) (\<lambda>path.
          bindE (substr line qs (usub target_end qs)) (\<lambda>query_string.
            Inr (rq\<lparr>rq_path := path, rq_query_string := query_string\<rparr>)))
      | None \<Rightarrow>
          bindE (substr line (method_end + 1) (usub target_end (method_end + 1))) (\<lambda>path.
            Inr (rq\<lparr>rq_path := path\<rparr>)))"

text \<open>The protocol: \<open>None\<close> if the parse fails.\<close>

definition request_version :: "string \<Rightarrow> nat \<Rightarrow> request \<Rightarrow> request option result" where
  "request_version line target_end rq =
     (case find_from line CHR ''/'' (target_end + 1) of
        None \<Rightarrow> Inr None
      | Some protocol_end \<Rightarrow>
          bindE (substr line (target_end + 1) (usub protocol_end (target_end + 1))) (\<lambda>protocol.
          if protocol \<noteq> ''HTTP'' then Inr None
          else bindE (substr line (protocol_end + 1) (usub (length line) (protocol_end + 2)))
            (\<lambda>version. Inr (Some (rq\<lparr>rq_version := version\<rparr>)))))"

definition request_line :: "string \<Rightarrow> request \<Rightarrow> (bool \<times> request) result" where
  "request_line line rq =
     (case find_char line CHR '' '' of
        None \<Rightarrow> Inr (False, rq)
      | Some method_end \<Rightarrow>
          bindE (substr line 0 (Some method_end)) (\<lambda>method.
          let rq1 = rq\<lparr>rq_method := method\<rparr> in
          (case target_loop (method_end + 1) (drop (method_end + 1) line) None of
             (_, None) \<Rightarrow> Inr (False, rq1)
           | (query_start, Some target_end) \<Rightarrow>
               bindE (request_target line method_end query_start target_end rq1) (\<lambda>rq2.
               bindE (request_version line target_end rq2) (\<lambda>r.
                 case r of None \<Rightarrow> Inr (False, rq2) | Some rq3 \<Rightarrow> Inr (True, rq3))))))"

definition RequestMessage_parse :: "istream \<Rightarrow> request \<Rightarrow> (bool \<times> request \<times> istream) call" where
  "RequestMessage_parse st rq =
     (case getline [] st of (line, st1) \<Rightarrow>
        (case request_line line (rq\<lparr>rq_header := []\<rparr>) of
           Inl e \<Rightarrow> Some (Inl e)
         | Inr (False, rq1) \<Rightarrow> Some (Inr (False, rq1, st1))
         | Inr (True, rq1) \<Rightarrow>
             (case HttpHeader_parse st1 of
                None \<Rightarrow> None
              | Some (Inl e) \<Rightarrow> Some (Inl e)
              | Some (Inr (header, st2)) \<Rightarrow> Some (Inr (True, rq1\<lparr>rq_header := header\<rparr>, st2)))))"

record response =
  rs_version :: string
  rs_status_code :: string
  rs_header :: fields

definition status_line :: "string \<Rightarrow> response \<Rightarrow> (bool \<times> response) result" where
  "status_line line rs =
     (case find_char line CHR '' '' of
        None \<Rightarrow> Inr (False, rs)
      | Some version_end \<Rightarrow>
          if 5 < length line then
            bindE (substr line 5 (usub version_end 5)) (\<lambda>version.
            let rs1 = rs\<lparr>rs_version := version\<rparr> in
            if version_end + 1 < length line then
              bindE (substr line (version_end + 1) (usub (length line - (version_end + 1)) 1))
                (\<lambda>code. Inr (True, rs1\<lparr>rs_status_code := code\<rparr>))
            else Inr (False, rs1))
          else Inr (False, rs))"

definition ResponseMessage_parse :: "istream \<Rightarrow> response \<Rightarrow> (bool \<times> response \<times> istream) call" where
  "ResponseMessage_parse st rs =
     (case getline [] st of (line, st1) \<Rightarrow>
        (case status_line line (rs\<lparr>rs_header := []\<rparr>) of
           Inl e \<Rightarrow> Some (Inl e)
         | Inr (False, rs1) \<Rightarrow> Some (Inr (False, rs1, st1))
         | Inr (True, rs1) \<Rightarrow>
             (case HttpHeader_parse st1 of
                None \<Rightarrow> None
              | Some (Inl e) \<Rightarrow> Some (Inl e)
              | Some (Inr (header, st2)) \<Rightarrow> Some (Inr (True, rs1\<lparr>rs_header := header\<rparr>, st2)))))"

section \<open>No call throws\<close>

lemma header_line_ok: "param_end < length line \<Longrightarrow> \<exists>fs. header_line line param_end = Inr fs"
  by (auto simp: header_line_def Let_def substr_def)

lemma target_loop_bounds:
  assumes "target_loop i cs qs0 = (qs, Some e)" and "\<And>q. qs0 = Some q \<Longrightarrow> n < q \<and> q \<le> i" and "n \<le> i"
  shows "i \<le> e \<and> e < i + length cs \<and> (\<forall>q. qs = Some q \<longrightarrow> n < q \<and> q \<le> e)"
  using assms
proof (induction i cs qs0 rule: target_loop.induct)
  case (2 i c cs qs0)
  consider "c = CHR ''?''" "cs \<noteq> []" | "c = CHR '' ''"
    | "\<not> (c = CHR ''?'' \<and> cs \<noteq> [])" "c \<noteq> CHR '' ''" by blast
  then show ?case
  proof cases
    case 1
    with 2(1) [of] 2(3-) have "i + 1 \<le> e \<and> e < i + 1 + length cs \<and> (\<forall>q. qs = Some q \<longrightarrow> n < q \<and> q \<le> e)"
      by auto
    then show ?thesis by simp
  next
    case 2
    with "2.prems" show ?thesis by auto
  next
    case 3
    have "n < q \<and> q \<le> i + 1" if "qs0 = Some q" for q using "2.prems"(2) that by fastforce
    moreover have "target_loop (i + 1) cs qs0 = (qs, Some e)" using "2.prems"(1) 3 by (auto split: if_splits)
    ultimately have "i + 1 \<le> e \<and> e < i + 1 + length cs \<and> (\<forall>q. qs = Some q \<longrightarrow> n < q \<and> q \<le> e)"
      using 3 2(2) "2.prems"(3) by simp
    then show ?thesis by simp
  qed
qed simp

lemma request_version_ok: "t < length line \<Longrightarrow> \<exists>r. request_version line t rq = Inr r"
proof (cases "find_from line CHR ''/'' (t + 1)")
  case (Some p)
  then show ?thesis using find_from_bounds [OF Some]
    by (auto simp: request_version_def usub_def)
qed (simp add: request_version_def)

lemma request_line_ok: "\<exists>ok rq'. request_line line rq = Inr (ok, rq')"
proof (cases "find_char line CHR '' ''")
  case (Some m)
  note m = find_char_bounds [OF Some]
  show ?thesis
  proof (cases "target_loop (m + 1) (drop (m + 1) line) None")
    case (Pair qs e)
    show ?thesis
    proof (cases e)
      case None
      with Some Pair m have "request_line line rq = Inr (False, rq\<lparr>rq_method := take m line\<rparr>)"
        by (simp add: request_line_def Let_def)
      then show ?thesis by blast
    next
      case (Some t)
      with target_loop_bounds [of "m + 1" "drop (m + 1) line" None qs t "m + 1"] Pair m
      have t: "m + 1 \<le> t" "t < length line" "\<And>q. qs = Some q \<Longrightarrow> m + 1 < q \<and> q \<le> t" by auto
      obtain rq2 where r2: "request_target line m qs t (rq\<lparr>rq_method := take m line\<rparr>) = Inr rq2"
        using t m(1) by (cases qs) (auto simp: request_target_def substr_def dest: t(3))
      obtain r where "request_version line t rq2 = Inr r"
        using request_version_ok [OF t(2)] by blast
      with \<open>find_char line CHR '' '' = Some m\<close> Pair Some m r2 show ?thesis
        by (cases r) (auto simp: request_line_def Let_def)
    qed
  qed
next
  case None
  then have "request_line line rq = Inr (False, rq)" unfolding request_line_def None by simp
  then show ?thesis by blast
qed

section \<open>The header loop\<close>

definition has_colon :: "string \<Rightarrow> bool" where
  "has_colon l \<longleftrightarrow> CHR '':'' \<in> set l"

text \<open>The fields of one line.\<close>

definition line_fields :: "string \<Rightarrow> fields" where
  "line_fields l = (case find_char l CHR '':'' of None \<Rightarrow> []
     | Some i \<Rightarrow> (case header_line l i of Inl _ \<Rightarrow> [] | Inr fs \<Rightarrow> fs))"

lemma header_loop_stop: "\<not> has_colon line \<Longrightarrow> header_loop line st res = Some (Inr (res, st))"
  by (subst header_loop.simps) (simp add: has_colon_def flip: find_char_None)

lemma header_loop_turn:
  assumes "has_colon line" and "getline line st = (line', st')"
  shows "header_loop line st res = header_loop line' st' (res @ line_fields line)"
proof -
  obtain i where i: "find_char line CHR '':'' = Some i"
    using assms(1) by (metis find_char_None has_colon_def not_None_eq)
  from header_line_ok [OF find_char_bounds(1) [OF i]] obtain fs where "header_line line i = Inr fs" by blast
  with i assms(2) show ?thesis by (subst header_loop.simps) (simp add: line_fields_def)
qed

text \<open>On an exhausted stream a line with a colon is parsed again for ever.\<close>

lemma header_loop_alive:
  assumes "header_loop line st res = Some y"
  shows "\<not> (has_colon line \<and> snd st = False)"
proof (rule header_loop.raw_induct [where P = "\<lambda>line st res y. \<not> (has_colon line \<and> snd st = False)",
      OF _ assms], rule notI)
  fix loop line st res y
  assume IH: "\<And>line st res y. loop line st res = Some y \<Longrightarrow> \<not> (has_colon line \<and> snd st = False)"
    and turn: "(case find_char line CHR '':'' of
        None \<Rightarrow> Some (Inr (res, st))
      | Some param_end \<Rightarrow>
          (case header_line line param_end of
             Inl e \<Rightarrow> Some (Inl e)
           | Inr fs \<Rightarrow> (case getline line st of (line', st') \<Rightarrow> loop line' st' (res @ fs)))) = Some y"
    and d: "has_colon line \<and> snd st = False"
  then obtain i where i: "find_char line CHR '':'' = Some i"
    by (metis find_char_None has_colon_def not_None_eq)
  from header_line_ok [OF find_char_bounds(1) [OF i]] obtain fs where "header_line line i = Inr fs" by blast
  with turn d i have "loop line st (res @ fs) = Some y" by (cases st) simp
  from IH [OF this] d show False by blast
qed

lemma header_loop_dead: "has_colon line \<Longrightarrow> header_loop line (s, False) res = None"
  using header_loop_alive [of line "(s, False)" res] by (metis not_None_eq snd_conv)

lemma lines_cases:
  obtains "newline \<notin> set s" "split_on newline s = [s]" "\<And>line. getline line (s, True) = (s, ([], False))"
  | l r where "newline \<notin> set l" "s = l @ newline # r" "split_on newline s = l # split_on newline r"
      "\<And>line. getline line (s, True) = (l, (r, True))"
proof (cases "newline \<in> set s")
  case True
  then obtain l r where "s = l @ newline # r" "newline \<notin> set l" by (metis split_list_first)
  with that(2) show thesis by (metis getline_line split_on_append)
next
  case False
  with that(1) show thesis by (metis getline_last split_on_free)
qed

lemma header_loop_returns:
  "header_loop line (s, True) res = None \<longleftrightarrow> has_colon line \<and> list_all has_colon (split_on newline s)"
proof (induction "length s" arbitrary: s line res rule: less_induct)
  case less
  show ?case
  proof (cases "has_colon line")
    case True
    show ?thesis
    proof (cases rule: lines_cases [of s])
      case 1
      with header_loop_turn [OF True 1(3)] show ?thesis
        using True header_loop_dead [of s] header_loop_stop [of s] by fastforce
    next
      case (2 l r)
      with header_loop_turn [OF True 2(4)] less [of r l] show ?thesis using True by simp
    qed
  qed (simp add: header_loop_stop)
qed

lemma header_returns_iff:
  "HttpHeader_parse (s, True) = None \<longleftrightarrow> list_all has_colon (split_on newline s)"
proof (cases rule: lines_cases [of s])
  case 1
  then show ?thesis using header_loop_dead [of s] header_loop_stop [of s]
    by (fastforce simp: HttpHeader_parse_def)
next
  case (2 l r)
  then show ?thesis by (simp add: HttpHeader_parse_def header_loop_returns)
qed

text \<open>Parsing the header fields of a stream returns exactly when one of its lines has no colon; a
  stream that ends inside a line with a colon, after lines with colons only, is parsed for ever.\<close>

theorem header_parse_returns_iff:
  "HttpHeader_parse (s, True) = None \<longleftrightarrow> list_all has_colon (split_on newline s)"
  by (rule header_returns_iff)

section \<open>Requests\<close>

definition CR :: char where "CR = CHR 0x0D"

definition header_text :: "fields \<Rightarrow> string" where
  "header_text h = concat (map (\<lambda>(n, v). n @ '': '' @ v @ [CR, newline]) h) @ [CR, newline]"

definition target_text :: "string \<Rightarrow> string option \<Rightarrow> string" where
  "target_text path q = path @ (case q of None \<Rightarrow> [] | Some q \<Rightarrow> CHR ''?'' # q)"

definition request_text :: "request \<Rightarrow> string option \<Rightarrow> string" where
  "request_text rq q = rq_method rq @ '' '' @ target_text (rq_path rq) q @ '' HTTP/'' @ rq_version rq
     @ [CR, newline] @ header_text (rq_header rq)"

definition request_ok :: "request \<Rightarrow> string option \<Rightarrow> bool" where
  "request_ok rq q \<longleftrightarrow> list_all (\<lambda>c. c \<noteq> CHR '' '' \<and> c \<noteq> newline) (rq_method rq @ target_text (rq_path rq) q)
     \<and> (case q of None \<Rightarrow> CHR ''?'' \<notin> set (rq_path rq) | Some q \<Rightarrow> CHR ''?'' \<notin> set q)
     \<and> newline \<notin> set (rq_version rq)
     \<and> list_all (\<lambda>(n, v). CHR '':'' \<notin> set n \<and> newline \<notin> set n \<and> newline \<notin> set v) (rq_header rq)"

lemma CR_distinct [simp]: "CR \<noteq> newline" "newline \<noteq> CR" "CR \<noteq> CHR '':''" "CHR '':'' \<noteq> CR"
    "newline \<noteq> CHR '':''" "newline \<noteq> CHR '' ''" "newline \<noteq> CHR ''?''" "newline \<noteq> CHR ''H''" "newline \<noteq> CHR ''T''"
    "newline \<noteq> CHR ''P''" "newline \<noteq> CHR ''/''"
  by (simp_all add: CR_def newline_def)

lemma line_fields_text:
  assumes "CHR '':'' \<notin> set n"
  shows "line_fields (n @ CHR '':'' # CHR '' '' # v @ [CR]) = [(n, v)]"
  using find_char_append [OF assms, of "CHR '' '' # v @ [CR]"]
  by (simp add: line_fields_def header_line_def nth_append usub_def)

lemma header_loop_text:
  assumes "list_all (\<lambda>(n, v). CHR '':'' \<notin> set n \<and> newline \<notin> set n \<and> newline \<notin> set v) h"
  shows "(case getline l (header_text h @ rest, True) of (line, st) \<Rightarrow> header_loop line st res) =
    Some (Inr (res @ h, (rest, True)))"
  using assms
proof (induction h arbitrary: l res)
  case Nil
  have "getline l (CR # newline # rest, True) = ([CR], (rest, True))"
    using getline_line [of "[CR]" l rest] by simp
  then show ?case by (simp add: header_text_def header_loop_stop has_colon_def)
next
  case (Cons f h)
  obtain n v where f: "f = (n, v)" by (cases f)
  let ?l = "n @ CHR '':'' # CHR '' '' # v @ [CR]"
  have "getline l (header_text (f # h) @ rest, True) = (?l, (header_text h @ rest, True))"
    using getline_line [of ?l l "header_text h @ rest"] Cons.prems by (simp add: f header_text_def)
  moreover have "header_loop ?l (header_text h @ rest, True) res
    = (case getline ?l (header_text h @ rest, True) of (line, st) \<Rightarrow> header_loop line st (res @ [f]))"
    using header_loop_turn [of ?l "(header_text h @ rest, True)"] line_fields_text [of n v] Cons.prems f
    by (simp add: has_colon_def split: prod.splits)
  ultimately show ?case using Cons by simp
qed

lemma target_loop_skip:
  "list_all (\<lambda>c. c \<noteq> CHR '' '' \<and> c \<noteq> CHR ''?'') t \<Longrightarrow>
    target_loop i (t @ r) qs = target_loop (i + length t) r qs"
  by (induction t arbitrary: i) auto

lemma target_loop_pass:
  "CHR '' '' \<notin> set t \<Longrightarrow> r \<noteq> [] \<Longrightarrow> \<exists>qs'. target_loop i (t @ r) qs = target_loop (i + length t) r qs'"
proof (induction t arbitrary: i qs)
  case (Cons c t)
  then show ?case
    by (cases "c = CHR ''?''") (fastforce dest: Cons.IH [of "Suc i"])+
qed auto

lemma target_loop_text:
  assumes "CHR '' '' \<notin> set (target_text path q)"
    and "case q of None \<Rightarrow> CHR ''?'' \<notin> set path | Some q \<Rightarrow> CHR ''?'' \<notin> set q"
  shows "target_loop i (target_text path q @ CHR '' '' # r) None =
    (map_option (\<lambda>_. i + length path + 1) q, Some (i + length (target_text path q)))"
proof (cases q)
  case None
  then show ?thesis using assms target_loop_skip [of path i "CHR '' '' # r" None]
    by (auto simp: target_text_def list_all_iff)
next
  case (Some q')
  then obtain qs where "target_loop i (path @ CHR ''?'' # q' @ CHR '' '' # r) None =
      target_loop (i + length path) (CHR ''?'' # q' @ CHR '' '' # r) qs"
    using target_loop_pass [of path "CHR ''?'' # q' @ CHR '' '' # r" i None] assms
    by (auto simp: target_text_def)
  moreover have "list_all (\<lambda>c. c \<noteq> CHR '' '' \<and> c \<noteq> CHR ''?'') q'"
    using Some assms by (auto simp: target_text_def list_all_iff)
  ultimately show ?thesis using Some target_loop_skip [of q' _ "CHR '' '' # r"]
    by (simp add: target_text_def)
qed

lemma request_line_text:
  assumes "CHR '' '' \<notin> set m" and "CHR '' '' \<notin> set (target_text path q)"
    and "case q of None \<Rightarrow> CHR ''?'' \<notin> set path | Some q \<Rightarrow> CHR ''?'' \<notin> set q"
  shows "request_line (m @ CHR '' '' # target_text path q @ CHR '' '' # ''HTTP/'' @ v @ [CR]) rq =
    Inr (True, rq\<lparr>rq_method := m, rq_path := path,
      rq_query_string := (case q of None \<Rightarrow> rq_query_string rq | Some q \<Rightarrow> q), rq_version := v\<rparr>)"
proof -
  let ?t = "target_text path q"
  let ?line = "m @ CHR '' '' # ?t @ CHR '' '' # ''HTTP/'' @ v @ [CR]"
  let ?e = "length m + 1 + length ?t"
  have f: "find_char ?line CHR '' '' = Some (length m)" using assms(1) by (rule find_char_append)
  have t: "target_loop (length m + 1) (drop (length m + 1) ?line) None =
      (map_option (\<lambda>_. length m + 1 + length path + 1) q, Some ?e)"
    using target_loop_text [OF assms(2,3), of "length m + 1" "''HTTP/'' @ v @ [CR]"] by simp
  have l: "?line = (m @ CHR '' '' # ?t @ '' HTTP'') @ CHR ''/'' # v @ [CR]" by simp
  have "find_from ?line CHR ''/'' (?e + 1) = Some (?e + 5)"
    unfolding l by (subst find_from_append) simp_all
  then have "request_version ?line ?e rq' = Inr (Some (rq'\<lparr>rq_version := v\<rparr>))" for rq'
    by (simp add: request_version_def usub_def eval_nat_numeral)
  moreover have "request_target ?line (length m) (map_option (\<lambda>_. length m + 1 + length path + 1) q) ?e rq' =
      Inr (rq'\<lparr>rq_path := path, rq_query_string := (case q of None \<Rightarrow> rq_query_string rq' | Some q \<Rightarrow> q)\<rparr>)" for rq'
    by (cases q) (simp_all add: request_target_def usub_def target_text_def)
  ultimately show ?thesis using f t by (cases q) (simp_all add: request_line_def Let_def)
qed

lemma header_parse_text:
  assumes "list_all (\<lambda>(n, v). CHR '':'' \<notin> set n \<and> newline \<notin> set n \<and> newline \<notin> set v) h"
  shows "HttpHeader_parse (header_text h @ rest, True) = Some (Inr (h, (rest, True)))"
  using header_loop_text [OF assms, where l = "[]" and rest = rest and res = "[]"] by (simp add: HttpHeader_parse_def)

lemma parse_request_text:
  assumes "request_ok rq q"
  shows "RequestMessage_parse (request_text rq q @ body, True) old = Some (Inr (True,
    rq\<lparr>rq_query_string := (case q of None \<Rightarrow> rq_query_string old | Some q \<Rightarrow> q)\<rparr>, (body, True)))"
proof -
  let ?line = "rq_method rq @ CHR '' '' # target_text (rq_path rq) q @ CHR '' '' # ''HTTP/'' @ rq_version rq @ [CR]"
  from assms have m: "CHR '' '' \<notin> set (rq_method rq)" "CHR '' '' \<notin> set (target_text (rq_path rq) q)"
    and nl: "newline \<notin> set ?line"
    and h: "list_all (\<lambda>(n, v). CHR '':'' \<notin> set n \<and> newline \<notin> set n \<and> newline \<notin> set v) (rq_header rq)"
    and qm: "case q of None \<Rightarrow> CHR ''?'' \<notin> set (rq_path rq) | Some q \<Rightarrow> CHR ''?'' \<notin> set q"
    unfolding request_ok_def list_all_iff by auto
  have "request_text rq q @ body = ?line @ newline # header_text (rq_header rq) @ body"
    by (simp add: request_text_def)
  then have "getline [] (request_text rq q @ body, True) = (?line, (header_text (rq_header rq) @ body, True))"
    using getline_line [OF nl] by simp
  then show ?thesis
    using request_line_text [OF m qm] header_parse_text [OF h, of body]
    by (cases q; cases rq) (simp_all add: RequestMessage_parse_def)
qed

text \<open>C26: Parsing the text of a request gives back its method, path, query, version and header fields,
  in order, and leaves the stream at the body. The path ends at the last question mark: it may contain
  others, the query may not.\<close>

theorem request_round_trip:
  assumes "request_ok rq q"
  shows "RequestMessage_parse (request_text rq q @ body, True) old = Some (Inr (True,
    rq\<lparr>rq_query_string := (case q of None \<Rightarrow> rq_query_string old | Some q \<Rightarrow> q)\<rparr>, (body, True)))"
  using assms by (rule parse_request_text)

definition ex_request :: request where
  "ex_request = \<lparr>rq_method = ''GET'', rq_path = ''/a?x'', rq_query_string = ''trigger0=1'', rq_version = ''1.1'',
     rq_header = [(''Host'', ''localhost''), (''Accept'', '''')]\<rparr>"

theorem request_round_trip_witness:
  "RequestMessage_parse (request_text ex_request (Some ''trigger0=1'') @ ''body'', True) ex_request =
    Some (Inr (True, ex_request, (''body'', True)))"
proof -
  have "request_ok ex_request (Some ''trigger0=1'')"
    by (simp add: request_ok_def ex_request_def target_text_def newline_def)
  from request_round_trip [OF this, of "''body''" ex_request] show ?thesis by (simp add: ex_request_def)
qed

lemma header_never_throws: "HttpHeader_parse st \<noteq> Some (Inl e)"
proof -
  have "header_loop line st res \<noteq> Some (Inl e)" for line st res
  proof -
    have "y \<noteq> Inl e" if "header_loop line st res = Some y" for y
    proof (rule header_loop.raw_induct [where P = "\<lambda>line st res y. y \<noteq> Inl e", OF _ that])
      fix loop line st res y
      assume IH: "\<And>line st res y. loop line st res = Some y \<Longrightarrow> y \<noteq> Inl e"
        and turn: "(case find_char line CHR '':'' of
            None \<Rightarrow> Some (Inr (res, st))
          | Some param_end \<Rightarrow>
              (case header_line line param_end of
                 Inl e \<Rightarrow> Some (Inl e)
               | Inr fs \<Rightarrow> (case getline line st of (line', st') \<Rightarrow> loop line' st' (res @ fs)))) = Some y"
      show "y \<noteq> Inl e"
      proof (cases "find_char line CHR '':''")
        case (Some i)
        from header_line_ok [OF find_char_bounds(1) [OF Some]] obtain fs where "header_line line i = Inr fs" by blast
        with turn Some show ?thesis by (auto dest: IH split: prod.splits)
      next
        case None
        show ?thesis using turn unfolding None by auto
      qed
    qed
    then show ?thesis by blast
  qed
  then show ?thesis by (simp add: HttpHeader_parse_def split: prod.splits)
qed

lemma parse_never_throws: "RequestMessage_parse st rq \<noteq> Some (Inl e)"
  using request_line_ok [of "fst (getline [] st)" "rq\<lparr>rq_header := []\<rparr>"] header_never_throws
  by (auto simp: RequestMessage_parse_def split: prod.splits bool.splits option.splits sum.splits)

text \<open>Parsing a request never throws: every line, well-formed or not, gives a result, or the header
  is parsed for ever because the stream has no line without a colon.\<close>

theorem request_parse_never_throws: "RequestMessage_parse st rq \<noteq> Some (Inl e)"
  by (rule parse_never_throws)

end
