(* ===== verification/CFiles.thy ===== *)
theory CFiles
  imports CppText
begin

text \<open>
  What the resource provider uses of the C library: files read with \<open>fgets\<close> and \<open>fscanf\<close>,
  \<open>strncmp\<close>, \<open>strstr\<close>, \<open>strtok\<close>, \<open>stoll\<close> and \<open>atoi\<close>. A file is its text, or \<open>None\<close> where it
  cannot be opened: the null pointer that \<open>fopen\<close> returns must not be read from.
\<close>

type_synonym cfile = "string option"

definition opened :: "cfile \<Rightarrow> string result" where
  "opened f = (case f of None \<Rightarrow> Inl Undefined_behaviour | Some s \<Rightarrow> Inr s)"

lemma opened_Some [simp]: "opened (Some s) = Inr s"
  by (simp add: opened_def)

section \<open>Lines\<close>

text \<open>One call of \<open>fgets\<close> with room for \<open>k\<close> characters and the terminator.\<close>

definition fgets :: "nat \<Rightarrow> string \<Rightarrow> string" where
  "fgets k s =
     (let l = takeWhile (\<lambda>c. c \<noteq> newline) s in
      if newline \<in> set s \<and> length l < k then l @ [newline] else take k s)"

text \<open>The strings that \<open>while (fgets(...) != NULL)\<close> sees. They end at a null character.\<close>

definition c_str :: "string \<Rightarrow> string" where
  "c_str s = takeWhile (\<lambda>c. c \<noteq> CHR 0x00) s"

lemma length_fgets: "s \<noteq> [] \<Longrightarrow> 0 < k \<Longrightarrow> 0 < length (fgets k s)"
  by (cases s) (auto simp: fgets_def Let_def)

function fgets_all :: "nat \<Rightarrow> string \<Rightarrow> string list" where
  "fgets_all k s =
     (if s = [] \<or> k = 0 then [] else c_str (fgets k s) # fgets_all k (drop (length (fgets k s)) s))"
  by pat_completeness auto
termination
proof (relation "measure (length \<circ> snd)", goal_cases)
  case (2 k s)
  then show ?case using length_fgets [of s k] by (simp add: diff_less)
qed simp

declare fgets_all.simps [simp del]

lemma fgets_all_Nil [simp]: "fgets_all k [] = []"
  by (simp add: fgets_all.simps)

lemma fgets_all_line:
  assumes "newline \<notin> set l" and "CHR 0x00 \<notin> set l" and "length l < k"
  shows "fgets_all k (l @ newline # s) = (l @ [newline]) # fgets_all k s"
proof -
  have "fgets k (l @ newline # s) = l @ [newline]"
    using assms(1,3) by (simp add: fgets_def Let_def takeWhile_stop)
  moreover have "c_str (l @ [newline]) = l @ [newline]"
    using assms(2) by (auto simp: c_str_def newline_def takeWhile_eq_all_conv)
  ultimately show ?thesis by (subst fgets_all.simps) (use assms(3) in simp)
qed

section \<open>Searching and splitting\<close>

text \<open>\<open>strncmp(line, p, strlen(p)) == 0\<close>.\<close>

definition starts_with :: "string \<Rightarrow> string \<Rightarrow> bool" where
  "starts_with p s \<longleftrightarrow> take (length p) s = p"

lemma starts_with_append [simp]: "starts_with p (p @ s)"
  by (simp add: starts_with_def)

text \<open>\<open>strstr\<close> points into its argument: the rest from the first occurrence on.\<close>

fun strstr :: "string \<Rightarrow> string \<Rightarrow> string option" where
  "strstr [] n = (if n = [] then Some [] else None)"
| "strstr (c # cs) n = (if starts_with n (c # cs) then Some (c # cs) else strstr cs n)"

text \<open>All tokens \<open>strtok\<close> finds between blanks and tabs.\<close>

definition strtok :: "string \<Rightarrow> string list" where
  "strtok s = filter (\<lambda>t. t \<noteq> []) (concat (map (split_on CHR 0x09) (split_on CHR '' '' s)))"

section \<open>Numbers\<close>

definition read_sign :: "string \<Rightarrow> bool \<times> string" where
  "read_sign s = (case s of [] \<Rightarrow> (False, [])
     | c # cs \<Rightarrow> if c = CHR ''-'' then (True, cs) else if c = CHR ''+'' then (False, cs) else (False, s))"

text \<open>White space, a sign, digits: the number and what follows it.\<close>

definition scan_number :: "string \<Rightarrow> (int \<times> string) option" where
  "scan_number s =
     (let (neg, ds) = read_sign (dropWhile is_space s); (n, rest) = read_digits 0 ds in
      if ds = [] \<or> \<not> is_digit (hd ds) then None else Some (if neg then - int n else int n, rest))"

definition stoll :: "string \<Rightarrow> long result" where
  "stoll s = (case scan_number s of
       None \<Rightarrow> Inl Invalid_argument
     | Some (n, _) \<Rightarrow> if is_long n then Inr n else Inl Out_of_range)"

definition is_int :: "int \<Rightarrow> bool" where
  "is_int n \<longleftrightarrow> - 2147483648 \<le> n \<and> n \<le> 2147483647"

definition atoi :: "string \<Rightarrow> int result" where
  "atoi s = (case scan_number s of
       None \<Rightarrow> Inr 0
     | Some (n, _) \<Rightarrow> if is_int n then Inr n else Inl Undefined_behaviour)"

text \<open>A number printed in front of a character that is no digit is scanned back.\<close>

definition no_digit_first :: "string \<Rightarrow> bool" where
  "no_digit_first s \<longleftrightarrow> s = [] \<or> \<not> is_digit (hd s)"

lemma read_digits_rest:
  "list_all is_digit ds \<Longrightarrow> no_digit_first rest \<Longrightarrow>
    read_digits acc (ds @ rest) = (fst (read_digits acc ds), rest)"
proof (induction ds arbitrary: acc)
  case Nil
  then show ?case by (cases rest) (simp_all add: no_digit_first_def)
qed simp

lemma scan_number_show_nat:
  assumes "list_all is_space ws" and "no_digit_first rest"
  shows "scan_number (ws @ show_nat n @ rest) = Some (int n, rest)"
proof -
  obtain c cs where s: "show_nat n = c # cs" using show_nat_not_Nil by (cases "show_nat n") auto
  then have c: "is_digit c" using show_nat_digits [of n] by simp
  have "dropWhile is_space (ws @ show_nat n @ rest) = show_nat n @ rest"
    using assms(1) is_digit_not_space [OF c] by (induction ws) (simp_all add: s)
  moreover have "read_sign (show_nat n @ rest) = (False, show_nat n @ rest)"
    using digit_not_sign [OF c] by (simp add: read_sign_def s)
  moreover have "read_digits 0 (show_nat n @ rest) = (n, rest)"
    using read_digits_rest [OF show_nat_digits assms(2)] read_digits_show_nat by simp
  ultimately show ?thesis using c by (simp add: scan_number_def s)
qed

section \<open>Texts of lines and words\<close>

definition line_text :: "string list \<Rightarrow> string" where
  "line_text ls = concat (map (\<lambda>l. l @ [newline]) ls)"

definition line_fits :: "nat \<Rightarrow> string \<Rightarrow> bool" where
  "line_fits k l \<longleftrightarrow> newline \<notin> set l \<and> CHR 0x00 \<notin> set l \<and> length l < k"

lemma fgets_all_lines:
  "list_all (line_fits k) ls \<Longrightarrow> fgets_all k (line_text ls @ s) = map (\<lambda>l. l @ [newline]) ls @ fgets_all k s"
  by (induction ls) (simp_all add: line_text_def line_fits_def fgets_all_line)

definition word_chars :: "string \<Rightarrow> bool" where
  "word_chars w \<longleftrightarrow> w \<noteq> [] \<and> CHR '' '' \<notin> set w \<and> CHR 0x09 \<notin> set w"

lemma strtok_word: "word_chars w \<Longrightarrow> strtok (w @ CHR '' '' # s) = w # strtok s"
  by (simp add: strtok_def word_chars_def split_on_append split_on_free)

fun words_text :: "string list \<Rightarrow> string" where
  "words_text [] = []"
| "words_text (w # ws) = w @ CHR '' '' # words_text ws"

lemma strtok_words: "list_all word_chars ws \<Longrightarrow> strtok (words_text ws @ s) = ws @ strtok s"
  by (induction ws) (simp_all add: strtok_word)

lemma strstr_lead: "CHR ''s'' \<notin> set lead \<Longrightarrow> strstr (lead @ ''sda '' @ s) ''sda '' = Some (''sda '' @ s)"
  by (induction lead) (auto simp: starts_with_def)

lemma word_chars_show_nat [simp]: "word_chars (show_nat n)"
proof -
  have "c \<in> set (show_nat n) \<Longrightarrow> is_digit c" for c using show_nat_digits [of n] by (simp add: list_all_iff)
  then have "CHR '' '' \<notin> set (show_nat n)" "CHR 0x09 \<notin> set (show_nat n)" by (fastforce simp: is_digit_def)+
  then show ?thesis by (simp add: word_chars_def show_nat_not_Nil)
qed

lemma scan_number_only: "scan_number (show_nat n) = Some (int n, [])"
  using scan_number_show_nat [of "[]" "[]" n] by (simp add: no_digit_first_def)

lemma stoll_show_nat: "int n \<le> LONG_MAX \<Longrightarrow> stoll (show_nat n) = Inr (int n)"
  by (simp add: stoll_def scan_number_only is_long_def LONG_MIN_def)

end
