(* ===== verification/HttpBodies.thy ===== *)
theory HttpBodies
  imports HttpMessages CFiles "HOL-Library.Multiset"
begin

text \<open>
  What the server and the client of \<open>include/server_http.hpp\<close> and \<open>include/client_http.hpp\<close> share: reading
  from a socket, looking a header field up, and the body in chunks, which both files spell out with the
  same statements. The input is the list of the pieces in which the bytes arrive, one for each read of the
  socket; the end of the list is the end of the stream. Timeouts do not expire, and the buffers have the
  default limit, the largest \<open>size_t\<close>, which is never reached.
\<close>

section \<open>Reading from the socket\<close>

fun find_str :: "string \<Rightarrow> string \<Rightarrow> nat option" where
  "find_str d [] = (if d = [] then Some 0 else None)"
| "find_str d (c # cs) = (if starts_with d (c # cs) then Some 0 else map_option Suc (find_str d cs))"

text \<open>\<open>async_read_until\<close>: the buffer, the bytes up to the end of the delimiter, the pieces left.\<close>

fun read_until :: "string \<Rightarrow> string \<Rightarrow> string list \<Rightarrow> (string \<times> nat \<times> string list) option" where
  "read_until d buf ps = (case find_str d buf of
       Some i \<Rightarrow> Some (buf, i + length d, ps)
     | None \<Rightarrow> (case ps of [] \<Rightarrow> None | p # ps' \<Rightarrow> read_until d (buf @ p) ps'))"

declare read_until.simps [simp del]

text \<open>\<open>async_read\<close> with \<open>transfer_exactly(n)\<close>.\<close>

fun read_exactly :: "nat \<Rightarrow> string \<Rightarrow> string list \<Rightarrow> (string \<times> string list) option" where
  "read_exactly n buf [] = (if n = 0 then Some (buf, []) else None)"
| "read_exactly n buf (p # ps) =
     (if n = 0 then Some (buf, p # ps)
      else if length p \<le> n then read_exactly (n - length p) (buf @ p) ps
      else Some (buf @ take n p, drop n p # ps))"

text \<open>What an operation on the socket or on the text from it can report instead of a result.\<close>

datatype net_error = End_of_stream | Protocol_error

section \<open>Header fields\<close>

text \<open>The values of a key of a multimap, in the order in which they were added; the order in which the
  container gives them back is up to the library and is the parameter \<open>ord\<close>.\<close>

definition header_values :: "string \<Rightarrow> fields \<Rightarrow> string list" where
  "header_values name h = map snd (filter (\<lambda>(n, v). case_insensitive_equal n name) h)"

definition header_find :: "(string list \<Rightarrow> string list) \<Rightarrow> string \<Rightarrow> fields \<Rightarrow> string option" where
  "header_find ord name h = (case ord (header_values name h) of [] \<Rightarrow> None | v # _ \<Rightarrow> Some v)"

text \<open>The container gives back the values it has.\<close>

definition key_order :: "(string list \<Rightarrow> string list) \<Rightarrow> bool" where
  "key_order ord \<longleftrightarrow> (\<forall>vs. mset (ord vs) = mset vs)"

lemma key_order_empty: "key_order ord \<Longrightarrow> ord [] = []"
  by (metis key_order_def mset.simps(1) mset_zero_iff)

lemma key_order_single: "key_order ord \<Longrightarrow> ord [v] = [v]"
  by (metis key_order_def mset_single_iff_right mset.simps(1) mset.simps(2))

lemma key_order_rev: "key_order rev"
  by (simp add: key_order_def)

text \<open>Strings compare by their characters as unsigned bytes.\<close>

fun string_less :: "string \<Rightarrow> string \<Rightarrow> bool" where
  "string_less _ [] = False"
| "string_less [] _ = True"
| "string_less (a # as) (b # bs) = (if a = b then string_less as bs else (of_char a :: nat) < of_char b)"

section \<open>A body in chunks\<close>

definition stoull :: "string \<Rightarrow> nat result" where
  "stoull s = (case scan_number s of
       None \<Rightarrow> Inl Invalid_argument
     | Some (n, _) \<Rightarrow> if 2 ^ 64 \<le> \<bar>n\<bar> then Inl Out_of_range else Inr (nat (n mod 2 ^ 64)))"

definition stoul16 :: "string \<Rightarrow> nat result" where
  "stoul16 s = (let (neg, ds) = read_sign (dropWhile is_space s) in
     if ds = [] \<or> hex_val (hd ds) = None then Inl Invalid_argument
     else let n = hex_body ds in
       if 2 ^ 64 \<le> n then Inl Out_of_range else Inr (if neg then (2 ^ 64 - n) mod 2 ^ 64 else n))"

text \<open>The bytes that are missing, of which \<open>additional\<close> are in the buffer already.\<close>

definition read_more :: "nat \<Rightarrow> nat \<Rightarrow> string \<Rightarrow> string list \<Rightarrow> (string \<times> string list) option" where
  "read_more n additional buf ps = (if additional < n then read_exactly (n - additional) buf ps else Some (buf, ps))"

text \<open>One chunk: its size line, then its bytes and the line end behind them. The sum \<open>2 + length\<close> is
  computed in 64 bits. A size that no array can have throws out of the handler, and \<open>pop_back\<close> on an
  empty line is undefined. The result is the size, the bytes, and the buffer and the pieces left.\<close>

definition read_chunk :: "string \<Rightarrow> string list \<Rightarrow> (net_error + nat \<times> string \<times> string \<times> string list) result" where
  "read_chunk buf ps = (case read_until [CR, newline] buf ps of
       None \<Rightarrow> Inr (Inl End_of_stream)
     | Some (buf1, transferred, ps1) \<Rightarrow>
         let line = takeWhile (\<lambda>c. c \<noteq> newline) buf1; rest = drop (length line + 1) buf1 in
         if line = [] then Inl Undefined_behaviour
         else (case stoul16 (butlast line) of
             Inl _ \<Rightarrow> Inr (Inl Protocol_error)
           | Inr len \<Rightarrow>
               let additional = length rest - (transferred - (length line + 1)); need = (2 + len) mod 2 ^ 64 in
               (case read_more need additional rest ps1 of
                  None \<Rightarrow> Inr (Inl End_of_stream)
                | Some (buf2, ps2) \<Rightarrow>
                    if 2 ^ 63 \<le> len then Inl Bad_alloc
                    else Inr (Inr (len, take len buf2, drop (len + 2) buf2, ps2)))))"

lemma starts_with_length: "starts_with p s \<Longrightarrow> length p \<le> length s"
proof -
  assume "starts_with p s"
  then have "length (take (length p) s) = length p" by (simp add: starts_with_def)
  then show ?thesis by simp
qed

lemma find_str_bounds: "find_str d s = Some i \<Longrightarrow> i + length d \<le> length s \<and> take (length d) (drop i s) = d"
proof (induction s arbitrary: i)
  case (Cons c cs)
  show ?case
  proof (cases "starts_with d (c # cs)")
    case True
    with Cons.prems starts_with_length [OF True] show ?thesis by (simp add: starts_with_def)
  qed (use Cons in \<open>auto\<close>)
qed (simp split: if_splits)

definition pending_bytes :: "string \<Rightarrow> string list \<Rightarrow> nat" where
  "pending_bytes buf ps = length buf + length (concat ps)"

lemma read_until_bytes:
  "read_until d buf ps = Some (buf', n, ps') \<Longrightarrow>
    buf' @ concat ps' = buf @ concat ps \<and> length d \<le> n \<and> n \<le> length buf' \<and> take (length d) (drop (n - length d) buf') = d"
proof (induction ps arbitrary: buf)
  case Nil
  then show ?case using find_str_bounds [of d buf] by (auto simp: read_until.simps split: option.splits)
next
  case (Cons p ps)
  then show ?case
    using find_str_bounds [of d buf] by (subst (asm) (2) read_until.simps) (auto split: option.splits)
qed

lemma read_exactly_bytes: "read_exactly n buf ps = Some (buf', ps') \<Longrightarrow> buf' @ concat ps' = buf @ concat ps"
  by (induction n buf ps rule: read_exactly.induct) (auto split: if_splits)

lemma read_more_bytes: "read_more n k buf ps = Some (buf', ps') \<Longrightarrow> buf' @ concat ps' = buf @ concat ps"
  by (auto simp: read_more_def read_exactly_bytes split: if_splits)

lemma length_append_concat: "buf' @ concat ps' = buf @ concat ps \<Longrightarrow> pending_bytes buf' ps' = pending_bytes buf ps"
  unfolding pending_bytes_def by (metis length_append)

lemma line_in_buffer:
  assumes "read_until [CR, newline] buf ps = Some (buf1, n, ps1)"
  shows "length (takeWhile (\<lambda>c. c \<noteq> newline) buf1) < length buf1"
proof -
  have "take 2 (drop (n - 2) buf1) = [CR, newline]" using read_until_bytes [OF assms] by (simp add: numeral_2_eq_2)
  then have "newline \<in> set buf1" by (metis in_set_dropD in_set_takeD list.set_intros(1,2))
  then show ?thesis by (rule length_takeWhile_stop)
qed

lemma read_chunk_bytes:
  assumes "read_chunk buf ps = Inr (Inr (len, chunk, buf', ps'))"
  shows "pending_bytes buf' ps' < pending_bytes buf ps"
proof -
  obtain buf1 n ps1 where r: "read_until [CR, newline] buf ps = Some (buf1, n, ps1)"
    using assms by (auto simp: read_chunk_def split: option.splits)
  let ?k = "length (takeWhile (\<lambda>c. c \<noteq> newline) buf1) + 1"
  let ?rest = "drop ?k buf1"
  obtain buf2 ps2 m k where b: "read_more m k ?rest ps1 = Some (buf2, ps2)"
    and d: "buf' = drop (len + 2) buf2" "ps' = ps2"
    using assms r by (auto simp: read_chunk_def Let_def split: option.splits if_splits sum.splits)
  have "pending_bytes buf2 ps2 = pending_bytes ?rest ps1"
    using read_more_bytes [OF b] by (rule length_append_concat)
  moreover have "pending_bytes ?rest ps1 < pending_bytes buf1 ps1"
    using line_in_buffer [OF r] by (simp add: pending_bytes_def)
  moreover have "pending_bytes buf1 ps1 = pending_bytes buf ps"
    using read_until_bytes [OF r] by (intro length_append_concat) simp
  moreover have "pending_bytes buf' ps' \<le> pending_bytes buf2 ps2" using d by (simp add: pending_bytes_def)
  ultimately show ?thesis by linarith
qed

text \<open>Chunks until one of size 0. What is left in the buffer then comes before the chunks.\<close>

function chunk_loop :: "string \<Rightarrow> string list \<Rightarrow> string \<Rightarrow> (net_error + string \<times> string list) result" where
  "chunk_loop buf ps chunks = (case read_chunk buf ps of
       Inl e \<Rightarrow> Inl e
     | Inr (Inl ec) \<Rightarrow> Inr (Inl ec)
     | Inr (Inr (len, chunk, buf', ps')) \<Rightarrow>
         if 0 < len then chunk_loop buf' ps' (chunks @ chunk) else Inr (Inr (buf' @ chunks, ps')))"
  by pat_completeness auto
termination
  by (relation "measure (\<lambda>(buf, ps, _). pending_bytes buf ps)") (auto simp: read_chunk_bytes)

declare chunk_loop.simps [simp del]

section \<open>No more bytes than before\<close>

lemma read_until_less: "read_until d buf ps = Some (buf', n, ps') \<Longrightarrow> length (concat ps') \<le> length (concat ps)"
  by (induction d buf ps rule: read_until.induct) (subst (asm) (2) read_until.simps, fastforce split: option.splits list.splits)

lemma read_exactly_less: "read_exactly n buf ps = Some (buf', ps') \<Longrightarrow> length (concat ps') \<le> length (concat ps)"
  by (induction n buf ps rule: read_exactly.induct) (auto split: if_splits)

lemma read_more_less: "read_more n k buf ps = Some (buf', ps') \<Longrightarrow> length (concat ps') \<le> length (concat ps)"
  by (auto simp: read_more_def read_exactly_less split: if_splits)

lemma read_chunk_less:
  assumes "read_chunk buf ps = Inr (Inr (len, chunk, buf', ps'))"
  shows "length (concat ps') \<le> length (concat ps)"
  using assms by (auto simp: read_chunk_def Let_def split: option.splits if_splits sum.splits
      dest!: read_until_less read_more_less)

lemma chunk_loop_less: "chunk_loop buf ps chunks = Inr (Inr (content, ps')) \<Longrightarrow> length (concat ps') \<le> length (concat ps)"
proof (induction buf ps chunks rule: chunk_loop.induct)
  case (1 buf ps chunks)
  obtain len chunk buf1 ps1 where r: "read_chunk buf ps = Inr (Inr (len, chunk, buf1, ps1))"
    using 1(2) by (subst (asm) chunk_loop.simps) (auto split: sum.splits option.splits)
  note b = read_chunk_less [OF r]
  show ?case
  proof (cases "0 < len")
    case True
    with 1(2) r have "chunk_loop buf1 ps1 (chunks @ chunk) = Inr (Inr (content, ps'))"
      by (subst (asm) chunk_loop.simps) simp
    with 1(1) r True b show ?thesis by fastforce
  next
    case False
    with 1(2) r have "ps' = ps1" by (subst (asm) chunk_loop.simps) simp
    with b show ?thesis by simp
  qed
qed

lemma find_str_split: "find_str d s = Some i \<Longrightarrow> s = take i s @ d @ drop (i + length d) s"
  using find_str_bounds [of d s i] by (metis append_take_drop_id add.commute drop_drop)

lemma find_str_None: "find_str d (a @ d @ b) \<noteq> None"
proof (induction a)
  case Nil
  then show ?case using starts_with_append [of d b] by (cases "d @ b") (auto simp del: starts_with_append)
qed auto


section \<open>The pieces do not matter\<close>

lemma find_str_append: "find_str d s = Some i \<Longrightarrow> find_str d (s @ t) = Some i"
proof (induction s arbitrary: i)
  case Nil
  then show ?case by (cases t) (auto simp: starts_with_def split: if_splits)
next
  case (Cons c cs)
  show ?case
  proof (cases "starts_with d (c # cs)")
    case True
    then have "starts_with d ((c # cs) @ t)" using starts_with_length [OF True]
      by (simp only: starts_with_def take_append) simp
    with True Cons.prems show ?thesis by simp
  next
    case False
    with Cons.prems obtain j where j: "find_str d cs = Some j" "i = Suc j" by auto
    then have "length d \<le> length (c # cs)" using find_str_bounds [OF j(1)] by simp
    with False have "\<not> starts_with d ((c # cs) @ t)" by (simp only: starts_with_def take_append) simp
    with j Cons.IH show ?thesis by simp
  qed
qed

text \<open>What is read depends on the bytes alone: the delimiter that comes first in them.\<close>

lemma read_until_find:
  assumes "find_str d (buf @ concat ps) = Some i"
  shows "\<exists>buf' ps'. read_until d buf ps = Some (buf', i + length d, ps') \<and> buf' @ concat ps' = buf @ concat ps
    \<and> i + length d \<le> length buf'"
  using assms
proof (induction ps arbitrary: buf)
  case Nil
  then show ?case using find_str_bounds [of d buf i] by (auto simp: read_until.simps)
next
  case (Cons p ps)
  show ?case
  proof (cases "find_str d buf")
    case (Some j)
    then have "j = i" using find_str_append [OF Some] Cons.prems by fastforce
    with Some show ?thesis using find_str_bounds [OF Some] by (auto simp: read_until.simps)
  next
    case None
    with Cons.IH [of "buf @ p"] Cons.prems show ?thesis by (subst read_until.simps) simp
  qed
qed

text \<open>If it ends with the last byte of a piece that is not empty, exactly the pieces up to it are read.\<close>

lemma read_until_whole:
  assumes "find_str d (buf @ concat ps @ p) = Some i" and "i + length d = length (buf @ concat ps @ p)" and "p \<noteq> []"
  shows "read_until d buf (ps @ p # qs) = Some (buf @ concat ps @ p, i + length d, qs)"
  using assms
proof (induction ps arbitrary: buf)
  case Nil
  have "find_str d buf = None"
  proof (cases "find_str d buf")
    case (Some j)
    with find_str_append [OF Some, of p] find_str_bounds [OF Some] Nil show ?thesis by simp
  qed simp
  with Nil show ?case by (subst read_until.simps) (simp add: read_until.simps)
next
  case (Cons q ps)
  have "find_str d buf = None"
  proof (cases "find_str d buf")
    case (Some j)
    with find_str_append [OF Some, of "concat (q # ps) @ p"] find_str_bounds [OF Some] Cons.prems show ?thesis by simp
  qed simp
  with Cons.IH [of "buf @ q"] Cons.prems show ?case by (subst read_until.simps) simp
qed

lemma read_exactly_total:
  "n \<le> length (concat ps) \<Longrightarrow> \<exists>ps'. read_exactly n buf ps = Some (buf @ take n (concat ps), ps') \<and> concat ps' = drop n (concat ps)"
proof (induction n buf ps rule: read_exactly.induct)
  case (2 n buf p ps)
  then show ?case by (cases "n = 0"; cases "length p \<le> n") auto
qed auto

lemma read_more_total:
  assumes "k \<le> length buf" and "n - k \<le> length (concat ps)"
  shows "\<exists>ps'. read_more n k buf ps = Some (buf @ take (n - k) (concat ps), ps') \<and> concat ps' = drop (n - k) (concat ps)"
  using read_exactly_total [OF assms(2), of buf] assms(1) by (cases "k < n") (auto simp: read_more_def)

section \<open>Chunks are read back\<close>

text \<open>The sum \<open>2 + length\<close> does not wrap for a size a text can have.\<close>

definition size_line :: "string \<Rightarrow> nat \<Rightarrow> bool" where
  "size_line l n \<longleftrightarrow> newline \<notin> set l \<and> CR \<notin> set l \<and> stoul16 l = Inr n \<and> n < 2 ^ 63"

lemma find_line_end: "CR \<notin> set l \<Longrightarrow> newline \<notin> set l \<Longrightarrow> find_str [CR, newline] (l @ CR # newline # r) = Some (length l)"
  by (induction l) (auto simp: starts_with_def)

lemma read_chunk_text:
  assumes l: "size_line l n" and buf: "buf @ concat ps = l @ CR # newline # chunk @ a # b # rest" and n: "length chunk = n"
  shows "\<exists>buf' ps'. read_chunk buf ps = Inr (Inr (n, chunk, buf', ps')) \<and> buf' @ concat ps' = rest"
proof -
  from l have f: "find_str [CR, newline] (buf @ concat ps) = Some (length l)"
    unfolding buf by (intro find_line_end) (simp_all add: size_line_def)
  obtain buf1 ps1 where r: "read_until [CR, newline] buf ps = Some (buf1, length l + 2, ps1)"
    "buf1 @ concat ps1 = buf @ concat ps" "length l + 2 \<le> length buf1"
    using read_until_find [OF f] by auto
  let ?rest = "drop (length l + 2) buf1"
  have b1: "buf1 = l @ CR # newline # ?rest"
  proof -
    have "take (length l + 2) buf1 = take (length l + 2) (buf1 @ concat ps1)" using r(3) by simp
    also have "\<dots> = l @ [CR, newline]" unfolding r(2) buf by simp
    finally show ?thesis by (metis append_Cons append_Nil append_assoc append_take_drop_id)
  qed
  have rest: "?rest @ concat ps1 = chunk @ a # b # rest"
  proof -
    have "(l @ CR # newline # ?rest) @ concat ps1 = l @ CR # newline # chunk @ a # b # rest"
      using r(2) unfolding buf by (simp only: b1 [symmetric])
    then show ?thesis by simp
  qed
  have line: "takeWhile (\<lambda>c. c \<noteq> newline) buf1 = l @ [CR]"
  proof -
    have "takeWhile (\<lambda>c. c \<noteq> newline) ((l @ [CR]) @ newline # z) = l @ [CR]" for z
      using l by (intro takeWhile_stop) (simp add: size_line_def)
    from this [of ?rest] show ?thesis by (metis append.assoc append_Cons append_Nil b1)
  qed
  let ?need = "(2 + n) mod 2 ^ 64"
  have need: "?need = 2 + n" using l by (simp add: size_line_def)
  obtain ps2 where m: "read_more (2 + n) (length ?rest) ?rest ps1 = Some (?rest @ take (2 + n - length ?rest) (concat ps1), ps2)"
    "concat ps2 = drop (2 + n - length ?rest) (concat ps1)"
  proof -
    have "length (?rest @ concat ps1) \<ge> 2 + n" unfolding rest using n by simp
    then have "2 + n - length ?rest \<le> length (concat ps1)" by simp
    from read_more_total [OF order_refl this] that show thesis by blast
  qed
  let ?buf2 = "?rest @ take (2 + n - length ?rest) (concat ps1)"
  have b2: "?buf2 @ concat ps2 = chunk @ a # b # rest" using rest m(2) by simp
  have len2: "2 + n \<le> length ?buf2"
    using arg_cong [OF rest, of length] n by (auto simp: min_def)
  have t: "take n ?buf2 = chunk"
  proof -
    have "take n ?buf2 = take n (?buf2 @ concat ps2)" using len2 by simp
    then show ?thesis unfolding b2 using n by simp
  qed
  have d: "drop (n + 2) ?buf2 @ concat ps2 = rest"
  proof -
    have "drop (n + 2) ?buf2 @ concat ps2 = drop (n + 2) (?buf2 @ concat ps2)" using len2 by simp
    then show ?thesis unfolding b2 using n by simp
  qed
  have "read_chunk buf ps = Inr (Inr (n, take n ?buf2, drop (n + 2) ?buf2, ps2))"
    using l m(1) need line by (simp add: read_chunk_def r(1) Let_def size_line_def)
  with t d show ?thesis by blast
qed

text \<open>A body in chunks, each with its size line, up to the chunk of size 0.\<close>

definition chunks_text :: "(string \<times> string) list \<Rightarrow> string" where
  "chunks_text cs = concat (map (\<lambda>(l, c). l @ [CR, newline] @ c @ [CR, newline]) cs) @ ''0'' @ [CR, newline, CR, newline]"

definition chunks_ok :: "(string \<times> string) list \<Rightarrow> bool" where
  "chunks_ok cs \<longleftrightarrow> list_all (\<lambda>(l, c). c \<noteq> [] \<and> size_line l (length c)) cs"

lemma size_line_0: "size_line ''0'' 0"
  by (simp add: size_line_def stoul16_def is_space_def read_sign_def hex_val_def newline_def CR_def Let_def)

lemma chunk_loop_text:
  assumes "chunks_ok cs" and "buf @ concat ps = chunks_text cs @ rest"
  shows "\<exists>buf' ps'. chunk_loop buf ps acc = Inr (Inr (buf' @ acc @ concat (map snd cs), ps')) \<and> buf' @ concat ps' = rest"
  using assms
proof (induction cs arbitrary: buf ps acc)
  case Nil
  then have "buf @ concat ps = ''0'' @ CR # newline # [] @ CR # newline # rest" by (simp add: chunks_text_def)
  from read_chunk_text [OF size_line_0 this] obtain buf' ps' where
    "read_chunk buf ps = Inr (Inr (0, [], buf', ps'))" "buf' @ concat ps' = rest" by auto
  then show ?case by (subst chunk_loop.simps) simp
next
  case (Cons x cs)
  obtain l c where x: "x = (l, c)" by (cases x)
  with Cons.prems(1) have l: "size_line l (length c)" "c \<noteq> []" by (simp_all add: chunks_ok_def)
  have "buf @ concat ps = l @ CR # newline # c @ CR # newline # chunks_text cs @ rest"
    using Cons.prems(2) x by (simp add: chunks_text_def)
  from read_chunk_text [OF l(1) this] obtain buf1 ps1 where
    r: "read_chunk buf ps = Inr (Inr (length c, c, buf1, ps1))" "buf1 @ concat ps1 = chunks_text cs @ rest" by auto
  from Cons.IH [OF _ r(2), of "acc @ c"] Cons.prems(1) obtain buf' ps' where
    "chunk_loop buf1 ps1 (acc @ c) = Inr (Inr (buf' @ acc @ c @ concat (map snd cs), ps'))" "buf' @ concat ps' = rest"
    by (auto simp: chunks_ok_def)
  with r(1) l(2) x show ?case by (subst chunk_loop.simps) simp
qed

section \<open>Reading stops where the message stops\<close>

text \<open>Pieces behind the ones that are needed stay as they are, and no piece that is left is empty if none
  was at the end.\<close>

definition tight :: "string list \<Rightarrow> bool" where
  "tight ps \<longleftrightarrow> ps = [] \<or> last ps \<noteq> []"

lemma tight_simps [simp]: "tight []" "tight (p # ps) \<longleftrightarrow> (if ps = [] then p \<noteq> [] else tight ps)"
  by (simp_all add: tight_def)

lemma tight_empty: "tight ps \<Longrightarrow> concat ps = [] \<Longrightarrow> ps = []"
  by (metis concat_eq_Nil_conv last_in_set tight_def)

lemma read_until_frame:
  "read_until d buf ps = Some (buf', n, ps') \<Longrightarrow>
    read_until d buf (ps @ qs) = Some (buf', n, ps' @ qs) \<and> (tight ps \<longrightarrow> tight ps')"
proof (induction ps arbitrary: buf)
  case Nil
  then show ?case by (auto simp: read_until.simps split: option.splits)
next
  case (Cons p ps)
  show ?case
  proof (cases "find_str d buf")
    case None
    with Cons.prems have "read_until d (buf @ p) ps = Some (buf', n, ps')"
      by (subst (asm) read_until.simps) simp
    note IH = Cons.IH [OF this]
    moreover have "read_until d buf ((p # ps) @ qs) = read_until d (buf @ p) (ps @ qs)"
      using None by (subst read_until.simps) simp
    ultimately show ?thesis by (auto split: if_splits)
  next
    case (Some i)
    then have "read_until d buf (xs :: string list) = Some (buf, i + length d, xs)" for xs
      by (simp add: read_until.simps)
    with Cons.prems show ?thesis by simp
  qed
qed

lemma read_exactly_frame:
  "read_exactly n buf ps = Some (buf', ps') \<Longrightarrow>
    read_exactly n buf (ps @ qs) = Some (buf', ps' @ qs) \<and> (tight ps \<longrightarrow> tight ps')"
proof (induction n buf ps rule: read_exactly.induct)
  case (1 n buf)
  then show ?case by (cases qs) (auto split: if_splits)
qed (auto split: if_splits)

lemma read_more_frame:
  "read_more n k buf ps = Some (buf', ps') \<Longrightarrow>
    read_more n k buf (ps @ qs) = Some (buf', ps' @ qs) \<and> (tight ps \<longrightarrow> tight ps')"
  using read_exactly_frame by (auto simp: read_more_def split: if_splits)

lemma read_chunk_frame:
  assumes "read_chunk buf ps = Inr (Inr (len, chunk, buf', ps'))"
  shows "read_chunk buf (ps @ qs) = Inr (Inr (len, chunk, buf', ps' @ qs)) \<and> (tight ps \<longrightarrow> tight ps')"
proof -
  obtain buf1 n ps1 where r: "read_until [CR, newline] buf ps = Some (buf1, n, ps1)"
    using assms by (auto simp: read_chunk_def split: option.splits)
  let ?line = "takeWhile (\<lambda>c. c \<noteq> newline) buf1"
  let ?rest = "drop (length ?line + 1) buf1"
  let ?k = "length ?rest - (n - (length ?line + 1))"
  have l: "?line \<noteq> []" "stoul16 (butlast ?line) = Inr len" "len < 2 ^ 63"
    and m: "\<exists>buf2. read_more ((2 + len) mod 2 ^ 64) ?k ?rest ps1 = Some (buf2, ps')
      \<and> chunk = take len buf2 \<and> buf' = drop (len + 2) buf2"
    using assms r by (auto simp: read_chunk_def Let_def not_le split: option.splits if_splits sum.splits)
  from m obtain buf2 where m2: "read_more ((2 + len) mod 2 ^ 64) ?k ?rest ps1 = Some (buf2, ps')"
    "chunk = take len buf2" "buf' = drop (len + 2) buf2" by blast
  note f = read_until_frame [OF r, of qs] read_more_frame [OF m2(1), of qs]
  with l m2 show ?thesis by (auto simp: read_chunk_def Let_def)
qed

lemma chunk_loop_frame:
  "chunk_loop buf ps chunks = Inr (Inr (content, ps')) \<Longrightarrow>
    chunk_loop buf (ps @ qs) chunks = Inr (Inr (content, ps' @ qs)) \<and> (tight ps \<longrightarrow> tight ps')"
proof (induction buf ps chunks rule: chunk_loop.induct)
  case (1 buf ps chunks)
  obtain len chunk buf1 ps1 where r: "read_chunk buf ps = Inr (Inr (len, chunk, buf1, ps1))"
    using 1(2) by (subst (asm) chunk_loop.simps) (auto split: sum.splits)
  note f = read_chunk_frame [OF r, of qs]
  show ?case
  proof (cases "0 < len")
    case True
    with 1(2) r have "chunk_loop buf1 ps1 (chunks @ chunk) = Inr (Inr (content, ps'))"
      by (subst (asm) chunk_loop.simps) simp
    note IH = 1(1) [OF r refl refl refl refl True this]
    with f True show ?thesis by (subst chunk_loop.simps) simp
  next
    case False
    with 1(2) r have "ps' = ps1 \<and> content = buf1 @ chunks" by (subst (asm) chunk_loop.simps) simp
    with f False show ?thesis by (subst chunk_loop.simps) simp
  qed
qed

section \<open>The end of a header\<close>

text \<open>A header that has been found in the stream can be parsed: the empty line ends the loop.\<close>

lemma split_delimited:
  "split_on newline (a @ [CR, newline, CR, newline] @ b) = split_on newline (a @ [CR]) @ [CR] # split_on newline b"
proof -
  have "a @ [CR, newline, CR, newline] @ b = (a @ [CR]) @ newline # [CR] @ newline # b" by simp
  then show ?thesis using split_on_free [of newline "[CR]"] by (simp only: split_on_join) simp
qed

lemma delimited_header_returns:
  "\<exists>l r. newline \<notin> set l \<and> a @ [CR, newline, CR, newline] @ b = l @ newline # r \<and> HttpHeader_parse (r, True) \<noteq> None"
proof -
  let ?buf = "a @ [CR, newline, CR, newline] @ b"
  have "newline \<in> set ?buf" by simp
  then obtain l r where lr: "newline \<notin> set l" "?buf = l @ newline # r" by (metis split_list_first)
  have "l # split_on newline r = split_on newline (a @ [CR]) @ [CR] # split_on newline b"
    using split_delimited [of a b] lr split_on_append by metis
  then have "[CR] \<in> set (split_on newline r)"
    by (cases "split_on newline (a @ [CR])") auto
  moreover have "\<not> has_colon [CR]" by (simp add: has_colon_def)
  ultimately have "HttpHeader_parse (r, True) \<noteq> None"
    using header_returns_iff [of r] by (auto simp: list_all_iff)
  with lr show ?thesis by blast
qed

lemma read_until_delimited:
  assumes "read_until [CR, newline, CR, newline] buf0 ps = Some (buf, n, ps')"
  shows "\<exists>a b. buf = a @ [CR, newline, CR, newline] @ b"
proof -
  have "take 4 (drop (n - 4) buf) = [CR, newline, CR, newline]"
    using read_until_bytes [OF assms] by (simp add: eval_nat_numeral)
  then show ?thesis by (metis append_take_drop_id)
qed

text \<open>A message: its first line and its fields. The first empty line is the one behind the fields.\<close>

definition clean_fields :: "fields \<Rightarrow> bool" where
  "clean_fields h \<longleftrightarrow> list_all (\<lambda>(n, v). CHR '':'' \<notin> set n \<and> newline \<notin> set n \<and> newline \<notin> set v) h"

definition message_text :: "string \<Rightarrow> fields \<Rightarrow> string" where
  "message_text line h = line @ [CR, newline] @ header_text h"

lemma message_lines:
  assumes "newline \<notin> set line" and "line \<noteq> []" and "clean_fields h"
  obtains X where "split_on newline (message_text line h) = X @ [[CR], []]" "[CR] \<notin> set X"
proof -
  let ?hl = "\<lambda>(n, v). n @ CHR '':'' # CHR '' '' # v @ [CR]"
  have h: "split_on newline (concat (map (\<lambda>(n, v). n @ '': '' @ v @ [CR, newline]) h) @ [CR, newline]) = map ?hl h @ [[CR], []]"
    if "clean_fields h" for h
    using that
  proof (induction h)
    case Nil
    then show ?case using split_on_append [of newline "[CR]" "[]"] by simp
  next
    case (Cons x h)
    obtain n v where x: "x = (n, v)" by (cases x)
    with Cons.prems have "newline \<notin> set (?hl x)" by (simp add: clean_fields_def)
    with Cons x show ?case using split_on_append [of newline "?hl x"] by (simp add: clean_fields_def)
  qed
  have "split_on newline (message_text line h) = ((line @ [CR]) # map ?hl h) @ [[CR], []]"
    using split_on_append [of newline "line @ [CR]"] h [OF assms(3)] assms(1)
    by (simp add: message_text_def header_text_def)
  moreover have "[CR] \<notin> set ((line @ [CR]) # map ?hl h)" using assms(2) by (auto simp: Cons_eq_append_conv)
  ultimately show thesis using that by blast
qed

lemma message_delimiter_last:
  assumes "newline \<notin> set line" and "line \<noteq> []" and "clean_fields h"
    and "message_text line h = a @ [CR, newline, CR, newline] @ b"
  shows "b = []"
proof -
  obtain X where X: "split_on newline (message_text line h) = X @ [[CR], []]" "[CR] \<notin> set X"
    using message_lines [OF assms(1,2,3)] by blast
  then have e: "split_on newline (a @ [CR]) @ [CR] # split_on newline b = X @ [[CR], []]"
    using split_delimited [of a b] assms(4) by simp
  have "split_on newline b = [[]]"
    using e X(2) by (cases "split_on newline b" rule: rev_cases)
      (auto simp: append_eq_append_conv2 Cons_eq_append_conv append_eq_Cons_conv)
  then show ?thesis by (cases b) (auto split: if_splits list.splits)
qed

lemma message_delimiter:
  assumes "newline \<notin> set line" and "line \<noteq> []" and "clean_fields h"
  shows "\<exists>i. find_str [CR, newline, CR, newline] (message_text line h @ body) = Some i
    \<and> i + length [CR, newline, CR, newline] = length (message_text line h)"
proof -
  let ?d = "[CR, newline, CR, newline]"
  have "\<exists>a. message_text line h = a @ ?d @ []"
    by (cases h rule: rev_cases) (auto simp: message_text_def header_text_def)
  then have "find_str ?d (message_text line h) \<noteq> None" by (metis find_str_None)
  then obtain i where i: "find_str ?d (message_text line h) = Some i" by blast
  then have "message_text line h = take i (message_text line h) @ ?d @ drop (i + length ?d) (message_text line h)"
    by (rule find_str_split)
  from message_delimiter_last [OF assms this] have "i + length ?d = length (message_text line h)"
    using find_str_bounds [OF i] by simp
  with find_str_append [OF i, of body] show ?thesis by blast
qed

lemma read_message:
  assumes "newline \<notin> set line" and "line \<noteq> []" and "clean_fields h" and ps: "concat ps = message_text line h @ body"
  shows "\<exists>rest ps'. read_until [CR, newline, CR, newline] [] ps = Some (message_text line h @ rest, length (message_text line h), ps')
    \<and> rest @ concat ps' = body"
proof -
  let ?d = "[CR, newline, CR, newline]"
  let ?t = "message_text line h"
  obtain i where "find_str ?d ([] @ concat ps) = Some i" and i: "i + length ?d = length ?t"
    using message_delimiter [OF assms(1,2,3), of body] ps by auto
  from read_until_find [OF this(1)] obtain buf ps' where r: "read_until ?d [] ps = Some (buf, length ?t, ps')"
    "buf @ concat ps' = concat ps" "length ?t \<le> length buf" unfolding i by auto
  have "take (length ?t) buf = take (length ?t) (buf @ concat ps')" using r(3) by simp
  then have "take (length ?t) buf = ?t" unfolding r(2) ps by simp
  then have buf: "buf = ?t @ drop (length ?t) buf" by (metis append_take_drop_id)
  then have "drop (length ?t) buf @ concat ps' = body" using r(2) ps by (metis append_assoc same_append_eq)
  with r(1) buf show ?thesis by metis
qed

lemma read_message_at_once:
  assumes "newline \<notin> set line" and "line \<noteq> []" and "clean_fields h"
  shows "read_until [CR, newline, CR, newline] [] ((message_text line h @ body) # ps) =
    Some (message_text line h @ body, length (message_text line h), ps)"
  using message_delimiter [OF assms, of body] by (auto simp: read_until.simps)

end
