(* ===== verification/StatusCodes.thy ===== *)
theory StatusCodes
  imports Prelude
begin

text \<open>
  \<open>include/status_code.hpp\<close>: the status codes of HTTP, the table of their texts, and the two functions
  \<open>status_code\<close> between them. The map of the texts back is a hash map filled from the table.
\<close>

section \<open>The enumeration and its numbers\<close>

datatype (plugins only: code) StatusCode =
    Unknown | Information_continue | Information_switching_protocols | Information_processing |
    Success_ok | Success_created | Success_accepted | Success_non_authoritative_information |
    Success_no_content | Success_reset_content | Success_partial_content | Success_multi_status |
    Success_already_reported | Success_im_used | Redirection_multiple_choices |
    Redirection_moved_permanently | Redirection_found | Redirection_see_other | Redirection_not_modified |
    Redirection_use_proxy | Redirection_switch_proxy | Redirection_temporary_redirect |
    Redirection_permanent_redirect | Client_error_bad_request | Client_error_unauthorized |
    Client_error_payment_required | Client_error_forbidden | Client_error_not_found |
    Client_error_method_not_allowed | Client_error_not_acceptable |
    Client_error_proxy_authentication_required | Client_error_request_timeout | Client_error_conflict |
    Client_error_gone | Client_error_length_required | Client_error_precondition_failed |
    Client_error_payload_too_large | Client_error_uri_too_long | Client_error_unsupported_media_type |
    Client_error_range_not_satisfiable | Client_error_expectation_failed | Client_error_im_a_teapot |
    Client_error_misdirection_required | Client_error_unprocessable_entity | Client_error_locked |
    Client_error_failed_dependency | Client_error_upgrade_required | Client_error_precondition_required |
    Client_error_too_many_requests | Client_error_request_header_fields_too_large |
    Client_error_unavailable_for_legal_reasons | Server_error_internal_server_error |
    Server_error_not_implemented | Server_error_bad_gateway | Server_error_service_unavailable |
    Server_error_gateway_timeout | Server_error_http_version_not_supported |
    Server_error_variant_also_negotiates | Server_error_insufficient_storage | Server_error_loop_detected |
    Server_error_not_extended | Server_error_network_authentication_required

text \<open>The enumerators with the values that are written down; the others count on from the one before.\<close>

definition enumerators :: "(StatusCode \<times> int option) list" where
  "enumerators = [
     (Unknown, Some 0), (Information_continue, Some 100), (Information_switching_protocols, None),
     (Information_processing, None), (Success_ok, Some 200), (Success_created, None),
     (Success_accepted, None), (Success_non_authoritative_information, None), (Success_no_content, None),
     (Success_reset_content, None), (Success_partial_content, None), (Success_multi_status, None),
     (Success_already_reported, None), (Success_im_used, Some 226),
     (Redirection_multiple_choices, Some 300), (Redirection_moved_permanently, None),
     (Redirection_found, None), (Redirection_see_other, None), (Redirection_not_modified, None),
     (Redirection_use_proxy, None), (Redirection_switch_proxy, None),
     (Redirection_temporary_redirect, None), (Redirection_permanent_redirect, None),
     (Client_error_bad_request, Some 400), (Client_error_unauthorized, None),
     (Client_error_payment_required, None), (Client_error_forbidden, None), (Client_error_not_found, None),
     (Client_error_method_not_allowed, None), (Client_error_not_acceptable, None),
     (Client_error_proxy_authentication_required, None), (Client_error_request_timeout, None),
     (Client_error_conflict, None), (Client_error_gone, None), (Client_error_length_required, None),
     (Client_error_precondition_failed, None), (Client_error_payload_too_large, None),
     (Client_error_uri_too_long, None), (Client_error_unsupported_media_type, None),
     (Client_error_range_not_satisfiable, None), (Client_error_expectation_failed, None),
     (Client_error_im_a_teapot, None), (Client_error_misdirection_required, Some 421),
     (Client_error_unprocessable_entity, None), (Client_error_locked, None),
     (Client_error_failed_dependency, None), (Client_error_upgrade_required, Some 426),
     (Client_error_precondition_required, Some 428), (Client_error_too_many_requests, None),
     (Client_error_request_header_fields_too_large, Some 431),
     (Client_error_unavailable_for_legal_reasons, Some 451),
     (Server_error_internal_server_error, Some 500), (Server_error_not_implemented, None),
     (Server_error_bad_gateway, None), (Server_error_service_unavailable, None),
     (Server_error_gateway_timeout, None), (Server_error_http_version_not_supported, None),
     (Server_error_variant_also_negotiates, None), (Server_error_insufficient_storage, None),
     (Server_error_loop_detected, None), (Server_error_not_extended, Some 510),
     (Server_error_network_authentication_required, None)]"

fun number_from :: "int \<Rightarrow> (StatusCode \<times> int option) list \<Rightarrow> (StatusCode \<times> int) list" where
  "number_from next_value [] = []"
| "number_from next_value ((c, v) # cs) =
     (let n = (case v of None \<Rightarrow> next_value | Some k \<Rightarrow> k) in (c, n) # number_from (n + 1) cs)"

definition status_number :: "StatusCode \<Rightarrow> int" where
  "status_number c = the (map_of (number_from 0 enumerators) c)"

section \<open>The texts\<close>

definition status_code_strings :: "(StatusCode \<times> string) list" where
  "status_code_strings = [
     (Unknown, ''''), (Information_continue, ''100 Continue''),
     (Information_switching_protocols, ''101 Switching Protocols''),
     (Information_processing, ''102 Processing''), (Success_ok, ''200 OK''),
     (Success_created, ''201 Created''), (Success_accepted, ''202 Accepted''),
     (Success_non_authoritative_information, ''203 Non-Authoritative Information''),
     (Success_no_content, ''204 No Content''), (Success_reset_content, ''205 Reset Content''),
     (Success_partial_content, ''206 Partial Content''), (Success_multi_status, ''207 Multi-Status''),
     (Success_already_reported, ''208 Already Reported''), (Success_im_used, ''226 IM Used''),
     (Redirection_multiple_choices, ''300 Multiple Choices''),
     (Redirection_moved_permanently, ''301 Moved Permanently''), (Redirection_found, ''302 Found''),
     (Redirection_see_other, ''303 See Other''), (Redirection_not_modified, ''304 Not Modified''),
     (Redirection_use_proxy, ''305 Use Proxy''), (Redirection_switch_proxy, ''306 Switch Proxy''),
     (Redirection_temporary_redirect, ''307 Temporary Redirect''),
     (Redirection_permanent_redirect, ''308 Permanent Redirect''),
     (Client_error_bad_request, ''400 Bad Request''), (Client_error_unauthorized, ''401 Unauthorized''),
     (Client_error_payment_required, ''402 Payment Required''),
     (Client_error_forbidden, ''403 Forbidden''), (Client_error_not_found, ''404 Not Found''),
     (Client_error_method_not_allowed, ''405 Method Not Allowed''),
     (Client_error_not_acceptable, ''406 Not Acceptable''),
     (Client_error_proxy_authentication_required, ''407 Proxy Authentication Required''),
     (Client_error_request_timeout, ''408 Request Timeout''), (Client_error_conflict, ''409 Conflict''),
     (Client_error_gone, ''410 Gone''), (Client_error_length_required, ''411 Length Required''),
     (Client_error_precondition_failed, ''412 Precondition Failed''),
     (Client_error_payload_too_large, ''413 Payload Too Large''),
     (Client_error_uri_too_long, ''414 URI Too Long''),
     (Client_error_unsupported_media_type, ''415 Unsupported Media Type''),
     (Client_error_range_not_satisfiable, ''416 Range Not Satisfiable''),
     (Client_error_expectation_failed, ''417 Expectation Failed''),
     (Client_error_im_a_teapot, ''418 I'' @ [CHR 0x27] @ ''m a teapot''),
     (Client_error_misdirection_required, ''421 Misdirected Request''),
     (Client_error_unprocessable_entity, ''422 Unprocessable Entity''),
     (Client_error_locked, ''423 Locked''), (Client_error_failed_dependency, ''424 Failed Dependency''),
     (Client_error_upgrade_required, ''426 Upgrade Required''),
     (Client_error_precondition_required, ''428 Precondition Required''),
     (Client_error_too_many_requests, ''429 Too Many Requests''),
     (Client_error_request_header_fields_too_large, ''431 Request Header Fields Too Large''),
     (Client_error_unavailable_for_legal_reasons, ''451 Unavailable For Legal Reasons''),
     (Server_error_internal_server_error, ''500 Internal Server Error''),
     (Server_error_not_implemented, ''501 Not Implemented''),
     (Server_error_bad_gateway, ''502 Bad Gateway''),
     (Server_error_service_unavailable, ''503 Service Unavailable''),
     (Server_error_gateway_timeout, ''504 Gateway Timeout''),
     (Server_error_http_version_not_supported, ''505 HTTP Version Not Supported''),
     (Server_error_variant_also_negotiates, ''506 Variant Also Negotiates''),
     (Server_error_insufficient_storage, ''507 Insufficient Storage''),
     (Server_error_loop_detected, ''508 Loop Detected''),
     (Server_error_not_extended, ''510 Not Extended''),
     (Server_error_network_authentication_required, ''511 Network Authentication Required'')]"

definition status_code_text :: "StatusCode \<Rightarrow> string" where
  "status_code_text c = (case map_of status_code_strings c of None \<Rightarrow> [] | Some s \<Rightarrow> s)"

text \<open>\<open>emplace\<close> keeps the first entry of a key.\<close>

definition string_to_status_code :: "(string \<times> StatusCode) list" where
  "string_to_status_code = foldl (\<lambda>m (c, s). if s \<in> set (map fst m) then m else m @ [(s, c)]) [] status_code_strings"

definition status_code :: "string \<Rightarrow> StatusCode" where
  "status_code s = (case map_of string_to_status_code s of None \<Rightarrow> Unknown | Some c \<Rightarrow> c)"


section \<open>Properties\<close>

lemma enumerators_all: "c \<in> set (map fst enumerators)"
  by (cases c) (simp_all add: enumerators_def)

lemma all_codes: "list_all P (map fst enumerators) \<Longrightarrow> P c"
  using enumerators_all [of c] by (simp add: list_all_iff) blast

text \<open>The texts are distinct, so no entry is lost on the way into the hash map.\<close>

lemma emplace_distinct:
  "distinct (map snd xs) \<Longrightarrow> set (map snd xs) \<inter> set (map fst m) = {} \<Longrightarrow>
    foldl (\<lambda>m (c, s). if s \<in> set (map fst m) then m else m @ [(s, c)]) m xs = m @ map (\<lambda>(c, s). (s, c)) xs"
proof (induction xs arbitrary: m)
  case (Cons x xs)
  obtain c s where x: "x = (c, s)" by (cases x)
  have "foldl (\<lambda>m (c, s). if s \<in> set (map fst m) then m else m @ [(s, c)]) (m @ [(s, c)]) xs =
      (m @ [(s, c)]) @ map (\<lambda>(c, s). (s, c)) xs"
    using Cons.prems x by (intro Cons.IH) auto
  with Cons.prems x show ?case by auto
qed simp

lemma texts_distinct: "distinct (map snd status_code_strings)"
  by code_simp

lemma codes_distinct: "distinct (map fst status_code_strings)"
  by code_simp

lemma string_to_status_code_eq: "string_to_status_code = map (\<lambda>(c, s). (s, c)) status_code_strings"
  using emplace_distinct [OF texts_distinct, of "[]"] by (simp add: string_to_status_code_def)

lemma status_code_iff: "(c, s) \<in> set status_code_strings \<Longrightarrow> status_code_text c = s \<and> status_code s = c"
proof -
  assume a: "(c, s) \<in> set status_code_strings"
  then have "map_of status_code_strings c = Some s" using codes_distinct by simp
  moreover have "distinct (map fst string_to_status_code)" "(s, c) \<in> set string_to_status_code"
    using texts_distinct a by (force simp: string_to_status_code_eq comp_def split_def)+
  then have "map_of string_to_status_code s = Some c" by simp
  ultimately show ?thesis by (simp add: status_code_text_def status_code_def)
qed

lemma all_listed: "map fst status_code_strings = map fst enumerators"
  by code_simp

lemma number_from_codes: "map fst (number_from n es) = map fst es"
  by (induction n es rule: number_from.induct) (simp_all add: Let_def)

lemma numbers_match: "list_all2 (\<lambda>n s. s = [] \<or> take 4 s = show_int n @ '' '')
    (map snd (number_from 0 enumerators)) (map snd status_code_strings)"
  by code_simp

lemma map_of_nth_distinct: "distinct (map fst xs) \<Longrightarrow> i < length xs \<Longrightarrow> map_of xs (map fst xs ! i) = Some (map snd xs ! i)"
  by (metis map_of_eq_Some_iff nth_map nth_mem prod.collapse)

lemma text_number: "status_code_text c = [] \<or> take 4 (status_code_text c) = show_int (status_number c) @ '' ''"
proof -
  let ?xs = "number_from 0 enumerators" and ?ys = "status_code_strings"
  have f: "map fst ?xs = map fst ?ys" by (simp add: number_from_codes all_listed)
  then have l: "length ?xs = length ?ys" by (metis length_map)
  have "c \<in> set (map fst ?ys)" unfolding all_listed by (rule enumerators_all)
  then obtain i where i: "i < length ?ys" "map fst ?ys ! i = c" by (metis in_set_conv_nth length_map)
  have "status_number c = map snd ?xs ! i" "status_code_text c = map snd ?ys ! i"
    using map_of_nth_distinct [of ?xs i] map_of_nth_distinct [of ?ys i] codes_distinct i l
    by (simp_all only: status_number_def status_code_text_def f option.simps option.sel)
  moreover have "map snd ?ys ! i = [] \<or> take 4 (map snd ?ys ! i) = show_int (map snd ?xs ! i) @ '' ''"
    using numbers_match i(1) l by (simp only: list_all2_conv_all_nth length_map)
  ultimately show ?thesis by simp
qed

text \<open>C37: The numbering of the enumeration, most of it implicit, agrees with the table: the text of every
  code but \<open>unknown\<close> starts with the number of the code and a blank, and turning a code into its text
  and back gives the code again; a text that is not in the table is \<open>unknown\<close>.\<close>

theorem status_codes_consistent:
  "(c = Unknown \<or> take 4 (status_code_text c) = show_int (status_number c) @ '' '')
    \<and> status_code (status_code_text c) = c
    \<and> (status_code s = Unknown \<or> status_code_text (status_code s) = s)"
proof (intro conjI)
  have "status_code [] = Unknown" using status_code_iff [of Unknown "[]"] by (simp add: status_code_strings_def)
  have "c \<in> set (map fst status_code_strings)" unfolding all_listed by (rule enumerators_all)
  then show same: "status_code (status_code_text c) = c" using status_code_iff by auto
  with \<open>status_code [] = Unknown\<close> text_number [of c]
  show "c = Unknown \<or> take 4 (status_code_text c) = show_int (status_number c) @ '' ''" by auto
  show "status_code s = Unknown \<or> status_code_text (status_code s) = s"
  proof (cases "map_of string_to_status_code s")
    case (Some c)
    then have "(s, c) \<in> (\<lambda>(c, s). (s, c)) ` set status_code_strings"
      using map_of_SomeD [OF Some] by (simp only: string_to_status_code_eq set_map)
    then obtain x where "x \<in> set status_code_strings" "(s, c) = (\<lambda>(c, s). (s, c)) x" by (rule imageE)
    then have "(c, s) \<in> set status_code_strings" by (simp add: split_def)
    with status_code_iff [of c s] show ?thesis by simp
  qed (simp add: status_code_def)
qed

end
