(* ===== verification/HttpServer.thy ===== *)
theory HttpServer
  imports HttpBodies StatusCodes
begin

text \<open>
  The conversation of the web server with one client: \<open>read\<close>, \<open>read_chunked_transfer_encoded\<close>,
  \<open>find_resource\<close> and \<open>write\<close> of \<open>include/server_http.hpp\<close>, and the functions of \<open>Response\<close>. A handler is
  a function on a state of any type \<open>'s\<close>. Whether a regular expression matches a path, and the order in
  which a multimap gives back the values of a key, are parameters. No handler upgrades the connection or
  asks to close it, writing to the socket succeeds, and \<open>on_error\<close> does nothing, as \<open>main\<close> sets it.
\<close>

section \<open>Responses\<close>

text \<open>The loop over the fields: the text, and whether a length and a transfer encoding were among them.\<close>

definition write_field :: "string \<times> string \<Rightarrow> string \<times> bool \<times> bool \<Rightarrow> string \<times> bool \<times> bool" where
  "write_field f w = (case (f, w) of ((name, value), (out, content_length_written, chunked_transfer_encoding)) \<Rightarrow>
     let out' = out @ name @ '': '' @ value @ [CR, newline] in
     if \<not> content_length_written \<and> case_insensitive_equal name ''content-length''
     then (out', True, chunked_transfer_encoding)
     else if \<not> chunked_transfer_encoding \<and> case_insensitive_equal name ''transfer-encoding''
       \<and> case_insensitive_equal value ''chunked'' then (out', content_length_written, True)
     else (out', content_length_written, chunked_transfer_encoding))"

definition write_header :: "bool \<Rightarrow> fields \<Rightarrow> nat \<Rightarrow> string" where
  "write_header close_connection_after_response header n =
     (case fold write_field header ([], False, False) of (out, content_length_written, chunked_transfer_encoding) \<Rightarrow>
       out @ (if \<not> content_length_written \<and> \<not> chunked_transfer_encoding \<and> \<not> close_connection_after_response
         then ''Content-Length: '' @ show_nat n @ [CR, newline, CR, newline] else [CR, newline]))"

definition Response_write :: "bool \<Rightarrow> StatusCode \<Rightarrow> string \<Rightarrow> fields \<Rightarrow> string" where
  "Response_write close code content header =
     ''HTTP/1.1 '' @ status_code_text code @ [CR, newline] @ write_header close header (length content) @ content"

section \<open>Answering\<close>

text \<open>A handler gets the request with its content. It returns the exception that ended it, if any, what it
  wrote to the response until then, and the state.\<close>

type_synonym 's handler = "request \<Rightarrow> string \<Rightarrow> 's \<Rightarrow> cpp_exn option \<times> string \<times> 's"

record 's server =
  matches :: "string \<Rightarrow> string \<Rightarrow> bool"
  values_order :: "string list \<Rightarrow> string list"
  resource_map :: "(string \<times> (string \<times> 's handler) list) list"
  default_resource :: "(string \<times> 's handler) list"

text \<open>What one request leads to: no answer and the end, an answer and the end, an answer and the
  next request, which finds the pieces that are left.\<close>

datatype 's served = Dropped 's | Answered string 's | Continued string 's "string list"

fun keep_alive :: "string list \<Rightarrow> string \<Rightarrow> bool" where
  "keep_alive [] version = (\<not> string_less version ''1.1'')"
| "keep_alive (v # vs) version =
     (if case_insensitive_equal v ''close'' then False
      else if case_insensitive_equal v ''keep-alive'' then True
      else keep_alive vs version)"

definition stays_open :: "'s server \<Rightarrow> request \<Rightarrow> bool" where
  "stays_open srv rq = keep_alive (values_order srv (header_values ''Connection'' (rq_header rq))) (rq_version rq)"

definition std_exception :: "cpp_exn \<Rightarrow> bool" where
  "std_exception e \<longleftrightarrow> e = Out_of_range \<or> e = Invalid_argument \<or> e = Bad_alloc"

text \<open>The response is sent when the last reference to it goes away, also after a handler has thrown. What
  is not a \<open>std::exception\<close> leaves the server.\<close>

definition server_write :: "'s server \<Rightarrow> 's handler \<Rightarrow> request \<Rightarrow> string \<Rightarrow> string list \<Rightarrow> 's \<Rightarrow> 's served result" where
  "server_write srv resource_function rq content ps s =
     (case resource_function rq content s of (thrown, out, s') \<Rightarrow>
       let sent = (if stays_open srv rq then Continued out s' ps else Answered out s') in
       (case thrown of
          None \<Rightarrow> Inr sent
        | Some e \<Rightarrow> if std_exception e then Inr sent else Inl e))"

fun find_resource :: "(string \<Rightarrow> string \<Rightarrow> bool) \<Rightarrow> (string \<times> (string \<times> 's handler) list) list \<Rightarrow> request
    \<Rightarrow> 's handler option" where
  "find_resource m [] rq = None"
| "find_resource m ((regex, methods) # rs) rq =
     (case map_of methods (rq_method rq) of
        Some h \<Rightarrow> if m regex (rq_path rq) then Some h else find_resource m rs rq
      | None \<Rightarrow> find_resource m rs rq)"

definition dispatch :: "'s server \<Rightarrow> request \<Rightarrow> string \<Rightarrow> string list \<Rightarrow> 's \<Rightarrow> 's served result" where
  "dispatch srv rq content ps s =
     (case find_resource (matches srv) (resource_map srv) rq of
        Some h \<Rightarrow> server_write srv h rq content ps s
      | None \<Rightarrow> (case map_of (default_resource srv) (rq_method rq) of
            Some h \<Rightarrow> server_write srv h rq content ps s
          | None \<Rightarrow> Inr (Dropped s)))"

section \<open>One request, and a connection\<close>

definition empty_request :: request where
  "empty_request = \<lparr>rq_method = [], rq_path = [], rq_query_string = [], rq_version = [], rq_header = []\<rparr>"

text \<open>The content behind the header. \<open>rest\<close> is what has been read of it already. Without a length and an
  encoding it is what happens to be in the buffer.\<close>

definition read_body :: "'s server \<Rightarrow> fields \<Rightarrow> string \<Rightarrow> nat \<Rightarrow> string list
    \<Rightarrow> (net_error + string \<times> string list) result" where
  "read_body srv header rest num_additional_bytes ps =
     (case header_find (values_order srv) ''Content-Length'' header of
        Some v \<Rightarrow> (case stoull v of
            Inl _ \<Rightarrow> Inr (Inl Protocol_error)
          | Inr content_length \<Rightarrow> (case read_more content_length num_additional_bytes rest ps of
                None \<Rightarrow> Inr (Inl End_of_stream)
              | Some r \<Rightarrow> Inr (Inr r)))
      | None \<Rightarrow>
          if header_find (values_order srv) ''Transfer-Encoding'' header = Some ''chunked''
          then chunk_loop rest ps []
          else Inr (Inr (rest, ps)))"

definition serve_request :: "'s server \<Rightarrow> string list \<Rightarrow> 's \<Rightarrow> 's served call" where
  "serve_request srv packets s =
     (case read_until [CR, newline, CR, newline] [] packets of
        None \<Rightarrow> Some (Inr (Dropped s))
      | Some (buf, transferred, ps) \<Rightarrow>
          (case RequestMessage_parse (buf, True) empty_request of
             None \<Rightarrow> None
           | Some (Inl e) \<Rightarrow> Some (Inl e)
           | Some (Inr (False, _)) \<Rightarrow> Some (Inr (Dropped s))
           | Some (Inr (True, rq, (rest, _))) \<Rightarrow>
               Some (case read_body srv (rq_header rq) rest (length buf - transferred) ps of
                   Inl e \<Rightarrow> Inl e
                 | Inr (Inl _) \<Rightarrow> Inr (Dropped s)
                 | Inr (Inr (content, ps')) \<Rightarrow> dispatch srv rq content ps' s)))"

text \<open>Every session has a buffer of its own: what the last one has left in its buffer is gone. The branches
  for a buffer that has reached \<open>max_request_streambuf_size\<close> are left out: \<open>main\<close> keeps the default, the
  largest \<open>size_t\<close>, which no buffer reaches.\<close>

lemma server_write_packets: "server_write srv h rq content ps s = Inr (Continued out s' ps') \<Longrightarrow> ps' = ps"
  by (cases "h rq content s") (auto simp: server_write_def Let_def split: option.splits if_splits)

lemma dispatch_packets: "dispatch srv rq content ps s = Inr (Continued out s' ps') \<Longrightarrow> ps' = ps"
  by (auto simp: dispatch_def server_write_packets split: option.splits)

lemma read_body_less:
  "read_body srv h rest k ps = Inr (Inr (content, ps')) \<Longrightarrow> length (concat ps') \<le> length (concat ps)"
  by (auto simp: read_body_def dest: chunk_loop_less read_more_less split: option.splits sum.splits if_splits)

lemma serve_request_less:
  assumes "serve_request srv packets s = Some (Inr (Continued out s' ps'))"
  shows "length (concat ps') < length (concat packets)"
proof -
  obtain buf n ps where r: "read_until [CR, newline, CR, newline] [] packets = Some (buf, n, ps)"
    using assms by (auto simp: serve_request_def split: option.splits)
  have "length (concat ps) < length (concat packets)"
    using read_until_bytes [OF r] by (metis add.commute append_Nil length_append less_add_same_cancel1
        list.size(3) order_less_le_trans length_greater_0_conv list.distinct(1) less_le_trans)
  moreover have "length (concat ps') \<le> length (concat ps)"
    using assms r
    by (auto simp: serve_request_def dest!: dispatch_packets read_body_less
        split: option.split_asm sum.split_asm bool.split_asm prod.split_asm)
  ultimately show ?thesis by linarith
qed

function serve_connection :: "'s server \<Rightarrow> string list \<Rightarrow> 's \<Rightarrow> (string list \<times> 's) call" where
  "serve_connection srv packets s = (case serve_request srv packets s of
       None \<Rightarrow> None
     | Some (Inl e) \<Rightarrow> Some (Inl e)
     | Some (Inr (Dropped s')) \<Rightarrow> Some (Inr ([], s'))
     | Some (Inr (Answered out s')) \<Rightarrow> Some (Inr ([out], s'))
     | Some (Inr (Continued out s' ps)) \<Rightarrow>
         (case serve_connection srv ps s' of
            None \<Rightarrow> None
          | Some (Inl e) \<Rightarrow> Some (Inl e)
          | Some (Inr (outs, s'')) \<Rightarrow> Some (Inr (out # outs, s''))))"
  by pat_completeness auto
termination
  by (relation "measure (\<lambda>(_, packets, _). length (concat packets))") (auto simp: serve_request_less simp del: length_concat)

declare serve_connection.simps [simp del]

section \<open>The server always comes back\<close>

lemma parse_delimited_returns: "RequestMessage_parse (a @ [CR, newline, CR, newline] @ b, True) rq \<noteq> None"
proof -
  let ?buf = "a @ [CR, newline, CR, newline] @ b"
  obtain l r where lr: "newline \<notin> set l" "?buf = l @ newline # r" "HttpHeader_parse (r, True) \<noteq> None"
    using delimited_header_returns by blast
  then show ?thesis
    using request_line_ok [of l] by (auto simp: RequestMessage_parse_def getline_line split: option.splits sum.splits bool.splits)
qed

lemma serve_request_returns: "serve_request srv packets s \<noteq> None"
proof (cases "read_until [CR, newline, CR, newline] [] packets")
  case (Some r)
  obtain buf n ps where r: "r = (buf, n, ps)" by (cases r)
  obtain a b where "buf = a @ [CR, newline, CR, newline] @ b" using read_until_delimited [OF Some [unfolded r]] by blast
  then have "RequestMessage_parse (buf, True) empty_request \<noteq> None" using parse_delimited_returns by simp
  with Some r show ?thesis by (auto simp: serve_request_def split: option.splits sum.splits bool.splits)
qed (simp add: serve_request_def)

section \<open>Requests that arrive in pieces\<close>

lemma request_message:
  assumes "request_ok rq q"
  shows "\<exists>line. request_text rq q = message_text line (rq_header rq) \<and> newline \<notin> set line \<and> line \<noteq> []"
proof -
  let ?line = "rq_method rq @ CHR '' '' # target_text (rq_path rq) q @ CHR '' '' # ''HTTP/'' @ rq_version rq"
  have "newline \<notin> set ?line" using assms unfolding request_ok_def list_all_iff by auto
  moreover have "request_text rq q = message_text ?line (rq_header rq)"
    by (simp add: request_text_def message_text_def)
  ultimately show ?thesis by blast
qed

lemma request_clean: "request_ok rq q \<Longrightarrow> clean_fields (rq_header rq)"
  by (simp add: request_ok_def clean_fields_def)

text \<open>How the content of a message is told from what follows: by its length, in chunks, or not at all.\<close>

datatype framing = Sized string | Chunked "(string \<times> string) list" | Unframed

fun frame_text :: "framing \<Rightarrow> string" where
  "frame_text (Sized c) = c"
| "frame_text (Chunked cs) = chunks_text cs"
| "frame_text Unframed = []"

fun frame_content :: "framing \<Rightarrow> string" where
  "frame_content (Sized c) = c"
| "frame_content (Chunked cs) = concat (map snd cs)"
| "frame_content Unframed = []"

fun frame_ok :: "(string list \<Rightarrow> string list) \<Rightarrow> fields \<Rightarrow> framing \<Rightarrow> bool" where
  "frame_ok ord h (Sized c) \<longleftrightarrow> (\<exists>v. header_find ord ''Content-Length'' h = Some v \<and> stoull v = Inr (length c))"
| "frame_ok ord h (Chunked cs) \<longleftrightarrow> header_find ord ''Content-Length'' h = None
     \<and> header_find ord ''Transfer-Encoding'' h = Some ''chunked'' \<and> chunks_ok cs"
| "frame_ok ord h Unframed \<longleftrightarrow> header_find ord ''Content-Length'' h = None
     \<and> header_find ord ''Transfer-Encoding'' h \<noteq> Some ''chunked''"

lemma read_body_frame:
  "read_body srv h rest k ps = Inr (Inr (content, ps')) \<Longrightarrow>
    read_body srv h rest k (ps @ qs) = Inr (Inr (content, ps' @ qs)) \<and> (tight ps \<longrightarrow> tight ps')"
  by (auto simp: read_body_def dest: read_more_frame [where qs = qs] chunk_loop_frame [where qs = qs]
      split: option.split_asm sum.split_asm if_split_asm)

lemma read_body_content:
  assumes "frame_ok (values_order srv) h f" and "rest @ concat ps = frame_text f"
  shows "\<exists>ps'. read_body srv h rest (length rest) ps = Inr (Inr (frame_content f, ps')) \<and> concat ps' = []"
proof (cases f)
  case (Sized c)
  with assms obtain v where v: "header_find (values_order srv) ''Content-Length'' h = Some v" "stoull v = Inr (length c)"
    by auto
  have c: "rest @ concat ps = c" using assms(2) Sized by simp
  then have n: "length c - length rest = length (concat ps)" by auto
  from read_more_total [of "length rest" rest "length c" ps] obtain ps' where
    "read_more (length c) (length rest) rest ps = Some (c, ps')" "concat ps' = []"
    unfolding n using c by auto
  with v Sized show ?thesis by (auto simp: read_body_def)
next
  case (Chunked cs)
  with assms have "chunks_ok cs" "rest @ concat ps = chunks_text cs @ []" by simp_all
  from chunk_loop_text [OF this, of "[]"] assms(1) Chunked show ?thesis by (auto simp: read_body_def)
next
  case Unframed
  with assms show ?thesis by (auto simp: read_body_def)
qed

text \<open>The request the handler sees has the query of the request line.\<close>

definition received :: "request \<Rightarrow> string option \<Rightarrow> request" where
  "received rq q = rq\<lparr>rq_query_string := (case q of None \<Rightarrow> [] | Some q \<Rightarrow> q)\<rparr>"

lemma received_header [simp]: "rq_header (received rq q) = rq_header rq" "rq_version (received rq q) = rq_version rq"
  by (simp_all add: received_def)

lemma parse_received:
  "request_ok rq q \<Longrightarrow> RequestMessage_parse (request_text rq q @ body, True) empty_request = Some (Inr (True, received rq q, (body, True)))"
  by (simp add: parse_request_text received_def empty_request_def split: option.splits)

lemma serve_pieces:
  assumes rq: "request_ok rq q" and f: "frame_ok (values_order srv) (rq_header rq) f"
    and ps: "concat ps = request_text rq q @ frame_text f" "tight ps"
  shows "serve_request srv (ps @ qs) s = Some (dispatch srv (received rq q) (frame_content f) qs s)"
proof -
  let ?d = "[CR, newline, CR, newline]"
  let ?t = "request_text rq q"
  obtain rest ps1 where r: "read_until ?d [] ps = Some (?t @ rest, length ?t, ps1)" "rest @ concat ps1 = frame_text f"
    using read_message [OF _ _ request_clean [OF rq], of _ ps "frame_text f"] request_message [OF rq] ps(1) by metis
  obtain ps2 where b: "read_body srv (rq_header rq) rest (length rest) ps1 = Inr (Inr (frame_content f, ps2))" "concat ps2 = []"
    using read_body_content [OF f r(2)] by blast
  have "tight ps1" using read_until_frame [OF r(1)] ps(2) by blast
  with read_body_frame [OF b(1)] tight_empty b(2) have "ps2 = []" by blast
  then have "read_body srv (rq_header rq) rest (length rest) (ps1 @ qs) = Inr (Inr (frame_content f, qs))"
    using read_body_frame [OF b(1), of qs] by simp
  moreover have "read_until ?d [] (ps @ qs) = Some (?t @ rest, length ?t, ps1 @ qs)" using read_until_frame [OF r(1)] by blast
  ultimately show ?thesis using parse_received [OF rq, of rest] by (simp add: serve_request_def)
qed

section \<open>Whole connections\<close>

lemma connection_returns: "serve_connection srv packets s \<noteq> None"
proof (induction srv packets s rule: serve_connection.induct)
  case (1 srv packets s)
  obtain r where r: "serve_request srv packets s = Some r" using serve_request_returns by (metis not_None_eq)
  show ?case
  proof (cases "\<exists>out s' ps. r = Inr (Continued out s' ps)")
    case True
    then obtain out s' ps where c: "r = Inr (Continued out s' ps)" by blast
    from 1 [OF r c refl] show ?thesis
      using r c by (subst serve_connection.simps) (auto split: option.splits sum.splits)
  next
    case False
    then show ?thesis
      using r by (subst serve_connection.simps) (auto split: sum.splits served.splits)
  qed
qed

section \<open>How a connection can fail\<close>

text \<open>The requests of a connection: the pieces and the state a request finds after those before it.\<close>

inductive comes_to :: "'s server \<Rightarrow> string list \<Rightarrow> 's \<Rightarrow> string list \<Rightarrow> 's \<Rightarrow> bool" for srv where
  first: "comes_to srv ps s ps s"
| further: "serve_request srv ps s = Some (Inr (Continued out s1 ps1)) \<Longrightarrow> comes_to srv ps1 s1 ps' s' \<Longrightarrow> comes_to srv ps s ps' s'"

text \<open>The handler of a request throws something the server does not catch.\<close>

definition handler_escapes :: "'s server \<Rightarrow> request \<Rightarrow> string \<Rightarrow> 's \<Rightarrow> cpp_exn \<Rightarrow> bool" where
  "handler_escapes srv rq content s e \<longleftrightarrow> \<not> std_exception e
     \<and> (\<exists>h out s'. (find_resource (matches srv) (resource_map srv) rq = Some h
          \<or> find_resource (matches srv) (resource_map srv) rq = None \<and> map_of (default_resource srv) (rq_method rq) = Some h)
        \<and> h rq content s = (Some e, out, s'))"

text \<open>The chunks of a content: the bytes and pieces that the next size line is read from.\<close>

inductive chunks_read :: "string \<Rightarrow> string list \<Rightarrow> string \<Rightarrow> string list \<Rightarrow> bool" where
  no_chunk: "chunks_read buf ps buf ps"
| chunk: "read_chunk buf ps = Inr (Inr (len, c, buf1, ps1)) \<Longrightarrow> 0 < len \<Longrightarrow> chunks_read buf1 ps1 buf' ps'
    \<Longrightarrow> chunks_read buf ps buf' ps'"

definition size_line_at :: "string \<Rightarrow> string list \<Rightarrow> string option" where
  "size_line_at buf ps = map_option (\<lambda>(buf1, n, ps1). takeWhile (\<lambda>c. c \<noteq> newline) buf1) (read_until [CR, newline] buf ps)"

text \<open>The size line is empty, so that \<open>pop_back\<close> is undefined, or the size is more than an array can have.\<close>

definition chunk_fails :: "string \<Rightarrow> string list \<Rightarrow> cpp_exn \<Rightarrow> bool" where
  "chunk_fails buf ps e \<longleftrightarrow> e = Undefined_behaviour \<and> size_line_at buf ps = Some []
     \<or> e = Bad_alloc \<and> (\<exists>line len. size_line_at buf ps = Some line \<and> stoul16 (butlast line) = Inr len \<and> 2 ^ 63 \<le> len)"

definition request_fails :: "'s server \<Rightarrow> string list \<Rightarrow> 's \<Rightarrow> cpp_exn \<Rightarrow> bool" where
  "request_fails srv packets s e \<longleftrightarrow> (\<exists>buf n ps rq rest b.
     read_until [CR, newline, CR, newline] [] packets = Some (buf, n, ps)
     \<and> RequestMessage_parse (buf, True) empty_request = Some (Inr (True, rq, (rest, b)))
     \<and> ((\<exists>content. handler_escapes srv rq content s e)
        \<or> header_find (values_order srv) ''Content-Length'' (rq_header rq) = None
          \<and> header_find (values_order srv) ''Transfer-Encoding'' (rq_header rq) = Some ''chunked''
          \<and> (\<exists>buf' ps'. chunks_read rest ps buf' ps' \<and> chunk_fails buf' ps' e)))"

lemma dispatch_fails: "dispatch srv rq content ps s = Inl e \<Longrightarrow> handler_escapes srv rq content s e"
  by (auto simp: dispatch_def server_write_def handler_escapes_def Let_def
      split: option.splits prod.splits if_splits)

lemma read_chunk_fails: "read_chunk buf ps = Inl e \<Longrightarrow> chunk_fails buf ps e"
  by (auto simp: read_chunk_def chunk_fails_def size_line_at_def Let_def split: option.splits sum.splits if_splits)

lemma chunk_loop_fails: "chunk_loop buf ps chunks = Inl e \<Longrightarrow> \<exists>buf' ps'. chunks_read buf ps buf' ps' \<and> chunk_fails buf' ps' e"
proof (induction buf ps chunks rule: chunk_loop.induct)
  case (1 buf ps chunks)
  show ?case
  proof (cases "read_chunk buf ps")
    case (Inl x)
    with 1(2) have "x = e" by (subst (asm) chunk_loop.simps) simp
    with read_chunk_fails [OF Inl] show ?thesis by (blast intro: no_chunk)
  next
    case (Inr r)
    with 1(2) obtain len c buf1 ps1 where r: "read_chunk buf ps = Inr (Inr (len, c, buf1, ps1))" and len: "0 < len"
      and l: "chunk_loop buf1 ps1 (chunks @ c) = Inl e"
      by (subst (asm) chunk_loop.simps) (auto split: sum.splits if_splits)
    from 1(1) [OF r refl refl refl refl len l] chunk [OF r len] show ?thesis by blast
  qed
qed

lemma header_loop_ok: "header_loop line st res = Some y \<Longrightarrow> \<exists>z. y = Inr z"
proof (rule header_loop.raw_induct [where P = "\<lambda>line st res y. \<exists>z. y = Inr z"])
  fix loop line st result y
  assume IH: "\<And>line st result y. loop line st result = Some y \<Longrightarrow> \<exists>z. y = Inr z"
    and turn: "(case find_char line CHR '':'' of
        None \<Rightarrow> Some (Inr (result, st))
      | Some param_end \<Rightarrow>
          (case header_line line param_end of
             Inl e \<Rightarrow> Some (Inl e)
           | Inr fs \<Rightarrow> (case getline line st of (line', st') \<Rightarrow> loop line' st' (result @ fs)))) = Some y"
  show "\<exists>z. y = Inr z"
  proof (cases "find_char line CHR '':''")
    case (Some i)
    from header_line_ok [OF find_char_bounds(1) [OF Some]] obtain fs where "header_line line i = Inr fs" by blast
    with turn Some IH show ?thesis by (auto split: prod.splits)
  next
    case None
    with turn show ?thesis by auto
  qed
qed

lemma request_parses: "RequestMessage_parse st rq \<noteq> Some (Inl e)"
proof -
  have h: "HttpHeader_parse st1 \<noteq> Some (Inl x)" for st1 x
    using header_loop_ok by (fastforce simp: HttpHeader_parse_def split: prod.splits)
  have l: "request_line line rq1 \<noteq> Inl x" for line rq1 x using request_line_ok [of line rq1] by auto
  show ?thesis using h l
    by (auto simp: RequestMessage_parse_def Let_def split: option.splits sum.splits bool.splits prod.splits)
qed

lemma serve_request_fails:
  assumes "serve_request srv packets s = Some (Inl e)"
  shows "request_fails srv packets s e"
proof -
  obtain buf n ps where r: "read_until [CR, newline, CR, newline] [] packets = Some (buf, n, ps)"
    using assms by (auto simp: serve_request_def split: option.splits)
  obtain rq rest b where p: "RequestMessage_parse (buf, True) empty_request = Some (Inr (True, rq, (rest, b)))"
    and d: "(case read_body srv (rq_header rq) rest (length buf - n) ps of
        Inl e \<Rightarrow> Inl e | Inr (Inl _) \<Rightarrow> Inr (Dropped s) | Inr (Inr (content, ps')) \<Rightarrow> dispatch srv rq content ps' s) = Inl e"
    using assms r request_parses by (fastforce simp: serve_request_def split: option.splits sum.split_asm bool.split_asm prod.split_asm)
  show ?thesis
  proof (cases "read_body srv (rq_header rq) rest (length buf - n) ps")
    case (Inl x)
    then have "chunk_loop rest ps [] = Inl e" "header_find (values_order srv) ''Content-Length'' (rq_header rq) = None"
      "header_find (values_order srv) ''Transfer-Encoding'' (rq_header rq) = Some ''chunked''"
      using d by (auto simp: read_body_def split: option.splits sum.splits if_splits)
    with chunk_loop_fails [of rest ps "[]" e] r p show ?thesis unfolding request_fails_def by blast
  next
    case (Inr y)
    with d obtain content ps' where "dispatch srv rq content ps' s = Inl e" by (auto split: sum.splits prod.splits)
    then have "handler_escapes srv rq content s e" by (rule dispatch_fails)
    with r p show ?thesis unfolding request_fails_def by blast
  qed
qed

lemma connection_fails:
  "serve_connection srv packets s = Some (Inl e) \<Longrightarrow> \<exists>ps' s'. comes_to srv packets s ps' s' \<and> request_fails srv ps' s' e"
proof (induction srv packets s rule: serve_connection.induct)
  case (1 srv packets s)
  obtain r where r: "serve_request srv packets s = Some r" using serve_request_returns by (metis not_None_eq)
  show ?case
  proof (cases r)
    case (Inl x)
    with 1(2) r have "x = e" by (subst (asm) serve_connection.simps) simp
    with serve_request_fails [of srv packets s e] r Inl show ?thesis by (blast intro: first)
  next
    case (Inr y)
    with 1(2) r obtain out s1 ps1 where c: "r = Inr (Continued out s1 ps1)" and f: "serve_connection srv ps1 s1 = Some (Inl e)"
      by (subst (asm) serve_connection.simps) (auto split: served.splits option.splits sum.splits)
    from 1(1) [OF r c refl f] further [OF r [unfolded c]] show ?thesis by blast
  qed
qed

text \<open>C23: Whatever bytes a client sends, in whatever pieces, the server does not go on for ever with the
  connection: no header keeps the parser in its loop, since the server parses only what holds an empty line,
  and every request uses bytes up. The connection ends, either with answers and a state, or in one of its
  requests in one of three ways: the handler throws what is not a \<open>std::exception\<close>; a size line of a chunked
  content is empty, which is undefined behaviour; or the size of a chunk is too large for an array.\<close>

theorem server_never_hangs:
  "\<exists>r. serve_connection srv packets s = Some r
    \<and> (case r of Inr (outs, s') \<Rightarrow> True
      | Inl e \<Rightarrow> \<exists>ps' s'. comes_to srv packets s ps' s' \<and> request_fails srv ps' s' e)"
proof -
  obtain r where r: "serve_connection srv packets s = Some r" using connection_returns by (metis not_None_eq)
  with connection_fails [of srv packets s] show ?thesis by (cases r) auto
qed

text \<open>The requests without their bytes: the handlers are called one after the other until one of them is
  not to be followed by another.\<close>

fun answers :: "'s server \<Rightarrow> (request \<times> string) list \<Rightarrow> 's \<Rightarrow> (string list \<times> 's) result" where
  "answers srv [] s = Inr ([], s)"
| "answers srv ((rq, content) # rs) s = (case dispatch srv rq content [] s of
       Inl e \<Rightarrow> Inl e
     | Inr (Dropped s') \<Rightarrow> Inr ([], s')
     | Inr (Answered out s') \<Rightarrow> Inr ([out], s')
     | Inr (Continued out s' _) \<Rightarrow> (case answers srv rs s' of
          Inl e \<Rightarrow> Inl e | Inr (outs, s'') \<Rightarrow> Inr (out # outs, s'')))"

lemma dispatch_pieces: "dispatch srv rq content qs s =
  (case dispatch srv rq content [] s of Inr (Continued out s' _) \<Rightarrow> Inr (Continued out s' qs) | r \<Rightarrow> r)"
  by (simp add: dispatch_def server_write_def Let_def split: option.splits prod.splits)

type_synonym sent = "request \<times> string option \<times> framing \<times> string list"

definition sent_ok :: "'s server \<Rightarrow> sent \<Rightarrow> bool" where
  "sent_ok srv e = (case e of (rq, q, f, ps) \<Rightarrow> request_ok rq q \<and> frame_ok (values_order srv) (rq_header rq) f
     \<and> concat ps = request_text rq q @ frame_text f \<and> tight ps)"

definition sent_pieces :: "sent \<Rightarrow> string list" where
  "sent_pieces e = (case e of (rq, q, f, ps) \<Rightarrow> ps)"

definition sent_request :: "sent \<Rightarrow> request \<times> string" where
  "sent_request e = (case e of (rq, q, f, ps) \<Rightarrow> (received rq q, frame_content f))"

lemma connection_end: "serve_connection srv [] s = Some (Inr ([], s))"
  by (subst serve_connection.simps) (simp add: serve_request_def read_until.simps)

lemma connection_answers:
  assumes "list_all (sent_ok srv) es"
  shows "serve_connection srv (concat (map sent_pieces es)) s = Some (answers srv (map sent_request es) s)"
  using assms
proof (induction es arbitrary: s)
  case (Cons e es)
  obtain rq q f ps where e: "e = (rq, q, f, ps)" by (cases e)
  let ?qs = "concat (map sent_pieces es)"
  from Cons.prems e have "serve_request srv (ps @ ?qs) s = Some (dispatch srv (received rq q) (frame_content f) ?qs s)"
    by (intro serve_pieces) (simp_all add: sent_ok_def)
  moreover have "sent_pieces e = ps" "sent_request e = (received rq q, frame_content f)"
    by (simp_all add: e sent_pieces_def sent_request_def)
  ultimately show ?case using Cons
    by (subst serve_connection.simps, subst (asm) dispatch_pieces)
      (auto split: sum.splits served.splits)
qed (simp add: connection_end)

text \<open>C16: Over a connection on which requests arrive one after the other, each cut into pieces at any
  places, with contents told by their lengths or sent in chunks, the server does what calling the handlers
  for these requests in order does: same state, same answers, up to the first request that is not
  answered or after which the connection is not kept.\<close>

theorem connection_refines_answers:
  assumes "list_all (sent_ok srv) es"
  shows "serve_connection srv (concat (map sent_pieces es)) s = Some (answers srv (map sent_request es) s)"
  using assms by (rule connection_answers)

definition echo :: "nat handler" where
  "echo rq content s = (None, rq_path rq @ CHR '':'' # content, s + 1)"

definition ex_server :: "nat server" where
  "ex_server = \<lparr>matches = (=), values_order = rev, resource_map = [(''/a'', [(''GET'', echo)])],
     default_resource = [(''POST'', echo)]\<rparr>"

definition ex_get :: request where
  "ex_get = \<lparr>rq_method = ''GET'', rq_path = ''/a'', rq_query_string = [], rq_version = ''1.1'',
     rq_header = [(''content-length'', ''3'')]\<rparr>"

definition ex_post :: request where
  "ex_post = \<lparr>rq_method = ''POST'', rq_path = ''/b'', rq_query_string = [], rq_version = ''1.1'',
     rq_header = [(''Transfer-Encoding'', ''chunked'')]\<rparr>"

lemma ex_requests_ok: "request_ok ex_get None" "request_ok ex_post None"
  by (simp_all add: request_ok_def ex_get_def ex_post_def target_text_def newline_def)

lemma ex_get_frame: "frame_ok rev (rq_header ex_get) (Sized ''abc'')"
  by (simp add: ex_get_def header_find_def header_values_def case_insensitive_equal_def tolower_def stoull_def
      scan_number_def read_sign_def is_space_def is_digit_def digit_val_def)

lemma ex_post_frame: "frame_ok rev (rq_header ex_post) (Chunked [(''2'', ''xy'')])"
  by (simp add: ex_post_def header_find_def header_values_def case_insensitive_equal_def tolower_def
      chunks_ok_def size_line_def stoul16_def is_space_def read_sign_def hex_val_def newline_def CR_def Let_def)

lemma ex_stays_open: "keep_alive [] ''1.1''"
  by simp

theorem connection_refines_answers_witness:
  "serve_connection ex_server
     [take 5 (request_text ex_get None), drop 5 (request_text ex_get None) @ ''a'', ''bc'',
      request_text ex_post None @ chunks_text [(''2'', ''xy'')]] 0 = Some (Inr ([''/a:abc'', ''/b:xy''], 2))"
proof -
  let ?es = "[(ex_get, None, Sized ''abc'',
      [take 5 (request_text ex_get None), drop 5 (request_text ex_get None) @ ''a'', ''bc'']),
    (ex_post, None, Chunked [(''2'', ''xy'')], [request_text ex_post None @ chunks_text [(''2'', ''xy'')]])]"
  have "list_all (sent_ok ex_server) ?es"
    using ex_requests_ok ex_get_frame ex_post_frame
    by (simp add: sent_ok_def ex_server_def chunks_text_def)
  from connection_refines_answers [OF this, of 0]
  show ?thesis
    by (simp add: sent_pieces_def sent_request_def received_def dispatch_def server_write_def stays_open_def
        header_values_def case_insensitive_equal_def tolower_def ex_server_def ex_get_def ex_post_def echo_def)
qed

section \<open>What goes wrong\<close>

text \<open>A request without a content that arrives together with what follows it gets that as its content, and
  a second request among it is never served: its bytes are gone with the buffer of the session.\<close>

theorem pipelined_request_is_content:
  assumes "request_ok rq q" and "frame_ok (values_order srv) (rq_header rq) Unframed"
  shows "serve_request srv ((request_text rq q @ following) # packets) s =
    Some (dispatch srv (received rq q) following packets s)"
proof -
  have "read_until [CR, newline, CR, newline] [] ((request_text rq q @ following) # packets) =
      Some (request_text rq q @ following, length (request_text rq q), packets)"
    using request_message [OF assms(1)] request_clean [OF assms(1)] by (metis read_message_at_once)
  then show ?thesis using parse_received [OF assms(1), of following] assms(2)
    by (simp add: serve_request_def read_body_def)
qed

theorem pipelined_request_is_content_witness:
  "serve_connection ex_server [request_text (ex_post\<lparr>rq_header := []\<rparr>) None @ request_text ex_get None @ ''abc''] 0 =
    Some (Inr ([''/b:'' @ request_text ex_get None @ ''abc''], 1))"
proof -
  let ?rq = "ex_post\<lparr>rq_header := []\<rparr>"
  have "request_ok ?rq None" using ex_requests_ok(2) by (simp add: request_ok_def)
  moreover have "frame_ok (values_order ex_server) (rq_header ?rq) Unframed"
    by (simp add: header_find_def header_values_def ex_server_def)
  ultimately show ?thesis
    using pipelined_request_is_content [of ?rq None ex_server "request_text ex_get None @ ''abc''" "[]" 0]
    by (subst serve_connection.simps) (simp add: received_def dispatch_def server_write_def stays_open_def connection_end
        header_values_def ex_server_def ex_post_def echo_def)
qed

text \<open>C40: The empty size line can be sent. Behind any request that announces a content in chunks, a line feed in
  front of a CR LF is taken for the size line; without its last character it is the empty string, of which the
  server takes off the last character: undefined behaviour, whatever the resources, the state and what follows.\<close>

theorem empty_size_line_undefined:
  assumes "request_ok rq q" and "frame_ok (values_order srv) (rq_header rq) (Chunked [])"
  shows "serve_connection srv ((request_text rq q @ newline # CR # newline # following) # packets) s =
    Some (Inl Undefined_behaviour)"
proof -
  let ?d = "[CR, newline, CR, newline]" and ?rest = "newline # CR # newline # following"
  let ?buf = "request_text rq q @ ?rest"
  have "read_until ?d [] (?buf # packets) = Some (?buf, length (request_text rq q), packets)"
    using request_message [OF assms(1)] request_clean [OF assms(1)] by (metis read_message_at_once)
  moreover have "find_str [CR, newline] ?rest = Some 1" by (simp add: starts_with_def CR_def newline_def)
  then have "read_chunk ?rest packets = Inl Undefined_behaviour" by (simp add: read_chunk_def read_until.simps)
  then have "read_body srv (rq_header rq) ?rest k packets = Inl Undefined_behaviour" for k
    using assms(2) by (simp add: read_body_def) (subst chunk_loop.simps, simp)
  ultimately have "serve_request srv (?buf # packets) s = Some (Inl Undefined_behaviour)"
    using parse_received [OF assms(1), of ?rest] by (simp add: serve_request_def)
  then show ?thesis by (subst serve_connection.simps) simp
qed

theorem empty_size_line_undefined_witness:
  "serve_connection ex_server [request_text ex_post None @ [newline, CR, newline]] 0 = Some (Inl Undefined_behaviour)"
  using empty_size_line_undefined [OF ex_requests_ok(2), of ex_server "[]" "[]" 0] ex_post_frame
  by (simp add: ex_server_def chunks_ok_def)

text \<open>\<open>2 + length\<close> wraps around for the two largest sizes, so nothing more is read, and the array of that
  size is asked for at once. The exception leaves the handler, \<open>io_service->run()\<close>, \<open>start\<close> and the
  function of the server's thread, and ends the program.\<close>

definition server_thread :: "'a call \<Rightarrow> 'a call" where
  "server_thread r = map_option (\<lambda>r. case r of
     Inl e \<Rightarrow> Inl (if std_exception e then Terminate else e) | Inr x \<Rightarrow> Inr x) r"

lemma size_line_max: "stoul16 ''ffffffffffffffff'' = Inr (2 ^ 64 - 1)"
  by (simp add: stoul16_def is_space_def read_sign_def hex_val_def Let_def)

lemma chunk_of_max_size:
  "read_chunk (''ffffffffffffffff'' @ [CR, newline, c] @ rest) ps = Inl Bad_alloc"
proof -
  let ?l = "''ffffffffffffffff''"
  let ?buf = "?l @ [CR, newline, c] @ rest"
  have l: "CR \<notin> set ?l" "newline \<notin> set ?l" by (simp_all add: CR_def newline_def)
  have "find_str [CR, newline] ?buf = Some 16"
    using find_line_end [OF l, of "c # rest"] by simp
  then have r: "read_until [CR, newline] ?buf ps = Some (?buf, 18, ps)" by (simp add: read_until.simps)
  have t: "takeWhile (\<lambda>x. x \<noteq> newline) ?buf = ?l @ [CR]"
    using takeWhile_stop [of newline "?l @ [CR]" "c # rest"] l by simp
  show ?thesis
    unfolding read_chunk_def r option.case prod.case Let_def t
    by (simp add: size_line_max read_more_def)
qed

text \<open>C38: One request ends the program: a body in chunks whose first size is \<open>ffffffffffffffff\<close>, whatever
  the resources are and whatever follows.\<close>

theorem chunk_size_ends_server:
  assumes "request_ok rq q" and "frame_ok (values_order srv) (rq_header rq) (Chunked [])"
  shows "server_thread (serve_connection srv
      ((request_text rq q @ ''ffffffffffffffff'' @ [CR, newline, c] @ following) # packets) s) = Some (Inl Terminate)"
proof -
  let ?d = "[CR, newline, CR, newline]"
  let ?rest = "''ffffffffffffffff'' @ [CR, newline, c] @ following"
  let ?buf = "request_text rq q @ ?rest"
  have "read_until ?d [] (?buf # packets) = Some (?buf, length (request_text rq q), packets)"
    using request_message [OF assms(1)] request_clean [OF assms(1)] by (metis read_message_at_once)
  moreover have "read_body srv (rq_header rq) ?rest k packets = Inl Bad_alloc" for k
    using assms(2) chunk_of_max_size [of c following packets]
    by (simp add: read_body_def) (subst chunk_loop.simps, simp)
  ultimately have "serve_request srv (?buf # packets) s = Some (Inl Bad_alloc)"
    using parse_received [OF assms(1), of ?rest] by (simp add: serve_request_def)
  then show ?thesis by (subst serve_connection.simps) (simp add: server_thread_def std_exception_def)
qed

theorem chunk_size_ends_server_witness:
  "server_thread (serve_connection ex_server
    [request_text ex_post None @ ''ffffffffffffffff'' @ [CR, newline, CHR ''x'']] 0) = Some (Inl Terminate)"
  using chunk_size_ends_server [OF ex_requests_ok(2), of ex_server "CHR ''x''" "[]" "[]" 0] ex_post_frame
  by (simp add: ex_server_def chunks_ok_def)

end
