(* ===== verification/HttpService.thy ===== *)
theory HttpService
  imports HttpServer Monitor
begin

text \<open>
  \<open>zprmonitorHttpsServerExecution\<close> of \<open>src/main.cpp\<close>: the server with its three resources and the default
  page, and the whole program from the bytes of a visitor to the mails the visitor gets. The state of
  the handlers is that of the web pages with the engine, and the sampler. The program after its start is a
  schedule of polls and connections.
\<close>

section \<open>The resources\<close>

text \<open>\<open>regex_match\<close> of a path with an expression of ordinary characters between optional anchors.\<close>

definition literal_match :: "string \<Rightarrow> string \<Rightarrow> bool" where
  "literal_match regex path =
     (let re = (if regex \<noteq> [] \<and> hd regex = CHR ''^'' then tl regex else regex) in
      path = (if re \<noteq> [] \<and> last re = CHR ''$'' then butlast re else re))"

type_synonym 'b served_state = "web \<times> ('b, mail world) SamplingManager"

text \<open>The handlers write their answer in their last statement and change nothing before a call that can
  throw.\<close>

definition handled :: "'s \<Rightarrow> (string \<times> 's) result \<Rightarrow> cpp_exn option \<times> string \<times> 's" where
  "handled s r = (case r of Inl e \<Rightarrow> (Some e, [], s) | Inr (out, s') \<Rightarrow> (None, out, s'))"

definition monitor_server :: "(fields \<Rightarrow> fields) \<Rightarrow> (string list \<Rightarrow> string list) \<Rightarrow> config \<Rightarrow> 'b boost \<Rightarrow> (web \<Rightarrow> nat) \<Rightarrow> mail
    \<Rightarrow> 'b served_state server" where
  "monitor_server iter ord cfg B new_address empty_callback = \<lparr>
     matches = literal_match, values_order = ord,
     resource_map =
       [(''^/getlogs$'', [(''GET'', \<lambda>rq content (s, m).
           handled (s, m) (bindE (getlogs iter cfg B m (rq_query_string rq)) (\<lambda>out. Inr (out, (s, m)))))]),
        (''^/set_email'', [(''GET'', \<lambda>rq content (s, m).
           handled (s, m) (bindE (set_email iter cfg (rq_query_string rq) s) (\<lambda>(out, s'). Inr (out, (s', m)))))]),
        (''^/trigger_choose$'', [(''GET'', \<lambda>rq content (s, m).
           handled (s, m) (bindE (trigger_choose iter cfg new_address empty_callback (rq_query_string rq) s)
             (\<lambda>(out, s'). Inr (out, (s', m)))))])],
     default_resource = [(''GET'', \<lambda>rq content (s, m). (None, default_page cfg, (s, m)))]\<rparr>"

section \<open>Requests of a browser\<close>

definition browser_get :: "fields \<Rightarrow> string \<Rightarrow> request" where
  "browser_get h path = \<lparr>rq_method = ''GET'', rq_path = path, rq_query_string = [], rq_version = ''1.1'', rq_header = h\<rparr>"

text \<open>The header says nothing of a content and does not ask to close the connection.\<close>

definition browser_header :: "fields \<Rightarrow> bool" where
  "browser_header h \<longleftrightarrow> list_all (\<lambda>(n, v). CHR '':'' \<notin> set n \<and> newline \<notin> set n \<and> newline \<notin> set v) h
     \<and> header_values ''Content-Length'' h = [] \<and> header_values ''Transfer-Encoding'' h = []
     \<and> list_all (\<lambda>v. \<not> case_insensitive_equal v ''close'') (header_values ''Connection'' h)"

lemma keep_alive_open: "list_all (\<lambda>v. \<not> case_insensitive_equal v ''close'') vs \<Longrightarrow> keep_alive vs ''1.1''"
  by (induction vs) auto

lemma browser_frame: "browser_header h \<Longrightarrow> key_order ord \<Longrightarrow> frame_ok ord h Unframed"
  by (simp add: browser_header_def header_find_def key_order_empty)

lemma browser_stays:
  assumes "browser_header h" and "key_order (values_order srv)" and "rq_header rq = h" and "rq_version rq = ''1.1''"
  shows "stays_open srv rq"
proof -
  have "set (values_order srv vs) = set vs" for vs
    using assms(2) unfolding key_order_def by (metis set_mset_mset)
  with assms show ?thesis
    by (auto simp: stays_open_def browser_header_def list_all_iff intro!: keep_alive_open)
qed

definition query_chars :: "string \<Rightarrow> bool" where
  "query_chars q \<longleftrightarrow> list_all (\<lambda>c. c \<noteq> CHR '' '' \<and> c \<noteq> newline \<and> c \<noteq> CHR ''?'') q"

lemma browser_request_ok:
  assumes "browser_header h" and "query_chars path" and "query_chars q"
  shows "request_ok (browser_get h path) (Some q)"
proof -
  have clean: "list_all (\<lambda>c. c \<noteq> CHR '' '' \<and> c \<noteq> newline) s \<and> CHR ''?'' \<notin> set s" if "query_chars s" for s
    using that by (induction s) (auto simp: query_chars_def)
  show ?thesis using assms(1) clean [OF assms(2)] clean [OF assms(3)]
    by (simp add: request_ok_def browser_get_def browser_header_def target_text_def newline_def)
qed

lemma query_chars_append [simp]: "query_chars (a @ b) \<longleftrightarrow> query_chars a \<and> query_chars b"
  by (simp add: query_chars_def)

lemma query_chars_Cons: "query_chars (c # b) \<longleftrightarrow> c \<noteq> CHR '' '' \<and> c \<noteq> newline \<and> c \<noteq> CHR ''?'' \<and> query_chars b"
  by (simp add: query_chars_def)

lemma query_chars_digits: "list_all is_digit ds \<Longrightarrow> query_chars ds"
  by (auto simp: query_chars_def list_all_iff is_digit_def newline_def)

lemma query_chars_encode: "newline \<notin> set s \<Longrightarrow> query_chars (Percent_encode s)"
  using encode_chars by (fastforce simp: query_chars_def list_all_iff hex_chars_def newline_def reserved_def)

section \<open>The visit of a subscriber\<close>

lemma serve_trigger:
  assumes "browser_header h" and "key_order ord" and "trigger_choose iter cfg na e q s = Inr (out, s')"
  shows "dispatch (monitor_server iter ord cfg B na e) (received (browser_get h ''/trigger_choose'') (Some q)) [] ps (s, m) =
    Inr (Continued out (s', m) ps)"
  using browser_stays [of h "monitor_server iter ord cfg B na e" "received (browser_get h ''/trigger_choose'') (Some q)"] assms
  by (simp add: dispatch_def server_write_def monitor_server_def literal_match_def received_def browser_get_def handled_def)

lemma serve_email:
  assumes "browser_header h" and "key_order ord" and "set_email iter cfg q s = Inr (out, s')"
  shows "dispatch (monitor_server iter ord cfg B na e) (received (browser_get h ''/set_email'') (Some q)) [] ps (s, m) =
    Inr (Continued out (s', m) ps)"
  using browser_stays [of h "monitor_server iter ord cfg B na e" "received (browser_get h ''/set_email'') (Some q)"] assms
  by (simp add: dispatch_def server_write_def monitor_server_def literal_match_def received_def browser_get_def handled_def)


lemma email_query_chars: "newline \<notin> set email \<Longrightarrow> newline \<notin> set name \<Longrightarrow> query_chars (email_query email name)"
  by (simp add: email_query_def QueryString_create_def query_chars_Cons query_chars_encode newline_def)

lemma trigger_query_chars: "query_chars (form_query [(''trigger0'', k)])"
  by (simp add: select_text_def query_chars_Cons query_chars_digits show_nat_digits newline_def)

lemma path_chars [simp]: "query_chars ''/set_email''" "query_chars ''/trigger_choose''"
  by (simp_all add: query_chars_def newline_def)

text \<open>Answers in front of those of what comes after.\<close>

definition answered_before :: "string list \<Rightarrow> (string list \<times> 's) call \<Rightarrow> (string list \<times> 's) call" where
  "answered_before outs r = (case r of
       None \<Rightarrow> None
     | Some (Inl e) \<Rightarrow> Some (Inl e)
     | Some (Inr (outs', s)) \<Rightarrow> Some (Inr (outs @ outs', s)))"

lemma answered_before_simps [simp]:
  "answered_before outs (Some (Inr (outs', s))) = Some (Inr (outs @ outs', s))"
  "answered_before [] r = r" "answered_before a (answered_before b r) = answered_before (a @ b) r"
  by (simp_all add: answered_before_def split: option.split sum.split)

lemma answered_before_Inr:
  "answered_before outs r = Some (Inr (outs', s)) \<longleftrightarrow> (\<exists>o2. r = Some (Inr (o2, s)) \<and> outs' = outs @ o2)"
  by (auto simp: answered_before_def split: option.splits sum.splits)

text \<open>A connection whose first request is answered and kept goes on with the bytes that follow.\<close>

lemma request_continued:
  assumes h: "browser_header h" and ord: "key_order (values_order srv)" and q: "query_chars path" "query_chars q"
    and ps: "concat ps = request_text (browser_get h path) (Some q)" "tight ps"
    and d: "dispatch srv (received (browser_get h path) (Some q)) [] qs st = Inr (Continued out st' qs)"
  shows "serve_connection srv (ps @ qs) st = answered_before [out] (serve_connection srv qs st')"
proof -
  have "rq_header (browser_get h path) = h" by (simp add: browser_get_def)
  then have "serve_request srv (ps @ qs) st = Some (dispatch srv (received (browser_get h path) (Some q)) (frame_content Unframed) qs st)"
    using browser_request_ok [OF h q] browser_frame [OF h ord] ps by (intro serve_pieces) simp_all
  with d show ?thesis by (subst serve_connection.simps) (auto simp: answered_before_def split: option.splits sum.splits)
qed

lemma request_alone:
  assumes "browser_header h" and "key_order (values_order srv)" and "query_chars path" "query_chars q"
    and "concat ps = request_text (browser_get h path) (Some q)" "tight ps"
    and "dispatch srv (received (browser_get h path) (Some q)) [] [] st = Inr (Continued out st' [])"
  shows "serve_connection srv ps st = Some (Inr ([out], st'))"
  using request_continued [OF assms] by (simp add: connection_end)

text \<open>The two fields of the first form, visited in any order: the value visited first is taken for the name
  and the other one for the address.\<close>

lemma set_email_visited:
  assumes "CHR ''%'' \<notin> set email" and "CHR ''%'' \<notin> set name" and "plain email" and "plain name"
    and iter: "\<And>fs. mset (iter fs) = mset fs" and v: "map snd (iter [(''email'', email), (''name'', name)]) = [v1, v2]"
  shows "set_email iter cfg (email_query email name) s = Inr (default_page cfg,
      s\<lparr>userName := CHR '' '' # v1, userEmail := CHR '' '' # v2\<rparr>)"
proof -
  let ?fs = "[(''email'', email), (''name'', name)]"
  obtain k1 k2 where fs: "iter ?fs = [(k1, v1), (k2, v2)]" using v by auto
  have "set (iter ?fs) = set ?fs" using iter [of ?fs] by (metis set_mset_mset)
  moreover have "list_all (\<lambda>(n, v). plain n \<and> plain v) ?fs"
    using assms(3,4) by (simp add: plain_def)
  ultimately have "list_all (\<lambda>(n, v). plain n \<and> plain v) [(k1, v1), (k2, v2)]"
    unfolding fs [symmetric] list_all_iff by simp
  then have "seglist [(k1, v1), (k2, v2)] = [k1, CHR '' '' # v1, k2, CHR '' '' # v2]"
    by (simp only: seglist_fields) simp
  then show ?thesis
    unfolding set_email_def parse_email [OF assms(1,2)] bindE.simps fs Let_def default_page_def
    by (simp add: vec_at_def numeral_3_eq_3)
qed

section \<open>The life of the program\<close>

text \<open>What happens after the start: the polling thread polls, \<open>main\<close> connects the engine, a client makes a
  connection, of which the pieces of its reads are given. A poll and a connection are each one step here: the
  code does not keep them from overlapping, and what an overlap may do is undefined.\<close>

datatype happening = Poll poll_input | Connect | Visit "string list"

definition happens :: "'b boost \<Rightarrow> 'b served_state server \<Rightarrow> happening \<Rightarrow> 'b served_state
    \<Rightarrow> (string list \<times> 'b served_state) call" where
  "happens B srv h st = (case st of (s, m) \<Rightarrow> case h of
       Poll i \<Rightarrow> Some (bindE (poll B i (m, engine s)) (\<lambda>(m', w). Inr ([], (s\<lparr>engine := w\<rparr>, m'))))
     | Connect \<Rightarrow> Some (Inr ([], (s, connectPredicateEngine m)))
     | Visit packets \<Rightarrow> server_thread (serve_connection srv packets (s, m)))"

fun life :: "'b boost \<Rightarrow> 'b served_state server \<Rightarrow> happening list \<Rightarrow> 'b served_state
    \<Rightarrow> (string list \<times> 'b served_state) call" where
  "life B srv [] st = Some (Inr ([], st))"
| "life B srv (h # hs) st = (case happens B srv h st of
       None \<Rightarrow> None
     | Some (Inl e) \<Rightarrow> Some (Inl e)
     | Some (Inr (outs, st1)) \<Rightarrow> answered_before outs (life B srv hs st1))"

lemma life_then:
  assumes "life B srv hs st = Some (Inr (outs, st1))"
  shows "life B srv (hs @ hs') st = answered_before outs (life B srv hs' st1)"
  using assms
proof (induction hs arbitrary: st outs)
  case (Cons h hs)
  then obtain o1 st2 o2 where h: "happens B srv h st = Some (Inr (o1, st2))"
    and o2: "life B srv hs st2 = Some (Inr (o2, st1))" "outs = o1 @ o2"
    by (auto simp: answered_before_Inr split: option.splits sum.splits)
  with Cons.IH [OF o2(1)] show ?case by simp
qed simp

lemma life_polls:
  assumes B: "boost_ok B" and ok: "\<forall>t \<in> set us. trigger_ok t" and "sampled_so_far B us ins m"
    and "foldE (send (triggerActivate m) (triggerDeactivate m)) (signals_due us (map polled ins) (map polled is)) (engine s) = Inr w"
  shows "\<exists>m'. life B srv (map Poll is) (s, m) = Some (Inr ([], (s\<lparr>engine := w\<rparr>, m')))
    \<and> sampled_so_far B us (ins @ is) m' \<and> triggerActivate m' = triggerActivate m \<and> triggerDeactivate m' = triggerDeactivate m"
  using assms(3,4)
proof (induction "is" arbitrary: ins m s)
  case Nil
  then show ?case by (cases s) simp
next
  case (Cons i "is")
  have one: "signals_due us (map polled ins) [polled i] = poll_signals us (map polled (ins @ [i]))"
    using signals_due_simps(2) [of us "map polled ins" "[]" "polled i"] by simp
  have split: "signals_due us (map polled ins) (map polled (i # is)) =
      poll_signals us (map polled (ins @ [i])) @ signals_due us (map polled (ins @ [i])) (map polled is)"
    using signals_due_append [of us "map polled ins" "[polled i]" "map polled is"] one by simp
  from Cons.prems(2) obtain w1 where
    w1: "foldE (send (triggerActivate m) (triggerDeactivate m)) (poll_signals us (map polled (ins @ [i]))) (engine s) = Inr w1"
    and w: "foldE (send (triggerActivate m) (triggerDeactivate m)) (signals_due us (map polled (ins @ [i])) (map polled is)) w1 = Inr w"
    unfolding split foldE_append by (auto simp: bindE_Inr_iff)
  from poll_due [OF B Cons.prems(1) ok w1] obtain m1 where p: "poll B i (m, engine s) = Inr (m1, w1)"
    and m1: "sampled_so_far B us (ins @ [i]) m1" "triggerActivate m1 = triggerActivate m" "triggerDeactivate m1 = triggerDeactivate m" .
  from Cons.IH [OF m1(1), of "s\<lparr>engine := w1\<rparr>"] w m1(2,3) obtain m' where
    "life B srv (map Poll is) (s\<lparr>engine := w1\<rparr>, m1) = Some (Inr ([], (s\<lparr>engine := w\<rparr>, m')))"
    "sampled_so_far B us ((ins @ [i]) @ is) m'" "triggerActivate m' = triggerActivate m1" "triggerDeactivate m' = triggerDeactivate m1"
    by auto
  with p m1 show ?case by (auto simp: happens_def)
qed

text \<open>Polls that only print, and polls of an engine without predicates.\<close>

lemma send_print: "foldE (send (\<lambda>t w. Inr w) (\<lambda>t w. Inr w)) ss w = Inr w"
proof (induction ss arbitrary: w)
  case (Cons s ss)
  then show ?case by (cases s) simp_all
qed simp

definition connected :: "('b, mail world) SamplingManager \<Rightarrow> bool" where
  "connected m \<longleftrightarrow> triggerActivate m = triggerActivation \<and> triggerDeactivate m = triggerDeactivation"

lemma life_engine_polls:
  assumes "boost_ok B" and "\<forall>t \<in> set us. trigger_ok t" and "sampled_so_far B us ins m" and "connected m"
    and "engine_run (signals_due us (map polled ins) (map polled is)) (engine s) = Inr w"
  obtains m' where "life B srv (map Poll is) (s, m) = Some (Inr ([], (s\<lparr>engine := w\<rparr>, m')))"
    and "sampled_so_far B us (ins @ is) m'" and "connected m'"
  using life_polls [OF assms(1-3), of "is" s w srv] assms(4,5) by (auto simp: connected_def send_engine)

definition unused :: "mail world \<Rightarrow> bool" where
  "unused w \<longleftrightarrow> (\<forall>t. bucket w t = []) \<and> heap w = Map.empty \<and> called w = []"

lemma life_unused_polls:
  assumes "boost_ok B" and "\<forall>t \<in> set us. trigger_ok t" and "sampled_so_far B us ins m" and "connected m" and "unused (engine s)"
  obtains w m' where "life B srv (map Poll is) (s, m) = Some (Inr ([], (s\<lparr>engine := w\<rparr>, m')))"
    and "sampled_so_far B us (ins @ is) m'" and "connected m'" and "unused w"
proof -
  obtain w where w: "engine_run (signals_due us (map polled ins) (map polled is)) (engine s) = Inr w" "unused w"
    using engine_run_idle [of "engine s"] assms(5) unfolding unused_def by metis
  from life_engine_polls [OF assms(1-4) w(1)] that w(2) show thesis by metis
qed

lemma unused_start: "unused (engine empty_web)"
  by (simp add: unused_def empty_web_def bucket_def)

lemma life_visit: "serve_connection srv packets (s, m) = Some (Inr (outs, st')) \<Longrightarrow>
    life B srv [Visit packets] (s, m) = Some (Inr (outs, st'))"
  by (cases st') (simp add: happens_def server_thread_def)

text \<open>From the subscription on: the polls, with one predicate in the engine.\<close>

lemma subscribed_polls:
  assumes B: "boost_ok B" and ok: "\<forall>t \<in> set us. trigger_ok t" and us: "distinct us" "t \<in> set us"
    and m0: "sampled_so_far B us ins sm" "connected sm" and u: "unused (engine s)"
    and f: "number_ok f" "snd f < length (conf_triggers cfg)" "iter [select_field f] = [select_field f]"
    and t: "t = conf_triggers cfg ! snd f" and m: "m = notification s (put_TriggerType t)"
  obtains s1 s2 sm' where "trigger_choose iter cfg na e (form_query [f]) s =
      Inr (ok_response ''Your subscription has been saved!'', s1)"
    and "life B srv (map Poll is) (s1, sm) = Some (Inr ([], (s2, sm')))"
    and "called (engine s2) = replicate (times_due t (map polled ins) (map polled is)) m"
proof -
  have w: "wf_world (engine s)" "\<forall>u. na s \<notin> set (bucket (engine s) u)"
    "\<forall>j q. heap (engine s) j = Some q \<longrightarrow> callback q \<noteq> m" "called (engine s) = []" "heap (engine s) = Map.empty"
    using u by (simp_all add: unused_def wf_world_def)
  obtain w0 where sub: "trigger_choose iter cfg na e (form_query [f]) s = Inr (ok_response ''Your subscription has been saved!'',
      s\<lparr>predicates_owned := predicates_owned s @ [na s], engine := w0\<rparr>)"
    and w0: "wf_world w0" "called w0 = []" "heap w0 = [na s \<mapsto> new_1element m t]"
    and run: "\<And>ss. \<exists>w'. engine_run ss w0 = Inr w' \<and> filter ((=) m) (called w') = replicate (count_list ss (Activate t)) m"
    using one_trigger_subscription [where s = s and na = na and e = e and f = f and iter = iter and cfg = cfg and t = t and m = m, OF f t m w(1-3)] w(4,5) by auto
  let ?s1 = "s\<lparr>predicates_owned := predicates_owned s @ [na s], engine := w0\<rparr>"
  let ?ss = "signals_due us (map polled ins) (map polled is)"
  obtain w' where w': "engine_run ?ss w0 = Inr w'" "filter ((=) m) (called w') = replicate (count_list ?ss (Activate t)) m"
    using run by blast
  have "set (called w') \<subseteq> {m}"
    by (rule engine_run_callbacks [OF w0(1) _ _ w'(1)]) (auto simp: w0 new_1element_def)
  then have "filter ((=) m) (called w') = called w'" by (auto simp: filter_id_conv)
  then have c: "called w' = replicate (times_due t (map polled ins) (map polled is)) m"
    using w'(2) by (simp add: count_due [OF us])
  have "engine_run ?ss (engine ?s1) = Inr w'" using w'(1) by simp
  from life_engine_polls [OF B ok m0 this] obtain sm' where
    "life B srv (map Poll is) (?s1, sm) = Some (Inr ([], (?s1\<lparr>engine := w'\<rparr>, sm')))" by metis
  then show thesis using that [OF sub] c by simp
qed

text \<open>C2: From the text of the configuration and the bytes of a browser to the calls that send the mails.
  After a start with a valid configuration the sampler polls with its first callback, \<open>main\<close> connects the
  engine, and a visitor sends a name and an address on one connection and chooses a trigger on another, in
  pieces of any sizes, with any numbers of polls before, between and behind; polls and connections do not
  overlap. Both requests are answered. No callback is called until the subscription; from then on the callback
  that mails the notification of the trigger is called, and nothing else is, once for every poll that makes the
  number of polls in an unbroken row on which the condition held, counted from the start of the program, a
  multiple of the duration. Of the two fields of the form, which the container visits in any order, the value
  visited first is taken for the name and the other one for the address.\<close>

theorem visitor_gets_mails:
  assumes B: "boost_ok B" and ls: "list_all line_ok ls"
    and logs: "\<forall>l \<in> set (concat (map line_logs ls)). log_ok l"
    and triggers: "\<forall>t \<in> set (concat (map line_triggers ls)). trigger_ok t"
    and h: "browser_header h" and ord: "key_order ord"
    and k: "k < length (concat (map line_triggers ls))" "int k \<le> INT_MAX" "t = concat (map line_triggers ls) ! k"
    and email: "CHR ''%'' \<notin> set email" "plain email" "newline \<notin> set email"
    and name: "CHR ''%'' \<notin> set name" "plain name" "newline \<notin> set name"
    and iter: "\<And>fs. mset (iter fs) = mset fs" and v: "map snd (iter [(''email'', email), (''name'', name)]) = [v1, v2]"
    and ps1: "concat ps1 = request_text (browser_get h ''/set_email'') (Some (email_query email name))" "tight ps1"
    and ps2: "concat ps2 = request_text (browser_get h ''/trigger_choose'') (Some (form_query [(''trigger0'', k)]))" "tight ps2"
    and m: "m = \<lparr>mail_name = CHR '' '' # v1, mail_to = CHR '' '' # v2, mail_text = ''Hello '' @ v1
      @ '',\<newline>following trigger has been exceeded:\<newline>'' @ put_TriggerType t @ ''\<newline>\<newline>Your ZPRMonitor''\<rparr>"
  shows "\<exists>cfg sm s sm'. main_start B put (render_config ls) parser_init = Some (Inr (cfg, sm, empty_web))
    \<and> life B (monitor_server iter ord cfg B na e)
        (map Poll is0 @ [Connect] @ map Poll is1 @ [Visit ps1] @ map Poll is2 @ [Visit ps2] @ map Poll is3) (empty_web, sm) =
        Some (Inr ([default_page cfg, ok_response ''Your subscription has been saved!''], (s, sm')))
    \<and> called (engine s) = replicate (times_due t (map polled (is0 @ is1 @ is2)) (map polled is3)) m"
proof -
  let ?f = "(''trigger0'', k)"
  obtain cfg where cfg: "conf_triggers cfg = concat (map line_triggers ls)" "conf_logs cfg = concat (map line_logs ls)"
    and start: "main_start B put (render_config ls) parser_init = Some (Inr (cfg,
      (SamplingManager_new B (conf_logs cfg) (conf_triggers cfg) (\<lambda>t w. Inr w) (\<lambda>t w. Inr w))\<lparr>isSampling := True\<rparr>, empty_web))"
    using main_start_rendered [OF ls] .
  let ?sm = "(SamplingManager_new B (conf_logs cfg) (conf_triggers cfg) (\<lambda>t w. Inr w) (\<lambda>t w. Inr w))\<lparr>isSampling := True\<rparr>
    :: ('a, mail world) SamplingManager"
  let ?us = "fold add_new (conf_triggers cfg) []" and ?srv = "monitor_server iter ord cfg B na e"
  have "t \<in> set (conf_triggers cfg)" using nth_mem [OF k(1)] unfolding cfg k(3) .
  then have us: "distinct ?us" "t \<in> set ?us" "\<forall>t \<in> set ?us. trigger_ok t"
    using triggers trigger_order(1) unfolding trigger_order(2) cfg by blast+
  have "\<forall>l \<in> set (conf_logs cfg). log_ok l" using logs by (simp add: cfg)
  from sampling_new [OF B this] have sm: "sampled_so_far B ?us [] ?sm" by simp
  have "triggerActivate ?sm = (\<lambda>t w. Inr w)" "triggerDeactivate ?sm = (\<lambda>t w. Inr w)"
    by (simp_all add: SamplingManager_new_triggers(5,6))
  with life_polls [OF B us(3) sm, of is0 empty_web "engine empty_web" ?srv] obtain m0 where
    l0: "life B ?srv (map Poll is0) (empty_web, ?sm) = Some (Inr ([], (empty_web, m0)))" and m0: "sampled_so_far B ?us is0 m0"
    by (auto simp: send_print)
  let ?m0 = "connectPredicateEngine m0"
  have lc: "life B ?srv [Connect] (empty_web, m0) = Some (Inr ([], (empty_web, ?m0)))" by (simp add: happens_def)
  have c0: "sampled_so_far B ?us is0 ?m0" "connected ?m0" using m0 by (simp_all add: connectPredicateEngine_def connected_def)
  obtain w1 m1 where l1: "life B ?srv (map Poll is1) (empty_web, ?m0) = Some (Inr ([], (empty_web\<lparr>engine := w1\<rparr>, m1)))"
    and m1: "sampled_so_far B ?us (is0 @ is1) m1" "connected m1" "unused w1"
    using life_unused_polls [OF B us(3) c0 unused_start] by metis
  have srv: "key_order (values_order ?srv)" using ord by (simp add: monitor_server_def)
  let ?s1 = "empty_web\<lparr>engine := w1, userName := CHR '' '' # v1, userEmail := CHR '' '' # v2\<rparr>"
  have "set_email iter cfg (email_query email name) (empty_web\<lparr>engine := w1\<rparr>) = Inr (default_page cfg, ?s1)"
    using set_email_visited [OF email(1) name(1) email(2) name(2) iter v] by (simp add: empty_web_def)
  from request_alone [OF h srv path_chars(1) email_query_chars [OF email(3) name(3)] ps1 serve_email [OF h ord this]]
  have v1: "life B ?srv [Visit ps1] (empty_web\<lparr>engine := w1\<rparr>, m1) = Some (Inr ([default_page cfg], (?s1, m1)))"
    by (rule life_visit)
  have "unused (engine ?s1)" using m1(3) by simp
  from life_unused_polls [OF B us(3) m1(1,2) this] obtain w2 m2 where
    l2: "life B ?srv (map Poll is2) (?s1, m1) = Some (Inr ([], (?s1\<lparr>engine := w2\<rparr>, m2)))"
    and m2: "sampled_so_far B ?us ((is0 @ is1) @ is2) m2" "connected m2" "unused w2" by metis
  let ?s2 = "?s1\<lparr>engine := w2\<rparr>"
  have f: "number_ok ?f" "snd ?f < length (conf_triggers cfg)" "iter [select_field ?f] = [select_field ?f]"
    "t = conf_triggers cfg ! snd ?f" "m = notification ?s2 (put_TriggerType t)" "unused (engine ?s2)"
    using k iter [of "[select_field ?f]"] m2(3) m
    by (simp_all add: cfg number_ok_def select_ok_def plain_def notification_def)
  obtain s3 s4 sm' where sub: "trigger_choose iter cfg na e (form_query [?f]) ?s2 =
      Inr (ok_response ''Your subscription has been saved!'', s3)"
    and l3: "life B ?srv (map Poll is3) (s3, m2) = Some (Inr ([], (s4, sm')))"
    and calls: "called (engine s4) = replicate (times_due t (map polled ((is0 @ is1) @ is2)) (map polled is3)) m"
    using subscribed_polls [where s = ?s2 and f = ?f and iter = iter and cfg = cfg and t = t and m = m and na = na and e = e
      and srv = ?srv, OF B us(3,1,2) m2(1,2) f(6) f(1-5)] by metis
  from request_alone [OF h srv path_chars(2) trigger_query_chars ps2 serve_trigger [OF h ord sub]]
  have v2: "life B ?srv [Visit ps2] (?s2, m2) = Some (Inr ([ok_response ''Your subscription has been saved!''], (s3, m2)))"
    by (rule life_visit)
  note runs = life_then [OF l0] life_then [OF lc] life_then [OF l1] life_then [OF v1] life_then [OF l2] life_then [OF v2]
  have "life B ?srv (map Poll is0 @ [Connect] @ map Poll is1 @ [Visit ps1] @ map Poll is2 @ [Visit ps2] @ map Poll is3)
      (empty_web, ?sm) = Some (Inr ([default_page cfg, ok_response ''Your subscription has been saved!''], (s4, sm')))"
    unfolding runs l3 by simp
  with start calls show ?thesis by auto
qed

definition ex_visit :: "nat \<Rightarrow> string list" where
  "ex_visit n =
    (let t = (if n = 0 then request_text (browser_get [(''Host'', ''pc'')] ''/set_email'') (Some (email_query ''b@y'' ''bob''))
       else request_text (browser_get [(''Host'', ''pc'')] ''/trigger_choose'') (Some ''trigger0=1''))
     in [take 7 t, drop 7 t])"

lemma ex_visit_bytes:
  "concat (ex_visit 0) = ''GET /set_email?email=b%40y&name=bob HTTP/1.1'' @ crlf @ ''Host: pc'' @ crlf @ crlf"
  "concat (ex_visit 1) = ''GET /trigger_choose?trigger0=1 HTTP/1.1'' @ crlf @ ''Host: pc'' @ crlf @ crlf"
  by code_simp+

text \<open>A load of 90 per cent from the second poll on and a duration of two seconds. The subscription comes after
  four polls; the row is then three polls long, and the polls that make it four and six long call the callback.\<close>

definition ex_load :: "int \<Rightarrow> poll_input" where
  "ex_load cpu = fst (ex_input 1 cpu)"

theorem visitor_gets_mails_witness:
  "\<exists>cfg sm s sm'. main_start ring_boost (\<lambda>_. ''x'')
      ''trigger cpu over 70% last {1s, 2s}\<newline>log cpu for 4s resolution 2s\<newline>'' parser_init =
      Some (Inr (cfg, sm, empty_web))
    \<and> life ring_boost (monitor_server rev rev cfg ring_boost (\<lambda>_. 7) (notification empty_web []))
        (map Poll [ex_load 10, ex_load 90] @ [Connect] @ map Poll [ex_load 90] @ [Visit (ex_visit 0)]
          @ map Poll [ex_load 90] @ [Visit (ex_visit 1)] @ map Poll [ex_load 90, ex_load 90, ex_load 90]) (empty_web, sm) =
        Some (Inr ([default_page cfg, ok_response ''Your subscription has been saved!''], (s, sm')))
    \<and> map mail_to (called (engine s)) = ['' b@y'', '' b@y'']"
proof -
  let ?t = "\<lparr>resource = CPU, fluctuationType = OVER, triggerValue = \<lparr>unitType = PERCENT, rvalue = 70\<rparr>, duration = 2\<rparr>"
  let ?m = "\<lparr>mail_name = '' bob'', mail_to = '' b@y'', mail_text = ''Hello '' @ ''bob''
      @ '',\<newline>following trigger has been exceeded:\<newline>'' @ put_TriggerType ?t @ ''\<newline>\<newline>Your ZPRMonitor''\<rparr>"
  let ?h = "[(''Host'', ''pc'')]"
  have ok: "list_all line_ok ex_lines"
    by (simp add: ex_lines_def span_ok_def amount_ok_def layout_ok_def LONG_MAX_def)
  have txt_eq: "render_config ex_lines =
      ''trigger cpu over 70% last {1s, 2s}\<newline>log cpu for 4s resolution 2s\<newline>''" by code_simp
  have ts: "concat (map line_triggers ex_lines) = [?t\<lparr>duration := 1\<rparr>, ?t]"
    "concat (map line_logs ex_lines) = [ex_log]"
    by (simp_all add: ex_lines_def amount_value_def ex_log_def)
  have cfg: "\<forall>l \<in> set (concat (map line_logs ex_lines)). log_ok l" "\<forall>t \<in> set (concat (map line_triggers ex_lines)). trigger_ok t"
    unfolding ts using ex_log_ok by (simp_all add: trigger_ok_def unit_ok_def LONG_MAX_def)
  have h: "browser_header ?h"
    by (simp add: browser_header_def header_values_def case_insensitive_equal_def newline_def)
  have k: "1 < length (concat (map line_triggers ex_lines))" "int 1 \<le> INT_MAX" "?t = concat (map line_triggers ex_lines) ! 1"
    unfolding ts by (simp_all add: INT_MAX_def)
  have q: "form_query [(''trigger0'', 1)] = ''trigger0=1''" by code_simp
  have ps1: "concat (ex_visit 0) = request_text (browser_get ?h ''/set_email'') (Some (email_query ''b@y'' ''bob''))"
    "tight (ex_visit 0)"
    by (simp_all add: ex_visit_def Let_def request_text_def header_text_def browser_get_def target_text_def)
  have ps2: "concat (ex_visit 1) = request_text (browser_get ?h ''/trigger_choose'') (Some (form_query [(''trigger0'', 1)]))"
    "tight (ex_visit 1)"
    unfolding q by (simp_all add: ex_visit_def Let_def request_text_def header_text_def browser_get_def target_text_def)
  have d: "times_due ?t (map polled ([ex_load 10, ex_load 90] @ [ex_load 90] @ [ex_load 90]))
      (map polled [ex_load 90, ex_load 90, ex_load 90]) = 2"
    by code_simp
  have "replicate 2 ?m = [?m, ?m]" by (simp add: numeral_2_eq_2)
  with visitor_gets_mails [OF ring_boost_ok ok cfg h key_order_rev k, of "''b@y''" "''bob''" rev "''bob''" "''b@y''"
        "ex_visit 0" "ex_visit 1" ?m "\<lambda>_. ''x''" "\<lambda>_. 7" "notification empty_web []" "[ex_load 10, ex_load 90]" "[ex_load 90]"
        "[ex_load 90]" "[ex_load 90, ex_load 90, ex_load 90]"] ps1 ps2
  show ?thesis unfolding d txt_eq by (fastforce simp: plain_def newline_def)
qed

section \<open>A handler that throws\<close>

text \<open>C39: A number beyond the configured triggers is not answered with an error: the exception of the
  handler is caught and the response, in which nothing has been written, is sent: nothing, while the browser
  waits for an answer. The connection stays open: whatever bytes follow on it are served just as they would be
  without that request, from the same state, and only the empty answer is in front of theirs.\<close>

theorem bad_subscription_unanswered:
  assumes h: "browser_header h" and ord: "key_order ord"
    and k: "length (conf_triggers cfg) \<le> k" "int k \<le> INT_MAX"
    and iter: "iter [(''trigger0'', show_nat k)] = [(''trigger0'', show_nat k)]"
    and ps: "concat ps = request_text (browser_get h ''/trigger_choose'') (Some (form_query [(''trigger0'', k)]))" "tight ps"
  shows "serve_connection (monitor_server iter ord cfg B na e) (ps @ following) (s, m) =
    answered_before [[]] (serve_connection (monitor_server iter ord cfg B na e) following (s, m))"
proof -
  let ?f = "(''trigger0'', k)" and ?srv = "monitor_server iter ord cfg B na e"
  let ?rq = "received (browser_get h ''/trigger_choose'') (Some (form_query [?f]))"
  have f: "list_all number_ok [?f]" using k by (simp add: number_ok_def select_ok_def plain_def)
  then have "QueryString_parse (form_query [?f]) = Inr (map select_field [?f])"
    by (intro parse_form) (auto simp: number_ok_def)
  moreover have "choose_predicate cfg (map select_field [?f]) (seglist (map select_field [?f])) e = Inl Out_of_range"
    by (rule choose_out_of_range [OF f]) (use k in auto)
  ultimately have "trigger_choose iter cfg na e (form_query [?f]) s = Inl Out_of_range"
    using iter by (simp add: trigger_choose_def Let_def select_field_def)
  then have d: "dispatch ?srv ?rq [] following (s, m) = Inr (Continued [] (s, m) following)"
    using browser_stays [of h ?srv ?rq] h ord
    by (simp add: dispatch_def server_write_def monitor_server_def literal_match_def received_def browser_get_def
        handled_def std_exception_def)
  have "key_order (values_order ?srv)" using ord by (simp add: monitor_server_def)
  from request_continued [OF h this path_chars(2) trigger_query_chars ps d] show ?thesis .
qed

definition ex_idle :: "(any_buffer, mail world) SamplingManager" where
  "ex_idle = connectPredicateEngine (SamplingManager_new ring_boost [ex_log] [ex_cpu] (\<lambda>t w. Inr w) (\<lambda>t w. Inr w))"

text \<open>Behind the request that is not answered the browser asks for the page and gets it.\<close>

theorem bad_subscription_unanswered_witness:
  "serve_connection (monitor_server rev rev ex_cfg ring_boost (\<lambda>_. 7) (notification ex_web []))
    [request_text (browser_get [] ''/trigger_choose'') (Some ''trigger0=3''), request_text (browser_get [] ''/'') (Some [])]
    (ex_web, ex_idle) = Some (Inr ([[], default_page ex_cfg], (ex_web, ex_idle)))"
proof -
  let ?srv = "monitor_server rev rev ex_cfg ring_boost (\<lambda>_. 7) (notification ex_web [])"
  have q: "form_query [(''trigger0'', 3)] = ''trigger0=3''" by code_simp
  have h: "browser_header []" by (simp add: browser_header_def header_values_def)
  have t: "tight [request_text (browser_get [] p) r]" for p r by (simp add: request_text_def)
  have srv: "key_order (values_order ?srv)" by (simp add: monitor_server_def key_order_rev)
  have "dispatch ?srv (received (browser_get [] ''/'') (Some [])) [] [] (ex_web, ex_idle) =
      Inr (Continued (default_page ex_cfg) (ex_web, ex_idle) [])"
    using browser_stays [OF h srv, of "received (browser_get [] ''/'') (Some [])"]
    by (simp add: dispatch_def server_write_def monitor_server_def literal_match_def received_def browser_get_def)
  from request_alone [OF h srv _ _ _ t this] have
    "serve_connection ?srv [request_text (browser_get [] ''/'') (Some [])] (ex_web, ex_idle) =
      Some (Inr ([default_page ex_cfg], (ex_web, ex_idle)))"
    by (simp add: query_chars_def newline_def)
  then show ?thesis
    using bad_subscription_unanswered [OF h key_order_rev _ _ _ _ t, of ex_cfg 3 rev "''/trigger_choose''" "Some (form_query [(''trigger0'', 3)])"
        ring_boost "\<lambda>_. 7" "notification ex_web []" "[request_text (browser_get [] ''/'') (Some [])]" ex_web ex_idle]
    unfolding q by (simp add: ex_cfg_def INT_MAX_def)
qed

end
