(* ===== verification/HttpClient.thy ===== *)
theory HttpClient
  imports HttpServer
begin

text \<open>
  \<open>include/client_http.hpp\<close>: the text of a request, reading a response, and the pool of connections.
  The input is the list of the pieces in which the bytes of the response arrive, as in \<open>HttpServer\<close>. A
  connection is an address; the order in which the set of connections iterates and the address of a new
  connection are parameters. Connecting and writing succeed, timeouts do not expire, and the set is
  locked for each operation as a whole.
\<close>

section \<open>Requests\<close>

record address =
  host :: string
  port :: "16 word"
  proxy_server :: string

definition parse_host_port :: "string \<Rightarrow> 16 word \<Rightarrow> (string \<times> 16 word) result" where
  "parse_host_port host_port default_port = (case find_char host_port CHR '':'' of
       None \<Rightarrow> Inr (host_port, default_port)
     | Some host_end \<Rightarrow>
         bindE (substr host_port 0 (Some host_end)) (\<lambda>h.
         bindE (substr host_port (host_end + 1) None) (\<lambda>p.
         bindE (stoull p) (\<lambda>n. Inr (h, of_nat n)))))"

definition Client_new :: "string \<Rightarrow> address result" where
  "Client_new server_port_path = bindE (parse_host_port server_port_path 80) (\<lambda>(h, p).
     Inr \<lparr>host = h, port = p, proxy_server = []\<rparr>)"

text \<open>Fields are written in the order in which the container iterates; a lookup in it is \<open>header_find\<close>.\<close>

definition field_lines :: "fields \<Rightarrow> string" where
  "field_lines h = concat (map (\<lambda>(n, v). n @ '': '' @ v @ [CR, newline]) h)"

definition create_request_header :: "address \<Rightarrow> string \<Rightarrow> string \<Rightarrow> fields \<Rightarrow> string" where
  "create_request_header a method path header =
     (let p = (if path = [] then ''/'' else path);
          corrected_path = (if proxy_server a \<noteq> [] then ''http://'' @ host a @ '':'' @ show_nat (unat (port a)) @ p else p)
      in method @ '' '' @ corrected_path @ '' HTTP/1.1'' @ [CR, newline]
         @ ''Host: '' @ host a @ [CR, newline] @ field_lines header)"

definition length_field :: "(string list \<Rightarrow> string list) \<Rightarrow> fields \<Rightarrow> string \<Rightarrow> fields" where
  "length_field ord header content =
     (if content \<noteq> [] \<and> header_find ord ''Content-Length'' header = None
        \<and> header_find ord ''Transfer-Encoding'' header \<noteq> Some ''chunked''
      then [(''Content-Length'', show_nat (length content))] else [])"

definition client_request :: "(string list \<Rightarrow> string list) \<Rightarrow> address \<Rightarrow> string \<Rightarrow> string \<Rightarrow> string \<Rightarrow> fields \<Rightarrow> string" where
  "client_request ord a method path content header =
     create_request_header a method path header @ field_lines (length_field ord header content)
       @ [CR, newline] @ content"

section \<open>Responses\<close>

definition empty_response :: response where
  "empty_response = \<lparr>rs_version = [], rs_status_code = [], rs_header = []\<rparr>"

text \<open>The end of an attempt to read a response: the stream broke off before the end of the header, the
  callback got an error, or it got the response with its content.\<close>

datatype received_response = No_header | Failed net_error | Replied response string

text \<open>The client's copies of the functions for chunks are those of the server, statement for statement; an
  exception of theirs leaves \<open>request\<close>.\<close>

definition read_chunked_transfer_encoded :: "string \<Rightarrow> string list \<Rightarrow> (net_error + string \<times> string list) result" where
  "read_chunked_transfer_encoded buf ps = chunk_loop buf ps []"

text \<open>What follows the header, the first piece of it in the buffer. A length that is no number throws out of
  the handler.\<close>

definition response_body :: "(string list \<Rightarrow> string list) \<Rightarrow> response \<Rightarrow> string \<Rightarrow> nat \<Rightarrow> string list
    \<Rightarrow> (net_error + string) result" where
  "response_body ord rs rest num_additional_bytes ps =
     (case header_find ord ''Content-Length'' (rs_header rs) of
        Some v \<Rightarrow> bindE (stoull v) (\<lambda>content_length. Inr
          (case read_more content_length num_additional_bytes rest ps of
             None \<Rightarrow> Inl End_of_stream
           | Some (content, _) \<Rightarrow> Inr content))
      | None \<Rightarrow>
          if header_find ord ''Transfer-Encoding'' (rs_header rs) = Some ''chunked'' then
            bindE (read_chunked_transfer_encoded rest ps) (\<lambda>r. Inr (case r of Inl ec \<Rightarrow> Inl ec | Inr (content, _) \<Rightarrow> Inr content))
          else if string_less (rs_version rs) ''1.1'' \<or> header_find ord ''Session'' (rs_header rs) = Some ''close''
          then Inr (Inr (rest @ concat ps))
          else Inr (Inr rest))"

text \<open>The branches for a buffer that has reached \<open>max_response_streambuf_size\<close> are left out: by default it is the
  largest \<open>size_t\<close>, which no buffer reaches.\<close>

definition client_read :: "(string list \<Rightarrow> string list) \<Rightarrow> string list \<Rightarrow> received_response call" where
  "client_read ord packets =
     (case read_until [CR, newline, CR, newline] [] packets of
        None \<Rightarrow> Some (Inr No_header)
      | Some (buf, transferred, ps) \<Rightarrow>
          (case ResponseMessage_parse (buf, True) empty_response of
             None \<Rightarrow> None
           | Some (Inl e) \<Rightarrow> Some (Inl e)
           | Some (Inr (False, _)) \<Rightarrow> Some (Inr (Failed Protocol_error))
           | Some (Inr (True, rs, (rest, _))) \<Rightarrow>
               Some (case response_body ord rs rest (length buf - transferred) ps of
                   Inl e \<Rightarrow> Inl e
                 | Inr (Inl ec) \<Rightarrow> Inr (Failed ec)
                 | Inr (Inr content) \<Rightarrow> Inr (Replied rs content))))"

section \<open>The pool of connections\<close>

record connection =
  in_use :: bool
  attempt_reconnect :: bool

record pool =
  connections :: "nat set"
  conns :: "nat \<Rightarrow> connection"

definition set_conn :: "nat \<Rightarrow> (connection \<Rightarrow> connection) \<Rightarrow> pool \<Rightarrow> pool" where
  "set_conn i f c = c\<lparr>conns := (conns c)(i := f (conns c i))\<rparr>"

definition create_connection :: "nat \<Rightarrow> pool \<Rightarrow> pool" where
  "create_connection i c = c\<lparr>conns := (conns c)(i := \<lparr>in_use = False, attempt_reconnect = True\<rparr>)\<rparr>"

definition get_connection :: "(nat set \<Rightarrow> nat list) \<Rightarrow> nat \<Rightarrow> pool \<Rightarrow> nat \<times> pool" where
  "get_connection iter new c =
     (let (i, c1) = (case find (\<lambda>i. \<not> in_use (conns c i)) (iter (connections c)) of
            Some i \<Rightarrow> (i, c)
          | None \<Rightarrow> (new, (create_connection new c)\<lparr>connections := insert new (connections c)\<rparr>))
      in (i, set_conn i (\<lambda>k. k\<lparr>attempt_reconnect := True, in_use := True\<rparr>) c1))"

text \<open>The callback of a session on the connection \<open>i\<close>; \<open>ec\<close> tells of an error. One unused connection is
  kept.\<close>

fun release_loop :: "bool \<Rightarrow> nat \<Rightarrow> nat \<Rightarrow> nat list \<Rightarrow> pool \<Rightarrow> pool" where
  "release_loop ec i unused_connections [] c = c"
| "release_loop ec i unused_connections (j # js) c =
     (if ec \<and> i = j then release_loop ec i unused_connections js (c\<lparr>connections := connections c - {j}\<rparr>)
      else if in_use (conns c j) then release_loop ec i unused_connections js c
      else if 1 < unused_connections + 1
        then release_loop ec i (unused_connections + 1) js (c\<lparr>connections := connections c - {j}\<rparr>)
      else release_loop ec i (unused_connections + 1) js c)"

definition session_callback :: "(nat set \<Rightarrow> nat list) \<Rightarrow> bool \<Rightarrow> nat \<Rightarrow> pool \<Rightarrow> pool" where
  "session_callback iter ec i c =
     (let c1 = set_conn i (\<lambda>k. k\<lparr>in_use := False\<rparr>) c in release_loop ec i 0 (iter (connections c1)) c1)"

text \<open>When a stream breaks off before the header: a new connection in place of the old one, to be tried
  once, or \<open>None\<close>, and then the callback gets the error.\<close>

definition reconnect :: "nat \<Rightarrow> nat \<Rightarrow> pool \<Rightarrow> pool option" where
  "reconnect new i c =
     (if attempt_reconnect (conns c i) \<and> i \<in> connections c
      then Some ((set_conn new (\<lambda>k. k\<lparr>attempt_reconnect := False, in_use := True\<rparr>) (create_connection new c))
        \<lparr>connections := insert new (connections c - {i})\<rparr>)
      else None)"

text \<open>A header has been read over the connection \<open>i\<close>.\<close>

definition header_arrived :: "nat \<Rightarrow> pool \<Rightarrow> pool" where
  "header_arrived i = set_conn i (\<lambda>k. k\<lparr>attempt_reconnect := True\<rparr>)"

definition client_stop :: "pool \<Rightarrow> pool" where
  "client_stop c = c\<lparr>connections := {}\<rparr>"

section \<open>Addresses\<close>

lemma stoull_show_nat: "n < 2 ^ 64 \<Longrightarrow> stoull (show_nat n) = Inr n"
  by (simp add: stoull_def scan_number_only)

lemma no_colon: "CHR '':'' \<notin> set s \<Longrightarrow> find_char s CHR '':'' = None"
  by (simp add: find_char_None)

text \<open>A server given as \<open>host:port\<close> is that host and that port, as far as it fits into 16 bits: \<open>65616\<close> is
  taken for 80 without an error. Without a port it is the default.\<close>

theorem host_port_parsed:
  assumes "CHR '':'' \<notin> set h" and "n < 2 ^ 64"
  shows "parse_host_port h d = Inr (h, d) \<and> parse_host_port (h @ CHR '':'' # show_nat n) d = Inr (h, of_nat n)"
  using assms by (simp add: parse_host_port_def no_colon find_char_append stoull_show_nat)

section \<open>A request reaches the server\<close>

lemma header_text_lines: "header_text h = field_lines h @ [CR, newline]"
  by (simp add: header_text_def field_lines_def)

lemma header_values_simps [simp]:
  "header_values name [] = []"
  "header_values name ((n, v) # h) = (if case_insensitive_equal n name then v # header_values name h else header_values name h)"
  "header_values name (h @ h') = header_values name h @ header_values name h'"
  by (simp_all add: header_values_def)

text \<open>The header that a request is sent with, and the request as the server gets it.\<close>

definition client_header :: "(string list \<Rightarrow> string list) \<Rightarrow> address \<Rightarrow> string \<Rightarrow> fields \<Rightarrow> fields" where
  "client_header ord a content header = (''Host'', host a) # header @ length_field ord header content"

definition sent_as :: "(string list \<Rightarrow> string list) \<Rightarrow> address \<Rightarrow> string \<Rightarrow> string \<Rightarrow> string \<Rightarrow> fields \<Rightarrow> request" where
  "sent_as ord a method path content header = \<lparr>rq_method = method, rq_path = path, rq_query_string = [],
     rq_version = ''1.1'', rq_header = client_header ord a content header\<rparr>"

text \<open>Fields that tell nothing about the content.\<close>

definition content_free :: "fields \<Rightarrow> bool" where
  "content_free h \<longleftrightarrow> header_values ''Content-Length'' h = [] \<and> header_values ''Transfer-Encoding'' h = []"

lemma client_request_text:
  assumes "path \<noteq> []" and "proxy_server a = []"
  shows "client_request ord a method (target_text path q) content header =
    request_text (sent_as ord a method path content header) q @ content"
proof -
  have "target_text path q \<noteq> []" using assms(1) by (simp add: target_text_def)
  with assms(2) show ?thesis
    by (simp add: client_request_def create_request_header_def Let_def request_text_def sent_as_def client_header_def
        header_text_lines) (simp add: field_lines_def)
qed

lemma case_insensitive_lengths [simp]:
  "\<not> case_insensitive_equal ''Host'' ''Content-Length''" "\<not> case_insensitive_equal ''Host'' ''Transfer-Encoding''"
  "\<not> case_insensitive_equal ''Content-Length'' ''Transfer-Encoding''" "case_insensitive_equal ''Content-Length'' ''Content-Length''"
  by (simp_all add: case_insensitive_equal_def)

lemma client_frame:
  assumes ord: "key_order ord" "key_order ord'" and h: "content_free header" and n: "length content < 2 ^ 64"
  shows "\<exists>f. frame_ok ord' (client_header ord a content header) f \<and> frame_text f = content \<and> frame_content f = content"
proof (cases "content = []")
  case True
  with assms have "frame_ok ord' (client_header ord a content header) Unframed"
    by (simp add: client_header_def length_field_def header_find_def key_order_empty content_free_def)
  with True show ?thesis by (intro exI [of _ Unframed]) simp
next
  case False
  with assms have "frame_ok ord' (client_header ord a content header) (Sized content)"
    by (simp add: client_header_def length_field_def header_find_def key_order_empty key_order_single content_free_def
        stoull_show_nat)
  then show ?thesis by (intro exI [of _ "Sized content"]) simp
qed

lemma client_request_served:
  assumes "key_order ord" and "key_order (values_order srv)" and "content_free header" and "length content < 2 ^ 64"
    and "path \<noteq> []" and "proxy_server a = []" and "request_ok (sent_as ord a method path content header) q"
    and "concat ps = client_request ord a method (target_text path q) content header" and "tight ps"
  shows "serve_request srv (ps @ qs) s =
    Some (dispatch srv (received (sent_as ord a method path content header) q) content qs s)"
proof -
  obtain f where f: "frame_ok (values_order srv) (client_header ord a content header) f" "frame_text f = content"
    "frame_content f = content" using client_frame [OF assms(1,2,3,4)] by blast
  have h: "rq_header (sent_as ord a method path content header) = client_header ord a content header"
    by (simp add: sent_as_def)
  have "concat ps = request_text (sent_as ord a method path content header) q @ frame_text f"
    using client_request_text [OF assms(5,6)] assms(8) f(2) by simp
  from serve_pieces [OF assms(7) _ this assms(9)] f h show ?thesis by simp
qed

section \<open>A response reaches the client\<close>

definition response_text :: "response \<Rightarrow> string" where
  "response_text rs = ''HTTP/'' @ rs_version rs @ '' '' @ rs_status_code rs @ [CR, newline] @ header_text (rs_header rs)"

definition response_ok :: "response \<Rightarrow> bool" where
  "response_ok rs \<longleftrightarrow> CHR '' '' \<notin> set (rs_version rs) \<and> newline \<notin> set (rs_version rs) \<and> newline \<notin> set (rs_status_code rs)
     \<and> clean_fields (rs_header rs)"

lemma status_line_text:
  assumes "CHR '' '' \<notin> set v"
  shows "status_line (''HTTP/'' @ v @ CHR '' '' # code @ [CR]) rs = Inr (True, rs\<lparr>rs_version := v, rs_status_code := code\<rparr>)"
proof -
  have "find_char (''HTTP/'' @ v @ CHR '' '' # code @ [CR]) CHR '' '' = Some (length v + 5)"
    using find_char_append [of "CHR '' ''" "''HTTP/'' @ v" "code @ [CR]"] assms by simp
  then show ?thesis by (simp add: status_line_def usub_def Let_def eval_nat_numeral)
qed

lemma parse_response_text:
  assumes "response_ok rs"
  shows "ResponseMessage_parse (response_text rs @ body, True) old = Some (Inr (True, rs, (body, True)))"
proof -
  let ?line = "''HTTP/'' @ rs_version rs @ CHR '' '' # rs_status_code rs @ [CR]"
  have nl: "newline \<notin> set ?line" and h: "list_all (\<lambda>(n, v). CHR '':'' \<notin> set n \<and> newline \<notin> set n \<and> newline \<notin> set v) (rs_header rs)"
    using assms by (auto simp: response_ok_def clean_fields_def)
  have "response_text rs @ body = ?line @ newline # header_text (rs_header rs) @ body"
    by (simp add: response_text_def)
  then have "getline [] (response_text rs @ body, True) = (?line, (header_text (rs_header rs) @ body, True))"
    using getline_line [OF nl] by simp
  moreover have "CHR '' '' \<notin> set (rs_version rs)" using assms by (simp add: response_ok_def)
  ultimately show ?thesis
    using header_parse_text [OF h, of body] status_line_text [of "rs_version rs" "rs_status_code rs"]
    by (cases rs) (simp add: ResponseMessage_parse_def)
qed

lemma response_message: "response_text rs = message_text (''HTTP/'' @ rs_version rs @ '' '' @ rs_status_code rs) (rs_header rs)"
  by (simp add: response_text_def message_text_def)

lemma response_read:
  assumes "response_ok rs" and "concat ps = response_text rs @ body"
  shows "\<exists>rest ps'. read_until [CR, newline, CR, newline] [] ps = Some (response_text rs @ rest, length (response_text rs), ps')
    \<and> rest @ concat ps' = body"
  using read_message [of "''HTTP/'' @ rs_version rs @ '' '' @ rs_status_code rs" "rs_header rs" ps body] assms
  by (auto simp: response_message response_ok_def)

lemma client_read_body:
  assumes "response_ok rs" and "read_until [CR, newline, CR, newline] [] ps = Some (response_text rs @ rest, length (response_text rs), ps')"
  shows "client_read ord ps = Some (case response_body ord rs rest (length rest) ps' of
      Inl e \<Rightarrow> Inl e | Inr (Inl ec) \<Rightarrow> Inr (Failed ec) | Inr (Inr content) \<Rightarrow> Inr (Replied rs content))"
  using assms parse_response_text [OF assms(1), of rest] by (simp add: client_read_def)

lemma write_fields:
  assumes "content_free h"
  shows "fold write_field h (out, False, False) = (out @ field_lines h, False, False)"
  using assms
proof (induction h arbitrary: out)
  case (Cons f h)
  obtain n v where f: "f = (n, v)" by (cases f)
  have low: "case_insensitive_equal n ''content-length'' = case_insensitive_equal n ''Content-Length''"
    "case_insensitive_equal n ''transfer-encoding'' = case_insensitive_equal n ''Transfer-Encoding''"
    by (auto simp: case_insensitive_equal_def list_all2_Cons2 tolower_def)
  with Cons.prems f have n: "\<not> case_insensitive_equal n ''content-length''" "\<not> case_insensitive_equal n ''transfer-encoding''"
    and h: "content_free h" by (auto simp: content_free_def split: if_splits)
  from n f have "write_field f (out, False, False) = (out @ n @ '': '' @ v @ [CR, newline], False, False)"
    by (simp add: write_field_def Let_def)
  with Cons.IH [OF h] f show ?case by (simp add: field_lines_def)
qed (simp add: field_lines_def)

text \<open>A response as the server writes it.\<close>

definition written :: "StatusCode \<Rightarrow> string \<Rightarrow> fields \<Rightarrow> response" where
  "written code content h = \<lparr>rs_version = ''1.1'', rs_status_code = status_code_text code,
     rs_header = h @ [(''Content-Length'', show_nat (length content))]\<rparr>"

lemma Response_write_text:
  assumes "content_free h"
  shows "Response_write False code content h = response_text (written code content h) @ content"
  using write_fields [OF assms, of "[]"]
  by (simp add: Response_write_def write_header_def response_text_def written_def header_text_lines field_lines_def)

lemma status_text_line: "newline \<notin> set (status_code_text c)"
proof -
  have "list_all (\<lambda>s. newline \<notin> set s) (map snd status_code_strings)" by code_simp
  then have "newline \<notin> set s" if "(c, s) \<in> set status_code_strings" for s
    using that by (metis list_all_iff image_eqI list.set_map snd_conv)
  then show ?thesis by (cases "map_of status_code_strings c") (auto simp: status_code_text_def dest: map_of_SomeD)
qed

lemma written_ok: "clean_fields h \<Longrightarrow> response_ok (written code content h)"
proof -
  have "newline \<notin> set (show_nat (length content))"
    using show_nat_digits [of "length content"] by (auto simp: list_all_iff is_digit_def newline_def)
  moreover have "newline \<notin> set ''Content-Length''" "newline \<notin> set ''1.1''" by (simp_all add: newline_def)
  ultimately show "clean_fields h \<Longrightarrow> response_ok (written code content h)"
    by (simp add: response_ok_def written_def status_text_line clean_fields_def)
qed

lemma response_read_back:
  assumes h: "clean_fields h" "content_free h" and ord: "key_order ord" and n: "length content < 2 ^ 64"
    and ps: "concat ps = Response_write False code content h"
  shows "client_read ord ps = Some (Inr (Replied (written code content h) content))"
proof -
  let ?rs = "written code content h"
  obtain rest ps' where r: "read_until [CR, newline, CR, newline] [] ps = Some (response_text ?rs @ rest, length (response_text ?rs), ps')"
    and c: "rest @ concat ps' = content"
    using response_read [OF written_ok [OF h(1)]] ps Response_write_text [OF h(2)] by metis
  have "header_find ord ''Content-Length'' (rs_header ?rs) = Some (show_nat (length content))"
    using h(2) ord by (simp add: written_def header_find_def content_free_def key_order_single)
  moreover obtain ps2 where "read_more (length content) (length rest) rest ps' = Some (content, ps2)"
  proof -
    have "length content - length rest = length (concat ps')" using c by auto
    with read_more_total [of "length rest" rest "length content" ps'] c that show thesis by auto
  qed
  ultimately have "response_body ord ?rs rest (length rest) ps' = Inr (Inr content)"
    using n by (simp add: response_body_def stoull_show_nat)
  with client_read_body [OF written_ok [OF h(1)] r] show ?thesis by simp
qed

text \<open>C17: A client and the server: the request that the client sends for a method, a path, fields and a
  content arrives, in whatever pieces, at the handler of the path as that request, with the host and the
  length among its fields; and what the handler answers with the server's \<open>write\<close> is, in whatever pieces,
  the status, the fields and the content that the client's caller gets.\<close>

theorem client_gets_answer:
  assumes ord: "key_order ord" "key_order (values_order srv)"
    and rq: "content_free header" "length content < 2 ^ 64" "path \<noteq> []" "proxy_server a = []"
      "r = sent_as ord a method path content header" "request_ok r q"
    and ps: "concat ps = client_request ord a method (target_text path q) content header" "tight ps"
    and h: "find_resource (matches srv) (resource_map srv) (received r q) = Some h"
      "h (received r q) content s = (None, Response_write False code answer fs, s')"
    and fs: "clean_fields fs" "content_free fs" "length answer < 2 ^ 64"
    and qs: "concat qs = Response_write False code answer fs"
  shows "serve_connection srv ps s = Some (Inr ([Response_write False code answer fs], s'))
    \<and> client_read ord qs = Some (Inr (Replied (written code answer fs) answer))"
proof
  have "serve_request srv ps s = Some (dispatch srv (received r q) content [] s)"
    using client_request_served [where qs = "[]" and s = s, OF ord rq(1-4) rq(6) [unfolded rq(5)] ps] rq(5) by simp
  moreover have "dispatch srv (received r q) content [] s = Inr (if stays_open srv (received r q)
      then Continued (Response_write False code answer fs) s' [] else Answered (Response_write False code answer fs) s')"
    using h by (simp add: dispatch_def server_write_def)
  ultimately show "serve_connection srv ps s = Some (Inr ([Response_write False code answer fs], s'))"
    by (subst serve_connection.simps) (simp add: connection_end)
  show "client_read ord qs = Some (Inr (Replied (written code answer fs) answer))"
    using response_read_back [OF fs(1,2) ord(1) fs(3) qs] .
qed

definition greet :: "nat handler" where
  "greet rq content s = (None, Response_write False Success_created (''got '' @ content) [(''X-Count'', show_nat s)], s + 1)"

definition greet_server :: "nat server" where
  "greet_server = \<lparr>matches = (=), values_order = rev, resource_map = [(''/a'', [(''PUT'', greet)])], default_resource = []\<rparr>"

definition ex_address :: address where
  "ex_address = \<lparr>host = ''pc'', port = 8080, proxy_server = []\<rparr>"

theorem client_gets_answer_witness:
  "serve_connection greet_server [client_request rev ex_address ''PUT'' ''/a?x=1'' ''abc'' []] 4 =
     Some (Inr ([Response_write False Success_created ''got abc'' [(''X-Count'', ''4'')]], 5))
   \<and> client_read rev [Response_write False Success_created ''got abc'' [(''X-Count'', ''4'')]] =
     Some (Inr (Replied (written Success_created ''got abc'' [(''X-Count'', ''4'')]) ''got abc''))"
proof -
  let ?r = "sent_as rev ex_address ''PUT'' ''/a'' ''abc'' []"
  have l: "length_field rev [] ''abc'' = [(''Content-Length'', ''3'')]"
    by code_simp
  have ok: "request_ok ?r (Some ''x=1'')"
    by (simp add: request_ok_def sent_as_def client_header_def l ex_address_def target_text_def newline_def)
  have p: "target_text ''/a'' (Some ''x=1'') = ''/a?x=1''" by (simp add: target_text_def)
  have t: "tight [client_request rev ex_address ''PUT'' (target_text ''/a'' (Some ''x=1'')) ''abc'' []]"
    by (simp add: client_request_def)
  have h: "find_resource (matches greet_server) (resource_map greet_server) (received ?r (Some ''x=1'')) = Some greet"
    by (simp add: greet_server_def received_def sent_as_def)
  have four: "show_nat 4 = ''4''" by code_simp
  have g: "greet (received ?r (Some ''x=1'')) ''abc'' 4 = (None, Response_write False Success_created ''got abc'' [(''X-Count'', ''4'')], 5)"
    by (simp add: greet_def four)
  have "key_order (values_order greet_server)" by (simp add: greet_server_def key_order_rev)
  moreover have "clean_fields [(''X-Count'', ''4'')]" "content_free [(''X-Count'', ''4'')]" "content_free []"
    by (simp_all add: clean_fields_def content_free_def newline_def case_insensitive_equal_def)
  ultimately show ?thesis
    using client_gets_answer [OF key_order_rev _ _ _ _ _ refl ok _ t h g,
        of "[Response_write False Success_created ''got abc'' [(''X-Count'', ''4'')]]"]
    by (simp add: p ex_address_def)
qed

lemma status_line_total: "\<exists>ok rs'. status_line line rs = Inr (ok, rs')"
  by (auto simp: status_line_def Let_def substr_def split: option.split)

text \<open>A response whose header has come to its end is parsed, with or without success.\<close>

lemma delimited_response_parsed:
  "\<exists>ok rs' st. ResponseMessage_parse (a @ [CR, newline, CR, newline] @ b, True) rs = Some (Inr (ok, rs', st))"
proof -
  obtain l z where l: "newline \<notin> set l" "a @ [CR, newline, CR, newline] @ b = l @ newline # z"
    "HttpHeader_parse (z, True) \<noteq> None" using delimited_header_returns by blast
  then obtain h st where "HttpHeader_parse (z, True) = Some (Inr (h, st))"
    using header_never_throws by (metis not_Some_eq surj_pair sum.exhaust)
  with l show ?thesis using status_line_total [of l "rs\<lparr>rs_header := []\<rparr>"]
    by (auto simp: ResponseMessage_parse_def getline_line split: bool.splits)
qed

text \<open>Whatever a server sends, the client comes back from reading it.\<close>

theorem client_never_hangs: "client_read ord packets \<noteq> None"
proof (cases "read_until [CR, newline, CR, newline] [] packets")
  case (Some r)
  obtain buf n ps where r: "r = (buf, n, ps)" by (cases r)
  obtain a b where "buf = a @ [CR, newline, CR, newline] @ b" using read_until_delimited [OF Some [unfolded r]] by blast
  then have "ResponseMessage_parse (buf, True) empty_response \<noteq> None" using delimited_response_parsed [of a b] by fastforce
  with Some r show ?thesis by (auto simp: client_read_def split: option.splits sum.splits bool.splits)
qed (simp add: client_read_def)

section \<open>What goes wrong in the client\<close>

text \<open>A response without a length whose end is the end of the stream loses what comes after the piece with
  the header: the client looks for a field \<open>Session\<close>, where \<open>Connection\<close> would say so.\<close>

theorem close_delimited_response_lost:
  assumes "response_ok rs" and "content_free (rs_header rs)" and "\<not> string_less (rs_version rs) ''1.1''"
    and "header_values ''Session'' (rs_header rs) = []" and "key_order ord"
  shows "client_read ord (response_text rs # packets) = Some (Inr (Replied rs []))"
proof -
  have "read_until [CR, newline, CR, newline] [] ((response_text rs @ []) # packets) =
      Some (response_text rs @ [], length (response_text rs), packets)"
    unfolding response_message by (rule read_message_at_once) (use assms(1) in \<open>auto simp: response_ok_def newline_def\<close>)
  moreover have "response_body ord rs [] 0 packets = Inr (Inr [])"
    using assms by (simp add: response_body_def header_find_def content_free_def key_order_empty)
  ultimately show ?thesis using client_read_body [OF assms(1), of "response_text rs # packets" "[]" packets ord] by simp
qed

theorem close_delimited_response_lost_witness:
  "client_read rev [''HTTP/1.1 200 OK'' @ [CR, newline] @ ''Connection: close'' @ [CR, newline, CR, newline], ''lost''] =
    Some (Inr (Replied \<lparr>rs_version = ''1.1'', rs_status_code = ''200 OK'', rs_header = [(''Connection'', ''close'')]\<rparr> []))"
proof -
  let ?rs = "\<lparr>rs_version = ''1.1'', rs_status_code = ''200 OK'', rs_header = [(''Connection'', ''close'')]\<rparr>"
  have "response_ok ?rs" by (simp add: response_ok_def clean_fields_def newline_def)
  moreover have "content_free [(''Connection'', ''close'')]" "header_values ''Session'' [(''Connection'', ''close'')] = []"
    by (simp_all add: content_free_def case_insensitive_equal_def)
  ultimately show ?thesis
    using close_delimited_response_lost [OF _ _ _ _ key_order_rev, of ?rs "[''lost'']"]
    by (simp add: response_text_def header_text_lines field_lines_def)
qed

text \<open>A response with a length that is no number throws through \<open>io_service->run()\<close> out of \<open>request\<close>; the
  callback of the session is not called, so its connection stays in use.\<close>

theorem bad_length_escapes:
  assumes "response_ok rs" and "header_values ''Content-Length'' (rs_header rs) = [v]" and "scan_number v = None"
    and "key_order ord"
  shows "client_read ord (response_text rs # packets) = Some (Inl Invalid_argument)"
proof -
  have "read_until [CR, newline, CR, newline] [] ((response_text rs @ []) # packets) =
      Some (response_text rs @ [], length (response_text rs), packets)"
    unfolding response_message by (rule read_message_at_once) (use assms(1) in \<open>auto simp: response_ok_def newline_def\<close>)
  moreover have "response_body ord rs [] 0 packets = Inl Invalid_argument"
    using assms by (simp add: response_body_def header_find_def key_order_single stoull_def)
  ultimately show ?thesis using client_read_body [OF assms(1), of "response_text rs # packets" "[]" packets ord] by simp
qed

theorem bad_length_escapes_witness:
  "client_read rev [''HTTP/1.1 200 OK'' @ [CR, newline] @ ''Content-Length: x'' @ [CR, newline, CR, newline]] =
    Some (Inl Invalid_argument)"
proof -
  let ?rs = "\<lparr>rs_version = ''1.1'', rs_status_code = ''200 OK'', rs_header = [(''Content-Length'', ''x'')]\<rparr>"
  have "response_ok ?rs" by (simp add: response_ok_def clean_fields_def newline_def)
  moreover have "scan_number ''x'' = None" by (simp add: scan_number_def is_space_def read_sign_def is_digit_def)
  ultimately show ?thesis
    using bad_length_escapes [OF _ _ _ key_order_rev, of ?rs "''x''" "[]"]
    by (simp add: response_text_def header_text_lines field_lines_def)
qed

section \<open>The pool keeps its promises\<close>

text \<open>The sessions that hold a connection are listed with it. A new connection has an address that no
  connection in the pool or of a session has.\<close>

definition iterates :: "(nat set \<Rightarrow> nat list) \<Rightarrow> bool" where
  "iterates iter \<longleftrightarrow> (\<forall>S. finite S \<longrightarrow> set (iter S) = S \<and> distinct (iter S))"

type_synonym client_state = "pool \<times> nat list"

inductive client_step :: "(nat set \<Rightarrow> nat list) \<Rightarrow> client_state \<Rightarrow> client_state \<Rightarrow> bool" for iter where
  request: "new \<notin> connections c \<union> set held \<Longrightarrow> get_connection iter new c = (i, c') \<Longrightarrow>
    client_step iter (c, held) (c', i # held)"
| header: "i \<in> set held \<Longrightarrow> client_step iter (c, held) (header_arrived i c, held)"
| finish: "i \<in> set held \<Longrightarrow> client_step iter (c, held) (session_callback iter ec i c, remove1 i held)"
| broken: "i \<in> set held \<Longrightarrow> new \<notin> connections c \<union> set held \<Longrightarrow> reconnect new i c = Some c' \<Longrightarrow>
    client_step iter (c, held) (c', new # remove1 i held)"
| stop: "client_step iter (c, held) (client_stop c, held)"

definition unused :: "pool \<Rightarrow> nat set" where
  "unused c = {i \<in> connections c. \<not> in_use (conns c i)}"

definition pool_inv :: "client_state \<Rightarrow> bool" where
  "pool_inv st = (case st of (c, held) \<Rightarrow> finite (connections c) \<and> distinct held
     \<and> (\<forall>i \<in> set held. in_use (conns c i)) \<and> connections c - unused c \<subseteq> set held \<and> card (unused c) \<le> 1)"

lemma set_conn_simps [simp]:
  "connections (set_conn i f c) = connections c" "conns (set_conn i f c) = (conns c)(i := f (conns c i))"
  "connections (create_connection i c) = connections c"
  "conns (create_connection i c) = (conns c)(i := \<lparr>in_use = False, attempt_reconnect = True\<rparr>)"
  by (simp_all add: set_conn_def create_connection_def)

lemma get_connection_cases:
  assumes "iterates iter" and "finite (connections c)" and "get_connection iter new c = (i, c')"
  shows "conns c' = (conns c)(i := \<lparr>in_use = True, attempt_reconnect = True\<rparr>) \<and>
    (i \<in> unused c \<and> connections c' = connections c
     \<or> unused c = {} \<and> i = new \<and> connections c' = insert new (connections c))"
proof (cases "find (\<lambda>i. \<not> in_use (conns c i)) (iter (connections c))")
  case None
  then have "unused c = {}" using assms(1,2) by (auto simp: find_None_iff unused_def iterates_def)
  with None assms(3) show ?thesis by (auto simp: get_connection_def Let_def)
next
  case (Some j)
  then have "j \<in> connections c \<and> \<not> in_use (conns c j)"
    using assms(1,2) by (metis find_Some_iff iterates_def nth_mem)
  with Some assms(3) show ?thesis
    by (cases "conns c j") (auto simp: get_connection_def Let_def unused_def)
qed

text \<open>What the loop of a callback leaves of the connections it goes through.\<close>

definition released :: "nat list \<Rightarrow> nat \<Rightarrow> pool \<Rightarrow> pool \<Rightarrow> bool" where
  "released js n c c' \<longleftrightarrow> conns c' = conns c \<and> connections c' \<subseteq> connections c \<and> connections c - set js \<subseteq> connections c'
    \<and> card {j \<in> set js \<inter> connections c'. \<not> in_use (conns c j)} \<le> 1 - n"

lemma release_loop_props:
  assumes "distinct js" and "set js \<subseteq> connections c"
  shows "released js n c (release_loop ec i n js c)"
  using assms
proof (induction ec i n js c rule: release_loop.induct)
  case (2 ec i n j js c)
  let ?d = "c\<lparr>connections := connections c - {j}\<rparr>"
  have j: "j \<notin> set js" "distinct js" "set js \<subseteq> connections ?d" "set js \<subseteq> connections c" "j \<in> connections c"
    using "2.prems" by auto
  have drop: "released (j # js) n c c'" if "released js k ?d c'" "n \<le> k" for k c'
  proof -
    have "{x \<in> set (j # js) \<inter> connections c'. \<not> in_use (conns c x)} = {x \<in> set js \<inter> connections c'. \<not> in_use (conns ?d x)}"
      using that j(1) by (auto simp: released_def)
    with that show ?thesis by (auto simp: released_def)
  qed
  have keep: "released (j # js) n c c'" if "released js n c c'" "in_use (conns c j)" for c'
  proof -
    have "{x \<in> set (j # js) \<inter> connections c'. \<not> in_use (conns c x)} = {x \<in> set js \<inter> connections c'. \<not> in_use (conns c x)}"
      using that by auto
    with that show ?thesis by (auto simp: released_def)
  qed
  have first: "released (j # js) n c c'" if "released js 1 c c'" "n = 0" for c'
  proof -
    let ?P = "{x \<in> set js \<inter> connections c'. \<not> in_use (conns c x)}"
    let ?Q = "{x \<in> set (j # js) \<inter> connections c'. \<not> in_use (conns c x)}"
    have "?P = {}" using that(1) by (simp add: released_def)
    then have "?Q \<subseteq> {j}" by auto
    then have "card ?Q \<le> card {j}" by (intro card_mono) auto
    with that show ?thesis by (auto simp: released_def)
  qed
  consider "ec \<and> i = j" | "\<not> (ec \<and> i = j)" "in_use (conns c j)"
    | "\<not> (ec \<and> i = j)" "\<not> in_use (conns c j)" "1 < n + 1" | "\<not> (ec \<and> i = j)" "\<not> in_use (conns c j)" "n = 0" by linarith
  then show ?case
  proof cases
    case 1
    with drop [OF "2.IH"(1) [OF 1 j(2,3)]] show ?thesis by simp
  next
    case 2
    show ?thesis using keep [OF "2.IH"(2) [OF 2 j(2,4)] 2(2)]
      by (simp only: release_loop.simps if_not_P [OF 2(1)] if_P [OF 2(2)])
  next
    case 3
    have "released (j # js) n c (release_loop ec i (n + 1) js ?d)"
      by (rule drop [OF "2.IH"(3) [OF 3 j(2,3)]]) simp
    then show ?thesis
      by (simp only: release_loop.simps if_not_P [OF 3(1)] if_not_P [OF 3(2)] if_P [OF 3(3)])
  next
    case 4
    then have "\<not> 1 < n + 1" by simp
    have "released (j # js) n c (release_loop ec i (n + 1) js c)"
      using first [of "release_loop ec i (n + 1) js c"] "2.IH"(4) [OF 4(1,2) \<open>\<not> 1 < n + 1\<close> j(2,4)] 4(3) by simp
    then show ?thesis
      by (simp only: release_loop.simps if_not_P [OF 4(1)] if_not_P [OF 4(2)] if_not_P [OF \<open>\<not> 1 < n + 1\<close>])
  qed
qed (simp add: released_def)

lemma pool_inv_step:
  assumes iter: "iterates iter" and "client_step iter st st'" and "pool_inv st"
  shows "pool_inv st'"
  using assms(2,3)
proof (induction rule: client_step.induct)
  case (request new c held i c')
  then have inv: "finite (connections c)" "distinct held" "\<forall>i \<in> set held. in_use (conns c i)"
    "connections c - unused c \<subseteq> set held" "card (unused c) \<le> 1" by (simp_all add: pool_inv_def)
  from get_connection_cases [OF iter inv(1) request(2)] have c': "conns c' = (conns c)(i := \<lparr>in_use = True, attempt_reconnect = True\<rparr>)"
    and i: "i \<in> unused c \<and> connections c' = connections c \<or> unused c = {} \<and> i = new \<and> connections c' = insert new (connections c)"
    by auto
  have "i \<notin> set held" using i inv(3) request(1) by (auto simp: unused_def)
  moreover have "unused c' \<subseteq> unused c" using i c' by (auto simp: unused_def)
  then have "card (unused c') \<le> card (unused c)" using inv(1) by (intro card_mono) (auto simp: unused_def)
  moreover have "connections c' - unused c' \<subseteq> insert i (set held)" using i c' inv(4) by (auto simp: unused_def)
  ultimately show ?case using inv i c' by (auto simp: pool_inv_def)
next
  case (header i held c)
  have "unused (header_arrived i c) = unused c" by (auto simp: unused_def header_arrived_def)
  moreover have "connections (header_arrived i c) = connections c" by (simp add: header_arrived_def)
  ultimately show ?case using header by (auto simp: pool_inv_def header_arrived_def)
next
  case (finish i held c ec)
  let ?c1 = "set_conn i (\<lambda>k. k\<lparr>in_use := False\<rparr>) c"
  let ?c' = "session_callback iter ec i c"
  from finish have inv: "finite (connections c)" "distinct held" "\<forall>i \<in> set held. in_use (conns c i)"
    "connections c - unused c \<subseteq> set held" by (simp_all add: pool_inv_def)
  have it: "set (iter (connections ?c1)) = connections c" "distinct (iter (connections ?c1))"
    using iter inv(1) by (auto simp: iterates_def)
  have p: "conns ?c' = conns ?c1" "connections ?c' \<subseteq> connections c"
    "card {j \<in> connections c \<inter> connections ?c'. \<not> in_use (conns ?c1 j)} \<le> 1"
    using release_loop_props [OF it(2), of ?c1 0 ec i] it(1) by (simp_all add: session_callback_def Let_def released_def)
  have "unused ?c' = {j \<in> connections c \<inter> connections ?c'. \<not> in_use (conns ?c1 j)}"
    using p(1,2) by (auto simp: unused_def)
  moreover have "connections ?c' - unused ?c' \<subseteq> set (remove1 i held)"
    using p(1,2) inv(2,4) by (auto simp: unused_def set_remove1_eq split: if_splits)
  moreover have "\<forall>j \<in> set (remove1 i held). in_use (conns ?c' j)"
    using p(1) inv(2,3) by (auto simp: set_remove1_eq)
  moreover have "finite (connections ?c')" using p(2) inv(1) by (rule finite_subset)
  ultimately show ?case using p(3) inv(2) by (auto simp: pool_inv_def)
next
  case (broken i held new c c')
  then have inv: "finite (connections c)" "distinct held" "\<forall>i \<in> set held. in_use (conns c i)"
    "connections c - unused c \<subseteq> set held" "card (unused c) \<le> 1" by (simp_all add: pool_inv_def)
  from broken(3) have c': "connections c' = insert new (connections c - {i})"
    "conns c' = (conns c)(new := \<lparr>in_use = True, attempt_reconnect = False\<rparr>)"
    by (auto simp: reconnect_def split: if_splits)
  have "unused c' \<subseteq> unused c" using c' by (auto simp: unused_def)
  then have "card (unused c') \<le> card (unused c)" using inv(1) by (intro card_mono) (auto simp: unused_def)
  moreover have "connections c' - unused c' \<subseteq> insert new (set (remove1 i held))"
    using c' inv(2,4) by (auto simp: unused_def set_remove1_eq)
  moreover have "new \<notin> set (remove1 i held)" using broken(2) by (meson notin_set_remove1 UnI2)
  ultimately show ?case using inv c' broken(2) by (auto simp: pool_inv_def set_remove1_eq)
next
  case (stop c held)
  then show ?case by (auto simp: pool_inv_def client_stop_def unused_def)
qed

definition Client_pool :: pool where
  "Client_pool = \<lparr>connections = {}, conns = (\<lambda>_. \<lparr>in_use = False, attempt_reconnect = True\<rparr>)\<rparr>"

lemma pool_inv_reachable:
  assumes "iterates iter" and "(client_step iter)\<^sup>*\<^sup>* (Client_pool, []) st"
  shows "pool_inv st"
  using assms(2)
proof (induction rule: rtranclp_induct)
  case base
  then show ?case by (simp add: pool_inv_def Client_pool_def unused_def)
next
  case (step st st')
  then show ?case using pool_inv_step [OF assms(1)] by blast
qed

text \<open>C18: Whatever requests are made, answered, broken off and tried again, and whenever the client is
  stopped, no two sessions have the same connection, a new request gets one that no session has, every
  connection of the pool that is in use has its session, and at most one is kept unused.\<close>

theorem connections_exclusive:
  assumes "iterates iter" and "(client_step iter)\<^sup>*\<^sup>* (Client_pool, []) (c, held)"
    and "new \<notin> connections c \<union> set held"
  shows "distinct held \<and> fst (get_connection iter new c) \<notin> set held
    \<and> {i \<in> connections c. in_use (conns c i)} \<subseteq> set held \<and> card {i \<in> connections c. \<not> in_use (conns c i)} \<le> 1"
proof -
  have inv: "pool_inv (c, held)" using pool_inv_reachable [OF assms(1,2)] .
  obtain i c' where g: "get_connection iter new c = (i, c')" by (cases "get_connection iter new c")
  have "finite (connections c)" using inv by (simp add: pool_inv_def)
  from get_connection_cases [OF assms(1) this g] inv assms(3) have "i \<notin> set held"
    by (auto simp: pool_inv_def unused_def)
  with inv g show ?thesis by (auto simp: pool_inv_def unused_def)
qed

theorem connections_exclusive_witness:
  "fst (get_connection sorted_list_of_set 3 (session_callback sorted_list_of_set False 1
     (snd (get_connection sorted_list_of_set 2 (snd (get_connection sorted_list_of_set 1 Client_pool)))))) \<notin> {2}"
proof -
  let ?it = "sorted_list_of_set :: nat set \<Rightarrow> nat list"
  let ?c1 = "snd (get_connection ?it 1 Client_pool)"
  let ?c2 = "snd (get_connection ?it 2 ?c1)"
  let ?c3 = "session_callback ?it False 1 ?c2"
  have it: "iterates ?it" by (simp add: iterates_def)
  have g1: "get_connection ?it 1 Client_pool = (1, ?c1)" "connections ?c1 = {1}"
    by (simp_all add: get_connection_def Client_pool_def)
  have g2: "get_connection ?it 2 ?c1 = (2, ?c2)" "connections ?c2 = {1, 2}"
    by (auto simp: get_connection_def Client_pool_def)
  have "client_step ?it (Client_pool, []) (?c1, [1])" by (rule client_step.request [OF _ g1(1)]) (simp add: Client_pool_def)
  moreover have "client_step ?it (?c1, [1]) (?c2, [2, 1])" by (rule client_step.request [OF _ g2(1)]) (use g1(2) in simp)
  moreover have "client_step ?it (?c2, [2, 1]) (?c3, [2])" using client_step.finish [of 1 "[2, 1]" ?it ?c2 False] by simp
  ultimately have "(client_step ?it)\<^sup>*\<^sup>* (Client_pool, []) (?c3, [2])"
    by (meson converse_rtranclp_into_rtranclp rtranclp.rtrancl_refl)
  moreover have "3 \<notin> connections ?c3 \<union> set [2]"
    using release_loop_props [of "?it (connections ?c2)" "set_conn 1 (\<lambda>k. k\<lparr>in_use := False\<rparr>) ?c2" 0 False 1] g2(2)
    by (auto simp: session_callback_def Let_def released_def)
  ultimately show ?thesis using connections_exclusive [OF it, of ?c3 "[2]" 3] by simp
qed

end
