(* ===== verification/Attributes.thy ===== *)
theory Attributes
  imports QueryStrings
begin

text \<open>
  \<open>HttpHeader::FieldValue::SemicolonSeparatedAttributes\<close> of \<open>include/utility.hpp\<close>, which reads a value such
  as that of \<open>Content-Disposition\<close>: the loop over the characters with its three positions, and the automaton it
  amounts to.
\<close>

section \<open>The parser\<close>

record attr_scan =
  attr_result :: fields
  name_start_pos :: "nat option"
  attr_name_end_pos :: "nat option"
  value_start_pos :: "nat option"

definition attr_step :: "string \<Rightarrow> nat \<Rightarrow> attr_scan \<Rightarrow> attr_scan result" where
  "attr_step str c st = (case name_start_pos st of
       None \<Rightarrow> Inr (if str ! c \<noteq> CHR '' '' \<and> str ! c \<noteq> CHR '';'' then st\<lparr>name_start_pos := Some c\<rparr> else st)
     | Some ns \<Rightarrow> (case attr_name_end_pos st of
         None \<Rightarrow>
           if str ! c = CHR '';''
           then bindE (substr str ns (usub c ns)) (\<lambda>name.
             Inr (st\<lparr>attr_result := attr_result st @ [(name, [])], name_start_pos := None\<rparr>))
           else Inr (if str ! c = CHR ''='' then st\<lparr>attr_name_end_pos := Some c\<rparr> else st)
       | Some ne \<Rightarrow> (case value_start_pos st of
           None \<Rightarrow> Inr (st\<lparr>value_start_pos :=
             Some (if str ! c = CHR 0x22 \<and> c + 1 < length str then c + 1 else c)\<rparr>)
         | Some vs \<Rightarrow>
             if str ! c = CHR 0x22 \<or> str ! c = CHR '';''
             then bindE (substr str ns (usub ne ns)) (\<lambda>name. bindE (substr str vs (usub c vs)) (\<lambda>value.
               Inr (st\<lparr>attr_result := attr_result st @ [(name, Percent_decode value)], name_start_pos := None,
                 attr_name_end_pos := None, value_start_pos := None\<rparr>)))
             else Inr st)))"

definition attr_last :: "string \<Rightarrow> attr_scan \<Rightarrow> fields result" where
  "attr_last str st = (case name_start_pos st of
       None \<Rightarrow> Inr (attr_result st)
     | Some ns \<Rightarrow> (case attr_name_end_pos st of
         None \<Rightarrow> bindE (substr str ns None) (\<lambda>name. Inr (attr_result st @ [(name, [])]))
       | Some ne \<Rightarrow> (case value_start_pos st of
           None \<Rightarrow> Inr (attr_result st)
         | Some vs \<Rightarrow> bindE (substr str ns (usub ne ns)) (\<lambda>name.
             bindE (substr str vs (if last str = CHR 0x22 then Some (length str - 1) else None)) (\<lambda>value.
               Inr (attr_result st @ [(name, Percent_decode value)]))))))"

definition SemicolonSeparatedAttributes_parse :: "string \<Rightarrow> fields result" where
  "SemicolonSeparatedAttributes_parse str =
     bindE (foldE (attr_step str) [0..<length str]
         \<lparr>attr_result = [], name_start_pos = None, attr_name_end_pos = None, value_start_pos = None\<rparr>)
       (attr_last str)"

section \<open>The automaton\<close>

datatype attr_mode = Skip | Name string | Equals string | Val string string

fun attr_next :: "bool \<Rightarrow> char \<Rightarrow> attr_mode \<times> fields \<Rightarrow> attr_mode \<times> fields" where
  "attr_next lst c (Skip, fs) = (if c \<noteq> CHR '' '' \<and> c \<noteq> CHR '';'' then (Name [c], fs) else (Skip, fs))"
| "attr_next lst c (Name n, fs) =
     (if c = CHR '';'' then (Skip, fs @ [(n, [])]) else if c = CHR ''='' then (Equals n, fs) else (Name (n @ [c]), fs))"
| "attr_next lst c (Equals n, fs) = (Val n (if c = CHR 0x22 \<and> \<not> lst then [] else [c]), fs)"
| "attr_next lst c (Val n v, fs) =
     (if c = CHR 0x22 \<or> c = CHR '';'' then (Skip, fs @ [(n, Percent_decode v)]) else (Val n (v @ [c]), fs))"

fun attr_run :: "string \<Rightarrow> attr_mode \<times> fields \<Rightarrow> attr_mode \<times> fields" where
  "attr_run [] s = s"
| "attr_run (c # cs) s = attr_run cs (attr_next (cs = []) c s)"

fun attr_end :: "attr_mode \<times> fields \<Rightarrow> fields" where
  "attr_end (Skip, fs) = fs"
| "attr_end (Name n, fs) = fs @ [(n, [])]"
| "attr_end (Equals n, fs) = fs"
| "attr_end (Val n v, fs) = fs @ [(n, Percent_decode v)]"

text \<open>The positions after the first \<open>p\<close> characters.\<close>

definition attr_at :: "string \<Rightarrow> nat \<Rightarrow> attr_scan \<Rightarrow> attr_mode \<times> fields \<Rightarrow> bool" where
  "attr_at str p st s \<longleftrightarrow> p \<le> length str \<and> attr_result st = snd s \<and> (case fst s of
       Skip \<Rightarrow> name_start_pos st = None \<and> attr_name_end_pos st = None \<and> value_start_pos st = None
     | Name n \<Rightarrow> (\<exists>i < p. name_start_pos st = Some i \<and> n = take (p - i) (drop i str)) \<and> attr_name_end_pos st = None
         \<and> value_start_pos st = None
     | Equals n \<Rightarrow> (\<exists>i j. i \<le> j \<and> j < p \<and> name_start_pos st = Some i \<and> attr_name_end_pos st = Some j
         \<and> n = take (j - i) (drop i str)) \<and> value_start_pos st = None
     | Val n v \<Rightarrow> (\<exists>i j k. i \<le> j \<and> j < k \<and> k \<le> p \<and> name_start_pos st = Some i \<and> attr_name_end_pos st = Some j
         \<and> value_start_pos st = Some k \<and> n = take (j - i) (drop i str) \<and> v = take (p - k) (drop k str)))"

lemma take_Suc_drop: "i \<le> p \<Longrightarrow> p < length str \<Longrightarrow> take (Suc p - i) (drop i str) = take (p - i) (drop i str) @ [str ! p]"
  by (simp add: Suc_diff_le take_Suc_conv_app_nth)

lemma attr_at_step:
  assumes "attr_at str p st s" and "p < length str"
  shows "\<exists>st'. attr_step str p st = Inr st' \<and> attr_at str (Suc p) st' (attr_next (Suc p = length str) (str ! p) s)"
proof -
  obtain m fs where s: "s = (m, fs)" by (cases s)
  show ?thesis
  proof (cases m)
    case Skip
    then show ?thesis using assms s by (auto simp: attr_at_def attr_step_def take_Suc_conv_app_nth)
  next
    case (Name n)
    then obtain i where i: "i < p" "name_start_pos st = Some i" "n = take (p - i) (drop i str)" using assms s by (auto simp: attr_at_def)
    have "take (Suc p - i) (drop i str) = n @ [str ! p]" using take_Suc_drop [of i p str] i assms(2) by simp
    with i Name assms s show ?thesis by (auto simp: attr_at_def attr_step_def usub_def)
  next
    case (Equals n)
    have "drop p str = str ! p # drop (Suc p) str" using assms(2) by (simp add: Cons_nth_drop_Suc)
    with Equals show ?thesis using assms s by (auto simp: attr_at_def attr_step_def)
  next
    case (Val n v)
    then obtain i j k where i: "i \<le> j" "j < k" "k \<le> p" "name_start_pos st = Some i" "attr_name_end_pos st = Some j"
      "value_start_pos st = Some k" "n = take (j - i) (drop i str)" "v = take (p - k) (drop k str)"
      using assms s by (auto simp: attr_at_def)
    have "take (Suc p - k) (drop k str) = v @ [str ! p]" using take_Suc_drop [of k p str] i assms(2) by simp
    with i Val assms s show ?thesis by (auto simp: attr_at_def attr_step_def usub_def)
  qed
qed

lemma attr_fold:
  assumes "attr_at str p st s"
  shows "\<exists>st'. foldE (attr_step str) [p..<length str] st = Inr st' \<and> attr_at str (length str) st' (attr_run (drop p str) s)"
  using assms
proof (induction "length str - p" arbitrary: p st s)
  case 0
  then have "p = length str" by (simp add: attr_at_def)
  with 0 show ?case by simp
next
  case (Suc n)
  then have p: "p < length str" by simp
  from attr_at_step [OF Suc.prems p] obtain st1 where
    s1: "attr_step str p st = Inr st1" "attr_at str (Suc p) st1 (attr_next (Suc p = length str) (str ! p) s)" by blast
  have "drop p str = str ! p # drop (Suc p) str" using p by (simp add: Cons_nth_drop_Suc)
  moreover have "drop (Suc p) str = [] \<longleftrightarrow> Suc p = length str" using p by auto
  ultimately have "attr_run (drop p str) s = attr_run (drop (Suc p) str) (attr_next (Suc p = length str) (str ! p) s)"
    by simp
  with Suc.hyps(1) [OF _ s1(2)] Suc.hyps(2) s1(1) p show ?case by (simp add: upt_conv_Cons)
qed

lemma attr_last_end:
  assumes "attr_at str (length str) st s"
  shows "attr_last str st = Inr (attr_end s)"
proof -
  obtain m fs where s: "s = (m, fs)" by (cases s)
  show ?thesis
  proof (cases m)
    case (Val n v)
    then obtain i j k where i: "i \<le> j" "j < k" "k \<le> length str" "name_start_pos st = Some i" "attr_name_end_pos st = Some j"
      "value_start_pos st = Some k" "n = take (j - i) (drop i str)" "v = drop k str" "attr_result st = fs"
      using assms s by (auto simp: attr_at_def)
    moreover have "take (length str - Suc 0) (drop k str) = drop k str" using i(2) by simp
    ultimately show ?thesis using Val s by (simp add: attr_last_def usub_def)
  qed (use assms s in \<open>auto simp: attr_at_def attr_last_def\<close>)
qed

text \<open>The parser never throws and does what the automaton does. In particular the case of a quote at the end
  of the value, which the code distinguishes, makes no difference.\<close>

theorem attributes_parse_automaton: "SemicolonSeparatedAttributes_parse str = Inr (attr_end (attr_run str (Skip, [])))"
proof -
  let ?st = "\<lparr>attr_result = [], name_start_pos = None, attr_name_end_pos = None, value_start_pos = None\<rparr>"
  have "attr_at str 0 ?st (Skip, [])" by (simp add: attr_at_def)
  from attr_fold [OF this] obtain st' where
    "foldE (attr_step str) [0..<length str] ?st = Inr st'" "attr_at str (length str) st' (attr_run str (Skip, []))" by auto
  then show ?thesis by (simp add: SemicolonSeparatedAttributes_parse_def attr_last_end)
qed

section \<open>Attributes written out\<close>

text \<open>A name, a value, which may be empty, and whether it is quoted.\<close>

definition attr_text :: "string \<times> string \<times> bool \<Rightarrow> string" where
  "attr_text a = (case a of (n, v, q) \<Rightarrow> n @ (if v = [] then []
     else CHR ''='' # (if q then CHR 0x22 # Percent_encode v @ [CHR 0x22] else Percent_encode v)))"

fun attrs_text :: "(string \<times> string \<times> bool) list \<Rightarrow> string" where
  "attrs_text [] = []"
| "attrs_text [a] = attr_text a"
| "attrs_text (a # as) = attr_text a @ ''; '' @ attrs_text as"

definition attr_ok :: "string \<times> string \<times> bool \<Rightarrow> bool" where
  "attr_ok a \<longleftrightarrow> (case a of (n, v, q) \<Rightarrow> n \<noteq> [] \<and> hd n \<noteq> CHR '' '' \<and> set n \<inter> set '';='' = {}
     \<and> set v \<inter> {CHR 0x22, CHR '';'', CHR ''%''} = {})"

lemma attr_run_name: "set n' \<inter> set '';='' = {} \<Longrightarrow> attr_run (n' @ r) (Name n, fs) = attr_run r (Name (n @ n'), fs)"
  by (induction n' arbitrary: n) auto

lemma attr_run_val: "set v' \<inter> {CHR 0x22, CHR '';''} = {} \<Longrightarrow> attr_run (v' @ r) (Val n v, fs) = attr_run r (Val n (v @ v'), fs)"
  by (induction v' arbitrary: v) auto

lemma encode_no_quote: "set v \<inter> {CHR 0x22, CHR '';''} = {} \<Longrightarrow> set (Percent_encode v) \<inter> {CHR 0x22, CHR '';''} = {}"
proof (induction v)
  case (Cons c v)
  have "CHR 0x22 \<notin> set hex_chars" "CHR '';'' \<notin> set hex_chars" by (simp_all add: hex_chars_def)
  with set_encode_char [of c] Cons show ?case by (auto simp: Percent_encode_def split: if_splits)
qed (simp add: Percent_encode_def)

lemma encode_not_Nil: "v \<noteq> [] \<Longrightarrow> Percent_encode v \<noteq> []"
  by (cases v) (auto simp: Percent_encode_def encode_char_def)

text \<open>One attribute, followed by nothing or by a semicolon.\<close>

lemma attr_run_text:
  assumes "attr_ok (n, v, q)" and "r = [] \<or> hd r = CHR '';''"
  shows "attr_end (attr_run (attr_text (n, v, q) @ r) (Skip, fs)) = attr_end (attr_run (tl r) (Skip, fs @ [(n, v)]))"
proof -
  obtain c cs where n: "n = c # cs" using assms(1) by (cases n) (auto simp: attr_ok_def)
  have c: "c \<noteq> CHR '' ''" "c \<noteq> CHR '';''" "set cs \<inter> set '';='' = {}"
    using assms(1) n by (auto simp: attr_ok_def)
  have start: "attr_run (n @ u) (Skip, fs) = attr_run u (Name n, fs)" for u
    using attr_run_name [OF c(3), of u "[c]" fs] c n by simp
  show ?thesis
  proof (cases "v = []")
    case True
    then show ?thesis using start [of r] start [of "[]"] assms(2) by (cases r) (auto simp: attr_text_def)
  next
    case False
    obtain e es where e: "Percent_encode v = e # es" using encode_not_Nil [OF False] by (cases "Percent_encode v") auto
    have no: "set (Percent_encode v) \<inter> {CHR 0x22, CHR '';''} = {}"
      using assms(1) by (intro encode_no_quote) (auto simp: attr_ok_def)
    have d: "Percent_decode (Percent_encode v) = v" using assms(1) by (intro decode_encode) (auto simp: attr_ok_def)
    have val: "attr_run (Percent_encode v @ u) (Val n [], fs) = attr_run u (Val n (Percent_encode v), fs)" for u
      using attr_run_val [OF no] by simp
    show ?thesis
    proof (cases q)
      case True
      have "attr_run (attr_text (n, v, q) @ r) (Skip, fs) = attr_run (Percent_encode v @ CHR 0x22 # r) (Val n [], fs)"
        using start True False by (simp add: attr_text_def)
      also have "\<dots> = attr_run r (Skip, fs @ [(n, v)])" by (simp add: val d)
      finally show ?thesis using assms(2) by (cases r) auto
    next
      case q: False
      have "attr_run (attr_text (n, v, q) @ r) (Skip, fs) = attr_run (es @ r) (Val n [e], fs)"
        using start q False no e by (auto simp: attr_text_def)
      also have "\<dots> = attr_run r (Val n (Percent_encode v), fs)"
        using attr_run_val [of es r n "[e]" fs] no e by auto
      finally show ?thesis using assms(2) by (cases r) (auto simp: d)
    qed
  qed
qed

lemma attrs_run:
  assumes "list_all attr_ok as"
  shows "attr_end (attr_run (attrs_text as) (Skip, fs)) = fs @ map (\<lambda>(n, v, q). (n, v)) as"
  using assms
proof (induction as arbitrary: fs rule: attrs_text.induct)
  case (2 a)
  then show ?case using attr_run_text [of "fst a" "fst (snd a)" "snd (snd a)" "[]" fs] by (simp add: case_prod_beta)
next
  case (3 a b as)
  obtain n v q where a: "a = (n, v, q)" by (cases a)
  have "attr_end (attr_run (attrs_text (a # b # as)) (Skip, fs)) =
      attr_end (attr_run ('' '' @ attrs_text (b # as)) (Skip, fs @ [(n, v)]))"
    using attr_run_text [of n v q "''; '' @ attrs_text (b # as)" fs] 3(2) a by simp
  also have "\<dots> = attr_end (attr_run (attrs_text (b # as)) (Skip, fs @ [(n, v)]))" by simp
  finally show ?case using 3 a by simp
qed simp

text \<open>Parsing the attributes gives their names and values back, quoted or not, in order.\<close>

theorem attributes_round_trip:
  assumes "list_all attr_ok as"
  shows "SemicolonSeparatedAttributes_parse (attrs_text as) = Inr (map (\<lambda>(n, v, q). (n, v)) as)"
  using attrs_run [OF assms, of "[]"] by (simp add: attributes_parse_automaton)

theorem attributes_round_trip_witness:
  "SemicolonSeparatedAttributes_parse (''form-data; name='' @ [CHR 0x22] @ ''a+b'' @ [CHR 0x22] @ ''; size=b'') =
     Inr [(''form-data'', []), (''name'', ''a b''), (''size'', ''b'')]"
proof -
  have "attrs_text [(''form-data'', [], False), (''name'', ''a b'', True), (''size'', ''b'', False)] =
      ''form-data; name='' @ [CHR 0x22] @ ''a+b'' @ [CHR 0x22] @ ''; size=b''" by code_simp
  moreover have "list_all attr_ok [(''form-data'', [], False), (''name'', ''a b'', True), (''size'', ''b'', False)]"
    by (simp add: attr_ok_def)
  ultimately show ?thesis using attributes_round_trip by fastforce
qed

text \<open>An empty value swallows the next attribute, and a quoted value ends at a semicolon.\<close>

theorem empty_value_swallows_next:
  assumes "attr_ok (n, [], q)" and "set v \<inter> {CHR 0x22, CHR '';'', CHR ''%'', CHR ''+''} = {}"
  shows "SemicolonSeparatedAttributes_parse (n @ ''=;'' @ v) = Inr [(n, Percent_decode (CHR '';'' # v))]"
proof -
  obtain c cs where n: "n = c # cs" using assms(1) by (cases n) (auto simp: attr_ok_def)
  have c: "c \<noteq> CHR '' ''" "c \<noteq> CHR '';''" "set cs \<inter> set '';='' = {}"
    using assms(1) n by (auto simp: attr_ok_def)
  have "attr_run (n @ ''=;'' @ v) (Skip, []) = attr_run v (Val n '';'', [])"
    using attr_run_name [OF c(3), of "''=;'' @ v" "[c]" "[]"] c n by simp
  also have "\<dots> = (Val n (CHR '';'' # v), [])"
    using attr_run_val [of v "[]" n "'';''" "[]"] assms(2) by auto
  finally show ?thesis by (simp add: attributes_parse_automaton)
qed

end
