(* ===== verification/DoubleOrder.thy ===== *)
theory DoubleOrder
  imports DoubleArith Complex_Main
begin

text \<open>
  The order of the doubles of \<open>DoubleArith\<close>: the real number a finite double stands for, that
  rounding is monotone, and with it the bounds of the quotients and percentages the providers compute.
\<close>

section \<open>Values\<close>

abbreviation two_pow :: "int \<Rightarrow> real" where
  "two_pow k \<equiv> 2 powi k"

fun real_of :: "double \<Rightarrow> real" where
  "real_of (DFin s m e) = real_of_int (signed s m) * two_pow e"
| "real_of d = 0"

definition finite_double :: "double \<Rightarrow> bool" where
  "finite_double a \<longleftrightarrow> (\<exists>s m e. a = DFin s m e)"

lemma two_pow_pos [simp]: "0 < two_pow k"
  by simp

lemma two_pow_split: "two_pow (a + b) = two_pow a * two_pow b"
  by (simp add: power_int_add)

lemma two_pow_nat: "0 \<le> k \<Longrightarrow> 2 ^ nat k = two_pow k"
  by (simp add: power_int_def)

lemma shl_real: "real_of_int (shl n k) = real_of_int n * two_pow (max k 0)"
proof -
  have "nat k = nat (max k 0)" by simp
  then show ?thesis by (simp only: shl_def) (simp add: two_pow_nat)
qed

lemma two_pow_clip: "two_pow (max (- e) 0) = two_pow (max e 0) / two_pow e"
proof -
  have "max (- e) 0 + e = max e 0" by simp
  then have "two_pow (max (- e) 0) * two_pow e = two_pow (max e 0)" by (metis two_pow_split)
  then show ?thesis by (simp add: field_simps)
qed

text \<open>Shifting the two sides of a fraction divides it by a power of two.\<close>

lemma shl_ratio: "real_of_int (shl n (- e)) / real_of_int (shl d e) = real_of_int n / real_of_int d / two_pow e"
  by (simp add: shl_real two_pow_clip)

lemma shl_pos [simp]: "0 < shl d k \<longleftrightarrow> 0 < d"
  by (simp add: shl_def zero_less_mult_iff)

lemma shl_nonneg [simp]: "0 \<le> shl d k \<longleftrightarrow> 0 \<le> d"
  by (simp add: shl_def zero_le_mult_iff)

lemma align_real: "real_of_int (align m e f) * two_pow (min e f) = real_of_int m * two_pow e"
proof -
  have "max (e - min e f) 0 = e - min e f" by simp
  then have "real_of_int (align m e f) * two_pow (min e f) = real_of_int m * (two_pow (e - min e f) * two_pow (min e f))"
    by (simp only: align_def shl_real mult.assoc)
  also have "two_pow (e - min e f) * two_pow (min e f) = two_pow e"
    using two_pow_split [of "e - min e f" "min e f"] by simp
  finally show ?thesis .
qed

lemma dlt_real: "finite_double a \<Longrightarrow> finite_double b \<Longrightarrow> dlt a b \<longleftrightarrow> real_of a < real_of b"
proof -
  assume "finite_double a" "finite_double b"
  then obtain s m e t n f where ab: "a = DFin s m e" "b = DFin t n f" by (auto simp: finite_double_def)
  have l: "real_of_int (signed u (align k g h)) * two_pow (min g h) = real_of_int (signed u k) * two_pow g" for u k g h
    using align_real [of k g h] by (auto simp: signed_def)
  have "dlt a b \<longleftrightarrow> real_of_int (signed s (align m e f)) < real_of_int (signed t (align n f e))"
    by (simp add: ab)
  also have "\<dots> \<longleftrightarrow> real_of_int (signed s (align m e f)) * two_pow (min e f)
      < real_of_int (signed t (align n f e)) * two_pow (min e f)"
    by (simp add: mult_less_cancel_right_pos)
  also have "\<dots> \<longleftrightarrow> real_of a < real_of b"
    using l [of s m e f] l [of t n f e] by (simp add: ab min.commute)
  finally show ?thesis .
qed

section \<open>The position of the leading digit\<close>

lemma bits_bounds: "0 < n \<Longrightarrow> 2 ^ nat (bits n - 1) \<le> n \<and> n < 2 ^ nat (bits n) \<and> 0 < bits n"
proof (induction n rule: bits.induct)
  case (1 n)
  show ?case
  proof (cases "n = 1")
    case True
    then show ?thesis by (simp add: bits.simps [of 1] bits.simps [of 0])
  next
    case False
    with 1 have h: "2 ^ nat (bits (n div 2) - 1) \<le> n div 2" "n div 2 < 2 ^ nat (bits (n div 2))" "0 < bits (n div 2)"
      by auto
    have b: "bits n = 1 + bits (n div 2)" using 1(2) by (simp add: bits.simps [of n])
    have p: "nat (bits n - 1) = Suc (nat (bits (n div 2) - 1))" "nat (bits n) = Suc (nat (bits (n div 2)))"
      using h(3) b by auto
    define P Q where PQ: "P = (2::int) ^ nat (bits (n div 2) - 1)" "Q = (2::int) ^ nat (bits (n div 2))"
    have "P \<le> n div 2" "n div 2 < Q" using h(1,2) by (simp_all only: PQ)
    then have "2 * P \<le> n" "n < 2 * Q" by linarith+
    then show ?thesis unfolding p power_Suc using h(3) b by (simp add: PQ)
  qed
qed

lemma bits_real: "0 < n \<Longrightarrow> two_pow (bits n - 1) \<le> real_of_int n \<and> real_of_int n < two_pow (bits n)"
proof -
  assume n: "0 < n"
  note b = bits_bounds [OF n]
  have "real_of_int (2 ^ nat (bits n - 1)) \<le> real_of_int n" "real_of_int n < real_of_int (2 ^ nat (bits n))"
    using b by (simp_all only: of_int_le_iff of_int_less_iff)
  then show ?thesis using b by (simp add: two_pow_nat)
qed

lemma ilog2_bounds:
  assumes "0 < n" and "0 < d"
  shows "two_pow (ilog2 n d) \<le> real_of_int n / real_of_int d"
    and "real_of_int n / real_of_int d < two_pow (ilog2 n d + 1)"
proof -
  let ?k = "bits n - bits d" and ?x = "real_of_int n / real_of_int d"
  note bn = bits_real [OF assms(1)] and bd = bits_real [OF assms(2)]
  have "two_pow (?k - 1) = two_pow (bits n - 1) / two_pow (bits d)"
    using two_pow_split [of "?k - 1" "bits d"] by (simp add: field_simps)
  also have "\<dots> \<le> ?x" using bn bd assms by (intro frac_le) auto
  finally have low: "two_pow (?k - 1) \<le> ?x" .
  have "?x < two_pow (bits n) / two_pow (bits d - 1)" using bn bd assms by (intro frac_less) auto
  also have "\<dots> = two_pow (?k + 1)"
    using two_pow_split [of "?k + 1" "bits d - 1"] by (simp add: field_simps)
  finally have high: "?x < two_pow (?k + 1)" .
  have "shl d ?k \<le> shl n (- ?k) \<longleftrightarrow> 1 \<le> real_of_int (shl n (- ?k)) / real_of_int (shl d ?k)"
    using assms le_divide_eq_1_pos [of "real_of_int (shl d ?k)" "real_of_int (shl n (- ?k))"] by simp
  also have "\<dots> \<longleftrightarrow> two_pow ?k \<le> ?x"
    using le_divide_eq_1_pos [of "two_pow ?k" ?x] by (simp only: shl_ratio two_pow_pos)
  finally have c: "shl d ?k \<le> shl n (- ?k) \<longleftrightarrow> two_pow ?k \<le> ?x" .
  show "two_pow (ilog2 n d) \<le> ?x" "?x < two_pow (ilog2 n d + 1)"
    using low high c by (auto simp: ilog2_def Let_def)
qed

section \<open>Rounding\<close>

lemma round_even_near: "0 < b \<Longrightarrow> 2 * \<bar>round_even a b * b - a\<bar> \<le> b
    \<and> (2 * \<bar>round_even a b * b - a\<bar> = b \<longrightarrow> even (round_even a b))"
proof -
  assume b: "0 < b"
  define q r where qr: "q = a div b" "r = a mod b"
  have a: "a = q * b + r" by (simp add: qr)
  have r: "0 \<le> r" "r < b" using b by (simp_all add: qr)
  have "round_even a b = (if 2 * r < b then q else if b < 2 * r then q + 1 else if even q then q else q + 1)"
    by (simp add: round_even_def Let_def qr)
  then show ?thesis using a r by (auto simp: distrib_right)
qed

lemma round_even_near_real:
  fixes a b :: int
  assumes "0 < b"
  defines "r \<equiv> real_of_int a / real_of_int b"
  shows "\<bar>real_of_int (round_even a b) - r\<bar> \<le> 1 / 2"
    and "\<bar>real_of_int (round_even a b) - r\<bar> = 1 / 2 \<Longrightarrow> even (round_even a b)"
proof -
  let ?R = "round_even a b"
  have b: "0 < real_of_int b" using assms(1) by simp
  have e: "\<bar>real_of_int ?R - r\<bar> * real_of_int b = real_of_int \<bar>?R * b - a\<bar>"
  proof -
    have "real_of_int ?R - r = (real_of_int ?R * real_of_int b - real_of_int a) / real_of_int b"
      using b by (simp add: r_def field_simps)
    then show ?thesis using b by (simp add: abs_div_pos [symmetric] abs_divide)
  qed
  have "2 * real_of_int \<bar>?R * b - a\<bar> \<le> real_of_int b"
    using round_even_near [OF assms(1), of a] by (metis of_int_le_iff of_int_mult of_int_numeral)
  with e have "\<bar>real_of_int ?R - r\<bar> * real_of_int b \<le> 1 / 2 * real_of_int b" by simp
  then show "\<bar>real_of_int ?R - r\<bar> \<le> 1 / 2" using b by (simp only: mult_le_cancel_right_pos)
  assume "\<bar>real_of_int ?R - r\<bar> = 1 / 2"
  with e have "2 * real_of_int \<bar>?R * b - a\<bar> = real_of_int b" by simp
  then have "2 * \<bar>?R * b - a\<bar> = b" by (metis of_int_eq_iff of_int_mult of_int_numeral)
  then show "even ?R" using round_even_near [OF assms(1), of a] by blast
qed

lemma round_even_mono:
  assumes "0 < b" and "0 < b'" and "real_of_int a / real_of_int b \<le> real_of_int a' / real_of_int b'"
  shows "round_even a b \<le> round_even a' b'"
proof (rule ccontr)
  assume "\<not> ?thesis"
  then have "round_even a' b' + 1 \<le> round_even a b" by simp
  then have g: "real_of_int (round_even a' b') + 1 \<le> real_of_int (round_even a b)" by (metis of_int_1 of_int_add of_int_le_iff)
  note n = round_even_near_real [OF assms(1), of a] and n' = round_even_near_real [OF assms(2), of a']
  have "\<bar>real_of_int (round_even a b) - real_of_int a / real_of_int b\<bar> = 1 / 2"
    "\<bar>real_of_int (round_even a' b') - real_of_int a' / real_of_int b'\<bar> = 1 / 2"
    "real_of_int (round_even a b) = real_of_int (round_even a' b') + 1"
    using g n(1) n'(1) assms(3) by linarith+
  then have "even (round_even a b)" "even (round_even a' b')" "round_even a b = round_even a' b' + 1"
    using n(2) n'(2) by (blast, blast, linarith)
  then show False by simp
qed

lemma round_even_exact: "0 < b \<Longrightarrow> round_even (k * b) b = k"
  by (simp add: round_even_def Let_def)

section \<open>The value of a rounded quotient\<close>

definition rexp :: "int \<Rightarrow> int \<Rightarrow> int" where
  "rexp n d = max (ilog2 n d - 52) (- 1074)"

definition rval :: "int \<Rightarrow> int \<Rightarrow> real" where
  "rval n d = (if n = 0 then 0
     else real_of_int (round_even (shl n (- rexp n d)) (shl d (rexp n d))) * two_pow (rexp n d))"

lemma round_even_le:
  assumes "0 < b" and "real_of_int a / real_of_int b \<le> real_of_int k"
  shows "round_even a b \<le> k"
  using round_even_mono [of b 1 a "k * 1"] assms by (simp add: round_even_exact [of 1 k, simplified])

lemma round_even_ge:
  assumes "0 < b" and "real_of_int k \<le> real_of_int a / real_of_int b"
  shows "k \<le> round_even a b"
  using round_even_mono [of 1 b "k * 1" a] assms by (simp add: round_even_exact [of 1 k, simplified])

lemma rval_nonneg: "0 \<le> n \<Longrightarrow> 0 < d \<Longrightarrow> 0 \<le> rval n d"
  using round_even_ge [of "shl d (rexp n d)" 0 "shl n (- rexp n d)"] by (simp add: rval_def shl_ratio)

lemma ilog2_less:
  assumes "0 < n" and "0 < d" and "real_of_int n / real_of_int d < two_pow k"
  shows "ilog2 n d < k"
proof -
  have "two_pow (ilog2 n d) < two_pow k" using ilog2_bounds(1) [OF assms(1,2)] assms(3) by simp
  then show ?thesis using power_int_increasing [of k "ilog2 n d" "2 :: real"] by fastforce
qed

lemma rnd_finite:
  assumes "0 \<le> n" and "0 < d" and "real_of_int n / real_of_int d < two_pow 1000"
  obtains m e where "rnd neg n d = DFin neg m e" "0 \<le> m" "real_of_int m * two_pow e = rval n d"
proof (cases "n = 0")
  case True
  then show ?thesis using that by (simp add: rnd_def rval_def)
next
  case False
  let ?e = "rexp n d" and ?m = "round_even (shl n (- rexp n d)) (shl d (rexp n d))"
  have "ilog2 n d < 1000" using ilog2_less assms False by simp
  then have e: "?e < 971" by (simp add: rexp_def)
  have m: "0 \<le> ?m" using assms by (intro round_even_ge) (simp_all add: shl_ratio)
  have r: "rnd neg n d = (let m' = (if ?m = 9007199254740992 then 4503599627370496 else ?m);
      e' = (if ?m = 9007199254740992 then ?e + 1 else ?e) in if 971 < e' then DInf neg else DFin neg m' e')"
    using False by (simp only: rnd_def rexp_def Let_def if_False)
  show ?thesis
  proof (cases "?m = 9007199254740992")
    case True
    have "(4503599627370496 :: real) * two_pow (?e + 1) = real_of_int ?m * two_pow ?e"
      by (simp add: True two_pow_split)
    with True r e False that [of 4503599627370496 "?e + 1"] show ?thesis by (simp add: Let_def rval_def)
  next
    case False
    with r e m \<open>n \<noteq> 0\<close> that [of ?m ?e] show ?thesis by (simp add: Let_def rval_def)
  qed
qed

text \<open>A power of two on the grid of the quotient is not crossed by rounding.\<close>

lemma two_pow_quotient: "two_pow k / two_pow e = two_pow (k - e)"
  using two_pow_split [of "k - e" e] by (simp add: field_simps)

lemma grid_real: "e \<le> k \<Longrightarrow> real_of_int (2 ^ nat (k - e)) * two_pow e = two_pow k"
  using two_pow_split [of "k - e" e] by (simp add: two_pow_nat)

lemma rval_le_two_pow:
  assumes "0 < n" and "0 < d" and "real_of_int n / real_of_int d \<le> two_pow k" and e: "rexp n d \<le> k"
  shows "rval n d \<le> two_pow k"
proof -
  let ?e = "rexp n d"
  have "real_of_int n / real_of_int d / two_pow ?e \<le> two_pow (k - ?e)"
    unfolding two_pow_quotient [symmetric] using assms(3) by (rule divide_right_mono) simp
  then have "round_even (shl n (- ?e)) (shl d ?e) \<le> 2 ^ nat (k - ?e)"
    using e assms(2) by (intro round_even_le) (simp_all only: shl_ratio shl_pos two_pow_nat of_int_power of_int_numeral)
  then have "real_of_int (round_even (shl n (- ?e)) (shl d ?e)) \<le> real_of_int (2 ^ nat (k - ?e))" by (simp only: of_int_le_iff)
  then have "rval n d \<le> real_of_int (2 ^ nat (k - ?e)) * two_pow ?e"
    using assms(1) by (simp add: rval_def mult_right_mono)
  with grid_real [OF e] show ?thesis by simp
qed

lemma rval_ge_two_pow:
  assumes "0 < n" and "0 < d" and "two_pow k \<le> real_of_int n / real_of_int d" and e: "rexp n d \<le> k"
  shows "two_pow k \<le> rval n d"
proof -
  let ?e = "rexp n d"
  have "two_pow (k - ?e) \<le> real_of_int n / real_of_int d / two_pow ?e"
    unfolding two_pow_quotient [symmetric] using assms(3) by (rule divide_right_mono) simp
  then have "2 ^ nat (k - ?e) \<le> round_even (shl n (- ?e)) (shl d ?e)"
    using e assms(2) by (intro round_even_ge) (simp_all only: shl_ratio shl_pos two_pow_nat of_int_power of_int_numeral)
  then have "real_of_int (2 ^ nat (k - ?e)) \<le> real_of_int (round_even (shl n (- ?e)) (shl d ?e))" by (simp only: of_int_le_iff)
  then have "real_of_int (2 ^ nat (k - ?e)) * two_pow ?e \<le> rval n d"
    using assms(1) by (simp add: rval_def mult_right_mono)
  with grid_real [OF e] show ?thesis by simp
qed

lemma rval_mono:
  assumes "0 \<le> n" and "0 < d" and "0 < d'" and le: "real_of_int n / real_of_int d \<le> real_of_int n' / real_of_int d'"
  shows "rval n d \<le> rval n' d'"
proof (cases "n = 0")
  case True
  have "0 \<le> real_of_int n' / real_of_int d'" using le True by simp
  then have "0 \<le> n'" using assms(3) by (simp add: zero_le_divide_iff)
  then show ?thesis using True rval_nonneg assms(3) by (simp add: rval_def)
next
  case False
  let ?x = "real_of_int n / real_of_int d" and ?x' = "real_of_int n' / real_of_int d'"
  let ?e = "rexp n d" and ?e' = "rexp n' d'"
  let ?m = "round_even (shl n (- ?e)) (shl d ?e)" and ?m' = "round_even (shl n' (- ?e')) (shl d' ?e')"
  have n: "0 < n" "0 < ?x" using False assms by simp_all
  then have "0 < ?x'" using le by linarith
  then have n': "0 < n'" using assms(3) by (simp add: zero_less_divide_iff)
  have v: "rval n d = real_of_int ?m * two_pow ?e" "rval n' d' = real_of_int ?m' * two_pow ?e'"
    using n n' by (simp_all add: rval_def)
  have b: "?x < two_pow (ilog2 n d + 1)" "two_pow (ilog2 n' d') \<le> ?x'" "?x' < two_pow (ilog2 n' d' + 1)"
    using ilog2_bounds n n' assms by simp_all
  have il: "ilog2 n d \<le> ilog2 n' d'" using ilog2_less [of n d "ilog2 n' d' + 1"] n assms(2) b le by simp
  then have "?e \<le> ?e'" by (simp add: rexp_def)
  then consider "?e = ?e'" | "?e < ?e'" by linarith
  then show ?thesis
  proof cases
    case 1
    have "?x / two_pow ?e \<le> ?x' / two_pow ?e'" unfolding 1 using le by (rule divide_right_mono) simp
    then have "?m \<le> ?m'" using assms by (intro round_even_mono) (simp_all add: shl_ratio)
    with v 1 show ?thesis by simp
  next
    case 2
    let ?k = "ilog2 n' d'"
    have k: "?e' = ?k - 52" "ilog2 n d + 1 \<le> ?k" "?e \<le> ?k" "?e' \<le> ?k" using 2 by (simp_all add: rexp_def max_def split: if_splits)
    have "two_pow (ilog2 n d + 1) \<le> two_pow ?k" using k(2) by (rule power_int_increasing) simp
    then have "?x \<le> two_pow ?k" using b(1) by linarith
    with rval_le_two_pow [OF n(1) assms(2) this k(3)] rval_ge_two_pow [OF n' assms(3) b(2) k(4)]
    show ?thesis by linarith
  qed
qed

lemma rval_int:
  assumes "0 \<le> k" and "k < 2 ^ 53"
  shows "rval k 1 = real_of_int k"
proof (cases "k = 0")
  case True
  then show ?thesis by (simp add: rval_def)
next
  case False
  have "real_of_int k < real_of_int (2 ^ 53)" using assms(2) by (simp only: of_int_less_iff)
  then have "real_of_int k / real_of_int 1 < two_pow 53" by (simp add: power_int_def)
  then have "ilog2 k 1 < 53" using False assms(1) by (intro ilog2_less) simp_all
  then have e: "rexp k 1 \<le> 0" by (simp add: rexp_def)
  have s: "shl 1 (rexp k 1) = 1" "shl k (- rexp k 1) = k * 2 ^ nat (- rexp k 1) * 1"
    using e by (simp_all add: shl_def)
  show ?thesis
    using False grid_real [OF e] unfolding rval_def s by (simp add: round_even_exact [of 1, simplified])
qed

section \<open>Non-negative finite doubles\<close>

definition nonneg :: "double \<Rightarrow> real \<Rightarrow> bool" where
  "nonneg a x \<longleftrightarrow> (\<exists>m e. a = DFin False m e \<and> 0 \<le> m \<and> real_of_int m * two_pow e = x)"

lemma nonnegD: "nonneg a x \<Longrightarrow> finite_double a \<and> real_of a = x \<and> 0 \<le> x"
  by (auto simp: nonneg_def finite_double_def signed_def)

lemma nonneg_rnd:
  assumes "0 \<le> n" and "0 < d" and "real_of_int n / real_of_int d < two_pow 1000"
  shows "nonneg (rnd False n d) (rval n d)"
  using rnd_finite [OF assms, of False] unfolding nonneg_def by metis

lemma nonneg_int:
  assumes "0 \<le> i" and "i < 2 ^ 64"
  shows "nonneg (double_of_int i) (rval i 1)"
proof -
  have "real_of_int i < real_of_int (2 ^ 64)" using assms(2) by (simp only: of_int_less_iff)
  moreover have "real_of_int (2 ^ 64) < two_pow 1000"
    using power_int_strict_increasing [of 64 1000 "2 :: real"] by (simp add: power_int_def)
  ultimately have "real_of_int i / real_of_int 1 < two_pow 1000" by simp
  then have "nonneg (rnd False \<bar>i\<bar> 1) (rval i 1)" using nonneg_rnd [of i 1] assms(1) by simp
  with assms(1) show ?thesis by (simp add: double_of_int_def)
qed

lemma nonneg_ddiv:
  assumes "nonneg a x" and "nonneg b y" and "0 < y" and "x / y < two_pow 1000"
  obtains n d where "0 \<le> n" "0 < d" "real_of_int n / real_of_int d = x / y" "nonneg (ddiv a b) (rval n d)"
proof -
  obtain m e n f where ab: "a = DFin False m e" "b = DFin False n f" "0 \<le> m" "0 \<le> n"
    and xy: "x = real_of_int m * two_pow e" "y = real_of_int n * two_pow f"
    using assms(1,2) unfolding nonneg_def by blast
  have n: "0 < n" using assms(3) xy ab by (auto simp: zero_less_mult_iff)
  have r: "real_of_int (shl m (e - f)) / real_of_int (shl n (f - e)) = x / y"
    using shl_ratio [of m "f - e" n] two_pow_quotient [of f e] by (simp add: xy field_simps)
  have "ddiv a b = rnd False (shl m (e - f)) (shl n (f - e))" using n by (simp add: ab)
  moreover have "nonneg (rnd False (shl m (e - f)) (shl n (f - e))) (rval (shl m (e - f)) (shl n (f - e)))"
    using ab n assms(4) by (intro nonneg_rnd) (simp_all only: r shl_pos shl_nonneg)
  ultimately show thesis using that [OF _ _ r] ab n by simp
qed

lemma nonneg_dmul:
  assumes "nonneg a x" and "nonneg b y" and "x * y < two_pow 1000"
  obtains n d where "0 \<le> n" "0 < d" "real_of_int n / real_of_int d = x * y" "nonneg (dmul a b) (rval n d)"
proof -
  obtain m e n f where ab: "a = DFin False m e" "b = DFin False n f" "0 \<le> m" "0 \<le> n"
    and xy: "x = real_of_int m * two_pow e" "y = real_of_int n * two_pow f"
    using assms(1,2) unfolding nonneg_def by blast
  let ?n = "shl (m * n) (e + f)" and ?d = "shl 1 (- (e + f))"
  have r: "real_of_int ?n / real_of_int ?d = x * y"
  proof -
    have "real_of_int ?n / real_of_int ?d = real_of_int (m * n) / two_pow (- (e + f))"
      using shl_ratio [of "m * n" "- (e + f)" 1] by (simp only: minus_minus of_int_1 div_by_1)
    also have "\<dots> = real_of_int (m * n) * two_pow (e + f)"
      using two_pow_quotient [of 0 "- (e + f)"] by (simp add: divide_inverse add.commute)
    finally show ?thesis by (simp add: xy two_pow_split)
  qed
  have "dmul a b = rnd False ?n ?d" by (simp add: ab)
  moreover have "nonneg (rnd False ?n ?d) (rval ?n ?d)"
    using ab assms(3) by (intro nonneg_rnd) (simp_all only: r shl_pos shl_nonneg, simp_all)
  ultimately show thesis using that [OF _ _ r] ab by simp
qed

text \<open>A part of a whole, as a percentage.\<close>

definition percentage :: "int \<Rightarrow> int \<Rightarrow> double" where
  "percentage a b = dmul (ddiv (double_of_int a) (double_of_int b)) (double_of_int 100)"

lemma percentage_bounds:
  assumes "0 \<le> a" and "a \<le> b" and "0 < b" and "b < 2 ^ 64"
  obtains x where "nonneg (percentage a b) x" "x \<le> 100"
proof -
  have na: "nonneg (double_of_int a) (rval a 1)" and nb: "nonneg (double_of_int b) (rval b 1)"
    and nh: "nonneg (double_of_int 100) 100"
    using assms nonneg_int [of a] nonneg_int [of b] nonneg_int [of 100] rval_int [of 100] by simp_all
  have "rval 1 1 \<le> rval b 1" "rval a 1 \<le> rval b 1" using assms by (auto intro!: rval_mono)
  moreover have "rval 1 1 = 1" using rval_int [of 1] by simp
  ultimately have y: "0 < rval b 1" "rval a 1 / rval b 1 \<le> 1" by simp_all
  have big: "(100 :: real) < two_pow 1000"
    using power_int_strict_increasing [of 7 1000 "2 :: real"] by (simp add: power_int_def)
  obtain n d where q: "0 \<le> n" "0 < d" "real_of_int n / real_of_int d = rval a 1 / rval b 1"
    "nonneg (ddiv (double_of_int a) (double_of_int b)) (rval n d)"
    using nonneg_ddiv [OF na nb y(1)] y(2) big by (metis le_less_trans less_trans one_less_numeral_iff semiring_norm(76,77))
  have "rval n d \<le> rval 1 1" using q y(2) by (intro rval_mono) simp_all
  then have le: "rval n d * 100 \<le> 100" using \<open>rval 1 1 = 1\<close> by simp
  obtain n' d' where p: "0 \<le> n'" "0 < d'" "real_of_int n' / real_of_int d' = rval n d * 100"
    "nonneg (percentage a b) (rval n' d')"
    using nonneg_dmul [OF q(4) nh] le big unfolding percentage_def by (metis le_less_trans)
  have "rval n' d' \<le> rval 100 1" using p le by (intro rval_mono) simp_all
  then show thesis using that [OF p(4)] rval_int [of 100] by simp
qed

end
