(* ===== verification/LinuxRes.thy ===== *)
theory LinuxRes
  imports ResStates DoubleOrder CFiles "HOL-Library.Word"
begin

text \<open>
  \<open>LinuxResProvider\<close> (\<open>include/LinuxResProvider.hpp\<close>, \<open>src/library_src/LinuxResProvider.cpp\<close>): the
  readings of the processor, the memory and the disk. The machine is the argument \<open>os\<close>: the texts of
  the files under \<open>/proc\<close> and \<open>/sys\<close>, the answers of \<open>times\<close> and \<open>sysinfo\<close>, and the clock, at the
  moment of the call. Counters are unsigned 64-bit words and wrap.
\<close>

section \<open>The machine and the state\<close>

record os =
  proc_stat :: cfile
  proc_cpuinfo :: cfile
  proc_diskstats :: cfile
  proc_self_io :: cfile
  proc_self_status :: cfile
  hw_sector_size :: cfile
  os_times :: "long \<times> long \<times> long"
  os_sysinfo :: "64 word \<times> 64 word \<times> 32 word"
  os_millis :: long

record LinuxResProvider =
  lastTotalUser :: "64 word"
  lastTotalNiced :: "64 word"
  lastTotalSys :: "64 word"
  lastTotalIdle :: "64 word"
  lastHddSelfRead :: "64 word"
  lastHddSelfWrite :: "64 word"
  lastHddSystemRead :: "64 word"
  lastHddSystemWrite :: "64 word"
  lastCPU :: long
  lastSysCPU :: long
  lastUserCPU :: long
  numProcessors :: int
  hddSectorSize :: "32 word"
  hddSelfLastMeasureTime :: long
  hddSystemLastMeasureTime :: long

abbreviation double_of_u64 :: "64 word \<Rightarrow> double" where
  "double_of_u64 w \<equiv> double_of_int (uint w)"

section \<open>Processor\<close>

text \<open>\<open>fscanf(file, "cpu %llu %llu %llu %llu", ...)\<close>: the values assigned before the first mismatch.
  A number that does not fit is undefined behaviour; a minus sign negates in unsigned arithmetic.\<close>

fun scan_ull :: "nat \<Rightarrow> string \<Rightarrow> 64 word list result" where
  "scan_ull 0 s = Inr []"
| "scan_ull (Suc k) s = (case scan_number s of
       None \<Rightarrow> Inr []
     | Some (n, rest) \<Rightarrow> if \<bar>n\<bar> < 18446744073709551616
         then bindE (scan_ull k rest) (\<lambda>ns. Inr (word_of_int n # ns)) else Inl Undefined_behaviour)"

definition scan_cpu :: "string \<Rightarrow> 64 word list result" where
  "scan_cpu s = (if starts_with ''cpu'' s then scan_ull 4 (drop 3 s) else Inr [])"

definition initSystemCpuUsage :: "os \<Rightarrow> LinuxResProvider \<Rightarrow> LinuxResProvider result" where
  "initSystemCpuUsage os p =
     bindE (opened (proc_stat os)) (\<lambda>s. bindE (scan_cpu s) (\<lambda>ns. Inr (case ns of
         [] \<Rightarrow> p
       | [u] \<Rightarrow> p\<lparr>lastTotalUser := u\<rparr>
       | [u, n] \<Rightarrow> p\<lparr>lastTotalUser := u, lastTotalNiced := n\<rparr>
       | [u, n, y] \<Rightarrow> p\<lparr>lastTotalUser := u, lastTotalNiced := n, lastTotalSys := y\<rparr>
       | u # n # y # i # _ \<Rightarrow> p\<lparr>lastTotalUser := u, lastTotalNiced := n, lastTotalSys := y, lastTotalIdle := i\<rparr>)))"

definition cpu_percent :: "64 word \<Rightarrow> 64 word \<Rightarrow> 64 word \<Rightarrow> 64 word \<Rightarrow> LinuxResProvider \<Rightarrow> double" where
  "cpu_percent totalUser totalNiced totalSys totalIdle p =
     (if totalUser < lastTotalUser p \<or> totalNiced < lastTotalNiced p \<or> totalSys < lastTotalSys p
        \<or> totalIdle < lastTotalIdle p then double_of_int (- 1)
      else let total = (totalUser - lastTotalUser p) + (totalNiced - lastTotalNiced p) + (totalSys - lastTotalSys p);
               percent = double_of_u64 total;
               total = total + (totalIdle - lastTotalIdle p)
           in dmul (ddiv percent (double_of_u64 total)) (double_of_int 100))"

definition getSystemCpuUsage :: "os \<Rightarrow> LinuxResProvider \<Rightarrow> (double \<times> LinuxResProvider) result" where
  "getSystemCpuUsage os p =
     bindE (opened (proc_stat os)) (\<lambda>s. bindE (scan_cpu s) (\<lambda>ns. case ns of
         u # n # y # i # _ \<Rightarrow> Inr (cpu_percent u n y i p,
           p\<lparr>lastTotalUser := u, lastTotalNiced := n, lastTotalSys := y, lastTotalIdle := i\<rparr>)
       | _ \<Rightarrow> Inl Undefined_behaviour))"

definition initSelfCpuUsage :: "os \<Rightarrow> LinuxResProvider \<Rightarrow> LinuxResProvider result" where
  "initSelfCpuUsage os p =
     (case os_times os of (now, stime, utime) \<Rightarrow>
       bindE (opened (proc_cpuinfo os)) (\<lambda>s.
         Inr (p\<lparr>lastCPU := now, lastSysCPU := stime, lastUserCPU := utime,
           numProcessors := int (length (filter (starts_with ''processor'') (fgets_all 127 s)))\<rparr>)))"

definition getSelfCpuUsage :: "os \<Rightarrow> LinuxResProvider \<Rightarrow> double \<times> LinuxResProvider" where
  "getSelfCpuUsage os p =
     (case os_times os of (now, stime, utime) \<Rightarrow>
       (if now \<le> lastCPU p \<or> stime < lastSysCPU p \<or> utime < lastUserCPU p then double_of_int (- 1)
        else dmul (ddiv (ddiv (double_of_int (wrap64 ((stime - lastSysCPU p) + (utime - lastUserCPU p))))
            (double_of_int (wrap64 (now - lastCPU p)))) (double_of_int (numProcessors p))) (double_of_int 100),
        p\<lparr>lastCPU := now, lastSysCPU := stime, lastUserCPU := utime\<rparr>))"

definition getCpuState :: "os \<Rightarrow> os \<Rightarrow> LinuxResProvider \<Rightarrow> (CpuState \<times> LinuxResProvider) result" where
  "getCpuState os os' p =
     bindE (getSystemCpuUsage os p) (\<lambda>(system, p1). case getSelfCpuUsage os' p1 of (self, p2) \<Rightarrow>
       Inr (cpu_setMonitorPercentageUsed self (cpu_setPercentageUsed system CpuState_default), p2))"

section \<open>Memory\<close>

text \<open>\<open>line[i - 3] = 0\<close> shortens what \<open>atoi\<close> reads, unless the first digit is behind that place.\<close>

definition parseLineRam :: "string \<Rightarrow> int result" where
  "parseLineRam line =
     (let i = length line; k = length (takeWhile (\<lambda>c. \<not> is_digit c) line) in
      if k = i \<or> i < 3 then Inl Undefined_behaviour
      else atoi (if k \<le> i - 3 then take (i - 3 - k) (drop k line) else drop k line))"

definition getRamSelfUsage :: "os \<Rightarrow> int result" where
  "getRamSelfUsage os =
     bindE (opened (proc_self_status os)) (\<lambda>s.
       case filter (starts_with ''VmRSS:'') (fgets_all 127 s) of
         [] \<Rightarrow> Inr (- 1)
       | line # _ \<Rightarrow> parseLineRam line)"

definition getRamState :: "os \<Rightarrow> os \<Rightarrow> RamState result" where
  "getRamState os os' =
     (case os_sysinfo os of (totalram, freeram, mem_unit) \<Rightarrow>
      let totalPhysMem = wrap64 (sint totalram * uint mem_unit);
          physMemUsed = wrap64 (sint (totalram - freeram) * uint mem_unit);
          mega = dmul (double_of_int 1024) (double_of_int 1024) in
      bindE (getRamSelfUsage os') (\<lambda>self.
        Inr (setMonitorMBUsed (ddiv (double_of_int self) (double_of_int 1024))
          (setMBUsed (ddiv (double_of_int physMemUsed) mega)
            (setTotalMB (ddiv (double_of_int totalPhysMem) mega) RamState_default)))))"

section \<open>Disk\<close>

text \<open>Sectors read and written are the fourth and the eighth token of the first line with \<open>sda\<close> and a
  blank; a missing token is a null pointer, and without such a line nothing has been read.\<close>

definition disk_sectors :: "string list \<Rightarrow> (long \<times> long) result" where
  "disk_sectors lines = (case List.map_filter (\<lambda>l. strstr l ''sda '') lines of
       [] \<Rightarrow> Inl Undefined_behaviour
     | pch # _ \<Rightarrow> let ts = strtok pch in
         if length ts \<le> 3 then Inl Undefined_behaviour
         else bindE (stoll (ts ! 3)) (\<lambda>r.
           if length ts \<le> 7 then Inl Undefined_behaviour
           else bindE (stoll (ts ! 7)) (\<lambda>w. Inr (r, w))))"

text \<open>Bytes per millisecond since the last measurement.\<close>

definition rate :: "64 word \<Rightarrow> 64 word \<Rightarrow> long \<Rightarrow> double" where
  "rate now before millis = ddiv (double_of_u64 (now - before)) (double_of_int millis)"

definition getHddSystemUsage :: "os \<Rightarrow> LinuxResProvider \<Rightarrow> ((double \<times> double) \<times> LinuxResProvider) result" where
  "getHddSystemUsage os p =
     bindE (opened (proc_diskstats os)) (\<lambda>s. bindE (disk_sectors (fgets_all 127 s)) (\<lambda>(r, w).
       let readBytes = word_of_int r * ucast (hddSectorSize p);
           writeBytes = word_of_int w * ucast (hddSectorSize p);
           millis = wrap64 (os_millis os - hddSystemLastMeasureTime p) in
       Inr ((rate readBytes (lastHddSystemRead p) millis, rate writeBytes (lastHddSystemWrite p) millis),
         p\<lparr>hddSystemLastMeasureTime := os_millis os, lastHddSystemRead := readBytes, lastHddSystemWrite := writeBytes\<rparr>)))"

fun io_loop :: "string list \<Rightarrow> long option \<Rightarrow> (long option \<times> long option) result" where
  "io_loop [] readBytes = Inr (readBytes, None)"
| "io_loop (line # lines) readBytes =
     (if starts_with ''rchar:'' line then bindE (stoll (drop 6 line)) (\<lambda>n. io_loop lines (Some n))
      else if starts_with ''wchar:'' line then bindE (stoll (drop 6 line)) (\<lambda>n. Inr (readBytes, Some n))
      else io_loop lines readBytes)"

definition getHddSelfUsage :: "os \<Rightarrow> LinuxResProvider \<Rightarrow> ((double \<times> double) \<times> LinuxResProvider) result" where
  "getHddSelfUsage os p =
     bindE (opened (proc_self_io os)) (\<lambda>s. bindE (io_loop (fgets_all 63 s) None) (\<lambda>rw. case rw of
         (Some r, Some w) \<Rightarrow>
           let readBytes = word_of_int r; writeBytes = word_of_int w;
               millis = wrap64 (os_millis os - hddSelfLastMeasureTime p) in
           Inr ((rate readBytes (lastHddSelfRead p) millis, rate writeBytes (lastHddSelfWrite p) millis),
             p\<lparr>hddSelfLastMeasureTime := os_millis os, lastHddSelfRead := readBytes, lastHddSelfWrite := writeBytes\<rparr>)
       | _ \<Rightarrow> Inl Undefined_behaviour))"

text \<open>\<open>fscanf(sectorSizeFile, "%d", &hddSectorSize)\<close> leaves the member alone when there is no number.\<close>

definition initHddUsage :: "os \<Rightarrow> os \<Rightarrow> os \<Rightarrow> LinuxResProvider \<Rightarrow> LinuxResProvider result" where
  "initHddUsage os os' os'' p =
     bindE (opened (hw_sector_size os)) (\<lambda>s.
     bindE (case scan_number s of
         None \<Rightarrow> Inr p
       | Some (n, _) \<Rightarrow> if is_int n then Inr (p\<lparr>hddSectorSize := word_of_int n\<rparr>) else Inl Undefined_behaviour) (\<lambda>p1.
     bindE (getHddSystemUsage os' p1) (\<lambda>(_, p2).
     bindE (getHddSelfUsage os'' p2) (\<lambda>(_, p3). Inr p3))))"

definition getHddState :: "os \<Rightarrow> os \<Rightarrow> LinuxResProvider \<Rightarrow> (HddState \<times> LinuxResProvider) result" where
  "getHddState os os' p =
     bindE (getHddSystemUsage os p) (\<lambda>((sr, sw), p1). bindE (getHddSelfUsage os' p1) (\<lambda>((mr, mw), p2).
       Inr (setMonitorKBsUsedWrite mw (setMonitorKBsUsedRead mr (setKBsUsedWrite sw (setKBsUsedRead sr HddState_default))), p2)))"

section \<open>Construction\<close>

text \<open>\<open>p\<close> is what the memory of the new object holds; \<open>m k\<close> is the machine at the \<open>k\<close>-th reading.\<close>

definition LinuxResProvider_new :: "(nat \<Rightarrow> os) \<Rightarrow> LinuxResProvider \<Rightarrow> LinuxResProvider result" where
  "LinuxResProvider_new m p =
     bindE (initSystemCpuUsage (m 0) p) (\<lambda>p1. bindE (initSelfCpuUsage (m 1) p1) (\<lambda>p2.
     bindE (initHddUsage (m 2) (m 3) (m 4) p2) (\<lambda>p3. bindE (getCpuState (m 5) (m 6) p3) (\<lambda>(_, p4). Inr p4))))"

section \<open>Reading well-formed files\<close>

definition cpu_text :: "nat \<Rightarrow> nat \<Rightarrow> nat \<Rightarrow> nat \<Rightarrow> string \<Rightarrow> string" where
  "cpu_text u n y i rest = ''cpu  '' @ show_nat u @ '' '' @ show_nat n @ '' '' @ show_nat y @ '' '' @ show_nat i @ rest"

lemma scan_ull_step:
  assumes "list_all is_space ws" and "no_digit_first rest" and "n < 18446744073709551616"
  shows "scan_ull (Suc k) (ws @ show_nat n @ rest) = bindE (scan_ull k rest) (\<lambda>ns. Inr (of_nat n # ns))"
  using scan_number_show_nat [OF assms(1,2), of n] assms(3) by simp

lemma blank [simp]: "is_space CHR '' ''" "\<not> is_digit CHR '' ''"
  by (simp_all add: is_space_def is_digit_def)

lemma scan_cpu_text:
  assumes "u < 2 ^ 64" "n < 2 ^ 64" "y < 2 ^ 64" "i < 2 ^ 64" and "no_digit_first rest"
  shows "scan_cpu (cpu_text u n y i rest) = Inr [of_nat u, of_nat n, of_nat y, of_nat i]"
proof -
  have b: "no_digit_first ('' '' @ xs)" "list_all is_space '' ''" "list_all is_space ''  ''" for xs
    by (simp_all add: no_digit_first_def)
  have "scan_cpu (cpu_text u n y i rest) =
      scan_ull (Suc (Suc (Suc (Suc 0)))) (''  '' @ show_nat u @ '' '' @ show_nat n @ '' '' @ show_nat y @ '' '' @ show_nat i @ rest)"
    by (simp add: scan_cpu_def cpu_text_def starts_with_def numeral_eq_Suc del: scan_ull.simps)
  also have "\<dots> = Inr [of_nat u, of_nat n, of_nat y, of_nat i]"
  proof -
    have "u < 18446744073709551616" "n < 18446744073709551616" "y < 18446744073709551616" "i < 18446744073709551616"
      using assms by simp_all
    note s = scan_ull_step [OF b(3,1) this(1)] scan_ull_step [OF b(2,1) this(2)] scan_ull_step [OF b(2,1) this(3)]
      scan_ull_step [OF b(2) assms(5) this(4)]
    show ?thesis unfolding s by simp
  qed
  finally show ?thesis .
qed

lemma uint_of_nat64: "n < 2 ^ 64 \<Longrightarrow> uint (of_nat n :: 64 word) = int n"
  by (simp add: unsigned_of_nat take_bit_nat_eq_self)

lemma uint_sub64: "uint (b :: 64 word) \<le> uint a \<Longrightarrow> uint (a - b) = uint a - uint b"
  by (simp add: uint_sub_if')

lemma uint_add64: "uint a + uint b < 2 ^ 64 \<Longrightarrow> uint (a + b :: 64 word) = uint a + uint b"
  by (simp add: uint_word_ariths)

text \<open>The ticks since the last reading, if no counter has gone back.\<close>

definition busy_ticks :: "nat \<Rightarrow> nat \<Rightarrow> nat \<Rightarrow> LinuxResProvider \<Rightarrow> int" where
  "busy_ticks u n y p = (int u - uint (lastTotalUser p)) + (int n - uint (lastTotalNiced p)) + (int y - uint (lastTotalSys p))"

definition idle_ticks :: "nat \<Rightarrow> LinuxResProvider \<Rightarrow> int" where
  "idle_ticks i p = int i - uint (lastTotalIdle p)"

definition counters_advanced :: "nat \<Rightarrow> nat \<Rightarrow> nat \<Rightarrow> nat \<Rightarrow> LinuxResProvider \<Rightarrow> bool" where
  "counters_advanced u n y i p \<longleftrightarrow> uint (lastTotalUser p) \<le> int u \<and> uint (lastTotalNiced p) \<le> int n
     \<and> uint (lastTotalSys p) \<le> int y \<and> uint (lastTotalIdle p) \<le> int i"

lemma cpu_percent_advanced:
  assumes "u < 2 ^ 64" "n < 2 ^ 64" "y < 2 ^ 64" "i < 2 ^ 64" and adv: "counters_advanced u n y i p"
    and "busy_ticks u n y p + idle_ticks i p < 2 ^ 64"
  shows "cpu_percent (of_nat u) (of_nat n) (of_nat y) (of_nat i) p =
    percentage (busy_ticks u n y p) (busy_ticks u n y p + idle_ticks i p)"
proof -
  note w = assms(1-4) [THEN uint_of_nat64]
  note d = adv [unfolded counters_advanced_def]
  have s: "uint (of_nat u - lastTotalUser p) = int u - uint (lastTotalUser p)"
    "uint (of_nat n - lastTotalNiced p) = int n - uint (lastTotalNiced p)"
    "uint (of_nat y - lastTotalSys p) = int y - uint (lastTotalSys p)"
    "uint (of_nat i - lastTotalIdle p) = int i - uint (lastTotalIdle p)"
    using d by (simp_all add: uint_sub64 w)
  have b: "uint (of_nat u - lastTotalUser p + (of_nat n - lastTotalNiced p) + (of_nat y - lastTotalSys p)) = busy_ticks u n y p"
    using assms(6) d by (simp add: uint_add64 s busy_ticks_def idle_ticks_def)
  have t: "uint (of_nat u - lastTotalUser p + (of_nat n - lastTotalNiced p) + (of_nat y - lastTotalSys p)
      + (of_nat i - lastTotalIdle p)) = busy_ticks u n y p + idle_ticks i p"
    using assms(6) by (simp add: uint_add64 b s idle_ticks_def)
  show ?thesis
    using d b t by (simp add: cpu_percent_def Let_def percentage_def word_less_def w)
qed

section \<open>The properties of the processor readings\<close>

lemma getSystemCpuUsage_text:
  assumes "u < 2 ^ 64" "n < 2 ^ 64" "y < 2 ^ 64" "i < 2 ^ 64" and "no_digit_first rest"
    and "proc_stat os = Some (cpu_text u n y i rest)"
  shows "getSystemCpuUsage os p = Inr (cpu_percent (of_nat u) (of_nat n) (of_nat y) (of_nat i) p,
    p\<lparr>lastTotalUser := of_nat u, lastTotalNiced := of_nat n, lastTotalSys := of_nat y, lastTotalIdle := of_nat i\<rparr>)"
  by (simp add: getSystemCpuUsage_def assms(6) scan_cpu_text [OF assms(1-5)])

text \<open>C9: If the counters have not gone back and time has passed, the processor usage read is the
  percentage of the ticks since the last reading that were busy; it is a number from 0 to 100, and
  the counters read are kept for the next time.\<close>

theorem cpu_usage_is_percentage:
  assumes "u < 2 ^ 64" and "n < 2 ^ 64" and "y < 2 ^ 64" and "i < 2 ^ 64" and "no_digit_first rest"
    and "proc_stat os = Some (cpu_text u n y i rest)" and "counters_advanced u n y i p"
    and "ticks = busy_ticks u n y p + idle_ticks i p" and "0 < ticks" and "ticks < 2 ^ 64"
  shows "\<exists>percent. getSystemCpuUsage os p = Inr (percent,
      p\<lparr>lastTotalUser := of_nat u, lastTotalNiced := of_nat n, lastTotalSys := of_nat y, lastTotalIdle := of_nat i\<rparr>)
    \<and> percent = percentage (busy_ticks u n y p) ticks
    \<and> finite_double percent \<and> 0 \<le> real_of percent \<and> real_of percent \<le> 100"
proof -
  have "0 \<le> busy_ticks u n y p" "busy_ticks u n y p \<le> ticks"
    using assms(7,8) by (simp_all add: counters_advanced_def busy_ticks_def idle_ticks_def)
  from percentage_bounds [OF this assms(9,10)] obtain x where "nonneg (percentage (busy_ticks u n y p) ticks) x" "x \<le> 100"
    by blast
  then show ?thesis
    using getSystemCpuUsage_text [OF assms(1-6)] cpu_percent_advanced [OF assms(1-4,7)] assms(8,10) nonnegD by simp
qed

definition ex_os :: os where
  "ex_os = \<lparr>proc_stat = Some ''cpu  400 10 90 1500 7\<newline>cpu0 1 2 3 4\<newline>'',
     proc_cpuinfo = Some ''processor\<newline>model\<newline>processor\<newline>'',
     proc_diskstats = Some ''   8       1 sda1 1 1 1 1 1 1 1\<newline>   8       0 sda 55 3 900 70 12 4 640 9\<newline>'',
     proc_self_io = Some ''rchar: 700\<newline>wchar: 90\<newline>'',
     proc_self_status = Some ''Name: x\<newline>VmRSS:      2048 kB\<newline>'',
     hw_sector_size = Some ''512\<newline>'', os_times = (500, 20, 30), os_sysinfo = (4000, 1000, 4096), os_millis = 5000\<rparr>"

definition ex_provider :: LinuxResProvider where
  "ex_provider = \<lparr>lastTotalUser = 350, lastTotalNiced = 10, lastTotalSys = 65, lastTotalIdle = 1475,
     lastHddSelfRead = 0, lastHddSelfWrite = 0, lastHddSystemRead = 400 * 512, lastHddSystemWrite = 640 * 512,
     lastCPU = 400, lastSysCPU = 10, lastUserCPU = 20, numProcessors = 2, hddSectorSize = 512,
     hddSelfLastMeasureTime = 4000, hddSystemLastMeasureTime = 4000\<rparr>"

theorem cpu_usage_is_percentage_witness:
  "\<exists>p. getSystemCpuUsage ex_os ex_provider = Inr (double_of_int 75, p) \<and> lastTotalUser p = 400"
proof -
  have "cpu_text 400 10 90 1500 '' 7\<newline>cpu0 1 2 3 4\<newline>'' = ''cpu  400 10 90 1500 7\<newline>cpu0 1 2 3 4\<newline>''"
    by code_simp
  then have text_eq: "proc_stat ex_os = Some (cpu_text 400 10 90 1500 '' 7\<newline>cpu0 1 2 3 4\<newline>'')"
    by (simp add: ex_os_def)
  have "counters_advanced 400 10 90 1500 ex_provider"
    by (simp add: counters_advanced_def ex_provider_def)
  moreover have b: "busy_ticks 400 10 90 ex_provider = 75" "idle_ticks 1500 ex_provider = 25"
    by (simp_all add: busy_ticks_def idle_ticks_def ex_provider_def)
  moreover have "percentage 75 100 = double_of_int 75" by code_simp
  ultimately show ?thesis
    using cpu_usage_is_percentage [OF _ _ _ _ _ text_eq, of ex_provider 100] by (simp add: no_digit_first_def)
qed

lemma getCpuState_usage:
  assumes "getSystemCpuUsage os p = Inr (x, p1)"
  shows "\<exists>s p'. getCpuState os os' p = Inr (s, p') \<and> cpuInUsePercentage s = x"
  using assms by (cases "getSelfCpuUsage os' p1")
    (simp add: getCpuState_def cpu_setMonitorPercentageUsed_def cpu_setPercentageUsed_def)

lemma minus_one: "double_of_int (- 1) = DFin True 4503599627370496 (- 52)"
  by code_simp

lemma minus_one_less: "nonneg b x \<Longrightarrow> dlt (double_of_int (- 1)) b"
proof -
  assume "nonneg b x"
  then have "finite_double b" "0 \<le> real_of b" using nonnegD by auto
  then show ?thesis
    by (subst dlt_real) (auto simp: minus_one finite_double_def DoubleArith.signed_def power_int_minus)
qed

text \<open>The value the code means to skip when a counter has gone back is not skipped: the state
  says \<open>-1\<close> per cent, and every trigger on usage under a threshold holds.\<close>

theorem skipped_usage_is_tested:
  assumes "u < 2 ^ 64" and "n < 2 ^ 64" and "y < 2 ^ 64" and "i < 2 ^ 64" and "no_digit_first rest"
    and "proc_stat os = Some (cpu_text u n y i rest)" and "\<not> counters_advanced u n y i p"
    and "unitType (triggerValue t) = PERCENT" and "fluctuationType t = UNDER"
    and "0 \<le> rvalue (triggerValue t)" and "rvalue (triggerValue t) \<le> LONG_MAX"
  shows "\<exists>s p'. getCpuState os os' p = Inr (s, p') \<and> cpuInUsePercentage s = double_of_int (- 1) \<and> cpu_gt s t = Inr True"
proof -
  note w = assms(1-4) [THEN uint_of_nat64]
  have "cpu_percent (of_nat u) (of_nat n) (of_nat y) (of_nat i) p = double_of_int (- 1)"
    using assms(7) by (auto simp: cpu_percent_def counters_advanced_def word_less_def w)
  then obtain s p' where s: "getCpuState os os' p = Inr (s, p')" "cpuInUsePercentage s = double_of_int (- 1)"
    using getCpuState_usage [OF getSystemCpuUsage_text [OF assms(1-6)]] by metis
  have "nonneg (double_of_int (rvalue (triggerValue t))) (rval (rvalue (triggerValue t)) 1)"
    using assms(10,11) by (intro nonneg_int) (simp_all add: LONG_MAX_def)
  with s assms(8,9) show ?thesis by (auto simp: cpu_gt_def minus_one_less)
qed

text \<open>Two readings within one tick: nothing has advanced, the usage is not a number, no trigger on
  the processor holds, and every sum of samples with this one is not a number.\<close>

theorem unchanged_counters_give_NaN:
  assumes "u < 2 ^ 64" and "n < 2 ^ 64" and "y < 2 ^ 64" and "i < 2 ^ 64" and "no_digit_first rest"
    and "proc_stat os = Some (cpu_text u n y i rest)"
    and "lastTotalUser p = of_nat u" and "lastTotalNiced p = of_nat n" and "lastTotalSys p = of_nat y"
    and "lastTotalIdle p = of_nat i" and "unitType (triggerValue t) = PERCENT"
  shows "\<exists>s p'. getCpuState os os' p = Inr (s, p') \<and> cpuInUsePercentage s = DNaN \<and> cpu_gt s t = Inr False
    \<and> (\<forall>a. cpuInUsePercentage (cpu_add a s) = DNaN)"
proof -
  have z: "ddiv (double_of_int 0) (double_of_int 0) = DNaN" by code_simp
  have "cpu_percent (of_nat u) (of_nat n) (of_nat y) (of_nat i) p = DNaN"
    by (simp add: cpu_percent_def assms(7-10) z)
  then obtain s p' where s: "getCpuState os os' p = Inr (s, p')" "cpuInUsePercentage s = DNaN"
    using getCpuState_usage [OF getSystemCpuUsage_text [OF assms(1-6)]] by metis
  have "dadd a DNaN = DNaN" "dlt a DNaN = False" for a by (cases a; simp)+
  with s assms(11) show ?thesis by (auto simp: cpu_gt_def cpu_add_def)
qed

lemma ex_cpu_text: "cpu_text 400 10 90 1500 '' 7\<newline>cpu0 1 2 3 4\<newline>'' = ''cpu  400 10 90 1500 7\<newline>cpu0 1 2 3 4\<newline>''"
  by code_simp

theorem skipped_usage_is_tested_witness:
  "\<exists>s p'. getCpuState ex_os ex_os (ex_provider\<lparr>lastTotalIdle := 2000\<rparr>) = Inr (s, p')
    \<and> cpu_gt s \<lparr>resource = CPU, fluctuationType = UNDER, triggerValue = \<lparr>unitType = PERCENT, rvalue = 5\<rparr>, duration = 1\<rparr> = Inr True"
  using skipped_usage_is_tested [of 400 10 90 1500 "'' 7\<newline>cpu0 1 2 3 4\<newline>''" ex_os "ex_provider\<lparr>lastTotalIdle := 2000\<rparr>"
      "\<lparr>resource = CPU, fluctuationType = UNDER, triggerValue = \<lparr>unitType = PERCENT, rvalue = 5\<rparr>, duration = 1\<rparr>" ex_os]
  unfolding ex_cpu_text by (auto simp: ex_os_def ex_provider_def no_digit_first_def counters_advanced_def LONG_MAX_def)

theorem unchanged_counters_give_NaN_witness:
  "\<exists>s p'. getCpuState ex_os ex_os (ex_provider\<lparr>lastTotalUser := 400, lastTotalSys := 90, lastTotalIdle := 1500\<rparr>) = Inr (s, p')
    \<and> cpuInUsePercentage s = DNaN"
  using unchanged_counters_give_NaN [of 400 10 90 1500 "'' 7\<newline>cpu0 1 2 3 4\<newline>''" ex_os
      "ex_provider\<lparr>lastTotalUser := 400, lastTotalSys := 90, lastTotalIdle := 1500\<rparr>"
      "\<lparr>resource = CPU, fluctuationType = UNDER, triggerValue = \<lparr>unitType = PERCENT, rvalue = 5\<rparr>, duration = 1\<rparr>" ex_os]
  unfolding ex_cpu_text by (auto simp: ex_os_def ex_provider_def no_digit_first_def)

section \<open>The properties of the memory and disk readings\<close>

definition ram_line :: "string \<Rightarrow> nat \<Rightarrow> string" where
  "ram_line ws n = ''VmRSS:'' @ ws @ show_nat n @ '' kB\<newline>''"

lemma parse_ram_line:
  assumes "list_all is_space ws" and "int n \<le> 2147483647"
  shows "parseLineRam (ram_line ws n) = Inr (int n)"
proof -
  obtain c cs where s: "show_nat n = c # cs" using show_nat_not_Nil by (cases "show_nat n") auto
  then have c: "is_digit c" using show_nat_digits [of n] by simp
  have ws: "\<forall>x \<in> set ws. \<not> is_digit x" using assms(1) is_digit_not_space by (auto simp: list_all_iff)
  have "\<forall>x \<in> set ''VmRSS:''. \<not> is_digit x" by (simp add: is_digit_def)
  with ws have "takeWhile (\<lambda>x. \<not> is_digit x) ((''VmRSS:'' @ ws) @ show_nat n @ '' kB\<newline>'') = ''VmRSS:'' @ ws"
    using c by (subst takeWhile_append2) (auto simp: s)
  then have k: "takeWhile (\<lambda>x. \<not> is_digit x) (ram_line ws n) = ''VmRSS:'' @ ws" by (simp add: ram_line_def)
  have "take (length (ram_line ws n) - 3 - length (''VmRSS:'' @ ws)) (drop (length (''VmRSS:'' @ ws)) (ram_line ws n))
      = show_nat n @ '' ''"
    by (simp add: ram_line_def)
  moreover have "atoi (show_nat n @ '' '') = Inr (int n)"
    using scan_number_show_nat [of "[]" "'' ''" n] assms(2) by (simp add: atoi_def is_int_def no_digit_first_def)
  ultimately show ?thesis by (simp add: parseLineRam_def k) (simp add: ram_line_def)
qed

text \<open>The resident memory of the monitor is read back from its status file: the number of
  kilobytes on the first line that starts with \<open>VmRSS:\<close>, whatever lines surround it.\<close>

theorem resident_memory_read:
  assumes "list_all (line_fits 127) pre" and "list_all (\<lambda>l. \<not> starts_with ''VmRSS:'' (l @ [newline])) pre"
    and "list_all is_space ws" and "line_fits 127 (''VmRSS:'' @ ws @ show_nat n @ '' kB'')"
    and "int n \<le> 2147483647" and "proc_self_status os = Some (line_text pre @ ram_line ws n @ post)"
  shows "getRamSelfUsage os = Inr (int n)"
proof -
  have "fgets_all 127 (line_text [''VmRSS:'' @ ws @ show_nat n @ '' kB''] @ post) = ram_line ws n # fgets_all 127 post"
    using fgets_all_lines [of 127 "[''VmRSS:'' @ ws @ show_nat n @ '' kB'']" post] assms(4)
    by (simp add: ram_line_def newline_def)
  then have "fgets_all 127 (line_text pre @ ram_line ws n @ post) =
      map (\<lambda>l. l @ [newline]) pre @ ram_line ws n # fgets_all 127 post"
    using fgets_all_lines [OF assms(1)] by (simp add: line_text_def ram_line_def newline_def)
  moreover have "filter (starts_with ''VmRSS:'') (map (\<lambda>l. l @ [newline]) pre) = []"
    using assms(2) by (simp add: filter_empty_conv list_all_iff)
  moreover have "starts_with ''VmRSS:'' (ram_line ws n)" unfolding ram_line_def by (rule starts_with_append)
  ultimately show ?thesis
    by (simp add: getRamSelfUsage_def assms(6) parse_ram_line [OF assms(3,5)])
qed

theorem resident_memory_read_witness: "getRamSelfUsage ex_os = Inr 2048"
proof -
  have "ram_line ''      '' 2048 = ''VmRSS:      2048 kB\<newline>''" "show_nat 2048 = ''2048''" by code_simp+
  then have "proc_self_status ex_os = Some (line_text [''Name: x''] @ ram_line ''      '' 2048 @ [])"
    by (simp add: ex_os_def line_text_def newline_def)
  from resident_memory_read [OF _ _ _ _ _ this] \<open>show_nat 2048 = ''2048''\<close> show ?thesis
    by (simp add: line_fits_def newline_def starts_with_def)
qed

definition disk_line :: "string \<Rightarrow> string list \<Rightarrow> nat \<Rightarrow> string list \<Rightarrow> nat \<Rightarrow> string \<Rightarrow> string" where
  "disk_line lead as r bs w rest = lead @ words_text ((''sda'' # as) @ show_nat r # bs @ [show_nat w]) @ rest"

lemma disk_sectors_line:
  assumes "list_all (\<lambda>l. strstr l ''sda '' = None) pre" and "CHR ''s'' \<notin> set lead"
    and "list_all word_chars as" and "length as = 2" and "list_all word_chars bs" and "length bs = 3"
    and "int r \<le> LONG_MAX" and "int w \<le> LONG_MAX"
  shows "disk_sectors (pre @ disk_line lead as r bs w rest # post) = Inr (int r, int w)"
proof -
  let ?ws = "(''sda'' # as) @ show_nat r # bs @ [show_nat w]"
  have "strstr (disk_line lead as r bs w rest) ''sda '' = Some (words_text ?ws @ rest)"
    using strstr_lead [OF assms(2)] by (simp add: disk_line_def)
  moreover have "List.map_filter (\<lambda>l. strstr l ''sda '') pre = []"
    using assms(1) by (induction pre) simp_all
  moreover have "List.map_filter f (xs @ y # ys) = List.map_filter f xs @ the (f y) # List.map_filter f ys"
    if "f y \<noteq> None" for f :: "string \<Rightarrow> string option" and xs y ys
    using that by (induction xs) (auto split: option.splits)
  ultimately have f: "List.map_filter (\<lambda>l. strstr l ''sda '') (pre @ disk_line lead as r bs w rest # post) =
      (words_text ?ws @ rest) # List.map_filter (\<lambda>l. strstr l ''sda '') post" by simp
  have "word_chars ''sda''" by (simp add: word_chars_def)
  then have "list_all word_chars ?ws" using assms(3,5) by simp
  then have t: "strtok (words_text ?ws @ rest) = ?ws @ strtok rest" by (rule strtok_words)
  have "(?ws @ strtok rest) ! 3 = show_nat r" "(?ws @ strtok rest) ! 7 = show_nat w"
    using assms(4,6) by (simp_all add: nth_append numeral_eq_Suc)
  then show ?thesis
    using assms(4,6-8) by (simp add: disk_sectors_def f t stoll_show_nat del: words_text.simps append.simps)
qed

lemma word_difference:
  assumes "r0 \<le> r" and "int (r - r0) * uint z < 2 ^ 64"
  shows "uint (of_nat r * ucast z - of_nat r0 * ucast z :: 64 word) = int (r - r0) * uint (z :: 32 word)"
proof -
  have "of_nat r * ucast z - of_nat r0 * ucast z = (of_nat (r - r0) * ucast z :: 64 word)"
    by (simp only: of_nat_diff [OF assms(1)] left_diff_distrib)
  also have "\<dots> = word_of_int (int (r - r0) * uint z)"
    by (simp only: of_int_mult of_int_of_nat_eq ucast_eq)
  finally have "uint (of_nat r * ucast z - of_nat r0 * ucast z :: 64 word) = (int (r - r0) * uint z) mod 2 ^ 64"
    by (simp only: uint_word_of_int) simp
  also have "\<dots> = int (r - r0) * uint z"
    using assms(2) by (intro mod_pos_pos_trivial) simp_all
  finally show ?thesis .
qed

text \<open>C10: The disk usage read is the bytes of the sectors read and written since the last measurement,
  divided by the milliseconds between the two, also when the byte counters have wrapped around in
  between; the line of the disk is found behind the lines of its partitions.\<close>

theorem disk_usage_is_rate:
  assumes "list_all (line_fits 127) pre" and "list_all (\<lambda>l. strstr (l @ [newline]) ''sda '' = None) pre"
    and "CHR ''s'' \<notin> set lead" and "list_all word_chars as" and "length as = 2"
    and "list_all word_chars bs" and "length bs = 3" and "int r \<le> LONG_MAX" and "int w \<le> LONG_MAX"
    and "line_fits 127 (disk_line lead as r bs w rest)"
    and "proc_diskstats os = Some (line_text pre @ disk_line lead as r bs w rest @ newline # post)"
    and "lastHddSystemRead p = of_nat r0 * ucast (hddSectorSize p)" and "r0 \<le> r"
    and "lastHddSystemWrite p = of_nat w0 * ucast (hddSectorSize p)" and "w0 \<le> w"
    and "int (r - r0) * uint (hddSectorSize p) < 2 ^ 64" and "int (w - w0) * uint (hddSectorSize p) < 2 ^ 64"
    and "millis = os_millis os - hddSystemLastMeasureTime p" and "is_long millis"
  shows "\<exists>p'. getHddSystemUsage os p =
    Inr ((ddiv (double_of_int (int (r - r0) * uint (hddSectorSize p))) (double_of_int millis),
      ddiv (double_of_int (int (w - w0) * uint (hddSectorSize p))) (double_of_int millis)), p')
    \<and> lastHddSystemRead p' = of_nat r * ucast (hddSectorSize p) \<and> lastHddSystemWrite p' = of_nat w * ucast (hddSectorSize p)
    \<and> hddSystemLastMeasureTime p' = os_millis os \<and> hddSectorSize p' = hddSectorSize p"
proof -
  have "disk_line lead as r bs w (rest @ [newline]) = disk_line lead as r bs w rest @ [newline]"
    by (simp only: disk_line_def append_assoc)
  then have "fgets_all 127 (line_text pre @ disk_line lead as r bs w rest @ newline # post) =
      map (\<lambda>l. l @ [newline]) pre @ disk_line lead as r bs w (rest @ [newline]) # fgets_all 127 post"
    using fgets_all_lines [OF assms(1)] fgets_all_line [of "disk_line lead as r bs w rest" 127 post] assms(10)
    by (simp add: line_fits_def)
  moreover have "list_all (\<lambda>l. strstr l ''sda '' = None) (map (\<lambda>l. l @ [newline]) pre)"
    using assms(2) by (simp add: list_all_iff)
  ultimately have "disk_sectors (fgets_all 127 (line_text pre @ disk_line lead as r bs w rest @ newline # post)) = Inr (int r, int w)"
    using disk_sectors_line assms(3-9) by simp
  then show ?thesis
    by (simp add: getHddSystemUsage_def assms(11,12,14) rate_def Let_def wrap64_id [OF assms(19)] assms(18) [symmetric]
        word_difference [OF assms(13,16)] word_difference [OF assms(15,17)])
qed

theorem disk_usage_is_rate_witness:
  "\<exists>p'. getHddSystemUsage ex_os ex_provider =
    Inr ((ddiv (double_of_int 256000) (double_of_int 1000), ddiv (double_of_int 0) (double_of_int 1000)), p')
    \<and> lastHddSystemRead p' = 900 * 512"
proof -
  have t: "disk_line ''   8       0 '' [''55'', ''3''] 900 [''70'', ''12'', ''4''] 640 ''9'' =
      ''   8       0 sda 55 3 900 70 12 4 640 9''" by code_simp
  have p: "proc_diskstats ex_os = Some (line_text [''   8       1 sda1 1 1 1 1 1 1 1''] @
      disk_line ''   8       0 '' [''55'', ''3''] 900 [''70'', ''12'', ''4''] 640 ''9'' @ newline # [])"
    unfolding t by (simp add: ex_os_def line_text_def newline_def)
  have l: "list_all (\<lambda>l. strstr (l @ [newline]) ''sda '' = None) [''   8       1 sda1 1 1 1 1 1 1 1'']"
    "list_all (line_fits 127) [''   8       1 sda1 1 1 1 1 1 1 1'']"
    "line_fits 127 (disk_line ''   8       0 '' [''55'', ''3''] 900 [''70'', ''12'', ''4''] 640 ''9'')"
    by code_simp+
  have w: "list_all word_chars [''55'', ''3'']" "list_all word_chars [''70'', ''12'', ''4'']"
    by (simp_all add: word_chars_def)
  show ?thesis
    using disk_usage_is_rate [OF l(2,1) _ w(1) _ w(2) _ _ _ l(3) p, of ex_provider 400 640]
    by (simp add: LONG_MAX_def is_long_def LONG_MIN_def ex_provider_def) (auto simp: ex_os_def)
qed

section \<open>The property of the construction\<close>

lemma initSystem_fresh:
  assumes "opened (proc_stat os) = Inr s" and "scan_cpu s = Inr [u, n, y, i]"
  shows "initSystemCpuUsage os p = Inr (p\<lparr>lastTotalUser := u, lastTotalNiced := n, lastTotalSys := y, lastTotalIdle := i\<rparr>)"
  using assms by (simp add: initSystemCpuUsage_def)

lemma bindE_cong_right: "(\<And>x. f x = g x) \<Longrightarrow> bindE m f = bindE m g"
  by (cases m) simp_all

text \<open>The two measurements overwrite all that they read, apart from the sector size.\<close>

definition same_but_disk :: "LinuxResProvider \<Rightarrow> LinuxResProvider \<Rightarrow> bool" where
  "same_but_disk p q \<longleftrightarrow> (\<exists>a b c d e f. p = q\<lparr>lastHddSelfRead := a, lastHddSelfWrite := b,
     lastHddSystemRead := c, lastHddSystemWrite := d, hddSelfLastMeasureTime := e, hddSystemLastMeasureTime := f\<rparr>)"

lemma disk_measurements_fresh:
  assumes "same_but_disk p q"
  shows "bindE (getHddSystemUsage os p) (\<lambda>(_, p2). bindE (getHddSelfUsage os' p2) (\<lambda>(_, p3). Inr p3)) =
    bindE (getHddSystemUsage os q) (\<lambda>(_, p2). bindE (getHddSelfUsage os' p2) (\<lambda>(_, p3). Inr p3))"
  using assms unfolding same_but_disk_def
  by (auto simp: getHddSystemUsage_def getHddSelfUsage_def Let_def bindE_assoc split_def
      intro!: bindE_cong_right split: option.split)

text \<open>The state after construction does not depend on what the memory of the new object held, as
  soon as the file of the processor has its four counters and that of the disk its sector size.\<close>

theorem construction_ignores_memory:
  assumes "opened (proc_stat (m 0)) = Inr s" and "scan_cpu s = Inr [u, n, y, i]"
    and "opened (hw_sector_size (m 2)) = Inr z" and "scan_number z \<noteq> None"
  shows "LinuxResProvider_new m p = LinuxResProvider_new m q"
proof -
  obtain now stime utime where tm: "os_times (m (Suc 0)) = (now, stime, utime)" by (cases "os_times (m (Suc 0))")
  obtain k rest where k: "scan_number z = Some (k, rest)" using assms(4) by auto
  let ?set = "\<lambda>c p. p\<lparr>lastTotalUser := u, lastTotalNiced := n, lastTotalSys := y, lastTotalIdle := i,
    lastCPU := now, lastSysCPU := stime, lastUserCPU := utime, numProcessors := c, hddSectorSize := word_of_int k\<rparr>"
  have "same_but_disk (?set c p) (?set c q)" for c
    unfolding same_but_disk_def
    by (intro exI [where x = "lastHddSelfRead p"] exI [where x = "lastHddSelfWrite p"] exI [where x = "lastHddSystemRead p"]
        exI [where x = "lastHddSystemWrite p"] exI [where x = "hddSelfLastMeasureTime p"]
        exI [where x = "hddSystemLastMeasureTime p"]) simp
  note fresh = disk_measurements_fresh [OF this, of "m 3" _ "m 4"]
  show ?thesis
    by (cases "is_int k"; cases "opened (proc_cpuinfo (m (Suc 0)))")
      (simp_all add: LinuxResProvider_new_def initSystem_fresh [OF assms(1,2)] initSelfCpuUsage_def tm
        initHddUsage_def assms(3) k fresh)
qed

theorem construction_ignores_memory_witness:
  "LinuxResProvider_new (\<lambda>_. ex_os) ex_provider =
    LinuxResProvider_new (\<lambda>_. ex_os) (ex_provider\<lparr>lastHddSystemRead := 7, lastCPU := 3, hddSectorSize := 1\<rparr>)"
proof -
  have "opened (proc_stat ((\<lambda>_. ex_os) (0 :: nat))) = Inr (cpu_text 400 10 90 1500 '' 7\<newline>cpu0 1 2 3 4\<newline>'')"
    unfolding ex_cpu_text by (simp add: ex_os_def)
  moreover have "scan_cpu (cpu_text 400 10 90 1500 '' 7\<newline>cpu0 1 2 3 4\<newline>'') = Inr [of_nat 400, of_nat 10, of_nat 90, of_nat 1500]"
    by (rule scan_cpu_text) (simp_all add: no_digit_first_def)
  moreover have "opened (hw_sector_size ((\<lambda>_. ex_os) (2 :: nat))) = Inr ''512\<newline>''" by (simp add: ex_os_def)
  moreover have "scan_number ''512\<newline>'' \<noteq> None" by code_simp
  ultimately show ?thesis by (rule construction_ignores_memory)
qed

end
