(* ===== verification/WindowsRes.thy ===== *)
theory WindowsRes
  imports ResStates DoubleOrder "HOL-Library.Word"
begin

text \<open>
  \<open>WindowsResProvider\<close> (\<open>include/WindowsResProvider.hpp\<close>, \<open>src/library_src/WindowsResProvider.cpp\<close>): the
  readings on Windows. The calls of the system are the argument \<open>w\<close>, what they answer during one of the
  operations. Where the code looks at the result of a call the answer is optional; where it does not, a failed call
  leaves indeterminate values behind, which are taken for undefined behaviour. The names carry the prefix
  \<open>win\<close>, because the Linux provider has the same ones.
\<close>

section \<open>The machine and the state\<close>

record windows =
  GlobalMemoryStatusEx :: "(64 word \<times> 64 word) option"
  GetProcessMemoryInfo :: "64 word option"
  GetProcessIoCounters :: "(64 word \<times> 64 word) option"
  CreateFile_drive :: bool
  DeviceIoControl_drive :: "(64 word \<times> 64 word) option"
  PdhGetFormattedCounterValue :: "double option"
  GetSystemInfo :: "32 word"
  GetSystemTimeAsFileTime :: "64 word"
  GetProcessTimes :: "(64 word \<times> 64 word) option"
  system_clock_now :: long

text \<open>The handles of the process and of the query are the operating system's and left out.\<close>

record WindowsResProvider =
  win_lastCPU :: "64 word"
  win_lastSysCPU :: "64 word"
  win_lastUserCPU :: "64 word"
  win_numProcessors :: int
  win_lastHddSelfRead :: long
  win_lastHddSelfWrite :: long
  win_lastHddSystemRead :: long
  win_lastHddSystemWrite :: long
  win_hddSelfLastMeasureTime :: long
  win_hddSystemLastMeasureTime :: long

definition answered :: "'a option \<Rightarrow> 'a result" where
  "answered a = (case a of None \<Rightarrow> Inl Undefined_behaviour | Some x \<Rightarrow> Inr x)"

text \<open>Subtraction of \<open>long long\<close>.\<close>

definition sub_long :: "long \<Rightarrow> long \<Rightarrow> long result" where
  "sub_long a b = (if is_long (a - b) then Inr (a - b) else Inl Undefined_behaviour)"

abbreviation double_of_ull :: "64 word \<Rightarrow> double" where
  "double_of_ull x \<equiv> double_of_int (uint x)"

section \<open>Processor\<close>

definition win_initSelfCpuUsage :: "windows \<Rightarrow> WindowsResProvider \<Rightarrow> WindowsResProvider result" where
  "win_initSelfCpuUsage w p = bindE (answered (GetProcessTimes w)) (\<lambda>(fsys, fuser).
     Inr (p\<lparr>win_numProcessors := sint (GetSystemInfo w), win_lastCPU := GetSystemTimeAsFileTime w,
            win_lastSysCPU := fsys, win_lastUserCPU := fuser\<rparr>))"

definition win_getSystemCpuUsage :: "windows \<Rightarrow> double result" where
  "win_getSystemCpuUsage w = answered (PdhGetFormattedCounterValue w)"

definition win_getSelfCpuUsage :: "windows \<Rightarrow> WindowsResProvider \<Rightarrow> (double \<times> WindowsResProvider) result" where
  "win_getSelfCpuUsage w p = bindE (answered (GetProcessTimes w)) (\<lambda>(sys, user).
     let now = GetSystemTimeAsFileTime w;
         percent = double_of_ull ((sys - win_lastSysCPU p) + (user - win_lastUserCPU p));
         percent = ddiv percent (double_of_ull (now - win_lastCPU p));
         percent = ddiv percent (double_of_int (win_numProcessors p))
     in Inr (dmul percent (double_of_int 100),
          p\<lparr>win_lastCPU := now, win_lastUserCPU := user, win_lastSysCPU := sys\<rparr>))"

definition win_getCpuState :: "windows \<Rightarrow> windows \<Rightarrow> WindowsResProvider \<Rightarrow> (CpuState \<times> WindowsResProvider) result" where
  "win_getCpuState w w' p = bindE (win_getSystemCpuUsage w) (\<lambda>system.
     bindE (win_getSelfCpuUsage w' p) (\<lambda>(self, p1).
       Inr (cpu_setMonitorPercentageUsed self (cpu_setPercentageUsed system CpuState_default), p1)))"

section \<open>Memory\<close>

definition win_getRamState :: "windows \<Rightarrow> RamState result" where
  "win_getRamState w = bindE (answered (GlobalMemoryStatusEx w)) (\<lambda>(ullTotalPhys, ullAvailPhys).
     let million = double_of_int 1000000;
         totalPhysMem = ullTotalPhys;
         physMemUsed = ullTotalPhys - ullAvailPhys
     in bindE (answered (GetProcessMemoryInfo w)) (\<lambda>physMemUsedByMe.
       Inr (setMonitorMBUsed (ddiv (double_of_ull physMemUsedByMe) million)
         (setMBUsed (ddiv (double_of_ull physMemUsed) million)
           (setTotalMB (ddiv (double_of_ull totalPhysMem) million) RamState_default)))))"

section \<open>Disk\<close>

definition GetDrivePerformance :: "windows \<Rightarrow> (64 word \<times> 64 word) option" where
  "GetDrivePerformance w = (if CreateFile_drive w then DeviceIoControl_drive w else None)"

text \<open>The pair of \<open>-1\<close> that stands for a failed call.\<close>

definition no_usage :: "double \<times> double" where
  "no_usage = (double_of_int (- 1), double_of_int (- 1))"

definition win_getHddSelfUsage :: "windows \<Rightarrow> WindowsResProvider \<Rightarrow> ((double \<times> double) \<times> WindowsResProvider) result" where
  "win_getHddSelfUsage w p = (case GetProcessIoCounters w of
       None \<Rightarrow> Inr (no_usage, p)
     | Some (readCount, writeCount) \<Rightarrow>
         let readBytes = sint readCount; writeBytes = sint writeCount; currMs = system_clock_now w in
         bindE (sub_long readBytes (win_lastHddSelfRead p)) (\<lambda>r.
         bindE (sub_long currMs (win_hddSelfLastMeasureTime p)) (\<lambda>ms.
         bindE (sub_long writeBytes (win_lastHddSelfWrite p)) (\<lambda>v.
           Inr ((ddiv (double_of_int r) (double_of_int ms), ddiv (double_of_int v) (double_of_int ms)),
             p\<lparr>win_hddSelfLastMeasureTime := currMs, win_lastHddSelfRead := readBytes,
               win_lastHddSelfWrite := writeBytes\<rparr>)))))"

text \<open>Here the counters are unsigned, and so are the differences to the \<open>long long\<close> members.\<close>

definition win_getHddSystemUsage :: "windows \<Rightarrow> WindowsResProvider \<Rightarrow> ((double \<times> double) \<times> WindowsResProvider) result" where
  "win_getHddSystemUsage w p = (case GetDrivePerformance w of
       None \<Rightarrow> Inr (no_usage, p)
     | Some (readBytes, writeBytes) \<Rightarrow>
         let currMs = system_clock_now w in
         bindE (sub_long currMs (win_hddSystemLastMeasureTime p)) (\<lambda>ms.
           Inr ((ddiv (double_of_ull (readBytes - word_of_int (win_lastHddSystemRead p))) (double_of_int ms),
                 ddiv (double_of_ull (writeBytes - word_of_int (win_lastHddSystemWrite p))) (double_of_int ms)),
             p\<lparr>win_hddSystemLastMeasureTime := currMs, win_lastHddSystemRead := sint readBytes,
               win_lastHddSystemWrite := sint writeBytes\<rparr>)))"

definition win_getHddState :: "windows \<Rightarrow> windows \<Rightarrow> WindowsResProvider \<Rightarrow> (HddState \<times> WindowsResProvider) result" where
  "win_getHddState w w' p = bindE (win_getHddSystemUsage w p) (\<lambda>(system, p1).
     bindE (win_getHddSelfUsage w' p1) (\<lambda>(self, p2).
       Inr (setMonitorKBsUsedWrite (snd self) (setMonitorKBsUsedRead (fst self)
         (setKBsUsedWrite (snd system) (setKBsUsedRead (fst system) HddState_default))), p2)))"

definition win_initHddUsage :: "windows \<Rightarrow> WindowsResProvider \<Rightarrow> WindowsResProvider" where
  "win_initHddUsage w p = (case GetProcessIoCounters w of
       None \<Rightarrow> p
     | Some (readCount, writeCount) \<Rightarrow>
         let p1 = p\<lparr>win_lastHddSelfRead := sint readCount, win_lastHddSelfWrite := sint writeCount\<rparr>
         in (case GetDrivePerformance w of
               None \<Rightarrow> p1
             | Some (readBytes, writeBytes) \<Rightarrow>
                 p1\<lparr>win_lastHddSystemRead := sint readBytes, win_lastHddSystemWrite := sint writeBytes,
                   win_hddSystemLastMeasureTime := system_clock_now w, win_hddSelfLastMeasureTime := system_clock_now w\<rparr>))"

text \<open>The constructor on an object with the memory \<open>mem\<close>. The query that \<open>initSystemCpuUsage\<close> opens is the
  operating system's.\<close>

definition WindowsResProvider_new ::
  "windows \<Rightarrow> windows \<Rightarrow> windows \<Rightarrow> windows \<Rightarrow> WindowsResProvider \<Rightarrow> WindowsResProvider result" where
  "WindowsResProvider_new w1 w2 w3 w4 mem = bindE (win_initSelfCpuUsage w1 mem) (\<lambda>p.
     bindE (win_getCpuState w3 w4 (win_initHddUsage w2 p)) (\<lambda>(s, p1). Inr p1))"

section \<open>The processor usage of the monitor\<close>

text \<open>The ticks the process and the clock have advanced since the last reading.\<close>

definition win_busy :: "64 word \<Rightarrow> 64 word \<Rightarrow> WindowsResProvider \<Rightarrow> int" where
  "win_busy sys user p = (uint sys - uint (win_lastSysCPU p)) + (uint user - uint (win_lastUserCPU p))"

definition win_elapsed :: "64 word \<Rightarrow> WindowsResProvider \<Rightarrow> int" where
  "win_elapsed now p = uint now - uint (win_lastCPU p)"

lemma uint_diff: "uint b \<le> uint a \<Longrightarrow> uint (a - b) = uint a - uint (b :: 64 word)"
  by (simp add: uint_sub_if')

lemma win_busy_word:
  assumes "uint (win_lastSysCPU p) \<le> uint sys" and "uint (win_lastUserCPU p) \<le> uint user"
    and "win_busy sys user p < 2 ^ 53"
  shows "uint ((sys - win_lastSysCPU p) + (user - win_lastUserCPU p)) = win_busy sys user p"
  using assms by (simp add: uint_add_lem [THEN iffD1] uint_diff win_busy_def uint_plus_if')

lemma rval_cong:
  assumes "0 \<le> n" "0 < d" "0 \<le> n'" "0 < d'" and "real_of_int n / real_of_int d = real_of_int n' / real_of_int d'"
  shows "rval n d = rval n' d'"
  using rval_mono [of n d d' n'] rval_mono [of n' d' d n] assms by simp

text \<open>A share of at most \<open>k\<close> of exact numbers, divided by \<open>k\<close> and taken times 100.\<close>

lemma shared_percentage:
  assumes "0 \<le> a" "a < 2 ^ 53" "0 < b" "b < 2 ^ 53" "0 < k" "k < 2 ^ 53" "a \<le> b * k"
  obtains x where "nonneg (dmul (ddiv (ddiv (double_of_int a) (double_of_int b)) (double_of_int k)) (double_of_int 100)) x"
    "0 \<le> x" "x \<le> 100"
proof -
  have small: "real_of_int i < two_pow 1000" if "i < 2 ^ 53" for i
  proof -
    have "real_of_int i < real_of_int (2 ^ 53)" using that by (simp only: of_int_less_iff)
    also have "\<dots> = two_pow 53" by simp
    also have "\<dots> < two_pow 1000" by (simp add: power_int_strict_increasing del: power_int_numeral)
    finally show ?thesis .
  qed
  have exact: "nonneg (double_of_int i) (real_of_int i)" if "0 \<le> i" "i < 2 ^ 53" for i
    using nonneg_int [of i] rval_int [OF that] that by simp
  have r: "real_of_int a / real_of_int b \<le> real_of_int k" using assms(3,7)
    by (simp add: divide_le_eq mult.commute flip: of_int_mult)
  with small [OF assms(6)] have "real_of_int a / real_of_int b < two_pow 1000" by linarith
  with nonneg_ddiv [OF exact [OF assms(1,2)] exact [OF less_imp_le [OF assms(3)] assms(4)]] assms(3)
  obtain n d where q: "0 \<le> n" "0 < d" "real_of_int n / real_of_int d = real_of_int a / real_of_int b"
    and Q: "nonneg (ddiv (double_of_int a) (double_of_int b)) (rval n d)" by auto
  have q1: "0 \<le> rval n d" "rval n d \<le> real_of_int k"
    using rval_nonneg [OF q(1,2)] rval_mono [OF q(1,2), of 1 k] q(3) r rval_int [of k] assms(5,6) by simp_all
  then have r2: "rval n d / real_of_int k \<le> 1" "0 \<le> rval n d / real_of_int k" using assms(5) by simp_all
  have "rval n d / real_of_int k < two_pow 1000"
    by (rule le_less_trans [OF r2(1)]) (use small [of 1] in simp)
  with nonneg_ddiv [OF Q exact [OF less_imp_le [OF assms(5)] assms(6)]] assms(5)
  obtain n2 d2 where q2: "0 \<le> n2" "0 < d2" "real_of_int n2 / real_of_int d2 = rval n d / real_of_int k"
    and Q2: "nonneg (ddiv (ddiv (double_of_int a) (double_of_int b)) (double_of_int k)) (rval n2 d2)" by auto
  have q3: "0 \<le> rval n2 d2" "rval n2 d2 \<le> 1"
    using rval_nonneg [OF q2(1,2)] rval_mono [OF q2(1,2), of 1 1] q2(3) r2 rval_int [of 1] by simp_all
  have "rval n2 d2 * real_of_int 100 < two_pow 1000" using q3(2) small [of 100] by simp
  with nonneg_dmul [OF Q2 exact [of 100]] obtain n3 d3 where q4: "0 \<le> n3" "0 < d3"
    "real_of_int n3 / real_of_int d3 = rval n2 d2 * real_of_int 100"
    and Q3: "nonneg (dmul (ddiv (ddiv (double_of_int a) (double_of_int b)) (double_of_int k)) (double_of_int 100)) (rval n3 d3)"
    by auto
  have "0 \<le> rval n3 d3" "rval n3 d3 \<le> 100"
    using rval_nonneg [OF q4(1,2)] rval_mono [OF q4(1,2), of 1 100] q4(3) q3 rval_int [of 100] by simp_all
  with Q3 that show thesis by blast
qed

text \<open>C30: If the counters have advanced, and by no more than the clock on every processor, the usage of the
  monitor on Windows is a number from 0 to 100.\<close>

theorem windows_self_usage_bounded:
  assumes "GetProcessTimes w = Some (sys, user)"
    and "uint (win_lastSysCPU p) \<le> uint sys" and "uint (win_lastUserCPU p) \<le> uint user"
    and "0 < win_elapsed (GetSystemTimeAsFileTime w) p" and "win_elapsed (GetSystemTimeAsFileTime w) p < 2 ^ 53"
    and "0 < win_numProcessors p" and "win_numProcessors p < 2 ^ 31" and "win_busy sys user p < 2 ^ 53"
    and "win_busy sys user p \<le> win_elapsed (GetSystemTimeAsFileTime w) p * win_numProcessors p"
  shows "\<exists>percent. win_getSelfCpuUsage w p = Inr (percent, p\<lparr>win_lastCPU := GetSystemTimeAsFileTime w,
      win_lastUserCPU := user, win_lastSysCPU := sys\<rparr>)
    \<and> finite_double percent \<and> 0 \<le> real_of percent \<and> real_of percent \<le> 100"
proof -
  let ?a = "win_busy sys user p" and ?b = "win_elapsed (GetSystemTimeAsFileTime w) p"
  have b: "uint (GetSystemTimeAsFileTime w - win_lastCPU p) = ?b"
    using assms(4) by (simp add: win_elapsed_def uint_diff)
  have "0 \<le> ?a" using assms(2,3) by (simp add: win_busy_def)
  then obtain x where "nonneg (dmul (ddiv (ddiv (double_of_int ?a) (double_of_int ?b)) (double_of_int (win_numProcessors p)))
      (double_of_int 100)) x" "0 \<le> x" "x \<le> 100"
    using shared_percentage [of ?a ?b "win_numProcessors p"] assms by auto
  with nonnegD show ?thesis
    by (auto simp: win_getSelfCpuUsage_def answered_def assms(1) Let_def b win_busy_word [OF assms(2,3,8)])
qed

definition ex_windows :: windows where
  "ex_windows = \<lparr>GlobalMemoryStatusEx = Some (8000000000, 3000000000), GetProcessMemoryInfo = Some 50000000,
     GetProcessIoCounters = Some (70000, 9000), CreateFile_drive = True, DeviceIoControl_drive = Some (500000, 40000),
     PdhGetFormattedCounterValue = Some (double_of_int 40), GetSystemInfo = 4, GetSystemTimeAsFileTime = 131000000,
     GetProcessTimes = Some (1500000, 3500000), system_clock_now = 20000\<rparr>"

definition ex_windows_provider :: WindowsResProvider where
  "ex_windows_provider = \<lparr>win_lastCPU = 121000000, win_lastSysCPU = 500000, win_lastUserCPU = 500000, win_numProcessors = 4,
     win_lastHddSelfRead = 60000, win_lastHddSelfWrite = 9000, win_lastHddSystemRead = 400000, win_lastHddSystemWrite = 50000,
     win_hddSelfLastMeasureTime = 19000, win_hddSystemLastMeasureTime = 19000\<rparr>"

theorem windows_self_usage_bounded_witness:
  "\<exists>percent p. win_getSelfCpuUsage ex_windows ex_windows_provider = Inr (percent, p)
    \<and> 0 \<le> real_of percent \<and> real_of percent \<le> 100 \<and> win_lastSysCPU p = 1500000"
  using windows_self_usage_bounded [of ex_windows 1500000 3500000 ex_windows_provider]
  by (auto simp: ex_windows_def ex_windows_provider_def win_elapsed_def win_busy_def)

text \<open>The disk usage of the system is right over a wrap-around of the counter, and whatever its sign bit.\<close>

theorem windows_disk_rate:
  assumes "GetDrivePerformance w = Some (r, v)" and "is_long (win_hddSystemLastMeasureTime p)"
    and "win_lastHddSystemRead p = sint r0" and "win_lastHddSystemWrite p = sint v0"
    and "is_long (system_clock_now w - win_hddSystemLastMeasureTime p)"
    and "ms = system_clock_now w - win_hddSystemLastMeasureTime p"
  shows "\<exists>p'. win_getHddSystemUsage w p = Inr ((ddiv (double_of_int (uint (r - r0))) (double_of_int ms),
      ddiv (double_of_int (uint (v - v0))) (double_of_int ms)), p')
    \<and> win_lastHddSystemRead p' = sint r \<and> win_lastHddSystemWrite p' = sint v
    \<and> win_hddSystemLastMeasureTime p' = system_clock_now w"
  using assms by (simp add: win_getHddSystemUsage_def sub_long_def Let_def)

theorem windows_disk_rate_witness:
  "\<exists>p'. win_getHddSystemUsage ex_windows ex_windows_provider =
    Inr ((double_of_int 100, ddiv (double_of_int 18446744073709541616) (double_of_int 1000)), p')"
proof -
  have d: "ddiv (double_of_int 100000) (double_of_int 1000) = double_of_int 100" by code_simp
  have u: "uint (500000 - 400000 :: 64 word) = 100000" "uint (40000 - 50000 :: 64 word) = 18446744073709541616"
    "sint (400000 :: 64 word) = 400000" "sint (50000 :: 64 word) = 50000" by code_simp+
  have "GetDrivePerformance ex_windows = Some (500000, 40000)" "is_long (win_hddSystemLastMeasureTime ex_windows_provider)"
    "win_lastHddSystemRead ex_windows_provider = sint (400000 :: 64 word)"
    "win_lastHddSystemWrite ex_windows_provider = sint (50000 :: 64 word)"
    "is_long (system_clock_now ex_windows - win_hddSystemLastMeasureTime ex_windows_provider)"
    "1000 = system_clock_now ex_windows - win_hddSystemLastMeasureTime ex_windows_provider"
    unfolding u by (simp_all add: ex_windows_def ex_windows_provider_def GetDrivePerformance_def is_long_def LONG_MIN_def LONG_MAX_def)
  from windows_disk_rate [OF this] show ?thesis unfolding u d by blast
qed

section \<open>Construction\<close>

text \<open>If the process and the drive can be read, the constructor initialises every member.\<close>

theorem windows_construction_initialises:
  assumes "GetProcessTimes w1 = Some x" and "GetProcessTimes w4 = Some y" and "PdhGetFormattedCounterValue w3 = Some d"
    and "GetProcessIoCounters w2 = Some u" and "GetDrivePerformance w2 = Some v"
  shows "\<exists>p. \<forall>mem. WindowsResProvider_new w1 w2 w3 w4 mem = Inr p"
proof -
  let ?p = "\<lparr>win_lastCPU = GetSystemTimeAsFileTime w4, win_lastSysCPU = fst y, win_lastUserCPU = snd y,
     win_numProcessors = sint (GetSystemInfo w1), win_lastHddSelfRead = sint (fst u), win_lastHddSelfWrite = sint (snd u),
     win_lastHddSystemRead = sint (fst v), win_lastHddSystemWrite = sint (snd v),
     win_hddSelfLastMeasureTime = system_clock_now w2, win_hddSystemLastMeasureTime = system_clock_now w2\<rparr>"
  have "WindowsResProvider_new w1 w2 w3 w4 mem = Inr ?p" for mem
    using assms by (cases mem) (simp add: WindowsResProvider_new_def win_initSelfCpuUsage_def win_initHddUsage_def
        win_getCpuState_def win_getSystemCpuUsage_def win_getSelfCpuUsage_def answered_def Let_def split: prod.split)
  then show ?thesis by blast
qed

text \<open>If the drive cannot be read when the object is made, the times of the last measurement are never set,
  and the first disk usage of the monitor is computed from what was in the memory.\<close>

theorem windows_drive_missing:
  assumes "GetProcessTimes w1 = Some x" and "GetProcessTimes w4 = Some y" and "PdhGetFormattedCounterValue w3 = Some d"
    and "GetProcessIoCounters w2 = Some u" and "GetDrivePerformance w2 = None"
  shows "\<exists>p. WindowsResProvider_new w1 w2 w3 w4 mem = Inr p
    \<and> win_hddSelfLastMeasureTime p = win_hddSelfLastMeasureTime mem
    \<and> win_hddSystemLastMeasureTime p = win_hddSystemLastMeasureTime mem
    \<and> win_lastHddSystemRead p = win_lastHddSystemRead mem"
  using assms by (simp add: WindowsResProvider_new_def win_initSelfCpuUsage_def win_initHddUsage_def
      win_getCpuState_def win_getSystemCpuUsage_def win_getSelfCpuUsage_def answered_def Let_def split: prod.split)

end
