(* ===== verification/ScopeRunner.thy ===== *)
theory ScopeRunner
  imports Prelude
begin

text \<open>
  \<open>ScopeRunner\<close> of \<open>include/utility.hpp\<close>: any number of threads take shared locks, give them back and
  ask to stop, on one atomic counter. Every access to the counter is one step, so all interleavings of
  the two loops are runs of the relation. A weak compare-and-exchange may fail although the counter
  has the expected value; \<open>fetch_sub\<close> of the destructor is one step.
\<close>

section \<open>Threads and steps\<close>

text \<open>Where a thread is: outside, in the loop of \<open>continue_lock\<close> with \<open>expected\<close>, in possession of a
  lock, or in the loop of \<open>stop\<close>.\<close>

datatype pc = Outside | Locking long | Holding | Stopping

record runner =
  scope_count :: long
  threads :: "nat \<Rightarrow> pc"

definition ScopeRunner_new :: runner where
  "ScopeRunner_new = \<lparr>scope_count = 0, threads = (\<lambda>_. Outside)\<rparr>"

definition goto :: "nat \<Rightarrow> pc \<Rightarrow> runner \<Rightarrow> runner" where
  "goto t pc r = r\<lparr>threads := (threads r)(t := pc)\<rparr>"

inductive runner_step :: "runner \<Rightarrow> runner \<Rightarrow> bool" where
  load: "threads r t = Outside \<Longrightarrow> runner_step r (goto t (Locking (scope_count r)) r)"
| lock: "threads r t = Locking expected \<Longrightarrow> 0 \<le> expected \<Longrightarrow> scope_count r = expected \<Longrightarrow>
    runner_step r (goto t Holding (r\<lparr>scope_count := expected + 1\<rparr>))"
| again: "threads r t = Locking expected \<Longrightarrow> 0 \<le> expected \<Longrightarrow>
    runner_step r (goto t (Locking (scope_count r)) r)"
| refuse: "threads r t = Locking expected \<Longrightarrow> expected < 0 \<Longrightarrow> runner_step r (goto t Outside r)"
| unlock: "threads r t = Holding \<Longrightarrow> runner_step r (goto t Outside (r\<lparr>scope_count := scope_count r - 1\<rparr>))"
| enter_stop: "threads r t = Outside \<Longrightarrow> runner_step r (goto t Stopping r)"
| stop: "threads r t = Stopping \<Longrightarrow> scope_count r = 0 \<Longrightarrow> runner_step r (goto t Outside (r\<lparr>scope_count := - 1\<rparr>))"
| stopped: "threads r t = Stopping \<Longrightarrow> scope_count r < 0 \<Longrightarrow> runner_step r (goto t Outside r)"
| wait: "threads r t = Stopping \<Longrightarrow> 0 \<le> scope_count r \<Longrightarrow> runner_step r r"

inductive_cases runner_stepE: "runner_step r r'"

section \<open>The invariant\<close>

definition holders :: "runner \<Rightarrow> nat set" where
  "holders r = {t. threads r t = Holding}"

definition runner_inv :: "runner \<Rightarrow> bool" where
  "runner_inv r \<longleftrightarrow> finite (holders r) \<and>
     (scope_count r = int (card (holders r)) \<or> scope_count r = - 1 \<and> holders r = {})"

lemma holders_goto [simp]:
  "holders (goto t pc r) = (if pc = Holding then insert t (holders r) else holders r - {t})"
  by (auto simp: holders_def goto_def)

lemma holders_count [simp]: "holders (r\<lparr>scope_count := c\<rparr>) = holders r"
  by (simp add: holders_def)

lemma count_goto [simp]: "scope_count (goto t pc r) = scope_count r"
  by (simp add: goto_def)

lemma in_holders [simp]: "t \<in> holders r \<longleftrightarrow> threads r t = Holding"
  by (simp add: holders_def)

lemma runner_inv_new: "runner_inv ScopeRunner_new"
  by (simp add: runner_inv_def ScopeRunner_new_def holders_def)

lemma runner_inv_step:
  assumes "runner_step r r'" and inv: "runner_inv r"
  shows "runner_inv r'"
  using assms(1)
proof cases
  case (unlock t)
  then have t: "t \<in> holders r" by simp
  with inv have c: "finite (holders r)" "scope_count r = int (card (holders r))" "0 < card (holders r)"
    by (auto simp: runner_inv_def card_gt_0_iff simp del: in_holders)
  have "card (holders r - {t}) = card (holders r) - 1" using t by (rule card_Diff_singleton)
  then show ?thesis unfolding unlock(1) using c by (simp add: runner_inv_def)
next
  case (lock t expected)
  then show ?thesis using inv by (auto simp: runner_inv_def)
qed (use inv in \<open>auto simp: runner_inv_def\<close>)

lemma runner_inv_run: "runner_step\<^sup>*\<^sup>* r r' \<Longrightarrow> runner_inv r \<Longrightarrow> runner_inv r'"
  by (induction rule: rtranclp_induct) (auto intro: runner_inv_step)

lemma stopped_step: "runner_step r r' \<Longrightarrow> runner_inv r \<Longrightarrow> scope_count r = - 1 \<Longrightarrow> scope_count r' = - 1"
  by (auto elim!: runner_stepE simp: runner_inv_def)

lemma stopped_run: "runner_step\<^sup>*\<^sup>* r r' \<Longrightarrow> runner_inv r \<Longrightarrow> scope_count r = - 1 \<Longrightarrow> scope_count r' = - 1"
proof (induction rule: rtranclp_induct)
  case (step y z)
  then show ?case using stopped_step runner_inv_run by blast
qed simp

section \<open>Properties\<close>

text \<open>In every reachable state the counter is the number of locks held, or \<open>-1\<close> with none held; so
  \<open>stop\<close> returns only when all locks are back.\<close>

theorem count_is_locks:
  assumes "runner_step\<^sup>*\<^sup>* ScopeRunner_new r"
  shows "finite (holders r) \<and>
    (scope_count r = int (card (holders r)) \<or> scope_count r = - 1 \<and> holders r = {})"
  using runner_inv_run [OF assms runner_inv_new] by (simp add: runner_inv_def)

text \<open>C31: Once a \<open>stop\<close> has succeeded, no thread ever holds a lock again, whatever the interleaving.\<close>

theorem no_lock_after_stop:
  assumes "runner_step\<^sup>*\<^sup>* ScopeRunner_new r" and "scope_count r = - 1" and "runner_step\<^sup>*\<^sup>* r r'"
  shows "scope_count r' = - 1 \<and> holders r' = {}"
proof -
  have "runner_inv r" using runner_inv_run [OF assms(1) runner_inv_new] .
  with stopped_run [OF assms(3)] runner_inv_run [OF assms(3)] assms(2) show ?thesis
    by (auto simp: runner_inv_def)
qed

lemma step_then: "runner_step r r' \<Longrightarrow> runner_step\<^sup>*\<^sup>* r' r'' \<Longrightarrow> runner_step\<^sup>*\<^sup>* r r''"
  by (rule converse_rtranclp_into_rtranclp)

definition ex_locked :: runner where
  "ex_locked = goto 1 Holding (ScopeRunner_new\<lparr>scope_count := 1\<rparr>)"

definition ex_stopped :: runner where
  "ex_stopped = goto 2 Outside (goto 1 Outside (ScopeRunner_new\<lparr>scope_count := - 1\<rparr>))"

lemma ex_locked_reached: "runner_step\<^sup>*\<^sup>* ScopeRunner_new ex_locked"
proof -
  have "runner_step ScopeRunner_new (goto 1 (Locking 0) ScopeRunner_new)"
    using runner_step.load [of ScopeRunner_new 1] by (simp add: ScopeRunner_new_def)
  moreover have "runner_step (goto 1 (Locking 0) ScopeRunner_new) ex_locked"
    using runner_step.lock [of "goto 1 (Locking 0) ScopeRunner_new" 1 0]
    by (simp add: ScopeRunner_new_def goto_def ex_locked_def)
  ultimately show ?thesis by (meson step_then rtranclp.rtrancl_refl)
qed

lemma ex_stopped_reached: "runner_step\<^sup>*\<^sup>* ScopeRunner_new ex_stopped"
proof -
  let ?r = "goto 2 Stopping (goto 1 Outside ScopeRunner_new)"
  have "ScopeRunner_new = goto 1 Outside ScopeRunner_new" by (simp add: goto_def ScopeRunner_new_def fun_upd_idem)
  then have "runner_step ScopeRunner_new ?r"
    using runner_step.enter_stop [of ScopeRunner_new 2] by (simp add: ScopeRunner_new_def)
  moreover have "runner_step ?r ex_stopped"
    using runner_step.stop [of ?r 2] by (simp add: ex_stopped_def goto_def ScopeRunner_new_def)
  ultimately show ?thesis by (meson step_then rtranclp.rtrancl_refl)
qed

theorem count_is_locks_witness: "scope_count ex_locked = int (card (holders ex_locked)) \<and> threads ex_locked 1 = Holding"
  using count_is_locks [OF ex_locked_reached] by (simp add: ex_locked_def goto_def)

theorem no_lock_after_stop_witness:
  "scope_count (goto 3 (Locking (- 1)) ex_stopped) = - 1 \<and> holders (goto 3 (Locking (- 1)) ex_stopped) = {}"
proof -
  have "runner_step ex_stopped (goto 3 (Locking (- 1)) ex_stopped)"
    using runner_step.load [of ex_stopped 3] by (simp add: ex_stopped_def goto_def ScopeRunner_new_def)
  moreover have "scope_count ex_stopped = - 1" by (simp add: ex_stopped_def)
  ultimately show ?thesis using no_lock_after_stop [OF ex_stopped_reached] by blast
qed

end
