(* ===== verification/SamplerThread.thy ===== *)
theory SamplerThread
  imports Prelude
begin

text \<open>
  The life cycle of the polling thread of \<open>SamplingManager\<close>
  (\<open>src/library_src/SamplingManager.cpp\<close>): \<open>startSampling\<close>, \<open>stopSampling\<close> and the destructor, called
  by one owner, against the loop of \<open>pollingFunction\<close>. Every access to the atomic flag
  \<open>isSampling\<close> and to the thread object is one step. Assigning a thread to one that is still joinable,
  destroying a joinable one and joining none end the program; what a poll does is in \<open>Sampling\<close>.
\<close>

section \<open>Owner, poller and steps\<close>

text \<open>The owner is between calls, inside one of them, or has destroyed the object. The flag of
  \<open>Stop_clear\<close> and \<open>Stop_join\<close> says that the destructor called.\<close>

datatype owner =
    Idle | Start_set | Start_spawn | Stop_clear bool | Stop_join bool | Destroying | Destroyed | Crashed

text \<open>There is no joinable thread, or it is at the test of the loop, polling, at the test after the
  poll, about to clear the flag, or finished and not joined.\<close>

datatype poller = No_thread | Loop_test | Polling | Poll_test | Leaving | Finished

record sampler_thread =
  isSampling :: bool
  owner :: owner
  pollerThread :: poller

definition thread_new :: sampler_thread where
  "thread_new = \<lparr>isSampling = False, owner = Idle, pollerThread = No_thread\<rparr>"

fun after_stop :: "bool \<Rightarrow> owner" where
  "after_stop d = (if d then Destroying else Idle)"

inductive owner_step :: "sampler_thread \<Rightarrow> sampler_thread \<Rightarrow> bool" where
  start_again: "owner m = Idle \<Longrightarrow> isSampling m \<Longrightarrow> owner_step m m"
| start: "owner m = Idle \<Longrightarrow> \<not> isSampling m \<Longrightarrow> owner_step m (m\<lparr>owner := Start_set\<rparr>)"
| start_set: "owner m = Start_set \<Longrightarrow> owner_step m (m\<lparr>owner := Start_spawn, isSampling := True\<rparr>)"
| spawn: "owner m = Start_spawn \<Longrightarrow> pollerThread m = No_thread \<Longrightarrow>
    owner_step m (m\<lparr>owner := Idle, pollerThread := Loop_test\<rparr>)"
| spawn_joinable: "owner m = Start_spawn \<Longrightarrow> pollerThread m \<noteq> No_thread \<Longrightarrow> owner_step m (m\<lparr>owner := Crashed\<rparr>)"
| stop_idle: "owner m = Idle \<Longrightarrow> \<not> isSampling m \<Longrightarrow> owner_step m (m\<lparr>owner := after_stop d\<rparr>)"
| stop_begin: "owner m = Idle \<Longrightarrow> isSampling m \<Longrightarrow> owner_step m (m\<lparr>owner := Stop_clear d\<rparr>)"
| stop_clear: "owner m = Stop_clear d \<Longrightarrow> owner_step m (m\<lparr>owner := Stop_join d, isSampling := False\<rparr>)"
| stop_join: "owner m = Stop_join d \<Longrightarrow> pollerThread m = Finished \<Longrightarrow>
    owner_step m (m\<lparr>owner := after_stop d, pollerThread := No_thread\<rparr>)"
| join_none: "owner m = Stop_join d \<Longrightarrow> pollerThread m = No_thread \<Longrightarrow> owner_step m (m\<lparr>owner := Crashed\<rparr>)"
| destroy: "owner m = Destroying \<Longrightarrow> pollerThread m = No_thread \<Longrightarrow> owner_step m (m\<lparr>owner := Destroyed\<rparr>)"
| destroy_joinable: "owner m = Destroying \<Longrightarrow> pollerThread m \<noteq> No_thread \<Longrightarrow> owner_step m (m\<lparr>owner := Crashed\<rparr>)"

inductive poller_step :: "sampler_thread \<Rightarrow> sampler_thread \<Rightarrow> bool" where
  enter: "pollerThread m = Loop_test \<Longrightarrow>
    poller_step m (m\<lparr>pollerThread := (if isSampling m then Polling else Leaving)\<rparr>)"
| poll_done: "pollerThread m = Polling \<Longrightarrow> poller_step m (m\<lparr>pollerThread := Poll_test\<rparr>)"
| test: "pollerThread m = Poll_test \<Longrightarrow>
    poller_step m (m\<lparr>pollerThread := (if isSampling m then Loop_test else Leaving)\<rparr>)"
| leave: "pollerThread m = Leaving \<Longrightarrow> poller_step m (m\<lparr>pollerThread := Finished, isSampling := False\<rparr>)"

definition thread_step :: "sampler_thread \<Rightarrow> sampler_thread \<Rightarrow> bool" where
  "thread_step m m' \<longleftrightarrow> owner_step m m' \<or> poller_step m m'"

inductive_cases owner_stepE: "owner_step m m'"
inductive_cases poller_stepE: "poller_step m m'"

section \<open>The invariant\<close>

definition running :: "poller \<Rightarrow> bool" where
  "running p \<longleftrightarrow> p = Loop_test \<or> p = Polling \<or> p = Poll_test"

definition thread_inv :: "sampler_thread \<Rightarrow> bool" where
  "thread_inv m \<longleftrightarrow> (case owner m of
       Idle \<Rightarrow> if isSampling m then running (pollerThread m) else pollerThread m = No_thread
     | Start_set \<Rightarrow> \<not> isSampling m \<and> pollerThread m = No_thread
     | Start_spawn \<Rightarrow> isSampling m \<and> pollerThread m = No_thread
     | Stop_clear d \<Rightarrow> isSampling m \<and> running (pollerThread m)
     | Stop_join d \<Rightarrow> \<not> isSampling m \<and> pollerThread m \<noteq> No_thread
     | Destroying \<Rightarrow> \<not> isSampling m \<and> pollerThread m = No_thread
     | Destroyed \<Rightarrow> \<not> isSampling m \<and> pollerThread m = No_thread
     | Crashed \<Rightarrow> False)"

lemma thread_inv_new: "thread_inv thread_new"
  by (simp add: thread_inv_def thread_new_def)

lemma owner_step_inv: "owner_step m m' \<Longrightarrow> thread_inv m \<Longrightarrow> thread_inv m'"
  by (induction rule: owner_step.induct) (auto simp: thread_inv_def running_def)

lemma poller_step_inv: "poller_step m m' \<Longrightarrow> thread_inv m \<Longrightarrow> thread_inv m'"
  by (induction rule: poller_step.induct) (auto simp: thread_inv_def running_def split: owner.splits if_splits)

lemma thread_inv_run: "thread_step\<^sup>*\<^sup>* m m' \<Longrightarrow> thread_inv m \<Longrightarrow> thread_inv m'"
proof (induction rule: rtranclp_induct)
  case (step y z)
  then show ?case using owner_step_inv poller_step_inv by (auto simp: thread_step_def)
qed simp

section \<open>Properties\<close>

text \<open>C13: Starting, stopping and destroying in any order, as often as one owner likes, never assigns to,
  joins or destroys a thread in the wrong state; between calls the polling thread exists exactly while
  the flag is set, and when the object is gone so is the thread.\<close>

theorem thread_life_cycle_safe:
  assumes "thread_step\<^sup>*\<^sup>* thread_new m"
  shows "owner m \<noteq> Crashed
    \<and> (owner m = Idle \<longrightarrow> (isSampling m \<longleftrightarrow> pollerThread m \<noteq> No_thread))
    \<and> (owner m = Destroyed \<longrightarrow> \<not> isSampling m \<and> pollerThread m = No_thread)"
  using thread_inv_run [OF assms thread_inv_new]
  by (auto simp: thread_inv_def running_def split: if_splits)

text \<open>The steps the thread has left once the flag is cleared.\<close>

fun steps_left :: "poller \<Rightarrow> nat" where
  "steps_left Polling = 3" | "steps_left Poll_test = 2" | "steps_left Loop_test = 2" | "steps_left Leaving = 1"
| "steps_left p = 0"

text \<open>C14: \<open>stopSampling\<close> returns: while it waits, some step is possible, and every step either is the
  join itself or brings the thread closer to its end, of which it is at most three steps away; no
  further poll begins.\<close>

theorem stop_returns:
  assumes "thread_step\<^sup>*\<^sup>* thread_new m" and "owner m = Stop_join d"
  shows "steps_left (pollerThread m) \<le> 3 \<and> (\<exists>m'. thread_step m m')
    \<and> (\<forall>m'. thread_step m m' \<longrightarrow>
        owner m' = after_stop d \<and> pollerThread m' = No_thread \<and> \<not> isSampling m'
      \<or> owner m' = Stop_join d \<and> steps_left (pollerThread m') < steps_left (pollerThread m)
        \<and> pollerThread m' \<noteq> Polling)"
proof -
  have i: "\<not> isSampling m" "pollerThread m \<noteq> No_thread"
    using thread_inv_run [OF assms(1) thread_inv_new] assms(2) by (simp_all add: thread_inv_def)
  have "\<exists>m'. thread_step m m'"
    using i(2) stop_join [OF assms(2)] poller_step.intros [of m] unfolding thread_step_def
    by (cases "pollerThread m") blast+
  moreover have "thread_step m m' \<longrightarrow>
        owner m' = after_stop d \<and> pollerThread m' = No_thread \<and> \<not> isSampling m'
      \<or> owner m' = Stop_join d \<and> steps_left (pollerThread m') < steps_left (pollerThread m)
        \<and> pollerThread m' \<noteq> Polling" for m'
    using i assms(2) by (auto simp: thread_step_def elim!: owner_stepE poller_stepE)
  moreover have "steps_left (pollerThread m) \<le> 3" by (cases "pollerThread m") simp_all
  ultimately show ?thesis by blast
qed

definition ex_stopping :: sampler_thread where
  "ex_stopping = \<lparr>isSampling = False, owner = Stop_join False, pollerThread = Polling\<rparr>"

lemma ex_stopping_reached: "thread_step\<^sup>*\<^sup>* thread_new ex_stopping"
proof -
  have s: "thread_step m m' \<Longrightarrow> thread_step\<^sup>*\<^sup>* m' m'' \<Longrightarrow> thread_step\<^sup>*\<^sup>* m m''" for m m' m''
    by (rule converse_rtranclp_into_rtranclp)
  let ?m = "\<lambda>b w p. \<lparr>isSampling = b, owner = w, pollerThread = p\<rparr>"
  have "thread_step thread_new (?m False Start_set No_thread)"
    using owner_step.start [of thread_new] by (simp add: thread_step_def thread_new_def)
  moreover have "thread_step (?m False Start_set No_thread) (?m True Start_spawn No_thread)"
    using start_set [of "?m False Start_set No_thread"] by (simp add: thread_step_def)
  moreover have "thread_step (?m True Start_spawn No_thread) (?m True Idle Loop_test)"
    using spawn [of "?m True Start_spawn No_thread"] by (simp add: thread_step_def)
  moreover have "thread_step (?m True Idle Loop_test) (?m True Idle Polling)"
    using enter [of "?m True Idle Loop_test"] by (simp add: thread_step_def)
  moreover have "thread_step (?m True Idle Polling) (?m True (Stop_clear False) Polling)"
    using stop_begin [of "?m True Idle Polling" False] by (simp add: thread_step_def)
  moreover have "thread_step (?m True (Stop_clear False) Polling) ex_stopping"
    using stop_clear [of "?m True (Stop_clear False) Polling" False] by (simp add: thread_step_def ex_stopping_def)
  ultimately show ?thesis by (meson s rtranclp.rtrancl_refl)
qed

theorem thread_life_cycle_safe_witness: "owner ex_stopping \<noteq> Crashed \<and> pollerThread ex_stopping = Polling"
  using thread_life_cycle_safe [OF ex_stopping_reached] by (simp add: ex_stopping_def)

theorem stop_returns_witness: "\<exists>m'. thread_step ex_stopping m' \<and> steps_left (pollerThread ex_stopping) = 3"
  using stop_returns [OF ex_stopping_reached, of False] by (simp add: ex_stopping_def)

end
