(* ===== verification/SmtpClient.thy ===== *)
theory SmtpClient
  imports WebHandlers
begin

text \<open>
  \<open>SMTPClient\<close> (\<open>include/smtp_client.hpp\<close>): what it writes to the mail server. The network is the
  argument \<open>net\<close>: whether the name is resolved and the connection made; a write does not fail. The
  Base64 encoder of Boost is the parameter \<open>b64\<close>. The client never reads the answers before it goes on;
  the mail server is not modelled: the properties speak of the bytes written.
\<close>

section \<open>The client\<close>

datatype network = Unresolved | Refused | Connected

text \<open>\<open>mHasError\<close> has no initialiser: it starts with whatever the memory holds. \<open>pending\<close> is the
  handler that the constructor queues and the first run takes.\<close>

record SMTPClient =
  mServer :: string
  mPort :: nat
  mUserName :: string
  mPassword :: string
  mFrom :: string
  mTo :: "string list"
  mSubject :: string
  mMessage :: string
  mHasError :: bool
  pending :: bool
  written :: string

definition SMTPClient_new :: "string \<Rightarrow> nat \<Rightarrow> string \<Rightarrow> string \<Rightarrow> bool \<Rightarrow> SMTPClient" where
  "SMTPClient_new pServer pPort pUser pPassword memory =
     \<lparr>mServer = pServer, mPort = pPort, mUserName = pUser, mPassword = pPassword, mFrom = [], mTo = [],
      mSubject = [], mMessage = [], mHasError = memory, pending = True, written = []\<rparr>"

definition writeLine :: "string \<Rightarrow> SMTPClient \<Rightarrow> SMTPClient" where
  "writeLine pData c = c\<lparr>written := written c @ pData @ crlf\<rparr>"

definition handleConnect :: "(string \<Rightarrow> string) \<Rightarrow> network \<Rightarrow> SMTPClient \<Rightarrow> SMTPClient" where
  "handleConnect b64 net c =
     (if net = Connected then
        let c = writeLine (''EHLO '' @ mServer c) c;
            c = writeLine ''AUTH LOGIN'' c;
            c = writeLine (b64 (mUserName c)) c;
            c = writeLine (b64 (mPassword c)) c;
            c = writeLine (''MAIL FROM: <'' @ mFrom c @ ''>'') c;
            c = foldl (\<lambda>c address. writeLine (''RCPT TO: <'' @ address @ ''>'') c) c (mTo c);
            c = writeLine ''DATA'' c;
            c = writeLine (''SUBJECT: '' @ mSubject c) c;
            c = writeLine (''From: <'' @ mFrom c @ ''>'') c;
            c = writeLine [] c;
            c = writeLine (mMessage c) c;
            c = writeLine ''.'' c
        in writeLine [] c
      else c\<lparr>mHasError := True\<rparr>)"

definition handleResolve :: "(string \<Rightarrow> string) \<Rightarrow> network \<Rightarrow> SMTPClient \<Rightarrow> SMTPClient" where
  "handleResolve b64 net c = (if net \<noteq> Unresolved then handleConnect b64 net c else c\<lparr>mHasError := True\<rparr>)"

text \<open>\<open>erase(remove_if(begin, end, isspace), end)\<close>.\<close>

definition erase_space :: "string \<Rightarrow> string" where
  "erase_space s = filter (\<lambda>c. \<not> is_space c) s"

definition io_service_run :: "(string \<Rightarrow> string) \<Rightarrow> network \<Rightarrow> SMTPClient \<Rightarrow> SMTPClient" where
  "io_service_run b64 net c = (if pending c then handleResolve b64 net (c\<lparr>pending := False\<rparr>) else c)"

definition sendEmail ::
  "(string \<Rightarrow> string) \<Rightarrow> network \<Rightarrow> string \<Rightarrow> string list \<Rightarrow> string \<Rightarrow> string \<Rightarrow> SMTPClient \<Rightarrow> bool \<times> SMTPClient" where
  "sendEmail b64 net pFrom pTo pSubject pMessage c =
     (let c = c\<lparr>mFrom := erase_space pFrom, mTo := map erase_space pTo, mSubject := pSubject, mMessage := pMessage\<rparr>;
          c = io_service_run b64 net c
      in (mHasError c, c))"

text \<open>The callback that \<open>main\<close> gives to a predicate.\<close>

definition sendMailFunction :: "(string \<Rightarrow> string) \<Rightarrow> network \<Rightarrow> bool \<Rightarrow> mail \<Rightarrow> bool \<times> SMTPClient" where
  "sendMailFunction b64 net memory m =
     sendEmail b64 net ''zpr_resmonitor@wp.pl'' [mail_to m] ''ZPR Monitor trigger notification'' (mail_text m)
       (SMTPClient_new ''smtp.wp.pl'' 25 ''zpr_resmonitor@wp.pl'' ''zprresmonitor!1'' memory)"

section \<open>The bytes as lines\<close>

text \<open>What the client writes is cut into lines at CR LF. The lines of a mail end, in any SMTP session,
  with the first line that is a single dot.\<close>

fun crlf_lines :: "string \<Rightarrow> string list" where
  "crlf_lines [] = [[]]"
| "crlf_lines (c # s) = (case s of
       d # r \<Rightarrow> if c = CHR 0x0D \<and> d = CHR 0x0A then [] # crlf_lines r
         else (case crlf_lines s of [] \<Rightarrow> [[c]] | l # ls \<Rightarrow> (c # l) # ls)
     | [] \<Rightarrow> [[c]])"

definition mail_lines :: "string list \<Rightarrow> string list" where
  "mail_lines ls = takeWhile (\<lambda>l. l \<noteq> ''.'') ls"

definition lines_behind :: "string list \<Rightarrow> string list" where
  "lines_behind ls = drop (Suc (length (mail_lines ls))) ls"

section \<open>Lines\<close>

lemma crlf_lines_not_Nil [simp]: "crlf_lines s \<noteq> []"
  by (cases s) (auto split: list.splits)

lemma crlf_lines_cons:
  "crlf_lines (c # s) = (if c = CHR 0x0D \<and> s \<noteq> [] \<and> hd s = CHR 0x0A then [] # crlf_lines (tl s)
     else (c # hd (crlf_lines s)) # tl (crlf_lines s))"
  by (cases s) (auto split: list.splits)

declare crlf_lines.simps(2) [simp del]

lemma crlf_lines_join: "crlf_lines (a @ crlf @ b) = crlf_lines a @ crlf_lines b"
proof (induction a rule: length_induct)
  case (1 a)
  show ?case
  proof (cases a)
    case Nil
    then show ?thesis by (simp add: crlf_def crlf_lines_cons)
  next
    case (Cons c s)
    show ?thesis
    proof (cases "c = CHR 0x0D \<and> s \<noteq> [] \<and> hd s = CHR 0x0A")
      case True
      then have "crlf_lines (tl s @ crlf @ b) = crlf_lines (tl s) @ crlf_lines b"
        using 1 Cons by (metis length_tl less_imp_diff_less length_Cons lessI)
      then show ?thesis using True Cons by (simp add: crlf_lines_cons)
    next
      case False
      have "crlf_lines (s @ crlf @ b) = crlf_lines s @ crlf_lines b" using 1 Cons by simp
      moreover have "\<not> (c = CHR 0x0D \<and> s @ crlf @ b \<noteq> [] \<and> hd (s @ crlf @ b) = CHR 0x0A)"
        using False by (cases s) (auto simp: crlf_def)
      ultimately show ?thesis using False Cons by (auto simp add: crlf_lines_cons)
    qed
  qed
qed

lemma crlf_lines_free: "CHR 0x0D \<notin> set s \<Longrightarrow> crlf_lines s = [s]"
  by (induction s) (auto simp: crlf_lines_cons)

definition lines_text :: "string list \<Rightarrow> string" where
  "lines_text ls = concat (map (\<lambda>l. l @ crlf) ls)"

lemma crlf_lines_text: "crlf_lines (lines_text ls) = concat (map crlf_lines ls) @ [[]]"
  by (induction ls) (simp_all add: lines_text_def crlf_lines_join)

lemma writeLine_fold:
  "foldl (\<lambda>c a. writeLine (f a) c) c as = c\<lparr>written := written c @ lines_text (map f as)\<rparr>"
  by (induction as arbitrary: c) (simp_all add: lines_text_def writeLine_def)

section \<open>The session\<close>

definition from_line :: "string \<Rightarrow> string" where
  "from_line a = ''MAIL FROM: <'' @ a @ ''>''"

definition to_line :: "string \<Rightarrow> string" where
  "to_line a = ''RCPT TO: <'' @ a @ ''>''"

definition session_lines :: "(string \<Rightarrow> string) \<Rightarrow> SMTPClient \<Rightarrow> string list" where
  "session_lines b64 c =
     [''EHLO '' @ mServer c, ''AUTH LOGIN'', b64 (mUserName c), b64 (mPassword c), from_line (mFrom c)]
     @ map to_line (mTo c) @ [''DATA'', ''SUBJECT: '' @ mSubject c, ''From: <'' @ mFrom c @ ''>'', []]
     @ [mMessage c, ''.'', []]"

lemma lines_text_append [simp]: "lines_text (a @ b) = lines_text a @ lines_text b"
  by (simp add: lines_text_def)

lemma handleConnect_written:
  "handleConnect b64 Connected c = c\<lparr>written := written c @ lines_text (session_lines b64 c)\<rparr>"
proof -
  have f: "foldl (\<lambda>c a. writeLine (''RCPT TO: <'' @ a @ ''>'') c) c as = c\<lparr>written := written c @ lines_text (map to_line as)\<rparr>"
    for c and as :: "string list"
    using writeLine_fold [of to_line c as] by (simp add: to_line_def)
  show ?thesis
    unfolding handleConnect_def Let_def f
    by (simp add: writeLine_def session_lines_def from_line_def) (simp add: lines_text_def)
qed

lemma no_cr_erased: "CHR 0x0D \<notin> set (erase_space s)"
  by (simp add: erase_space_def is_space_def)

lemma addresses_one_line: "concat (map crlf_lines (map to_line (map erase_space as))) = map to_line (map erase_space as)"
  using no_cr_erased by (induction as) (simp_all add: to_line_def crlf_lines_free)

text \<open>The lines up to \<open>DATA\<close>, and the lines the client puts before the message.\<close>

definition command_lines :: "(string \<Rightarrow> string) \<Rightarrow> string \<Rightarrow> string \<Rightarrow> string \<Rightarrow> string \<Rightarrow> string list \<Rightarrow> string list" where
  "command_lines b64 pServer pUser pPassword pFrom pTo =
     [''EHLO '' @ pServer, ''AUTH LOGIN'', b64 pUser, b64 pPassword, from_line (erase_space pFrom)]
     @ map (\<lambda>a. to_line (erase_space a)) pTo @ [''DATA'']"

definition header_lines :: "string \<Rightarrow> string \<Rightarrow> string list" where
  "header_lines pFrom pSubject = [''SUBJECT: '' @ pSubject, ''From: <'' @ erase_space pFrom @ ''>'', []]"

lemma session_text:
  assumes "CHR 0x0D \<notin> set pServer" and "CHR 0x0D \<notin> set pSubject" and "\<And>s. CHR 0x0D \<notin> set (b64 s)"
  shows "crlf_lines (written (snd (sendEmail b64 Connected pFrom pTo pSubject pMessage
      (SMTPClient_new pServer pPort pUser pPassword memory)))) =
    command_lines b64 pServer pUser pPassword pFrom pTo @ header_lines pFrom pSubject
      @ crlf_lines pMessage @ [''.'', [], []]"
proof -
  let ?c = "(SMTPClient_new pServer pPort pUser pPassword memory)\<lparr>mFrom := erase_space pFrom,
    mTo := map erase_space pTo, mSubject := pSubject, mMessage := pMessage, pending := False\<rparr>"
  have w: "written (snd (sendEmail b64 Connected pFrom pTo pSubject pMessage
      (SMTPClient_new pServer pPort pUser pPassword memory))) = lines_text (session_lines b64 ?c)"
    by (simp add: sendEmail_def io_service_run_def handleResolve_def handleConnect_written SMTPClient_new_def)
  show ?thesis
    unfolding w crlf_lines_text session_lines_def map_append concat_append
    using assms no_cr_erased [of pFrom] addresses_one_line [of pTo]
    by (simp add: SMTPClient_new_def crlf_lines_free from_line_def command_lines_def header_lines_def comp_def)
qed

lemma mail_lines_cut:
  assumes "list_all (\<lambda>l. l \<noteq> ''.'') hs"
  shows "mail_lines (hs @ ms @ ''.'' # r) = hs @ takeWhile (\<lambda>l. l \<noteq> ''.'') ms"
    and "lines_behind (hs @ ms @ ''.'' # r) =
      (if ''.'' \<in> set ms then tl (dropWhile (\<lambda>l. l \<noteq> ''.'') ms) @ ''.'' # r else r)"
proof -
  have ms: "takeWhile (\<lambda>l. l \<noteq> ''.'') (ms @ ''.'' # r) = takeWhile (\<lambda>l. l \<noteq> ''.'') ms" by (induction ms) auto
  show m: "mail_lines (hs @ ms @ ''.'' # r) = hs @ takeWhile (\<lambda>l. l \<noteq> ''.'') ms"
    unfolding mail_lines_def using assms ms by (induction hs) auto
  have "drop (Suc (length (takeWhile (\<lambda>l. l \<noteq> ''.'') ms))) (ms @ ''.'' # r) =
      (if ''.'' \<in> set ms then tl (dropWhile (\<lambda>l. l \<noteq> ''.'') ms) @ ''.'' # r else r)"
    by (induction ms) auto
  then show "lines_behind (hs @ ms @ ''.'' # r) =
      (if ''.'' \<in> set ms then tl (dropWhile (\<lambda>l. l \<noteq> ''.'') ms) @ ''.'' # r else r)"
    unfolding lines_behind_def m by simp
qed

section \<open>Properties\<close>

text \<open>C15: The bytes the client writes over a working connection, as lines, are the commands of one mail:
  the greeting, the login, the sender, one line for every recipient in order and \<open>DATA\<close>, and no other,
  whatever characters the addresses hold, line ends included. Then come the subject, the sender, an empty
  line and the message, up to its first line that is a single dot or else to the end. If there is such a
  line, all lines of the message behind it stand where commands are expected.\<close>

theorem mail_on_the_wire:
  assumes "CHR 0x0D \<notin> set pServer" and "CHR 0x0D \<notin> set pSubject" and "\<And>s. CHR 0x0D \<notin> set (b64 s)"
    and "ls = crlf_lines (written (snd (sendEmail b64 Connected pFrom pTo pSubject pMessage
      (SMTPClient_new pServer pPort pUser pPassword memory))))"
  shows "take (6 + length pTo) ls =
      [''EHLO '' @ pServer, ''AUTH LOGIN'', b64 pUser, b64 pPassword, ''MAIL FROM: <'' @ erase_space pFrom @ ''>'']
      @ map (\<lambda>a. ''RCPT TO: <'' @ erase_space a @ ''>'') pTo @ [''DATA'']
    \<and> mail_lines (drop (6 + length pTo) ls) =
      [''SUBJECT: '' @ pSubject, ''From: <'' @ erase_space pFrom @ ''>'', []]
      @ takeWhile (\<lambda>l. l \<noteq> ''.'') (crlf_lines pMessage)
    \<and> lines_behind (drop (6 + length pTo) ls) =
      (if ''.'' \<in> set (crlf_lines pMessage)
       then tl (dropWhile (\<lambda>l. l \<noteq> ''.'') (crlf_lines pMessage)) @ [''.'', [], []] else [[], []])"
proof -
  note ls = assms(4) [unfolded session_text [of pServer pSubject b64, OF assms(1-3)]]
  have n: "length (command_lines b64 pServer pUser pPassword pFrom pTo) = 6 + length pTo"
    by (simp add: command_lines_def)
  have "list_all (\<lambda>l. l \<noteq> ''.'') (header_lines pFrom pSubject)" by (simp add: header_lines_def)
  note cut = mail_lines_cut [OF this, of "crlf_lines pMessage" "[[], []]"]
  have "take (6 + length pTo) ls = command_lines b64 pServer pUser pPassword pFrom pTo"
    and d: "drop (6 + length pTo) ls = header_lines pFrom pSubject @ crlf_lines pMessage @ [''.'', [], []]"
    unfolding ls n [symmetric] by simp_all
  then show ?thesis
    unfolding d cut by (simp add: command_lines_def header_lines_def from_line_def to_line_def)
qed

text \<open>\<open>sendEmail\<close> returns \<open>true\<close> for an error; after a mail that was sent it returns whatever the
  memory of the object held. A second call on the same client writes nothing.\<close>

theorem send_result_uninitialised:
  "let (r, c) = sendEmail b64 net pFrom pTo pSubject pMessage (SMTPClient_new pServer pPort pUser pPassword memory);
       (r', c') = sendEmail b64 net' pFrom' pTo' pSubject' pMessage' c
   in r = (if net = Connected then memory else True) \<and> (written c = [] \<longleftrightarrow> net \<noteq> Connected)
     \<and> r' = r \<and> written c' = written c"
proof (cases net)
  case Connected
  have "written (handleConnect b64 Connected c) \<noteq> [] \<and> mHasError (handleConnect b64 Connected c) = mHasError c
      \<and> pending (handleConnect b64 Connected c) = pending c" for c
    by (simp add: handleConnect_written) (simp add: lines_text_def session_lines_def)
  with Connected show ?thesis
    by (simp add: sendEmail_def io_service_run_def handleResolve_def SMTPClient_new_def Let_def)
qed (simp_all add: sendEmail_def io_service_run_def handleResolve_def handleConnect_def SMTPClient_new_def Let_def)

text \<open>The mail of a trigger, and a message that goes on behind a dot.\<close>

theorem mail_on_the_wire_witness:
  "take 7 (crlf_lines (written (snd (sendMailFunction (\<lambda>s. ''QUJD'') Connected False (notification ex_web ''cpu''))))) =
     [''EHLO smtp.wp.pl'', ''AUTH LOGIN'', ''QUJD'', ''QUJD'', ''MAIL FROM: <zpr_resmonitor@wp.pl>'',
      ''RCPT TO: <ann@x>'', ''DATA'']
   \<and> lines_behind (drop 7 (crlf_lines (written (snd (sendEmail (\<lambda>s. ''QUJD'') Connected (''a@x'' @ crlf @ ''DATA'') [''b@x'']
      ''s'' (''hello'' @ crlf @ ''.'' @ crlf @ ''MAIL FROM: <c@x>'') (SMTPClient_new ''srv'' 25 ''u'' ''p'' False)))))) =
     [''MAIL FROM: <c@x>'', ''.'', [], []]"
proof
  let ?ls = "crlf_lines (written (snd (sendMailFunction (\<lambda>s. ''QUJD'') Connected False (notification ex_web ''cpu''))))"
  have "erase_space (mail_to (notification ex_web ''cpu'')) = ''ann@x''"
    "erase_space ''zpr_resmonitor@wp.pl'' = ''zpr_resmonitor@wp.pl''"
    by (simp_all add: notification_def ex_web_def erase_space_def is_space_def)
  then show "take 7 ?ls = [''EHLO smtp.wp.pl'', ''AUTH LOGIN'', ''QUJD'', ''QUJD'', ''MAIL FROM: <zpr_resmonitor@wp.pl>'',
      ''RCPT TO: <ann@x>'', ''DATA'']"
    using mail_on_the_wire [of "''smtp.wp.pl''" "''ZPR Monitor trigger notification''" "\<lambda>s. ''QUJD''" ?ls
        "''zpr_resmonitor@wp.pl''" "[mail_to (notification ex_web ''cpu'')]" "mail_text (notification ex_web ''cpu'')" 25
        "''zpr_resmonitor@wp.pl''" "''zprresmonitor!1''" False]
    by (simp add: sendMailFunction_def)
  have "crlf_lines (''hello'' @ crlf @ ''.'' @ crlf @ ''MAIL FROM: <c@x>'') = [''hello'', ''.'', ''MAIL FROM: <c@x>'']"
    using crlf_lines_join [of "''hello''"] crlf_lines_join [of "''.''"] by (simp add: crlf_lines_free)
  with mail_on_the_wire [of "''srv''" "''s''" "\<lambda>s. ''QUJD''" _ "''a@x'' @ crlf @ ''DATA''" "[''b@x'']"
      "''hello'' @ crlf @ ''.'' @ crlf @ ''MAIL FROM: <c@x>''" 25 "''u''" "''p''" False]
  show "lines_behind (drop 7 (crlf_lines (written (snd (sendEmail (\<lambda>s. ''QUJD'') Connected (''a@x'' @ crlf @ ''DATA'') [''b@x'']
      ''s'' (''hello'' @ crlf @ ''.'' @ crlf @ ''MAIL FROM: <c@x>'') (SMTPClient_new ''srv'' 25 ''u'' ''p'' False)))))) =
     [''MAIL FROM: <c@x>'', ''.'', [], []]"
    by (simp add: crlf_lines_free)
qed

end
