(* ===== verification/Connecting.thy ===== *)
theory Connecting
  imports HttpClient
begin

text \<open>
  How the sessions of a client establish their connections: \<open>connect\<close>, \<open>handshake\<close> and \<open>write\<close> of
  \<open>include/client_http.hpp\<close> and \<open>include/client_https.hpp\<close> with the start of \<open>read\<close> and the attempt to
  reconnect, as a machine. An asynchronous operation is what a session waits for; its handler is one step,
  and how the operation ends is the choice of the relation \<open>establish_step\<close>. The pool of connections is
  that of \<open>HttpClient\<close>, where the text of requests and the reading of responses are modelled too: here a
  response is read by any number of further operations and ends in any way. The address of a new
  connection is one that no connection has had. A timer that expires ends an operation on the socket with
  an error; resolving is not ended by it. The options of a socket are not modelled.
\<close>

section \<open>State\<close>

datatype error_code = Message_size | Protocol_error_code | Permission_denied | Operation_aborted | Not_found | Other_error nat

text \<open>A socket: whether the descriptor is open and the handshake done, the seconds the timer is set to, and
  the timeout of the connection.\<close>

record socket =
  is_open :: bool
  secured :: bool
  timer :: "int option"
  conn_timeout :: int

text \<open>What a session waits for, at first that \<open>connect\<close> is called; what is left of it when the callback has been
  called, when a handler has got no lock, and when an exception has left one.\<close>

datatype waiting = Starting | Resolving | Opening | Proxy_writing | Proxy_reading | Handshaking | Writing | Reading_header
  | Reading_content | Answered_session | Dropped_session | Escaped_session

record session =
  link :: nat
  waiting :: waiting

text \<open>What can be seen of the sessions: text in the clear that goes to a proxy, its consent, the start and the
  success of a handshake, the request of a session, and the call of its callback.\<close>

datatype event = Plain nat string | Tunnel nat | Hello nat | Secured nat | Request nat nat | Answer nat "error_code option"

record settings = address +
  timeout :: int
  timeout_connect :: int

record client =
  conn_pool :: pool
  sockets :: "nat \<Rightarrow> socket option"
  sessions :: "session list"
  trace :: "event list"
  stopped :: bool

definition client_new :: client where
  "client_new = \<lparr>conn_pool = Client_pool, sockets = (\<lambda>_. None), sessions = [], trace = [], stopped = False\<rparr>"

text \<open>A socket as \<open>create_connection\<close> makes it.\<close>

definition new_socket :: "settings \<Rightarrow> socket" where
  "new_socket cfg = \<lparr>is_open = False, secured = False, timer = None, conn_timeout = timeout cfg\<rparr>"

definition on_socket :: "nat \<Rightarrow> (socket \<Rightarrow> socket) \<Rightarrow> client \<Rightarrow> client" where
  "on_socket i f st = st\<lparr>sockets := (sockets st)(i := map_option f (sockets st i))\<rparr>"

definition effective_timeout :: "socket \<Rightarrow> int \<Rightarrow> int option" where
  "effective_timeout k seconds =
     (let seconds1 = (if seconds = 0 then conn_timeout k else seconds) in if seconds1 = 0 then None else Some seconds1)"

definition set_timeout :: "nat \<Rightarrow> int \<Rightarrow> client \<Rightarrow> client" where
  "set_timeout i seconds = on_socket i (\<lambda>k. k\<lparr>timer := effective_timeout k seconds\<rparr>)"

definition cancel_timeout :: "nat \<Rightarrow> client \<Rightarrow> client" where
  "cancel_timeout i = on_socket i (\<lambda>k. k\<lparr>timer := None\<rparr>)"

definition await :: "nat \<Rightarrow> waiting \<Rightarrow> client \<Rightarrow> client" where
  "await s w st = st\<lparr>sessions := (sessions st)[s := (sessions st ! s)\<lparr>waiting := w\<rparr>]\<rparr>"

definition log_event :: "event \<Rightarrow> client \<Rightarrow> client" where
  "log_event e st = st\<lparr>trace := e # trace st\<rparr>"

definition link_of :: "client \<Rightarrow> nat \<Rightarrow> nat" where
  "link_of st s = link (sessions st ! s)"

section \<open>Requests\<close>

text \<open>The address that is resolved: that of the host, or of the proxy with 8080 as its port.\<close>

definition query_address :: "settings \<Rightarrow> (string \<times> string) result" where
  "query_address cfg =
     (if proxy_server cfg = [] then Inr (host cfg, show_nat (unat (port cfg)))
      else bindE (parse_host_port (proxy_server cfg) 8080) (\<lambda>(h, p). Inr (h, show_nat (unat p))))"

text \<open>A content that is given as a stream, all of whose characters are \<open>stream\<close>: it is sent from its beginning
  wherever it has been read to. On a stream that has failed \<open>tellg\<close> gives \<open>-1\<close>, and nothing is sent.\<close>

definition request_of_stream :: "(string list \<Rightarrow> string list) \<Rightarrow> address \<Rightarrow> string \<Rightarrow> string \<Rightarrow> string \<Rightarrow> bool \<Rightarrow> fields \<Rightarrow> string" where
  "request_of_stream ord a method path stream failed header =
     (let content_length = (if failed then - 1 else int (length stream)) in
      create_request_header a method path header
      @ (if 0 < content_length \<and> header_find ord ''Content-Length'' header = None
           \<and> header_find ord ''Transfer-Encoding'' header \<noteq> Some ''chunked''
         then field_lines [(''Content-Length'', show_int content_length)] else [])
      @ [CR, newline] @ (if 0 < content_length then stream else []))"

lemma request_of_stream_content:
  "request_of_stream ord a method path stream failed header =
     client_request ord a method path (if failed then [] else stream) header"
  by (auto simp: request_of_stream_def client_request_def length_field_def field_lines_def show_int_def)

section \<open>Handlers\<close>

text \<open>The callback of the session \<open>s\<close>: the connection goes back, then the callback of the request is called.\<close>

definition call_back :: "(nat set \<Rightarrow> nat list) \<Rightarrow> nat \<Rightarrow> error_code option \<Rightarrow> client \<Rightarrow> client" where
  "call_back iter s ec st =
     await s Answered_session (log_event (Answer s ec)
       (st\<lparr>conn_pool := session_callback iter (ec \<noteq> None) (link_of st s) (conn_pool st)\<rparr>))"

definition write_request :: "nat \<Rightarrow> client \<Rightarrow> client" where
  "write_request s st = await s Writing (log_event (Request (link_of st s) s) (set_timeout (link_of st s) 0 st))"

definition socket_open :: "client \<Rightarrow> nat \<Rightarrow> bool" where
  "socket_open st i = (case sockets st i of Some k \<Rightarrow> is_open k | None \<Rightarrow> False)"

definition connect_http :: "settings \<Rightarrow> nat \<Rightarrow> client \<Rightarrow> client" where
  "connect_http cfg s st =
     (if \<not> socket_open st (link_of st s) then await s Resolving (set_timeout (link_of st s) (timeout_connect cfg) st)
      else write_request s st)"

definition connect_https :: "settings \<Rightarrow> nat \<Rightarrow> client \<Rightarrow> client" where
  "connect_https cfg s st =
     (if \<not> socket_open st (link_of st s) then await s Resolving st else write_request s st)"

definition connect :: "bool \<Rightarrow> settings \<Rightarrow> nat \<Rightarrow> client \<Rightarrow> client" where
  "connect tls cfg s st = (if tls then connect_https cfg s st else connect_http cfg s st)"

text \<open>Each handler starts with the lock of the \<open>ScopeRunner\<close>, which is refused once the client stops.\<close>

definition locked :: "nat \<Rightarrow> (client \<Rightarrow> client) \<Rightarrow> client \<Rightarrow> client" where
  "locked s f st = (if stopped st then await s Dropped_session st else f st)"

definition resolved :: "(nat set \<Rightarrow> nat list) \<Rightarrow> settings \<Rightarrow> bool \<Rightarrow> nat \<Rightarrow> error_code option \<Rightarrow> client \<Rightarrow> client" where
  "resolved iter cfg tls s ec st =
     (let i = link_of st s in
      locked s (\<lambda>st. case ec of
          Some e \<Rightarrow> call_back iter s (Some e) st
        | None \<Rightarrow> await s Opening (on_socket i (\<lambda>k. k\<lparr>is_open := True\<rparr>) (set_timeout i (timeout_connect cfg) st)))
        (if tls then st else cancel_timeout i st))"

definition handshake :: "settings \<Rightarrow> nat \<Rightarrow> client \<Rightarrow> client" where
  "handshake cfg s st =
     await s Handshaking (log_event (Hello (link_of st s)) (set_timeout (link_of st s) (timeout_connect cfg) st))"

definition connect_text :: "settings \<Rightarrow> string" where
  "connect_text cfg =
     (let host_port = host cfg @ '':'' @ show_nat (unat (port cfg))
      in ''CONNECT '' @ host_port @ '' HTTP/1.1'' @ [CR, newline] @ ''Host: '' @ host_port @ [CR, newline, CR, newline])"

definition socket_connected :: "(nat set \<Rightarrow> nat list) \<Rightarrow> settings \<Rightarrow> bool \<Rightarrow> nat \<Rightarrow> error_code option \<Rightarrow> client \<Rightarrow> client" where
  "socket_connected iter cfg tls s ec st =
     (let i = link_of st s in
      locked s (\<lambda>st. case ec of
          Some e \<Rightarrow> call_back iter s (Some e) st
        | None \<Rightarrow>
            if \<not> tls then write_request s st
            else if proxy_server cfg \<noteq> [] then
              await s Proxy_writing (log_event (Plain i (connect_text cfg)) (set_timeout i (timeout_connect cfg) st))
            else handshake cfg s st)
        (cancel_timeout i st))"

definition proxy_written :: "(nat set \<Rightarrow> nat list) \<Rightarrow> settings \<Rightarrow> nat \<Rightarrow> error_code option \<Rightarrow> client \<Rightarrow> client" where
  "proxy_written iter cfg s ec st =
     (let i = link_of st s in
      locked s (\<lambda>st. case ec of
          Some e \<Rightarrow> call_back iter s (Some e) st
        | None \<Rightarrow> await s Proxy_reading (set_timeout i (timeout_connect cfg) st))
        (cancel_timeout i st))"

text \<open>What came from the proxy is \<open>buf\<close>; \<open>full\<close> tells that it fills the buffer.\<close>

definition proxy_refuses :: "response \<Rightarrow> bool" where
  "proxy_refuses rs \<longleftrightarrow> rs_status_code rs = [] \<or> take 3 (rs_status_code rs) \<noteq> ''200''"

definition proxy_answered :: "(nat set \<Rightarrow> nat list) \<Rightarrow> settings \<Rightarrow> nat \<Rightarrow> error_code option \<Rightarrow> bool \<Rightarrow> string \<Rightarrow> client \<Rightarrow> client" where
  "proxy_answered iter cfg s ec full buf st =
     (let i = link_of st s in
      locked s (\<lambda>st.
          if (ec = None \<or> ec = Some Not_found) \<and> full then call_back iter s (Some Message_size) st
          else case ec of
            Some e \<Rightarrow> call_back iter s (Some e) st
          | None \<Rightarrow>
              (case ResponseMessage_parse (buf, True) empty_response of
                 Some (Inr (False, _)) \<Rightarrow> call_back iter s (Some Protocol_error_code) st
               | Some (Inr (True, rs, _)) \<Rightarrow>
                   if proxy_refuses rs then call_back iter s (Some Permission_denied) st
                   else handshake cfg s (log_event (Tunnel i) st)
               | _ \<Rightarrow> await s Escaped_session st))
        (cancel_timeout i st))"

definition handshaken :: "(nat set \<Rightarrow> nat list) \<Rightarrow> nat \<Rightarrow> error_code option \<Rightarrow> client \<Rightarrow> client" where
  "handshaken iter s ec st =
     (let i = link_of st s;
          st1 = (if ec = None then log_event (Secured i) (on_socket i (\<lambda>k. k\<lparr>secured := True\<rparr>) st) else st)
      in locked s (\<lambda>st. case ec of Some e \<Rightarrow> call_back iter s (Some e) st | None \<Rightarrow> write_request s st)
        (cancel_timeout i st1))"

definition request_written :: "(nat set \<Rightarrow> nat list) \<Rightarrow> nat \<Rightarrow> error_code option \<Rightarrow> client \<Rightarrow> client" where
  "request_written iter s ec st =
     (let i = link_of st s in
      locked s (\<lambda>st. case ec of
          Some e \<Rightarrow> call_back iter s (Some e) st
        | None \<Rightarrow> await s Reading_header (set_timeout i 0 st))
        (cancel_timeout i st))"

text \<open>How it goes on when the header or a part of the content has been read: another operation, the callback, or an
  exception.\<close>

datatype rest = Read_on | Finish "error_code option" | Throw

definition go_on :: "(nat set \<Rightarrow> nat list) \<Rightarrow> nat \<Rightarrow> rest \<Rightarrow> client \<Rightarrow> client" where
  "go_on iter s r st = (case r of
       Read_on \<Rightarrow> await s Reading_content (set_timeout (link_of st s) 0 st)
     | Finish ec \<Rightarrow> call_back iter s ec st
     | Throw \<Rightarrow> await s Escaped_session st)"

definition replace_link :: "settings \<Rightarrow> nat \<Rightarrow> nat \<Rightarrow> pool \<Rightarrow> client \<Rightarrow> client" where
  "replace_link cfg s new p st = st\<lparr>conn_pool := p, sockets := (sockets st)(new \<mapsto> new_socket cfg),
     sessions := (sessions st)[s := (sessions st ! s)\<lparr>link := new\<rparr>]\<rparr>"

definition header_read :: "(nat set \<Rightarrow> nat list) \<Rightarrow> settings \<Rightarrow> bool \<Rightarrow> nat \<Rightarrow> error_code option \<Rightarrow> bool \<Rightarrow> rest \<Rightarrow> nat
    \<Rightarrow> client \<Rightarrow> client" where
  "header_read iter cfg tls s ec full r new st =
     (let i = link_of st s in
      locked s (\<lambda>st.
          if (ec = None \<or> ec = Some Not_found) \<and> full then call_back iter s (Some Message_size) st
          else case ec of
            None \<Rightarrow> go_on iter s r (st\<lparr>conn_pool := header_arrived i (conn_pool st)\<rparr>)
          | Some e \<Rightarrow>
              if e \<noteq> Operation_aborted then
                (case reconnect new i (conn_pool st) of
                   Some p \<Rightarrow> connect tls cfg s (replace_link cfg s new p st)
                 | None \<Rightarrow> call_back iter s (Some e) st)
              else call_back iter s (Some e) st)
        (cancel_timeout i st))"

definition content_read :: "(nat set \<Rightarrow> nat list) \<Rightarrow> nat \<Rightarrow> rest \<Rightarrow> client \<Rightarrow> client" where
  "content_read iter s r st = locked s (go_on iter s r) (cancel_timeout (link_of st s) st)"

text \<open>A new request: \<open>get_connection\<close>, then \<open>connect\<close>.\<close>

definition start_request :: "(nat set \<Rightarrow> nat list) \<Rightarrow> settings \<Rightarrow> bool \<Rightarrow> nat \<Rightarrow> client \<Rightarrow> client" where
  "start_request iter cfg tls new st =
     (case get_connection iter new (conn_pool st) of (i, p) \<Rightarrow>
        connect tls cfg (length (sessions st))
          (st\<lparr>conn_pool := p, sockets := (if i = new then (sockets st)(new \<mapsto> new_socket cfg) else sockets st),
             sessions := sessions st @ [\<lparr>link = i, waiting = Starting\<rparr>]\<rparr>))"

definition stop_client :: "client \<Rightarrow> client" where
  "stop_client st = st\<lparr>conn_pool := client_stop (conn_pool st)\<rparr>"

definition destroy_client :: "client \<Rightarrow> client" where
  "destroy_client st = stop_client (st\<lparr>stopped := True\<rparr>)"

section \<open>Steps\<close>

definition waits :: "client \<Rightarrow> nat \<Rightarrow> waiting \<Rightarrow> bool" where
  "waits st s w \<longleftrightarrow> s < length (sessions st) \<and> waiting (sessions st ! s) = w"

text \<open>What \<open>async_read_until\<close> promises when it succeeds.\<close>

definition delimited :: "string \<Rightarrow> bool" where
  "delimited buf \<longleftrightarrow> (\<exists>a b. buf = a @ [CR, newline, CR, newline] @ b)"

inductive establish_step :: "(nat set \<Rightarrow> nat list) \<Rightarrow> settings \<Rightarrow> bool \<Rightarrow> client \<Rightarrow> client \<Rightarrow> bool" for iter cfg tls where
  request: "\<not> stopped st \<Longrightarrow> sockets st new = None \<Longrightarrow> establish_step iter cfg tls st (start_request iter cfg tls new st)"
| resolved: "waits st s Resolving \<Longrightarrow> establish_step iter cfg tls st (resolved iter cfg tls s ec st)"
| socket_connected: "waits st s Opening \<Longrightarrow> establish_step iter cfg tls st (socket_connected iter cfg tls s ec st)"
| proxy_written: "waits st s Proxy_writing \<Longrightarrow> establish_step iter cfg tls st (proxy_written iter cfg s ec st)"
| proxy_answered: "waits st s Proxy_reading \<Longrightarrow> ec = None \<longrightarrow> delimited buf \<Longrightarrow>
    establish_step iter cfg tls st (proxy_answered iter cfg s ec full buf st)"
| handshaken: "waits st s Handshaking \<Longrightarrow> establish_step iter cfg tls st (handshaken iter s ec st)"
| request_written: "waits st s Writing \<Longrightarrow> establish_step iter cfg tls st (request_written iter s ec st)"
| header_read: "waits st s Reading_header \<Longrightarrow> sockets st new = None \<Longrightarrow>
    establish_step iter cfg tls st (header_read iter cfg tls s ec full r new st)"
| content_read: "waits st s Reading_content \<Longrightarrow> establish_step iter cfg tls st (content_read iter s r st)"
| stop: "establish_step iter cfg tls st (stop_client st)"
| destroy: "establish_step iter cfg tls st (destroy_client st)"

end
