(* ===== verification/ConnectingSafety.thy ===== *)
theory ConnectingSafety
  imports Connecting
begin

text \<open>
  What holds of every run of \<open>Connecting\<close>: a request goes over a connection only after its handshake, and
  through a proxy only with its consent; every operation on a socket runs under the configured timeout; the
  callback of a session is called at most once; and the pool of connections moves as in \<open>HttpClient\<close>.
\<close>

section \<open>The order of events\<close>

text \<open>The trace has the newest event in front.\<close>

fun allowed :: "settings \<Rightarrow> bool \<Rightarrow> event \<Rightarrow> event list \<Rightarrow> bool" where
  "allowed cfg tls (Plain i t) es \<longleftrightarrow> tls \<and> proxy_server cfg \<noteq> [] \<and> t = connect_text cfg"
| "allowed cfg tls (Tunnel i) es \<longleftrightarrow> Plain i (connect_text cfg) \<in> set es"
| "allowed cfg tls (Hello i) es \<longleftrightarrow> tls \<and> (proxy_server cfg \<noteq> [] \<longrightarrow> Tunnel i \<in> set es)"
| "allowed cfg tls (Secured i) es \<longleftrightarrow> Hello i \<in> set es"
| "allowed cfg tls (Request i s) es \<longleftrightarrow> (tls \<longrightarrow> Secured i \<in> set es)"
| "allowed cfg tls (Answer s ec) es \<longleftrightarrow> True"

fun well_ordered :: "settings \<Rightarrow> bool \<Rightarrow> event list \<Rightarrow> bool" where
  "well_ordered cfg tls [] \<longleftrightarrow> True"
| "well_ordered cfg tls (e # es) \<longleftrightarrow> allowed cfg tls e es \<and> well_ordered cfg tls es"

lemma well_ordered_split: "well_ordered cfg tls (xs @ e # ys) \<Longrightarrow> allowed cfg tls e ys \<and> well_ordered cfg tls ys"
  by (induction xs) auto

lemma well_ordered_member:
  assumes "well_ordered cfg tls es" and "e \<in> set es"
  shows "\<exists>xs ys. es = xs @ e # ys \<and> allowed cfg tls e ys \<and> well_ordered cfg tls ys"
  using assms by (metis split_list well_ordered_split)

fun answer_count :: "nat \<Rightarrow> event list \<Rightarrow> nat" where
  "answer_count s [] = 0"
| "answer_count s (e # es) = (case e of Answer s' _ \<Rightarrow> if s' = s then 1 else 0 | _ \<Rightarrow> 0) + answer_count s es"

lemma answer_count_append [simp]: "answer_count s (es @ es') = answer_count s es + answer_count s es'"
  by (induction es) auto

section \<open>The invariant\<close>

definition links :: "client \<Rightarrow> nat multiset" where
  "links st = image_mset link (filter_mset (\<lambda>x. waiting x \<noteq> Answered_session) (mset (sessions st)))"

text \<open>What is known of a session on the socket \<open>k\<close> at \<open>i\<close>, by what it waits for.\<close>

definition phase :: "settings \<Rightarrow> bool \<Rightarrow> event list \<Rightarrow> nat \<Rightarrow> socket \<Rightarrow> waiting \<Rightarrow> bool" where
  "phase cfg tls tr i k w \<longleftrightarrow> (case w of
       Resolving \<Rightarrow> \<not> is_open k \<and> (\<not> tls \<longrightarrow> timer k = effective_timeout k (timeout_connect cfg))
     | Opening \<Rightarrow> timer k = effective_timeout k (timeout_connect cfg)
     | Proxy_writing \<Rightarrow> tls \<and> Plain i (connect_text cfg) \<in> set tr \<and> timer k = effective_timeout k (timeout_connect cfg)
     | Proxy_reading \<Rightarrow> tls \<and> Plain i (connect_text cfg) \<in> set tr \<and> timer k = effective_timeout k (timeout_connect cfg)
     | Handshaking \<Rightarrow> tls \<and> Hello i \<in> set tr \<and> timer k = effective_timeout k (timeout_connect cfg)
     | Writing \<Rightarrow> (tls \<longrightarrow> secured k) \<and> timer k = effective_timeout k 0
     | Reading_header \<Rightarrow> (tls \<longrightarrow> secured k) \<and> timer k = effective_timeout k 0
     | Reading_content \<Rightarrow> (tls \<longrightarrow> secured k) \<and> timer k = effective_timeout k 0
     | _ \<Rightarrow> True)"

lemma phase_mono: "phase cfg tls tr i k w \<Longrightarrow> phase cfg tls (es @ tr) i k w"
  by (auto simp: phase_def split: waiting.splits)

definition session_ok :: "settings \<Rightarrow> bool \<Rightarrow> client \<Rightarrow> nat \<Rightarrow> bool" where
  "session_ok cfg tls st s \<longleftrightarrow> waiting (sessions st ! s) \<noteq> Answered_session \<longrightarrow>
     (\<exists>k. sockets st (link_of st s) = Some k \<and> phase cfg tls (trace st) (link_of st s) k (waiting (sessions st ! s)))"

definition socket_ok :: "settings \<Rightarrow> client \<Rightarrow> bool" where
  "socket_ok cfg st \<longleftrightarrow> (\<forall>i k. sockets st i = Some k \<longrightarrow>
     conn_timeout k = timeout cfg \<and> (secured k \<longrightarrow> Secured i \<in> set (trace st)))"

text \<open>A connection that nobody uses has a socket that is closed or secured.\<close>

definition idle_ok :: "bool \<Rightarrow> client \<Rightarrow> bool" where
  "idle_ok tls st \<longleftrightarrow> (\<forall>i \<in> unused (conn_pool st). \<exists>k. sockets st i = Some k \<and> (tls \<and> is_open k \<longrightarrow> secured k))"

definition pool_moves :: "(nat set \<Rightarrow> nat list) \<Rightarrow> client \<Rightarrow> bool" where
  "pool_moves iter st \<longleftrightarrow> (\<exists>held. mset held = links st \<and> (client_step iter)\<^sup>*\<^sup>* (Client_pool, []) (conn_pool st, held))"

definition establish_inv :: "(nat set \<Rightarrow> nat list) \<Rightarrow> settings \<Rightarrow> bool \<Rightarrow> client \<Rightarrow> bool" where
  "establish_inv iter cfg tls st \<longleftrightarrow> pool_moves iter st \<and> (\<forall>s < length (sessions st). session_ok cfg tls st s)
     \<and> socket_ok cfg st \<and> idle_ok tls st \<and> well_ordered cfg tls (trace st)
     \<and> (\<forall>s. answer_count s (trace st) = (if waits st s Answered_session then 1 else 0))"

lemma establish_inv_new: "establish_inv iter cfg tls client_new"
  by (auto simp: establish_inv_def client_new_def pool_moves_def links_def socket_ok_def idle_ok_def unused_def
      Client_pool_def waits_def)

section \<open>What the steps do\<close>

text \<open>A socket and the trace after a part of a handler.\<close>

definition moved :: "nat \<Rightarrow> socket \<Rightarrow> event list \<Rightarrow> client \<Rightarrow> client" where
  "moved i k es st = st\<lparr>sockets := (sockets st)(i \<mapsto> k), trace := es @ trace st\<rparr>"

lemma moved_simps [simp]:
  "sockets (moved i k es st) = (sockets st)(i \<mapsto> k)" "trace (moved i k es st) = es @ trace st"
  "conn_pool (moved i k es st) = conn_pool st" "sessions (moved i k es st) = sessions st"
  "stopped (moved i k es st) = stopped st" "link_of (moved i k es st) s = link_of st s"
  by (simp_all add: moved_def link_of_def)

lemma on_socket_moved [simp]: "on_socket i f (moved i k es st) = moved i (f k) es st"
  by (simp add: on_socket_def moved_def)

lemma log_event_moved [simp]: "log_event e (moved i k es st) = moved i k (e # es) st"
  by (simp add: log_event_def moved_def)

lemma on_socket_start: "sockets st i = Some k \<Longrightarrow> on_socket i f st = moved i (f k) [] st"
  by (simp add: on_socket_def moved_def)

lemma unmoved: "sockets st i = Some k \<Longrightarrow> moved i k [] st = st"
  by (simp add: moved_def fun_upd_idem)

lemma await_simps [simp]:
  "sockets (await s w st) = sockets st" "trace (await s w st) = trace st" "conn_pool (await s w st) = conn_pool st"
  "sessions (await s w st) = (sessions st)[s := (sessions st ! s)\<lparr>waiting := w\<rparr>]" "stopped (await s w st) = stopped st"
  by (simp_all add: await_def)

lemma link_of_await [simp]: "s < length (sessions st) \<Longrightarrow> link_of (await s w st) s' = link_of st s'"
  by (cases "s' = s") (simp_all add: link_of_def)

lemma waits_await [simp]: "s < length (sessions st) \<Longrightarrow>
    waits (await s w st) s' w' \<longleftrightarrow> (if s' = s then w' = w else waits st s' w')"
  by (auto simp: waits_def nth_list_update)

text \<open>The connections of the sessions that are not answered are pairwise different and in use.\<close>

lemma pool_movesE:
  assumes "iterates iter" and "pool_moves iter st"
  obtains held where "mset held = links st" "(client_step iter)\<^sup>*\<^sup>* (Client_pool, []) (conn_pool st, held)"
    "pool_inv (conn_pool st, held)"
  using assms pool_inv_reachable [OF assms(1)] by (auto simp: pool_moves_def)

lemma live_link: "s < length (sessions st) \<Longrightarrow> waiting (sessions st ! s) \<noteq> Answered_session \<Longrightarrow> link_of st s \<in># links st"
  by (auto simp: links_def link_of_def)

lemma links_update:
  assumes "s < length (sessions st)" and "waiting (sessions st ! s) \<noteq> Answered_session"
  shows "image_mset link (filter_mset (\<lambda>x. waiting x \<noteq> Answered_session) (mset ((sessions st)[s := x]))) =
    (if waiting x \<noteq> Answered_session then add_mset (link x) (links st - {#link_of st s#}) else links st - {#link_of st s#})"
proof -
  have "sessions st ! s \<in># filter_mset (\<lambda>x. waiting x \<noteq> Answered_session) (mset (sessions st))" using assms by simp
  then have "image_mset link (filter_mset (\<lambda>x. waiting x \<noteq> Answered_session) (mset (sessions st)) - {#sessions st ! s#})
      = links st - {#link_of st s#}"
    by (simp add: links_def link_of_def image_mset_Diff)
  with assms show ?thesis by (simp add: mset_update)
qed

lemma other_link:
  assumes "iterates iter" and "pool_moves iter st" and "s < length (sessions st)" "s' < length (sessions st)" "s \<noteq> s'"
    and "waiting (sessions st ! s) \<noteq> Answered_session" "waiting (sessions st ! s') \<noteq> Answered_session"
  shows "link_of st s' \<noteq> link_of st s"
proof
  assume eq: "link_of st s' = link_of st s"
  obtain held where held: "mset held = links st" "pool_inv (conn_pool st, held)"
    using pool_movesE [OF assms(1,2)] by metis
  then have "distinct held" by (simp add: pool_inv_def)
  let ?gone = "(sessions st)[s := (sessions st ! s)\<lparr>waiting := Answered_session\<rparr>]"
  have "sessions st ! s' \<in> set ?gone" using assms(3-5) by (metis length_list_update nth_list_update_neq nth_mem)
  then have "link_of st s \<in># image_mset link (filter_mset (\<lambda>x. waiting x \<noteq> Answered_session) (mset ?gone))"
    using assms(7) eq by (auto simp: link_of_def intro!: image_eqI [of _ _ "sessions st ! s'"])
  then have "link_of st s \<in># links st - {#link_of st s#}"
    using links_update [OF assms(3,6), of "(sessions st ! s)\<lparr>waiting := Answered_session\<rparr>"] by simp
  moreover have "count (links st) (link_of st s) \<le> 1" using held \<open>distinct held\<close> by (metis distinct_count_atmost_1 le_refl zero_le)
  ultimately show False by (metis One_nat_def count_greater_zero_iff count_single diff_is_0_eq count_diff less_numeral_extra(3))
qed

lemma live_in_use:
  assumes "iterates iter" and "pool_moves iter st" and "i \<in># links st"
  shows "i \<notin> unused (conn_pool st)"
proof -
  obtain held where "mset held = links st" "pool_inv (conn_pool st, held)" using pool_movesE [OF assms(1,2)] by blast
  moreover from this(1) assms(3) have "i \<in> set held" by (metis set_mset_mset)
  ultimately show ?thesis by (auto simp: pool_inv_def unused_def)
qed

text \<open>The rest of the sessions and connections is not touched by a session that moves on its socket.\<close>

definition moves_to :: "settings \<Rightarrow> bool \<Rightarrow> client \<Rightarrow> nat \<Rightarrow> socket \<Rightarrow> event list \<Rightarrow> bool" where
  "moves_to cfg tls st s k es \<longleftrightarrow> s < length (sessions st) \<and> waiting (sessions st ! s) \<noteq> Answered_session
     \<and> conn_timeout k = timeout cfg \<and> (secured k \<longrightarrow> Secured (link_of st s) \<in> set (es @ trace st))
     \<and> well_ordered cfg tls (es @ trace st) \<and> (\<forall>s. answer_count s es = 0)"

lemma session_ok_other:
  assumes "iterates iter" and inv: "establish_inv iter cfg tls st" and "moves_to cfg tls st s k es"
    and "s' < length (sessions st)" "s' \<noteq> s"
  shows "session_ok cfg tls (moved (link_of st s) k es st) s'"
proof -
  have "session_ok cfg tls st s'" using inv assms(4) by (simp add: establish_inv_def)
  moreover have "link_of st s' \<noteq> link_of st s" if "waiting (sessions st ! s') \<noteq> Answered_session"
    using other_link [OF assms(1), of st s s'] inv assms that by (simp add: moves_to_def establish_inv_def)
  ultimately show ?thesis by (auto simp: session_ok_def intro: phase_mono)
qed

lemma session_ok_later:
  assumes "session_ok cfg tls st s" and "link_of st' s = link_of st s"
    and "waiting (sessions st' ! s) = waiting (sessions st ! s)" "sockets st' = sockets st" "trace st' = es @ trace st"
  shows "session_ok cfg tls st' s"
  using assms phase_mono unfolding session_ok_def by metis

lemma session_ok_sessions:
  "s' \<noteq> s \<Longrightarrow> session_ok cfg tls (await s w st) s' \<longleftrightarrow> session_ok cfg tls st s'"
  by (simp add: session_ok_def link_of_def)

lemma idle_ok_moved:
  assumes "iterates iter" and inv: "establish_inv iter cfg tls st" and "moves_to cfg tls st s k es"
  shows "idle_ok tls (moved (link_of st s) k es st)"
proof -
  have "link_of st s \<notin> unused (conn_pool st)"
    using live_in_use [OF assms(1), of st] live_link [of s st] inv assms(3) by (simp add: moves_to_def establish_inv_def)
  then show ?thesis using inv by (auto simp: establish_inv_def idle_ok_def)
qed

lemma socket_ok_moved:
  assumes "establish_inv iter cfg tls st" and "moves_to cfg tls st s k es"
  shows "socket_ok cfg (moved (link_of st s) k es st)"
  using assms by (auto simp: establish_inv_def socket_ok_def moves_to_def)

lemma inv_await:
  assumes iter: "iterates iter" and inv: "establish_inv iter cfg tls st" and m: "moves_to cfg tls st s k es"
    and w: "w \<noteq> Answered_session" and ph: "phase cfg tls (es @ trace st) (link_of st s) k w"
  shows "establish_inv iter cfg tls (await s w (moved (link_of st s) k es st))"
proof -
  let ?st = "await s w (moved (link_of st s) k es st)"
  have s: "s < length (sessions st)" "waiting (sessions st ! s) \<noteq> Answered_session" using m by (auto simp: moves_to_def)
  have "links ?st = links st"
    using links_update [OF s, of "(sessions st ! s)\<lparr>waiting := w\<rparr>"] w live_link [OF s] by (simp add: links_def link_of_def)
  then have "pool_moves iter ?st" using inv by (simp add: establish_inv_def pool_moves_def)
  moreover have "session_ok cfg tls ?st s'" if "s' < length (sessions st)" for s'
  proof (cases "s' = s")
    case True
    then show ?thesis using s ph by (simp add: session_ok_def link_of_def)
  next
    case False
    then show ?thesis using session_ok_other [OF iter inv m that] by (simp add: session_ok_sessions)
  qed
  moreover have "socket_ok cfg ?st" using socket_ok_moved [OF inv m] by (simp add: socket_ok_def)
  moreover have "idle_ok tls ?st" using idle_ok_moved [OF iter inv m] by (simp add: idle_ok_def)
  moreover have "answer_count s' (es @ trace st) = (if waits ?st s' Answered_session then 1 else 0)" for s'
    using inv m s w by (auto simp: establish_inv_def moves_to_def waits_def nth_list_update)
  ultimately show ?thesis using m by (simp add: establish_inv_def moves_to_def)
qed

lemma release_loop_keeps:
  "connections (release_loop ec i n js c) \<subseteq> connections c \<and> conns (release_loop ec i n js c) = conns c"
proof (induction ec i n js c rule: release_loop.induct)
  case (2 ec i n j js c)
  then show ?case by (simp del: One_nat_def) blast
qed simp

lemma released_failed: "i \<in> set js \<Longrightarrow> i \<notin> connections (release_loop True i n js c)"
proof (induction js arbitrary: n c)
  case (Cons j js)
  show ?case
  proof (cases "i = j")
    case True
    then show ?thesis using release_loop_keeps [of True i n js "c\<lparr>connections := connections c - {j}\<rparr>"] by auto
  next
    case False
    with Cons show ?thesis by simp
  qed
qed simp

lemma session_callback_unused:
  assumes "iterates iter" and "finite (connections c)" and "j \<in> unused (session_callback iter ec i c)"
  shows "j \<in> unused c \<or> j = i \<and> \<not> ec"
proof -
  let ?c1 = "set_conn i (\<lambda>k. k\<lparr>in_use := False\<rparr>) c"
  have it: "set (iter (connections ?c1)) = connections c" using assms(1,2) by (auto simp: iterates_def)
  have j: "j \<in> connections c" "\<not> in_use (conns ?c1 j)" "j \<in> connections (release_loop ec i 0 (iter (connections ?c1)) ?c1)"
    using assms(3) release_loop_keeps [of ec i 0 "iter (connections ?c1)" ?c1]
    by (auto simp: unused_def session_callback_def Let_def)
  show ?thesis
  proof (cases "j = i")
    case True
    with j it have "\<not> ec" using released_failed [of i "iter (connections ?c1)"] by (cases ec) auto
    with True show ?thesis by simp
  next
    case False
    with j show ?thesis by (simp add: unused_def)
  qed
qed

lemma inv_call_back:
  assumes iter: "iterates iter" and inv: "establish_inv iter cfg tls st" and m: "moves_to cfg tls st s k es"
    and ok: "ec = None \<Longrightarrow> tls \<Longrightarrow> secured k"
  shows "establish_inv iter cfg tls (call_back iter s ec (moved (link_of st s) k es st))"
proof -
  let ?i = "link_of st s"
  let ?st = "call_back iter s ec (moved ?i k es st)"
  let ?p = "session_callback iter (ec \<noteq> None) ?i (conn_pool st)"
  have s: "s < length (sessions st)" "waiting (sessions st ! s) \<noteq> Answered_session" using m by (auto simp: moves_to_def)
  have fields [simp]: "conn_pool ?st = ?p" "sockets ?st = sockets (moved ?i k es st)" "trace ?st = Answer s ec # es @ trace st"
    "sessions ?st = (sessions st)[s := (sessions st ! s)\<lparr>waiting := Answered_session\<rparr>]"
    by (simp_all add: call_back_def log_event_def)
  obtain held where held: "mset held = links st" "(client_step iter)\<^sup>*\<^sup>* (Client_pool, []) (conn_pool st, held)"
    "pool_inv (conn_pool st, held)" using pool_movesE [OF iter] inv by (auto simp: establish_inv_def)
  have "?i \<in> set held" using live_link [OF s] held(1) by (metis set_mset_mset)
  then have "(client_step iter)\<^sup>*\<^sup>* (Client_pool, []) (?p, remove1 ?i held)"
    using held(2) client_step.finish [of ?i held iter "conn_pool st" "ec \<noteq> None"] by (metis rtranclp.rtrancl_into_rtrancl)
  moreover have "mset (remove1 ?i held) = links ?st"
    using links_update [OF s, of "(sessions st ! s)\<lparr>waiting := Answered_session\<rparr>"] held(1) by (simp add: links_def)
  ultimately have "pool_moves iter ?st" unfolding pool_moves_def fields by blast
  moreover have "session_ok cfg tls ?st s'" if "s' < length (sessions st)" for s'
  proof (cases "s' = s")
    case True
    then show ?thesis using s by (simp add: session_ok_def)
  next
    case False
    have "session_ok cfg tls (moved ?i k es st) s'" using session_ok_other [OF iter inv m that False] .
    moreover have "link_of ?st s' = link_of (moved ?i k es st) s'" using False by (simp add: link_of_def [of ?st s'] link_of_def [of st s'])
    ultimately show ?thesis
      by (rule session_ok_later [of _ _ _ _ _ "[Answer s ec]"]) (use False in simp_all)
  qed
  moreover have "socket_ok cfg ?st" using socket_ok_moved [OF inv m] by (auto simp: socket_ok_def)
  moreover have "idle_ok tls ?st"
    unfolding idle_ok_def
  proof
    fix j assume "j \<in> unused (conn_pool ?st)"
    then have "j \<in> unused (conn_pool st) \<or> j = ?i \<and> ec = None"
      using session_callback_unused [OF iter, of "conn_pool st" j "ec \<noteq> None" ?i] held(3) by (auto simp: pool_inv_def)
    then show "\<exists>k. sockets ?st j = Some k \<and> (tls \<and> is_open k \<longrightarrow> secured k)"
      using idle_ok_moved [OF iter inv m] ok by (auto simp: idle_ok_def)
  qed
  moreover have "answer_count s' (trace ?st) = (if waits ?st s' Answered_session then 1 else 0)" for s'
    using inv m s by (auto simp: establish_inv_def moves_to_def waits_def nth_list_update)
  ultimately show ?thesis using m by (simp add: establish_inv_def moves_to_def)
qed

section \<open>Every step keeps the invariant\<close>

text \<open>A session that waits has a socket, and is where its phase says.\<close>

lemma waiting_session:
  assumes "establish_inv iter cfg tls st" and "waits st s w" and "w \<noteq> Answered_session"
  obtains k where "sockets st (link_of st s) = Some k" "phase cfg tls (trace st) (link_of st s) k w"
    "moves_to cfg tls st s k []" "s < length (sessions st)"
  using assms by (fastforce simp: establish_inv_def waits_def session_ok_def moves_to_def socket_ok_def)

text \<open>The three changes of a socket, and the events, that keep \<open>moves_to\<close>.\<close>

lemma moves_to_socket [intro]:
  assumes "moves_to cfg tls st s k es"
  shows "moves_to cfg tls st s (k\<lparr>timer := t\<rparr>) es" "moves_to cfg tls st s (k\<lparr>is_open := b\<rparr>) es"
  using assms by (simp_all add: moves_to_def)

lemma moves_to_event:
  "moves_to cfg tls st s k es \<Longrightarrow> allowed cfg tls e (es @ trace st) \<Longrightarrow> \<forall>s ec. e \<noteq> Answer s ec \<Longrightarrow> moves_to cfg tls st s k (e # es)"
  by (cases e) (auto simp: moves_to_def)

lemma effective_timeout_socket [simp]:
  "effective_timeout (k\<lparr>timer := t\<rparr>) n = effective_timeout k n" "effective_timeout (k\<lparr>is_open := b\<rparr>) n = effective_timeout k n"
  "effective_timeout (k\<lparr>secured := b\<rparr>) n = effective_timeout k n"
  by (simp_all add: effective_timeout_def)

lemma inv_locked:
  assumes "iterates iter" and "establish_inv iter cfg tls st" and m: "moves_to cfg tls st s k es"
    and "establish_inv iter cfg tls (f (moved (link_of st s) k es st))"
  shows "establish_inv iter cfg tls (locked s f (moved (link_of st s) k es st))"
  using assms inv_await [OF assms(1,2) m, of Dropped_session] by (simp add: locked_def phase_def)

lemma inv_failed:
  "iterates iter \<Longrightarrow> establish_inv iter cfg tls st \<Longrightarrow> moves_to cfg tls st s k es \<Longrightarrow>
    establish_inv iter cfg tls (call_back iter s (Some e) (moved (link_of st s) k es st))"
  by (rule inv_call_back) simp_all

lemma inv_write:
  assumes "iterates iter" and "establish_inv iter cfg tls st" and m: "moves_to cfg tls st s k es" and "tls \<Longrightarrow> secured k"
  shows "establish_inv iter cfg tls (write_request s (moved (link_of st s) k es st))"
proof -
  have "moves_to cfg tls st s (k\<lparr>timer := effective_timeout k 0\<rparr>) (Request (link_of st s) s # es)"
    using m assms(4) by (intro moves_to_event moves_to_socket) (auto simp: moves_to_def)
  from inv_await [OF assms(1,2) this, of Writing] assms(4) show ?thesis
    by (simp add: write_request_def set_timeout_def phase_def)
qed

lemma inv_handshake:
  assumes "iterates iter" and "establish_inv iter cfg tls st" and m: "moves_to cfg tls st s k es"
    and "tls" "proxy_server cfg \<noteq> [] \<Longrightarrow> Tunnel (link_of st s) \<in> set es"
  shows "establish_inv iter cfg tls (handshake cfg s (moved (link_of st s) k es st))"
proof -
  have "moves_to cfg tls st s (k\<lparr>timer := effective_timeout k (timeout_connect cfg)\<rparr>) (Hello (link_of st s) # es)"
    using m assms(4,5) by (intro moves_to_event moves_to_socket) auto
  from inv_await [OF assms(1,2) this, of Handshaking] assms(4) show ?thesis
    by (simp add: handshake_def set_timeout_def phase_def)
qed

text \<open>How a handler starts.\<close>

lemma handler_start:
  assumes "establish_inv iter cfg tls st" and "waits st s w" and "w \<noteq> Answered_session"
  obtains k t where "cancel_timeout (link_of st s) st = moved (link_of st s) k [] st" "moves_to cfg tls st s k []"
    "phase cfg tls (trace st) (link_of st s) (k\<lparr>timer := t\<rparr>) w"
proof -
  obtain k where k: "sockets st (link_of st s) = Some k" "phase cfg tls (trace st) (link_of st s) k w"
    "moves_to cfg tls st s k []" using waiting_session [OF assms] by blast
  show thesis
    by (rule that [of "k\<lparr>timer := None\<rparr>" "timer k"]) (use k in \<open>auto simp: cancel_timeout_def on_socket_start\<close>)
qed

lemma inv_resolved:
  assumes iter: "iterates iter" and inv: "establish_inv iter cfg tls st" and w: "waits st s Resolving"
  shows "establish_inv iter cfg tls (resolved iter cfg tls s ec st)"
proof -
  let ?i = "link_of st s"
  obtain k where k: "(if tls then st else cancel_timeout ?i st) = moved ?i k [] st" and m: "moves_to cfg tls st s k []"
  proof (cases tls)
    case True
    obtain k where k: "sockets st ?i = Some k" "moves_to cfg tls st s k []" using waiting_session [OF inv w] by blast
    show thesis by (rule that [OF _ k(2)]) (simp add: True unmoved [OF k(1)])
  next
    case False
    obtain k where k: "cancel_timeout ?i st = moved ?i k [] st" "moves_to cfg tls st s k []"
      using handler_start [OF inv w] by blast
    show thesis by (rule that [OF _ k(2)]) (simp add: False k(1))
  qed
  have "moves_to cfg tls st s (k\<lparr>timer := effective_timeout k (timeout_connect cfg), is_open := True\<rparr>) []"
    using m by (intro moves_to_socket)
  note o = inv_await [OF iter inv this, of Opening]
  show ?thesis
    unfolding resolved_def Let_def k
    by (rule inv_locked [OF iter inv m], cases ec) (use o inv_failed [OF iter inv m] in \<open>simp_all add: set_timeout_def phase_def\<close>)
qed

lemma inv_socket_connected:
  assumes iter: "iterates iter" and inv: "establish_inv iter cfg tls st" and w: "waits st s Opening"
  shows "establish_inv iter cfg tls (socket_connected iter cfg tls s ec st)"
proof -
  let ?i = "link_of st s"
  obtain k where k: "cancel_timeout ?i st = moved ?i k [] st" and m: "moves_to cfg tls st s k []"
    using handler_start [OF inv w] by blast
  have proxy: "establish_inv iter cfg tls (await s Proxy_writing (log_event (Plain ?i (connect_text cfg))
      (set_timeout ?i (timeout_connect cfg) (moved ?i k [] st))))" if "tls" "proxy_server cfg \<noteq> []"
  proof -
    have "moves_to cfg tls st s (k\<lparr>timer := effective_timeout k (timeout_connect cfg)\<rparr>) [Plain ?i (connect_text cfg)]"
      using m that by (intro moves_to_event moves_to_socket) auto
    from inv_await [OF iter inv this, of Proxy_writing] that show ?thesis by (simp add: set_timeout_def phase_def)
  qed
  show ?thesis
    unfolding socket_connected_def Let_def k
    by (rule inv_locked [OF iter inv m], cases ec)
       (use proxy inv_failed [OF iter inv m] inv_write [OF iter inv m] inv_handshake [OF iter inv m] in auto)
qed

lemma inv_proxy_written:
  assumes iter: "iterates iter" and inv: "establish_inv iter cfg tls st" and w: "waits st s Proxy_writing"
  shows "establish_inv iter cfg tls (proxy_written iter cfg s ec st)"
proof -
  let ?i = "link_of st s"
  obtain k t where k: "cancel_timeout ?i st = moved ?i k [] st" and m: "moves_to cfg tls st s k []"
    and ph: "phase cfg tls (trace st) ?i (k\<lparr>timer := t\<rparr>) Proxy_writing"
    using handler_start [OF inv w] by blast
  have "moves_to cfg tls st s (k\<lparr>timer := effective_timeout k (timeout_connect cfg)\<rparr>) []" using m by blast
  note o = inv_await [OF iter inv this, of Proxy_reading]
  show ?thesis
    unfolding proxy_written_def Let_def k
    by (rule inv_locked [OF iter inv m], cases ec)
       (use o ph inv_failed [OF iter inv m] in \<open>simp_all add: set_timeout_def phase_def\<close>)
qed

lemma inv_proxy_answered:
  assumes iter: "iterates iter" and inv: "establish_inv iter cfg tls st" and w: "waits st s Proxy_reading"
  shows "establish_inv iter cfg tls (proxy_answered iter cfg s ec full buf st)"
proof -
  let ?i = "link_of st s"
  obtain k t where k: "cancel_timeout ?i st = moved ?i k [] st" and m: "moves_to cfg tls st s k []"
    and ph: "phase cfg tls (trace st) ?i (k\<lparr>timer := t\<rparr>) Proxy_reading"
    using handler_start [OF inv w] by blast
  have t: "moves_to cfg tls st s k [Tunnel ?i]" using m ph by (intro moves_to_event) (auto simp: phase_def)
  have tls: tls using ph by (simp add: phase_def)
  have escaped: "establish_inv iter cfg tls (await s Escaped_session (moved ?i k [] st))"
    using inv_await [OF iter inv m, of Escaped_session] by (simp add: phase_def)
  show ?thesis
    unfolding proxy_answered_def Let_def k
    by (rule inv_locked [OF iter inv m])
       (auto simp: escaped inv_failed [OF iter inv m] inv_handshake [OF iter inv t tls] split: option.splits sum.splits bool.splits)
qed

lemma inv_handshaken:
  assumes iter: "iterates iter" and inv: "establish_inv iter cfg tls st" and w: "waits st s Handshaking"
  shows "establish_inv iter cfg tls (handshaken iter s ec st)"
proof (cases ec)
  case None
  let ?i = "link_of st s"
  obtain k where k: "sockets st ?i = Some k" "phase cfg tls (trace st) ?i k Handshaking" and m: "moves_to cfg tls st s k []"
    using waiting_session [OF inv w] by blast
  let ?k = "k\<lparr>secured := True, timer := None\<rparr>"
  have "moves_to cfg tls st s k [Secured ?i]" using m k(2) by (intro moves_to_event) (auto simp: phase_def)
  then have m': "moves_to cfg tls st s ?k [Secured ?i]" by (simp add: moves_to_def)
  have "handshaken iter s ec st = locked s (write_request s) (moved ?i ?k [Secured ?i] st)"
    using None k(1) by (simp add: handshaken_def Let_def on_socket_start cancel_timeout_def)
  then show ?thesis using inv_locked [OF iter inv m'] inv_write [OF iter inv m'] by simp
next
  case (Some e)
  let ?i = "link_of st s"
  obtain k where k: "cancel_timeout ?i st = moved ?i k [] st" and m: "moves_to cfg tls st s k []"
    using handler_start [OF inv w] by blast
  have "handshaken iter s ec st = locked s (call_back iter s (Some e)) (moved ?i k [] st)"
    using Some k by (simp add: handshaken_def Let_def)
  then show ?thesis using inv_locked [OF iter inv m] inv_failed [OF iter inv m] by simp
qed

lemma inv_request_written:
  assumes iter: "iterates iter" and inv: "establish_inv iter cfg tls st" and w: "waits st s Writing"
  shows "establish_inv iter cfg tls (request_written iter s ec st)"
proof -
  let ?i = "link_of st s"
  obtain k t where k: "cancel_timeout ?i st = moved ?i k [] st" and m: "moves_to cfg tls st s k []"
    and ph: "phase cfg tls (trace st) ?i (k\<lparr>timer := t\<rparr>) Writing"
    using handler_start [OF inv w] by blast
  have "moves_to cfg tls st s (k\<lparr>timer := effective_timeout k 0\<rparr>) []" using m by blast
  note o = inv_await [OF iter inv this, of Reading_header]
  show ?thesis
    unfolding request_written_def Let_def k
    by (rule inv_locked [OF iter inv m], cases ec)
       (use o ph inv_failed [OF iter inv m] in \<open>simp_all add: set_timeout_def phase_def\<close>)
qed

lemma inv_go_on:
  assumes iter: "iterates iter" and inv: "establish_inv iter cfg tls st" and m: "moves_to cfg tls st s k es"
    and tls: "tls \<Longrightarrow> secured k"
  shows "establish_inv iter cfg tls (go_on iter s r (moved (link_of st s) k es st))"
proof -
  have "moves_to cfg tls st s (k\<lparr>timer := effective_timeout k 0\<rparr>) es" using m by blast
  from inv_await [OF iter inv this, of Reading_content] inv_await [OF iter inv m, of Escaped_session] inv_call_back [OF iter inv m] tls
  show ?thesis by (auto simp: go_on_def set_timeout_def phase_def split: rest.splits)
qed

lemma inv_content_read:
  assumes iter: "iterates iter" and inv: "establish_inv iter cfg tls st" and w: "waits st s Reading_content"
  shows "establish_inv iter cfg tls (content_read iter s r st)"
proof -
  let ?i = "link_of st s"
  obtain k t where k: "cancel_timeout ?i st = moved ?i k [] st" and m: "moves_to cfg tls st s k []"
    and ph: "phase cfg tls (trace st) ?i (k\<lparr>timer := t\<rparr>) Reading_content"
    using handler_start [OF inv w] by blast
  show ?thesis
    unfolding content_read_def k
    by (rule inv_locked [OF iter inv m] inv_go_on [OF iter inv m])+ (use ph in \<open>simp add: phase_def\<close>)
qed

lemma inv_header_arrived:
  assumes iter: "iterates iter" and inv: "establish_inv iter cfg tls st" and i: "i \<in># links st"
  shows "establish_inv iter cfg tls (st\<lparr>conn_pool := header_arrived i (conn_pool st)\<rparr>)"
proof -
  let ?st = "st\<lparr>conn_pool := header_arrived i (conn_pool st)\<rparr>"
  obtain held where held: "mset held = links st" "(client_step iter)\<^sup>*\<^sup>* (Client_pool, []) (conn_pool st, held)"
    using inv by (auto simp: establish_inv_def pool_moves_def)
  have "i \<in> set held" using i held(1) by (metis set_mset_mset)
  then have "(client_step iter)\<^sup>*\<^sup>* (Client_pool, []) (conn_pool ?st, held)"
    using held(2) client_step.header [of i held iter "conn_pool st"] by simp
  then have "pool_moves iter ?st" using held(1) by (auto simp: pool_moves_def links_def)
  moreover have "unused (conn_pool ?st) = unused (conn_pool st)" by (auto simp: unused_def header_arrived_def)
  then have "idle_ok tls ?st" using inv by (simp add: establish_inv_def idle_ok_def)
  moreover have "session_ok cfg tls ?st s = session_ok cfg tls st s" "waits ?st s w = waits st s w" for s w
    by (simp_all add: session_ok_def link_of_def waits_def)
  moreover have "socket_ok cfg ?st = socket_ok cfg st" by (simp add: socket_ok_def)
  ultimately show ?thesis using inv by (simp add: establish_inv_def)
qed

lemma replace_link_simps [simp]:
  "conn_pool (replace_link cfg s new p st) = p" "sockets (replace_link cfg s new p st) = (sockets st)(new \<mapsto> new_socket cfg)"
  "sessions (replace_link cfg s new p st) = (sessions st)[s := (sessions st ! s)\<lparr>link := new\<rparr>]"
  "trace (replace_link cfg s new p st) = trace st" "stopped (replace_link cfg s new p st) = stopped st"
  by (simp_all add: replace_link_def)

lemma session_update: "(x :: session)\<lparr>link := i, waiting := w\<rparr> = \<lparr>link = i, waiting = w\<rparr>"
  by (cases x) simp

text \<open>A session on a new socket waits for its address.\<close>

lemma connect_new:
  assumes "sockets st (link_of st s) = Some (new_socket cfg)"
  obtains k where "connect tls cfg s st = await s Resolving (moved (link_of st s) k [] st)"
    "conn_timeout k = timeout cfg" "\<not> secured k" "\<not> is_open k" "\<not> tls \<Longrightarrow> timer k = effective_timeout k (timeout_connect cfg)"
proof (cases tls)
  case True
  then show ?thesis using that [of "new_socket cfg"] assms unmoved [OF assms]
    by (simp add: connect_def connect_https_def socket_open_def new_socket_def)
next
  case False
  then show ?thesis
    using that [of "(new_socket cfg)\<lparr>timer := effective_timeout (new_socket cfg) (timeout_connect cfg)\<rparr>"] assms
    by (simp add: connect_def connect_http_def socket_open_def set_timeout_def on_socket_start) (simp add: new_socket_def)
qed

lemma live_socket:
  assumes "establish_inv iter cfg tls st" and "i \<in># links st"
  shows "sockets st i \<noteq> None"
proof -
  from assms(2) obtain x where "x \<in> set (sessions st)" "waiting x \<noteq> Answered_session" "i = link x"
    by (auto simp: links_def)
  then obtain s where "s < length (sessions st)" "waiting (sessions st ! s) \<noteq> Answered_session" "i = link_of st s"
    unfolding link_of_def by (metis in_set_conv_nth)
  then show ?thesis using assms(1) by (auto simp: establish_inv_def session_ok_def)
qed

lemma fresh_address:
  assumes "establish_inv iter cfg tls st" and "sockets st new = None" and "mset held = links st" "pool_inv (conn_pool st, held)"
  shows "new \<notin> connections (conn_pool st) \<union> set held"
proof -
  have "new \<notin> set held" using live_socket [OF assms(1)] assms(2,3) by (metis set_mset_mset)
  moreover have "new \<notin> unused (conn_pool st)" using assms(1,2) by (force simp: establish_inv_def idle_ok_def)
  ultimately show ?thesis using assms(4) by (auto simp: pool_inv_def)
qed

lemma inv_reconnect:
  assumes iter: "iterates iter" and inv: "establish_inv iter cfg tls st" and m: "moves_to cfg tls st s k []"
    and new: "sockets st new = None" and p: "reconnect new (link_of st s) (conn_pool st) = Some p"
  shows "establish_inv iter cfg tls (connect tls cfg s (replace_link cfg s new p (moved (link_of st s) k [] st)))"
proof -
  let ?i = "link_of st s"
  let ?r = "replace_link cfg s new p (moved ?i k [] st)"
  have s: "s < length (sessions st)" "waiting (sessions st ! s) \<noteq> Answered_session" using m by (auto simp: moves_to_def)
  have ri: "link_of ?r s = new" using s by (simp add: link_of_def)
  obtain k' where c: "connect tls cfg s ?r = await s Resolving (moved new k' [] ?r)"
    and k': "conn_timeout k' = timeout cfg" "\<not> secured k'" "\<not> is_open k'" "\<not> tls \<Longrightarrow> timer k' = effective_timeout k' (timeout_connect cfg)"
    using connect_new [of ?r s cfg tls] ri by auto
  let ?st = "await s Resolving (moved new k' [] ?r)"
  have fields [simp]: "conn_pool ?st = p" "sockets ?st = (sockets st)(?i \<mapsto> k, new \<mapsto> k')" "trace ?st = trace st"
    "sessions ?st = (sessions st)[s := \<lparr>link = new, waiting = Resolving\<rparr>]"
    using s by (simp_all add: session_update)
  obtain held where held: "mset held = links st" "(client_step iter)\<^sup>*\<^sup>* (Client_pool, []) (conn_pool st, held)"
    "pool_inv (conn_pool st, held)" using pool_movesE [OF iter] inv by (auto simp: establish_inv_def)
  have fresh: "new \<notin> connections (conn_pool st) \<union> set held" using fresh_address [OF inv new held(1,3)] .
  have i: "?i \<in> set held" using live_link [OF s] held(1) by (metis set_mset_mset)
  have "(client_step iter)\<^sup>*\<^sup>* (Client_pool, []) (p, new # remove1 ?i held)"
    using held(2) client_step.broken [OF i fresh p] by (metis rtranclp.rtrancl_into_rtrancl)
  moreover have "mset (new # remove1 ?i held) = links ?st"
    using links_update [OF s, of "\<lparr>link = new, waiting = Resolving\<rparr>"] held(1) unfolding links_def fields by simp
  ultimately have "pool_moves iter ?st" unfolding pool_moves_def fields by blast
  moreover have "session_ok cfg tls ?st s'" if "s' < length (sessions st)" for s'
  proof (cases "s' = s")
    case True
    then show ?thesis using s k' by (simp add: session_ok_def link_of_def phase_def)
  next
    case False
    have "session_ok cfg tls (moved ?i k [] st) s'" using session_ok_other [OF iter inv m that False] .
    moreover have "link_of ?st s' = link_of st s'" using False by (simp add: link_of_def [of ?st s'] link_of_def [of st s'])
    moreover have "link_of st s' \<noteq> new" if "waiting (sessions st ! s') \<noteq> Answered_session"
      using live_socket [OF inv live_link [OF \<open>s' < length (sessions st)\<close> that]] new by metis
    ultimately show ?thesis using False by (auto simp: session_ok_def simp del: await_simps)
  qed
  moreover have "socket_ok cfg ?st" using inv m k' by (auto simp: establish_inv_def socket_ok_def moves_to_def)
  moreover have "idle_ok tls ?st"
    unfolding idle_ok_def
  proof
    fix j assume "j \<in> unused (conn_pool ?st)"
    then have j: "j \<in> unused (conn_pool st)" "j \<noteq> new"
      using p by (auto simp: unused_def reconnect_def split: if_splits)
    moreover have "j \<noteq> ?i" using live_in_use [OF iter _ live_link [OF s]] inv j(1) by (auto simp: establish_inv_def)
    ultimately show "\<exists>k. sockets ?st j = Some k \<and> (tls \<and> is_open k \<longrightarrow> secured k)"
      using inv by (simp add: establish_inv_def idle_ok_def)
  qed
  moreover have "answer_count s' (trace st) = (if waits ?st s' Answered_session then 1 else 0)" for s'
    using inv s by (auto simp: establish_inv_def waits_def nth_list_update)
  ultimately have "establish_inv iter cfg tls ?st" using m by (simp add: establish_inv_def moves_to_def)
  then show ?thesis using c by simp
qed

lemma inv_header_read:
  assumes iter: "iterates iter" and inv: "establish_inv iter cfg tls st" and w: "waits st s Reading_header"
    and new: "sockets st new = None"
  shows "establish_inv iter cfg tls (header_read iter cfg tls s ec full r new st)"
proof -
  let ?i = "link_of st s"
  let ?h = "st\<lparr>conn_pool := header_arrived ?i (conn_pool st)\<rparr>"
  obtain k t where k: "cancel_timeout ?i st = moved ?i k [] st" and m: "moves_to cfg tls st s k []"
    and ph: "phase cfg tls (trace st) ?i (k\<lparr>timer := t\<rparr>) Reading_header"
    using handler_start [OF inv w] by blast
  have s: "s < length (sessions st)" "waiting (sessions st ! s) \<noteq> Answered_session" using m by (auto simp: moves_to_def)
  have tls: "tls \<Longrightarrow> secured k" using ph by (simp add: phase_def)
  have "establish_inv iter cfg tls ?h" using inv_header_arrived [OF iter inv live_link [OF s]] .
  moreover have "moves_to cfg tls ?h s k []" "link_of ?h s = ?i" using m by (simp_all add: moves_to_def link_of_def)
  moreover have eq: "moved ?i k [] ?h = (moved ?i k [] st)\<lparr>conn_pool := header_arrived ?i (conn_pool st)\<rparr>"
    by (simp add: moved_def)
  ultimately have on: "establish_inv iter cfg tls (go_on iter s r ((moved ?i k [] st)\<lparr>conn_pool := header_arrived ?i (conn_pool st)\<rparr>))"
    using inv_go_on [OF iter, of cfg tls ?h s k "[]" r] tls unfolding eq [symmetric] by simp
  show ?thesis
    unfolding header_read_def Let_def k
    by (rule inv_locked [OF iter inv m])
       (auto simp: on inv_failed [OF iter inv m] inv_reconnect [OF iter inv m new] split: option.splits)
qed

lemma inv_connect:
  assumes iter: "iterates iter" and inv: "establish_inv iter cfg tls st" and w: "waits st s Starting"
    and sock: "sockets st (link_of st s) = Some k" "\<not> (tls \<and> is_open k \<and> \<not> secured k)"
  shows "establish_inv iter cfg tls (connect tls cfg s st)"
proof -
  have m: "moves_to cfg tls st s k []" using waiting_session [OF inv w] sock(1) by auto
  then have "moves_to cfg tls st s (k\<lparr>timer := effective_timeout k (timeout_connect cfg)\<rparr>) []" by blast
  note timed = inv_await [OF iter inv this, of Resolving]
  show ?thesis
  proof (cases "is_open k")
    case True
    then show ?thesis using inv_write [OF iter inv m] sock
      by (cases tls) (simp_all add: unmoved connect_def connect_http_def connect_https_def socket_open_def)
  next
    case False
    then show ?thesis using timed inv_await [OF iter inv m, of Resolving] sock(1)
      by (cases tls) (simp_all add: unmoved connect_def connect_http_def connect_https_def socket_open_def phase_def set_timeout_def on_socket_start)
  qed
qed

lemma inv_start_request:
  assumes iter: "iterates iter" and inv: "establish_inv iter cfg tls st" and new: "sockets st new = None"
  shows "establish_inv iter cfg tls (start_request iter cfg tls new st)"
proof -
  obtain i p where g: "get_connection iter new (conn_pool st) = (i, p)" by (cases "get_connection iter new (conn_pool st)")
  let ?s = "length (sessions st)"
  let ?r = "st\<lparr>conn_pool := p, sockets := (if i = new then (sockets st)(new \<mapsto> new_socket cfg) else sockets st),
    sessions := sessions st @ [\<lparr>link = i, waiting = Starting\<rparr>]\<rparr>"
  obtain held where held: "mset held = links st" "(client_step iter)\<^sup>*\<^sup>* (Client_pool, []) (conn_pool st, held)"
    "pool_inv (conn_pool st, held)" using pool_movesE [OF iter] inv by (auto simp: establish_inv_def)
  have fresh: "new \<notin> connections (conn_pool st) \<union> set held" using fresh_address [OF inv new held(1,3)] .
  have fin: "finite (connections (conn_pool st))" using held(3) by (simp add: pool_inv_def)
  note cases = get_connection_cases [OF iter fin g]
  have "(client_step iter)\<^sup>*\<^sup>* (Client_pool, []) (p, i # held)"
    using held(2) client_step.request [OF fresh g] by (metis rtranclp.rtrancl_into_rtrancl)
  then have "pool_moves iter ?r" using held(1) by (auto simp: pool_moves_def links_def intro!: exI [of _ "i # held"])
  moreover have others: "session_ok cfg tls ?r s" if "s < length (sessions st)" for s
  proof -
    have "link_of ?r s = link_of st s" "sessions ?r ! s = sessions st ! s" using that by (simp_all add: link_of_def nth_append)
    moreover have "session_ok cfg tls st s" using inv that by (simp add: establish_inv_def)
    ultimately show ?thesis using new by (auto simp: session_ok_def)
  qed
  moreover have sock: "\<exists>k. sockets ?r i = Some k \<and> \<not> (tls \<and> is_open k \<and> \<not> secured k)"
    using cases inv by (auto simp: establish_inv_def idle_ok_def new_socket_def)
  moreover have "unused p \<subseteq> unused (conn_pool st)" "new \<notin> unused p" using cases fresh by (auto simp: unused_def)
  then have "idle_ok tls ?r" using inv by (auto simp: idle_ok_def establish_inv_def)
  moreover have "socket_ok cfg ?r" using inv by (auto simp: socket_ok_def establish_inv_def new_socket_def)
  moreover have "well_ordered cfg tls (trace ?r)" using inv by (simp add: establish_inv_def)
  moreover have "answer_count s (trace ?r) = (if waits ?r s Answered_session then 1 else 0)" for s
    using inv by (auto simp: establish_inv_def waits_def nth_append)
  moreover have "session_ok cfg tls ?r ?s" using sock by (auto simp: session_ok_def link_of_def phase_def)
  ultimately have r: "establish_inv iter cfg tls ?r" using less_Suc_eq by (auto simp: establish_inv_def)
  have "waits ?r ?s Starting" by (simp add: waits_def)
  moreover have "link_of ?r ?s = i" by (simp add: link_of_def)
  ultimately have "establish_inv iter cfg tls (connect tls cfg ?s ?r)" using inv_connect [OF iter r] sock by metis
  then show ?thesis by (simp add: start_request_def g)
qed

lemma inv_stop:
  assumes iter: "iterates iter" and inv: "establish_inv iter cfg tls st"
  shows "establish_inv iter cfg tls (stop_client (st\<lparr>stopped := b\<rparr>))"
proof -
  let ?st = "stop_client (st\<lparr>stopped := b\<rparr>)"
  obtain held where "mset held = links st" "(client_step iter)\<^sup>*\<^sup>* (Client_pool, []) (conn_pool st, held)"
    using inv by (auto simp: establish_inv_def pool_moves_def)
  then have "pool_moves iter ?st" using client_step.stop [of iter "conn_pool st" held]
    by (auto simp: pool_moves_def links_def stop_client_def intro: rtranclp.rtrancl_into_rtrancl)
  moreover have "idle_ok tls ?st" by (simp add: idle_ok_def unused_def stop_client_def client_stop_def)
  moreover have "session_ok cfg tls ?st s = session_ok cfg tls st s" "waits ?st s w = waits st s w" for s w
    by (simp_all add: session_ok_def link_of_def waits_def stop_client_def)
  ultimately show ?thesis using inv by (simp add: establish_inv_def socket_ok_def stop_client_def)
qed

lemma establish_inv_step:
  assumes iter: "iterates iter" and "establish_step iter cfg tls st st'" and "establish_inv iter cfg tls st"
  shows "establish_inv iter cfg tls st'"
  using assms(2,3)
proof cases
  case stop
  then show ?thesis using inv_stop [OF iter assms(3), of "stopped st"] by simp
qed (simp_all add: iter inv_start_request inv_resolved inv_socket_connected inv_proxy_written inv_proxy_answered inv_handshaken
    inv_request_written inv_header_read inv_content_read inv_stop destroy_client_def)

lemma establish_inv_reachable:
  assumes "iterates iter" and "(establish_step iter cfg tls)\<^sup>*\<^sup>* client_new st"
  shows "establish_inv iter cfg tls st"
  using assms(2) by (induction rule: rtranclp_induct) (auto intro: establish_inv_new establish_inv_step [OF assms(1)])

section \<open>What holds of every run\<close>

text \<open>C19: Over HTTPS the text of a request is never given to a connection before a handshake on it has succeeded;
  with a proxy the handshake starts only after the proxy has been asked and has consented, and the request to
  it is all that goes over in the clear.\<close>

theorem request_follows_handshake:
  assumes "iterates iter" and "(establish_step iter cfg True)\<^sup>*\<^sup>* client_new st"
    and "trace st = later @ Request i s # earlier"
  shows "(\<exists>a b. earlier = a @ Secured i # b \<and> Hello i \<in> set b
      \<and> (proxy_server cfg \<noteq> [] \<longrightarrow> (\<exists>c d. b = c @ Tunnel i # d \<and> Plain i (connect_text cfg) \<in> set d)))
    \<and> (\<forall>j t. Plain j t \<in> set (trace st) \<longrightarrow> proxy_server cfg \<noteq> [] \<and> t = connect_text cfg)"
proof -
  have wo: "well_ordered cfg True (trace st)" using establish_inv_reachable [OF assms(1,2)] by (simp add: establish_inv_def)
  then have "Secured i \<in> set earlier" "well_ordered cfg True earlier" using assms(3) well_ordered_split by fastforce+
  then obtain a b where b: "earlier = a @ Secured i # b" "Hello i \<in> set b" "well_ordered cfg True b"
    using well_ordered_member by (metis allowed.simps(4))
  have "\<exists>c d. b = c @ Tunnel i # d \<and> Plain i (connect_text cfg) \<in> set d" if "proxy_server cfg \<noteq> []"
  proof -
    obtain c d where d: "b = c @ Hello i # d" "allowed cfg True (Hello i) d" "well_ordered cfg True d"
      using well_ordered_member [OF b(3,2)] by blast
    then have "Tunnel i \<in> set d" using that by simp
    then obtain e f where f: "d = e @ Tunnel i # f" "allowed cfg True (Tunnel i) f"
      using well_ordered_member [OF d(3)] by blast
    then have "b = (c @ Hello i # e) @ Tunnel i # f" "Plain i (connect_text cfg) \<in> set f" using d(1) by simp_all
    then show ?thesis by blast
  qed
  moreover have "proxy_server cfg \<noteq> [] \<and> t = connect_text cfg" if "Plain j t \<in> set (trace st)" for j t
    using well_ordered_member [OF wo that] by auto
  ultimately show ?thesis using b(1,2) by blast
qed

text \<open>The timeout that the configuration has for an operation.\<close>

definition configured_timeout :: "settings \<Rightarrow> waiting \<Rightarrow> int option" where
  "configured_timeout cfg w =
     (let t = (if w \<in> {Writing, Reading_header, Reading_content} \<or> timeout_connect cfg = 0 then timeout cfg
               else timeout_connect cfg)
      in if t = 0 then None else Some t)"

text \<open>How a session ends without its callback: a handler finds the client stopped, or an exception leaves a handler.
  The exception can only be one of reading the response, after the request has been written: the answer of a
  proxy that has been read up to its empty line is always parsed.\<close>

definition sent :: "nat \<Rightarrow> client \<Rightarrow> bool" where
  "sent s st \<longleftrightarrow> (\<exists>i. Request i s \<in> set (trace st))"

definition end_ok :: "nat \<Rightarrow> waiting \<Rightarrow> client \<Rightarrow> bool" where
  "end_ok s w st \<longleftrightarrow> (w = Dropped_session \<longrightarrow> stopped st)
     \<and> (w \<in> {Writing, Reading_header, Reading_content, Escaped_session} \<longrightarrow> sent s st)"

definition ends_ok :: "client \<Rightarrow> bool" where
  "ends_ok st \<longleftrightarrow> (\<forall>s w. waits st s w \<longrightarrow> end_ok s w st)"

lemma end_part_simps [simp]:
  "trace (on_socket i f st) = trace st" "sessions (on_socket i f st) = sessions st" "stopped (on_socket i f st) = stopped st"
  "trace (set_timeout i t st) = trace st" "sessions (set_timeout i t st) = sessions st" "stopped (set_timeout i t st) = stopped st"
  "trace (cancel_timeout i st) = trace st" "sessions (cancel_timeout i st) = sessions st" "stopped (cancel_timeout i st) = stopped st"
  "trace (log_event e st) = e # trace st" "sessions (log_event e st) = sessions st" "stopped (log_event e st) = stopped st"
  by (simp_all add: on_socket_def set_timeout_def cancel_timeout_def log_event_def)

text \<open>The sessions but \<open>s\<close> wait for what they did, and \<open>s\<close> is in a state it may be in.\<close>

definition advances :: "nat \<Rightarrow> client \<Rightarrow> client \<Rightarrow> bool" where
  "advances s st st' \<longleftrightarrow> length (sessions st') = length (sessions st) \<and> (\<exists>es. trace st' = es @ trace st)
     \<and> stopped st' = stopped st \<and> end_ok s (waiting (sessions st' ! s)) st'
     \<and> (\<forall>s'. s' \<noteq> s \<longrightarrow> waiting (sessions st' ! s') = waiting (sessions st ! s'))"

lemma end_ok_later: "end_ok s w st \<Longrightarrow> trace st' = es @ trace st \<Longrightarrow> stopped st' = stopped st \<Longrightarrow> end_ok s w st'"
  by (auto simp: end_ok_def sent_def)

lemma ends_ok_advances:
  assumes "ends_ok st" and "advances s st st'"
  shows "ends_ok st'"
  unfolding ends_ok_def
proof (intro allI impI)
  fix s' w
  assume "waits st' s' w"
  with assms show "end_ok s' w st'"
    by (cases "s' = s") (auto simp: ends_ok_def advances_def waits_def intro: end_ok_later)
qed

lemma advances_later:
  assumes "advances s st1 st'" and "sessions st1 = sessions st" "trace st1 = es @ trace st" "stopped st1 = stopped st"
  shows "advances s st st'"
  using assms by (auto simp: advances_def)

lemma advances_await:
  "s < length (sessions st) \<Longrightarrow> end_ok s w st \<Longrightarrow> advances s st (await s w st)"
  by (auto simp: advances_def end_ok_def sent_def)

lemma advances_locked:
  assumes "s < length (sessions st)" and "\<not> stopped st \<Longrightarrow> advances s st (f st)"
  shows "advances s st (locked s f st)"
  using assms by (auto simp: locked_def end_ok_def intro: advances_await)

lemma advances_quiet:
  assumes "s < length (sessions st)" and "sessions st1 = sessions st" "trace st1 = trace st" "stopped st1 = stopped st"
    and "end_ok s w st1"
  shows "advances s st (await s w st1)"
  using advances_await [of s st1 w] assms by (auto intro: advances_later [where es = "[]"])

lemma advances_call_back: "s < length (sessions st) \<Longrightarrow> advances s st (call_back iter s ec st)"
  by (auto simp: call_back_def advances_def end_ok_def)

lemma advances_write: "s < length (sessions st) \<Longrightarrow> advances s st (write_request s st)"
  by (auto simp: write_request_def advances_def end_ok_def sent_def)

lemma advances_handshake: "s < length (sessions st) \<Longrightarrow> advances s st (handshake cfg s st)"
  by (auto simp: handshake_def advances_def end_ok_def)

lemma advances_logged:
  assumes "s < length (sessions st)" and "end_ok s w st"
  shows "advances s st (await s w (log_event e (set_timeout i t st)))"
proof (rule advances_later [where es = "[e]", OF advances_await])
  show "end_ok s w (log_event e (set_timeout i t st))" using end_ok_later [OF assms(2), of _ "[e]"] by simp
qed (use assms in simp_all)

lemma advances_connect: "s < length (sessions st) \<Longrightarrow> advances s st (connect tls cfg s st)"
  by (simp add: connect_def connect_http_def connect_https_def advances_write)
     (auto simp: advances_def end_ok_def)

lemma advances_go_on:
  assumes "s < length (sessions st)" and "sent s st"
  shows "advances s st (go_on iter s r st)"
proof (cases r)
  case (Finish ec)
  then show ?thesis by (simp add: go_on_def advances_call_back assms)
qed (use assms in \<open>auto simp: go_on_def advances_quiet end_ok_def sent_def\<close>)

lemma advances_replaced:
  assumes "s < length (sessions st)"
  shows "advances s st (connect tls cfg s (replace_link cfg s new p st))"
  using advances_connect [of s "replace_link cfg s new p st" tls cfg] assms
  by (auto simp: advances_def replace_link_def)

lemma advances_proxy_answered:
  assumes s: "s < length (sessions st)" and ec: "ec = None \<longrightarrow> delimited buf"
  shows "advances s st (proxy_answered iter cfg s ec full buf st)"
proof -
  let ?st = "cancel_timeout (link_of st s) st"
  have parsed: "\<exists>ok rs z. ResponseMessage_parse (buf, True) empty_response = Some (Inr (ok, rs, z))" if "ec = None"
    using that ec delimited_response_parsed by (fastforce simp: delimited_def)
  have h: "advances s ?st (handshake cfg s (log_event (Tunnel (link_of st s)) ?st))"
    by (rule advances_later [OF advances_handshake, where es = "[Tunnel (link_of st s)]"]) (simp_all add: s)
  have "advances s ?st (proxy_answered iter cfg s ec full buf st)"
    unfolding proxy_answered_def Let_def
    by (rule advances_locked) (use s parsed h in \<open>auto simp: advances_call_back split: option.splits sum.splits bool.splits\<close>)
  then show ?thesis by (rule advances_later [where es = "[]"]) simp_all
qed

lemma advances_header_read:
  assumes s: "s < length (sessions st)" and "sent s st"
  shows "advances s st (header_read iter cfg tls s ec full r new st)"
proof -
  let ?st = "cancel_timeout (link_of st s) st"
  have "advances s ?st (go_on iter s r (?st\<lparr>conn_pool := p\<rparr>))" for p
    by (rule advances_later [OF advances_go_on, where es = "[]"]) (use assms in \<open>simp_all add: sent_def\<close>)
  then have "advances s ?st (header_read iter cfg tls s ec full r new st)"
    unfolding header_read_def Let_def
    by (intro advances_locked) (use s in \<open>auto simp: advances_call_back advances_replaced split: option.splits\<close>)
  then show ?thesis by (rule advances_later [where es = "[]"]) simp_all
qed

lemma advances_content_read:
  assumes "s < length (sessions st)" and "sent s st"
  shows "advances s st (content_read iter s r st)"
  unfolding content_read_def
  by (rule advances_later [OF advances_locked, where es = "[]"])
     (use assms in \<open>simp_all add: advances_go_on sent_def\<close>)

lemma advances_resolved:
  assumes "s < length (sessions st)"
  shows "advances s st (resolved iter cfg tls s ec st)"
  unfolding resolved_def Let_def
  by (rule advances_later [OF advances_locked, where es = "[]"])
     (use assms in \<open>auto simp: advances_call_back advances_quiet end_ok_def split: option.splits if_splits\<close>)

lemma advances_socket_connected:
  assumes "s < length (sessions st)"
  shows "advances s st (socket_connected iter cfg tls s ec st)"
  unfolding socket_connected_def Let_def
  by (rule advances_later [OF advances_locked, where es = "[]"])
     (use assms in \<open>auto simp: advances_call_back advances_write advances_handshake advances_logged end_ok_def split: option.splits\<close>)

lemma advances_proxy_written:
  assumes "s < length (sessions st)"
  shows "advances s st (proxy_written iter cfg s ec st)"
  unfolding proxy_written_def Let_def
  by (rule advances_later [OF advances_locked, where es = "[]"])
     (use assms in \<open>auto simp: advances_call_back advances_quiet end_ok_def split: option.splits\<close>)

lemma advances_request_written:
  assumes "s < length (sessions st)" and "sent s st"
  shows "advances s st (request_written iter s ec st)"
  unfolding request_written_def Let_def
  by (rule advances_later [OF advances_locked, where es = "[]"])
     (use assms in \<open>auto simp: advances_call_back advances_quiet end_ok_def sent_def split: option.splits\<close>)

lemma advances_handshaken:
  assumes "s < length (sessions st)"
  shows "advances s st (handshaken iter s ec st)"
  unfolding handshaken_def Let_def
  by (rule advances_later [OF advances_locked, where es = "if ec = None then [Secured (link_of st s)] else []"])
     (use assms in \<open>auto simp: advances_call_back advances_write split: option.splits\<close>)

lemma advances_start:
  assumes "ends_ok st"
  shows "ends_ok (start_request iter cfg tls new st)"
proof -
  obtain i p where g: "get_connection iter new (conn_pool st) = (i, p)" by fastforce
  let ?st = "st\<lparr>conn_pool := p, sockets := (if i = new then (sockets st)(new \<mapsto> new_socket cfg) else sockets st),
             sessions := sessions st @ [\<lparr>link = i, waiting = Starting\<rparr>]\<rparr>"
  have "end_ok s w ?st" if "waits ?st s w" for s w
  proof (cases "s = length (sessions st)")
    case False
    then have "s < length (sessions st)" using that by (simp add: waits_def)
    then have "waits st s w" using that by (simp add: waits_def nth_append)
    then show ?thesis using assms by (simp add: ends_ok_def end_ok_def sent_def)
  qed (use that in \<open>auto simp: end_ok_def waits_def\<close>)
  then have "ends_ok ?st" by (simp add: ends_ok_def)
  then show ?thesis
    using ends_ok_advances [OF _ advances_connect [of "length (sessions st)" ?st tls cfg]] g by (simp add: start_request_def)
qed

lemma ends_ok_step:
  assumes "establish_step iter cfg tls st st'" and "ends_ok st"
  shows "ends_ok st'"
proof -
  have there: "s < length (sessions st)" if "waits st s w" for s w using that by (simp add: waits_def)
  have sent: "sent s st" if "waits st s w" "w \<in> {Writing, Reading_header, Reading_content}" for s w
    using that assms(2) by (auto simp: ends_ok_def end_ok_def)
  note [intro] = ends_ok_advances [OF assms(2)]
  from assms(1) show ?thesis
  proof cases
    case (request new)
    then show ?thesis using advances_start assms(2) by simp
  next
    case stop
    then show ?thesis using assms(2) by (simp add: ends_ok_def waits_def end_ok_def sent_def stop_client_def)
  next
    case destroy
    then show ?thesis using assms(2) by (simp add: ends_ok_def waits_def end_ok_def sent_def stop_client_def destroy_client_def)
  qed (auto dest: there sent intro!: advances_resolved advances_socket_connected advances_proxy_written advances_proxy_answered
      advances_handshaken advances_request_written advances_header_read advances_content_read)
qed

lemma ends_ok_reachable:
  assumes "(establish_step iter cfg tls)\<^sup>*\<^sup>* client_new st"
  shows "ends_ok st"
  using assms
proof (induction rule: rtranclp_induct)
  case base
  then show ?case by (simp add: ends_ok_def waits_def client_new_def)
qed (rule ends_ok_step)

text \<open>The timer of a session that waits for its socket expires: the socket is closed, and the handler of the operation
  is called with \<open>operation_aborted\<close>.\<close>

definition timed_out :: "(nat set \<Rightarrow> nat list) \<Rightarrow> settings \<Rightarrow> bool \<Rightarrow> nat \<Rightarrow> waiting \<Rightarrow> client \<Rightarrow> client" where
  "timed_out iter cfg tls s w st =
     (let ec = Some Operation_aborted in case w of
        Opening \<Rightarrow> socket_connected iter cfg tls s ec st
      | Proxy_writing \<Rightarrow> proxy_written iter cfg s ec st
      | Proxy_reading \<Rightarrow> proxy_answered iter cfg s ec False [] st
      | Handshaking \<Rightarrow> handshaken iter s ec st
      | Writing \<Rightarrow> request_written iter s ec st
      | Reading_header \<Rightarrow> header_read iter cfg tls s ec False (Finish ec) 0 st
      | Reading_content \<Rightarrow> content_read iter s (Finish ec) st
      | _ \<Rightarrow> st)"

lemma timed_out_answers:
  assumes "\<not> stopped st" and "s < length (sessions st)"
    and "w \<in> {Opening, Proxy_writing, Proxy_reading, Handshaking, Writing, Reading_header, Reading_content}"
  shows "trace (timed_out iter cfg tls s w st) = Answer s (Some Operation_aborted) # trace st
    \<and> waits (timed_out iter cfg tls s w st) s Answered_session"
  using assms(3)
  by (elim insertE emptyE) (use assms(1,2) in \<open>simp_all add: timed_out_def Let_def locked_def call_back_def waits_def
      socket_connected_def proxy_written_def proxy_answered_def handshaken_def request_written_def header_read_def
      content_read_def go_on_def\<close>)

text \<open>C20: A session is answered at most once, and what it may otherwise come to is limited. Of a session in a run of the
  client, whatever it waits for or has come to: its callback has been called once if it has come to being answered,
  and not at all otherwise; it has been dropped without an answer only if the client is being destroyed; and an
  exception has ended it without an answer only after its request was written, so while a connection is established
  none does. As long as it waits for its socket it does so under the configured timeout, if there is one, and when
  that expires and the client has not been stopped the callback is called with \<open>operation_aborted\<close>.\<close>

theorem answered_once_timed:
  assumes "iterates iter" and "(establish_step iter cfg tls)\<^sup>*\<^sup>* client_new st" and "waits st s w"
  shows "answer_count s (trace st) = (if w = Answered_session then 1 else 0)
    \<and> (w = Dropped_session \<longrightarrow> stopped st)
    \<and> (w = Escaped_session \<longrightarrow> (\<exists>i. Request i s \<in> set (trace st)))
    \<and> (w \<in> {Opening, Proxy_writing, Proxy_reading, Handshaking, Writing, Reading_header, Reading_content} \<longrightarrow>
        map_option timer (sockets st (link_of st s)) = Some (configured_timeout cfg w)
        \<and> (\<not> stopped st \<longrightarrow>
             trace (timed_out iter cfg tls s w st) = Answer s (Some Operation_aborted) # trace st
             \<and> waits (timed_out iter cfg tls s w st) s Answered_session))"
proof -
  have inv: "establish_inv iter cfg tls st" using establish_inv_reachable [OF assms(1,2)] .
  have "map_option timer (sockets st (link_of st s)) = Some (configured_timeout cfg w)"
    if "w \<in> {Opening, Proxy_writing, Proxy_reading, Handshaking, Writing, Reading_header, Reading_content}"
  proof -
    have "w \<noteq> Answered_session" using that by auto
    then obtain k where "sockets st (link_of st s) = Some k" "phase cfg tls (trace st) (link_of st s) k w" "conn_timeout k = timeout cfg"
      using waiting_session [OF inv assms(3)] by (auto simp: moves_to_def)
    with that show ?thesis by (auto simp: phase_def effective_timeout_def configured_timeout_def)
  qed
  moreover have "end_ok s w st" using ends_ok_reachable [OF assms(2)] assms(3) by (simp add: ends_ok_def)
  moreover have "s < length (sessions st)" using assms(3) by (simp add: waits_def)
  moreover have "answer_count s (trace st) = (if w = Answered_session then 1 else 0)"
    using inv assms(3) by (auto simp: establish_inv_def waits_def)
  ultimately show ?thesis using timed_out_answers by (simp add: end_ok_def sent_def)
qed

text \<open>C21: To the pool of connections the sessions are those of \<open>HttpClient\<close>: what they do to it is a run of the
  requests, headers, callbacks, attempts to reconnect and stops there, with the same connections held.\<close>

theorem establishing_refines_pool:
  assumes "iterates iter" and "(establish_step iter cfg tls)\<^sup>*\<^sup>* client_new st"
  shows "\<exists>held. mset held = links st \<and> (client_step iter)\<^sup>*\<^sup>* (Client_pool, []) (conn_pool st, held)"
  using establish_inv_reachable [OF assms] by (simp add: establish_inv_def pool_moves_def)

section \<open>A run through a proxy\<close>

definition ex_settings :: settings where
  "ex_settings = \<lparr>host = ''mail'', port = 443, proxy_server = ''gate:8080'', timeout = 5, timeout_connect = 2\<rparr>"

definition ex_reply :: response where
  "ex_reply = \<lparr>rs_version = ''1.1'', rs_status_code = ''200 OK'', rs_header = []\<rparr>"

text \<open>One session on the connection 1.\<close>

definition ex_client :: "waiting \<Rightarrow> socket \<Rightarrow> event list \<Rightarrow> client" where
  "ex_client w k es = \<lparr>conn_pool = snd (get_connection sorted_list_of_set 1 Client_pool), sockets = [1 \<mapsto> k],
     sessions = [\<lparr>link = 1, waiting = w\<rparr>], trace = es, stopped = False\<rparr>"

definition ex_socket :: "bool \<Rightarrow> bool \<Rightarrow> int option \<Rightarrow> socket" where
  "ex_socket op sec t = \<lparr>is_open = op, secured = sec, timer = t, conn_timeout = 5\<rparr>"

definition ex_trace :: "event list" where
  "ex_trace = [Hello 1, Tunnel 1, Plain 1 (connect_text ex_settings)]"

lemma ex_links [simp]: "link_of (ex_client w k es) 0 = 1" "waits (ex_client w k es) 0 w' \<longleftrightarrow> w = w'"
  by (simp_all add: ex_client_def link_of_def waits_def)

lemma ex_changes [simp]:
  "on_socket 1 f (ex_client w k es) = ex_client w (f k) es" "log_event e (ex_client w k es) = ex_client w k (e # es)"
  "await 0 w' (ex_client w k es) = ex_client w' k es" "locked 0 g (ex_client w k es) = g (ex_client w k es)"
  by (simp_all add: ex_client_def on_socket_def log_event_def await_def locked_def)

lemma ex_reply_parsed:
  "ResponseMessage_parse (response_text ex_reply, True) empty_response = Some (Inr (True, ex_reply, ([], True)))"
  using parse_response_text [of ex_reply "[]" empty_response]
  by (simp add: ex_reply_def response_ok_def clean_fields_def newline_def)

lemma ex_reply_accepted: "\<not> proxy_refuses ex_reply"
  by (simp add: proxy_refuses_def ex_reply_def)

lemma ex_reply_delimited: "delimited (response_text ex_reply)"
proof -
  have "response_text ex_reply = ''HTTP/1.1 200 OK'' @ [CR, newline, CR, newline] @ []"
    by (simp add: response_text_def ex_reply_def header_text_def)
  then show ?thesis unfolding delimited_def by blast
qed

lemmas ex_simps = set_timeout_def cancel_timeout_def effective_timeout_def ex_socket_def ex_settings_def new_socket_def

lemma step_eq: "establish_step iter cfg tls st a \<Longrightarrow> a = b \<Longrightarrow> establish_step iter cfg tls st b"
  by simp

lemma ex_start:
  "establish_step sorted_list_of_set ex_settings True client_new (ex_client Resolving (ex_socket False False None) [])"
proof -
  have "fst (get_connection sorted_list_of_set 1 Client_pool) = 1" by (simp add: get_connection_def Client_pool_def)
  then show ?thesis
    by (intro step_eq [OF establish_step.request [where new = 1]])
       (simp_all add: start_request_def client_new_def ex_client_def connect_def connect_https_def socket_open_def link_of_def
         await_def split_beta ex_simps del: One_nat_def)
qed

lemma ex_established:
  "(establish_step sorted_list_of_set ex_settings True)\<^sup>*\<^sup>* client_new
     (ex_client Writing (ex_socket True True (Some 5)) (Request 1 0 # Secured 1 # ex_trace))"
proof -
  let ?step = "establish_step sorted_list_of_set ex_settings True"
  let ?plain = "[Plain 1 (connect_text ex_settings)]"
  have 1: "?step (ex_client Resolving (ex_socket False False None) []) (ex_client Opening (ex_socket True False (Some 2)) [])"
    by (rule step_eq [OF establish_step.resolved [where s = 0 and ec = None]]) (simp_all add: resolved_def ex_simps del: One_nat_def)
  have 2: "?step (ex_client Opening (ex_socket True False (Some 2)) []) (ex_client Proxy_writing (ex_socket True False (Some 2)) ?plain)"
    by (rule step_eq [OF establish_step.socket_connected [where s = 0 and ec = None]]) (simp_all add: socket_connected_def ex_simps del: One_nat_def)
  have 3: "?step (ex_client Proxy_writing (ex_socket True False (Some 2)) ?plain) (ex_client Proxy_reading (ex_socket True False (Some 2)) ?plain)"
    by (rule step_eq [OF establish_step.proxy_written [where s = 0 and ec = None]]) (simp_all add: proxy_written_def ex_simps del: One_nat_def)
  have 4: "?step (ex_client Proxy_reading (ex_socket True False (Some 2)) ?plain) (ex_client Handshaking (ex_socket True False (Some 2)) ex_trace)"
    by (rule step_eq [OF establish_step.proxy_answered [where s = 0 and ec = None and full = False and buf = "response_text ex_reply"]])
       (simp_all add: ex_reply_delimited proxy_answered_def ex_reply_parsed ex_reply_accepted handshake_def ex_trace_def ex_simps del: One_nat_def)
  have 5: "?step (ex_client Handshaking (ex_socket True False (Some 2)) ex_trace)
      (ex_client Writing (ex_socket True True (Some 5)) (Request 1 0 # Secured 1 # ex_trace))"
    by (rule step_eq [OF establish_step.handshaken [where s = 0 and ec = None]]) (simp_all add: handshaken_def write_request_def ex_simps del: One_nat_def)
  show ?thesis using ex_start 1 2 3 4 5 by (meson converse_rtranclp_into_rtranclp rtranclp.rtrancl_refl)
qed

lemma iterates_sorted: "iterates sorted_list_of_set"
  by (simp add: iterates_def)

theorem request_follows_handshake_witness:
  "\<exists>a b. Secured 1 # ex_trace = a @ Secured 1 # b \<and> Hello 1 \<in> set b
     \<and> (\<exists>c d. b = c @ Tunnel 1 # d \<and> Plain 1 (connect_text ex_settings) \<in> set d)"
  using request_follows_handshake [OF iterates_sorted ex_established, of "[]" 1 0 "Secured 1 # ex_trace"]
  by (simp add: ex_client_def) (simp add: ex_settings_def)

theorem answered_once_timed_witness:
  "let st = ex_client Writing (ex_socket True True (Some 5)) (Request 1 0 # Secured 1 # ex_trace) in
     answer_count 0 (trace st) = 0 \<and> map_option timer (sockets st 1) = Some (configured_timeout ex_settings Writing)
     \<and> trace (timed_out sorted_list_of_set ex_settings True 0 Writing st) =
         [Answer 0 (Some Operation_aborted), Request 1 0, Secured 1, Hello 1, Tunnel 1, Plain 1 (connect_text ex_settings)]"
proof -
  have "trace (ex_client w k es) = es" "\<not> stopped (ex_client w k es)" for w k es by (simp_all add: ex_client_def)
  then show ?thesis
    using answered_once_timed [OF iterates_sorted ex_established, of 0 Writing] by (simp add: ex_trace_def del: One_nat_def)
qed

theorem establishing_refines_pool_witness:
  "\<exists>held. mset held = {#1#} \<and>
     (client_step sorted_list_of_set)\<^sup>*\<^sup>* (Client_pool, []) (snd (get_connection sorted_list_of_set 1 Client_pool), held)"
  using establishing_refines_pool [OF iterates_sorted ex_established] by (simp add: ex_client_def links_def)

text \<open>The header of a proxy is always parsed, so its answer is never the end of a session without its callback.\<close>

lemma proxy_never_escapes:
  assumes "ec = None \<longrightarrow> delimited buf" and "\<not> stopped st" and "s < length (sessions st)"
  shows "\<not> waits (proxy_answered iter cfg s ec full buf st) s Escaped_session"
proof -
  have ends: "waits (call_back iter s e st') s w \<longleftrightarrow> w = Answered_session" "waits (handshake cfg s st') s w \<longleftrightarrow> w = Handshaking"
    if "sessions st' = sessions st" for e st' w
    using that assms(3)
    by (auto simp: call_back_def handshake_def waits_def log_event_def on_socket_def set_timeout_def)
  have same: "sessions (cancel_timeout i st) = sessions st" "sessions (log_event e st') = sessions st'" "stopped (cancel_timeout i st) = stopped st" for i e st'
    by (simp_all add: cancel_timeout_def on_socket_def log_event_def)
  have "\<exists>ok rs z. ResponseMessage_parse (buf, True) empty_response = Some (Inr (ok, rs, z))" if "ec = None"
    using that assms(1) delimited_response_parsed by (fastforce simp: delimited_def)
  then show ?thesis
    using assms(2) by (auto simp: proxy_answered_def locked_def Let_def ends same split: option.splits sum.splits bool.splits)
qed

end
