(* ===== verification/Accepting.thy ===== *)
theory Accepting
  imports Connecting
begin

text \<open>
  The TLS contexts that the constructors of \<open>include/client_https.hpp\<close> and \<open>include/server_https.hpp\<close>
  set up, and how a server gets its connections: \<open>start\<close>, \<open>stop\<close>, \<open>accept\<close> and the handshake of
  \<open>include/server_http.hpp\<close> and \<open>include/server_https.hpp\<close> up to the first \<open>read\<close>, as a machine whose
  handlers are single steps. The files of keys and certificates can be loaded, and the server is started
  once. What the server reads and answers is the matter of \<open>HttpServer\<close>.
\<close>

section \<open>Contexts\<close>

datatype verify_flag = Verify_peer | Verify_fail_if_no_peer_cert | Verify_client_once

text \<open>The files of certificate and key, the name the certificate of the peer must have, the file of
  trusted certificates or else the default paths, and the mode of verification; no flag is \<open>verify_none\<close>.\<close>

record tls_context =
  own_files :: "(string \<times> string) option"
  checked_name :: "string option"
  trusted_file :: "string option"
  default_paths :: bool
  verify_mode :: "verify_flag set"

definition tlsv12 :: tls_context where
  "tlsv12 = \<lparr>own_files = None, checked_name = None, trusted_file = None, default_paths = False, verify_mode = {}\<rparr>"

definition HTTPS_Client_new :: "string \<Rightarrow> bool \<Rightarrow> string \<Rightarrow> string \<Rightarrow> string \<Rightarrow> (address \<times> tls_context) result" where
  "HTTPS_Client_new server_port_path verify_certificate cert_file private_key_file verify_file =
     bindE (parse_host_port server_port_path 443) (\<lambda>(h, p).
       let context0 = (if cert_file \<noteq> [] \<and> private_key_file \<noteq> []
             then tlsv12\<lparr>own_files := Some (cert_file, private_key_file)\<rparr> else tlsv12);
           context1 = (if verify_certificate then context0\<lparr>checked_name := Some h\<rparr> else context0);
           context2 = (if verify_file \<noteq> [] then context1\<lparr>trusted_file := Some verify_file\<rparr>
             else context1\<lparr>default_paths := True\<rparr>);
           context3 = (if verify_file \<noteq> [] \<or> verify_certificate then context2\<lparr>verify_mode := {Verify_peer}\<rparr>
             else context2\<lparr>verify_mode := {}\<rparr>)
       in Inr (\<lparr>host = h, port = p, proxy_server = []\<rparr>, context3))"

text \<open>The context of a server and \<open>set_session_id_context\<close>.\<close>

definition HTTPS_Server_new :: "string \<Rightarrow> string \<Rightarrow> string \<Rightarrow> tls_context \<times> bool" where
  "HTTPS_Server_new cert_file private_key_file verify_file =
     (let context0 = tlsv12\<lparr>own_files := Some (cert_file, private_key_file)\<rparr>
      in if verify_file \<noteq> []
         then (context0\<lparr>trusted_file := Some verify_file,
             verify_mode := {Verify_peer, Verify_fail_if_no_peer_cert, Verify_client_once}\<rparr>, True)
         else (context0, False))"

definition SSL_MAX_SSL_SESSION_ID_LENGTH :: nat where
  "SSL_MAX_SSL_SESSION_ID_LENGTH = 32"

definition session_id_context :: "16 word \<Rightarrow> string \<Rightarrow> string" where
  "session_id_context config_port config_address =
     (let context = (show_nat (unat config_port) @ '':'') @ rev config_address
      in take (min (length context) SSL_MAX_SSL_SESSION_ID_LENGTH) context)"

text \<open>A client verifies nobody exactly if it is told not to and gets no file of trusted certificates; without
  \<open>verify_certificate\<close> the name in the certificate is not looked at even if there is such a file.\<close>

lemma client_context:
  assumes "HTTPS_Client_new s v c k f = Inr (a, context)"
  shows "verify_mode context = {} \<longleftrightarrow> \<not> v \<and> f = []" "checked_name context = (if v then Some (host a) else None)"
proof -
  obtain n q where "parse_host_port s 443 = Inr (n, q)"
    using assms by (cases "parse_host_port s 443") (auto simp: HTTPS_Client_new_def)
  then have "a = \<lparr>host = n, port = q, proxy_server = []\<rparr>" and "verify_mode context = (if f \<noteq> [] \<or> v then {Verify_peer} else {})"
    and "checked_name context = (if v then Some n else None)"
    using assms by (auto simp: HTTPS_Client_new_def Let_def tlsv12_def)
  then show "verify_mode context = {} \<longleftrightarrow> \<not> v \<and> f = []" "checked_name context = (if v then Some (host a) else None)"
    by (cases f; simp)+
qed

text \<open>Two servers share their session ids exactly if they have the same port and the ends of their addresses that
  find room behind it agree.\<close>

lemma show_nat_length: "n < 10 ^ k \<Longrightarrow> 0 < k \<Longrightarrow> length (show_nat n) \<le> k"
proof (induction k arbitrary: n)
  case (Suc k)
  show ?case
  proof (cases "n < 10")
    case True
    then show ?thesis by (simp add: show_nat.simps [of n])
  next
    case False
    with Suc.prems(1) have "n div 10 < 10 ^ k" "0 < k" by (auto intro!: Nat.gr0I)
    with Suc.IH have "length (show_nat (n div 10)) \<le> k" by blast
    with False show ?thesis by (simp add: show_nat.simps [of n])
  qed
qed simp

lemma split_at_colon: "CHR '':'' \<notin> set xs \<Longrightarrow> CHR '':'' \<notin> set ys \<Longrightarrow> xs @ CHR '':'' # s = ys @ CHR '':'' # t \<longleftrightarrow> xs = ys \<and> s = t"
proof (induction xs arbitrary: ys)
  case (Cons x xs)
  then show ?case by (cases ys) auto
qed (auto simp: Cons_eq_append_conv)

lemma session_ids_shared:
  "session_id_context p a = session_id_context q b \<longleftrightarrow>
     p = q \<and> take (31 - length (show_nat (unat p))) (rev a) = take (31 - length (show_nat (unat p))) (rev b)"
proof -
  have digits: "CHR '':'' \<notin> set (show_nat n)" for n
    using show_nat_digits [of n] by (auto simp: list_all_iff is_digit_def)
  have len: "length (show_nat (unat r)) < 32" for r :: "16 word"
    using unsigned_less [of r, where 'a = nat] show_nat_length [of "unat r" 5] by simp
  have "session_id_context r c = show_nat (unat r) @ CHR '':'' # take (31 - length (show_nat (unat r))) (rev c)" for r c
    using len [of r] by (simp add: session_id_context_def Let_def SSL_MAX_SSL_SESSION_ID_LENGTH_def min_def take_Cons')
  then show ?thesis
    by (auto simp: split_at_colon digits intro: unsigned_word_eqI dest: show_nat_inj)
qed

section \<open>The machine\<close>

text \<open>Where a connection is; the flag of an accept tells whether the acceptor was open when it began. The
  callback for errors has been called for a failed connection, and an abandoned one got no lock. A new
  connection has an address that none has had.\<close>

datatype stage = Accepting_conn bool | Shaking_hands | Reading_request | Failed_conn error_code | Abandoned_conn
  | Deleted_conn

datatype server_event = Handshake_done nat | First_read nat

record serving =
  listening :: bool
  io_running :: bool
  halted :: bool
  members :: "nat set"
  stages :: "nat \<Rightarrow> stage option"
  timers :: "nat \<Rightarrow> int option"
  server_trace :: "server_event list"

definition serving_new :: serving where
  "serving_new = \<lparr>listening = False, io_running = False, halted = False, members = {}, stages = (\<lambda>_. None),
     timers = (\<lambda>_. None), server_trace = []\<rparr>"

text \<open>\<open>create_connection\<close> enters the new connection in the set; the deleter takes it out again.\<close>

definition server_create_connection :: "nat \<Rightarrow> serving \<Rightarrow> serving" where
  "server_create_connection new st = st\<lparr>members := insert new (members st), timers := (timers st)(new := None)\<rparr>"

definition delete_connection :: "nat \<Rightarrow> serving \<Rightarrow> serving" where
  "delete_connection i st = st\<lparr>members := members st - {i}, stages := (stages st)(i \<mapsto> Deleted_conn)\<rparr>"

definition server_set_timeout :: "nat \<Rightarrow> int \<Rightarrow> serving \<Rightarrow> serving" where
  "server_set_timeout i seconds st = st\<lparr>timers := (timers st)(i := (if seconds = 0 then None else Some seconds))\<rparr>"

definition server_cancel_timeout :: "nat \<Rightarrow> serving \<Rightarrow> serving" where
  "server_cancel_timeout i st = st\<lparr>timers := (timers st)(i := None)\<rparr>"

definition enter :: "nat \<Rightarrow> stage \<Rightarrow> serving \<Rightarrow> serving" where
  "enter i g st = st\<lparr>stages := (stages st)(i \<mapsto> g)\<rparr>"

definition server_accept :: "nat \<Rightarrow> serving \<Rightarrow> serving" where
  "server_accept new st = enter new (Accepting_conn (listening st)) (server_create_connection new st)"

definition first_read :: "int \<Rightarrow> nat \<Rightarrow> serving \<Rightarrow> serving" where
  "first_read timeout_request i st =
     (let st1 = server_set_timeout i timeout_request st
      in enter i Reading_request (st1\<lparr>server_trace := First_read i # server_trace st1\<rparr>))"

definition accepted_http :: "int \<Rightarrow> nat \<Rightarrow> error_code option \<Rightarrow> nat \<Rightarrow> serving \<Rightarrow> serving" where
  "accepted_http timeout_request i ec new st =
     (if halted st then enter i Abandoned_conn st
      else let st1 = (if ec \<noteq> Some Operation_aborted then server_accept new st else st)
        in case ec of None \<Rightarrow> first_read timeout_request i st1 | Some e \<Rightarrow> enter i (Failed_conn e) st1)"

definition accepted_https :: "int \<Rightarrow> nat \<Rightarrow> error_code option \<Rightarrow> nat \<Rightarrow> serving \<Rightarrow> serving" where
  "accepted_https timeout_request i ec new st =
     (if halted st then enter i Abandoned_conn st
      else let st1 = (if ec \<noteq> Some Operation_aborted then server_accept new st else st)
        in case ec of None \<Rightarrow> enter i Shaking_hands (server_set_timeout i timeout_request st1)
           | Some e \<Rightarrow> enter i (Failed_conn e) st1)"

definition accepted :: "bool \<Rightarrow> int \<Rightarrow> nat \<Rightarrow> error_code option \<Rightarrow> nat \<Rightarrow> serving \<Rightarrow> serving" where
  "accepted tls timeout_request i ec new st =
     (if tls then accepted_https timeout_request i ec new st else accepted_http timeout_request i ec new st)"

definition hands_shaken :: "int \<Rightarrow> nat \<Rightarrow> error_code option \<Rightarrow> serving \<Rightarrow> serving" where
  "hands_shaken timeout_request i ec st =
     (let st1 = server_cancel_timeout i
            (if ec = None then st\<lparr>server_trace := Handshake_done i # server_trace st\<rparr> else st)
      in if halted st1 then enter i Abandoned_conn st1
         else case ec of None \<Rightarrow> first_read timeout_request i st1 | Some e \<Rightarrow> enter i (Failed_conn e) st1)"

definition server_start :: "nat \<Rightarrow> serving \<Rightarrow> serving" where
  "server_start new st = server_accept new (st\<lparr>io_running := True, listening := True\<rparr>)"

text \<open>The acceptor and the connections are closed; an \<open>io_service\<close> of the server's own is stopped.\<close>

definition server_stop :: "bool \<Rightarrow> serving \<Rightarrow> serving" where
  "server_stop internal_io_service st =
     st\<lparr>listening := False, members := {}, io_running := io_running st \<and> \<not> internal_io_service\<rparr>"

definition server_destroy :: "bool \<Rightarrow> serving \<Rightarrow> serving" where
  "server_destroy internal_io_service st = server_stop internal_io_service (st\<lparr>halted := True\<rparr>)"

text \<open>An accept that begins on a closed acceptor ends with \<open>bad_descriptor\<close>; it is aborted only when the acceptor is
  closed.\<close>

definition bad_descriptor :: error_code where
  "bad_descriptor = Other_error 9"

definition accept_ends :: "serving \<Rightarrow> bool \<Rightarrow> error_code option \<Rightarrow> bool" where
  "accept_ends st opn ec \<longleftrightarrow> (if opn then ec = Some Operation_aborted \<longrightarrow> \<not> listening st else ec = Some bad_descriptor)"

text \<open>The steps of a server that has been started; its destructor is not among them.\<close>

inductive serve_step :: "bool \<Rightarrow> int \<Rightarrow> bool \<Rightarrow> serving \<Rightarrow> serving \<Rightarrow> bool" for tls timeout_request internal where
  accepted: "io_running st \<Longrightarrow> stages st i = Some (Accepting_conn opn) \<Longrightarrow> accept_ends st opn ec \<Longrightarrow> stages st new = None \<Longrightarrow>
    serve_step tls timeout_request internal st (accepted tls timeout_request i ec new st)"
| hands_shaken: "io_running st \<Longrightarrow> stages st i = Some Shaking_hands \<Longrightarrow>
    serve_step tls timeout_request internal st (hands_shaken timeout_request i ec st)"
| delete: "stages st i \<in> {Some Reading_request, Some Abandoned_conn} \<union> range (Some \<circ> Failed_conn) \<Longrightarrow>
    serve_step tls timeout_request internal st (delete_connection i st)"
| stop: "serve_step tls timeout_request internal st (server_stop internal st)"

definition pending_accepts :: "serving \<Rightarrow> nat set" where
  "pending_accepts st = {i. \<exists>opn. stages st i = Some (Accepting_conn opn)}"

section \<open>What the machine keeps\<close>

fun handshake_first :: "server_event list \<Rightarrow> bool" where
  "handshake_first [] \<longleftrightarrow> True"
| "handshake_first (Handshake_done i # es) \<longleftrightarrow> handshake_first es"
| "handshake_first (First_read i # es) \<longleftrightarrow> Handshake_done i \<in> set es \<and> handshake_first es"

lemma handshake_first_split: "handshake_first (xs @ First_read i # ys) \<Longrightarrow> Handshake_done i \<in> set ys"
  by (induction xs rule: handshake_first.induct) auto

definition serving_inv :: "bool \<Rightarrow> serving \<Rightarrow> bool" where
  "serving_inv tls st \<longleftrightarrow> \<not> halted st \<and> (tls \<longrightarrow> handshake_first (server_trace st))
     \<and> (\<forall>i j. i \<in> pending_accepts st \<longrightarrow> j \<in> pending_accepts st \<longrightarrow> i = j)
     \<and> (listening st \<longrightarrow> (\<exists>i. stages st i = Some (Accepting_conn True)))
     \<and> (listening st \<longrightarrow> (\<forall>i. stages st i \<noteq> Some (Accepting_conn False)))"

lemmas serving_defs = server_accept_def server_create_connection_def enter_def first_read_def server_set_timeout_def
  server_cancel_timeout_def delete_connection_def server_stop_def accepted_def accepted_http_def accepted_https_def
  hands_shaken_def pending_accepts_def

lemma accepted_fields:
  assumes "\<not> halted st" and "i \<noteq> new"
  shows "listening (accepted tls t i ec new st) = listening st" "io_running (accepted tls t i ec new st) = io_running st"
    "\<not> halted (accepted tls t i ec new st)"
    "server_trace (accepted tls t i ec new st) = (if ec = None \<and> \<not> tls then First_read i # server_trace st else server_trace st)"
    "stages (accepted tls t i ec new st) j =
      (if j = i then Some (case ec of None \<Rightarrow> if tls then Shaking_hands else Reading_request | Some e \<Rightarrow> Failed_conn e)
       else if j = new \<and> ec \<noteq> Some Operation_aborted then Some (Accepting_conn (listening st)) else stages st j)"
  using assms by (cases ec; simp add: serving_defs Let_def)+

text \<open>The accepts that are pending are not touched by the other connections.\<close>

lemma hands_shaken_fields:
  assumes "stages st i = Some Shaking_hands"
  shows "stages (hands_shaken t i ec st) j = Some (Accepting_conn b) \<longleftrightarrow> stages st j = Some (Accepting_conn b)"
    "listening (hands_shaken t i ec st) = listening st" "io_running (hands_shaken t i ec st) = io_running st"
    "halted (hands_shaken t i ec st) = halted st"
    "\<not> halted st \<Longrightarrow> server_trace (hands_shaken t i ec st) =
      (if ec = None then First_read i # Handshake_done i # server_trace st else server_trace st)"
  using assms by (cases ec; auto simp: serving_defs Let_def)+

lemma delete_connection_stage:
  assumes "stages st i \<in> {Some Reading_request, Some Abandoned_conn} \<union> range (Some \<circ> Failed_conn)"
  shows "stages (delete_connection i st) j = Some (Accepting_conn b) \<longleftrightarrow> stages st j = Some (Accepting_conn b)"
  using assms by (auto simp: delete_connection_def)

lemma serving_inv_start: "serving_inv tls (server_start new serving_new)"
  by (auto simp: serving_inv_def server_start_def serving_new_def serving_defs)

lemma serving_inv_step:
  assumes "serve_step tls t internal st st'" and "serving_inv tls st"
  shows "serving_inv tls st'"
  using assms
proof (induction rule: serve_step.induct)
  case (accepted st i b ec new)
  then have pend: "\<And>j b'. stages st j = Some (Accepting_conn b') \<Longrightarrow> j = i" and ok: "\<not> halted st" "i \<noteq> new"
    by (auto simp: serving_inv_def pending_accepts_def)
  have b: "listening st \<Longrightarrow> b" using accepted(2,5) by (cases b) (auto simp: serving_inv_def)
  have "ec = Some Operation_aborted \<Longrightarrow> \<not> listening st"
    using accepted(3) b by (auto simp: accept_ends_def split: if_splits)
  then show ?case
    using accepted(4,5) pend ok(2)
    by (auto simp: serving_inv_def pending_accepts_def accepted_fields [OF ok] split: option.splits)
next
  case (hands_shaken st i ec)
  then show ?case by (auto simp: serving_inv_def pending_accepts_def hands_shaken_fields [OF hands_shaken(2)])
next
  case (delete st i)
  then show ?case
    by (simp add: serving_inv_def pending_accepts_def delete_connection_stage) (simp add: delete_connection_def)
next
  case (stop st)
  then show ?case by (auto simp: serving_inv_def serving_defs)
qed

lemma serving_inv_reachable:
  "(serve_step tls t internal)\<^sup>*\<^sup>* (server_start new serving_new) st \<Longrightarrow> serving_inv tls st"
  by (induction rule: rtranclp_induct) (auto intro: serving_inv_start serving_inv_step)

text \<open>C22: Whatever becomes of the connections, a server that has been started and not stopped has exactly one accept
  pending, on its open acceptor; and over HTTPS it reads nothing from a connection whose handshake has
  not succeeded.\<close>

theorem server_keeps_accepting:
  assumes "(serve_step tls t internal)\<^sup>*\<^sup>* (server_start new serving_new) st"
  shows "(listening st \<longrightarrow> (\<exists>!i. i \<in> pending_accepts st) \<and> (\<exists>i. stages st i = Some (Accepting_conn True)))
    \<and> (tls \<longrightarrow> server_trace st = later @ First_read i # earlier \<longrightarrow> Handshake_done i \<in> set earlier)"
  using serving_inv_reachable [OF assms] handshake_first_split
  by (fastforce simp: serving_inv_def pending_accepts_def)

text \<open>An accept on the closed acceptor is to be handled.\<close>

definition spinning :: "serving \<Rightarrow> bool" where
  "spinning st \<longleftrightarrow> io_running st \<and> \<not> halted st \<and> \<not> listening st \<and> (\<exists>i. stages st i = Some (Accepting_conn False))"

lemma spinning_step: "serve_step tls t False st st' \<Longrightarrow> spinning st \<Longrightarrow> spinning st'"
proof (induction rule: serve_step.induct)
  case (accepted st i b ec new)
  then have ok: "\<not> halted st" "i \<noteq> new" by (auto simp: spinning_def)
  from accepted obtain j where j: "stages st j = Some (Accepting_conn False)" by (auto simp: spinning_def)
  show ?case
  proof (cases "j = i")
    case True
    then have "ec \<noteq> Some Operation_aborted" using accepted(2,3) j by (simp add: accept_ends_def bad_descriptor_def)
    then show ?thesis using accepted(5) ok(2)
      by (auto simp: spinning_def accepted_fields [OF ok] intro!: exI [of _ new])
  next
    case False
    then show ?thesis using accepted(4,5) j
      by (auto simp: spinning_def accepted_fields [OF ok] intro!: exI [of _ j])
  qed
next
  case (hands_shaken st i ec)
  then show ?case by (simp add: spinning_def hands_shaken_fields)
next
  case (delete st i)
  then show ?case by (simp add: spinning_def delete_connection_stage) (simp add: delete_connection_def)
qed (simp add: spinning_def server_stop_def)

lemma spinning_reachable: "(serve_step tls t False)\<^sup>*\<^sup>* st st' \<Longrightarrow> spinning st \<Longrightarrow> spinning st'"
  by (induction rule: rtranclp_induct) (auto intro: spinning_step)

text \<open>A server that shares an \<open>io_service\<close> and is stopped while an accept has ended whose handler has not run yet
  begins another accept, on the closed acceptor; from then on there is always an accept to handle, each
  handled one begins the next, and running the \<open>io_service\<close> does not come to its end.\<close>

theorem stopped_server_spins:
  assumes "(serve_step tls t False)\<^sup>*\<^sup>* (server_start first serving_new) st" and "listening st"
    and "stages st i = Some (Accepting_conn True)" and "stages st new = None" and "ec \<noteq> Some Operation_aborted"
    and "(serve_step tls t False)\<^sup>*\<^sup>* (accepted tls t i ec new (server_stop False st)) st'"
  shows "\<exists>j. stages st' j = Some (Accepting_conn False) \<and> (\<forall>new'. stages st' new' = None \<longrightarrow>
    serve_step tls t False st' (accepted tls t j (Some bad_descriptor) new' st')
    \<and> stages (accepted tls t j (Some bad_descriptor) new' st') new' = Some (Accepting_conn False))"
proof -
  have inv: "\<not> halted st" "i \<noteq> new" using serving_inv_reachable [OF assms(1)] assms(3,4) by (auto simp: serving_inv_def)
  have "io_running st" using assms(1)
  proof (induction rule: rtranclp_induct)
    case base
    then show ?case by (simp add: server_start_def serving_defs)
  next
    case (step y z)
    from step(2,3) show ?case
      by (induction rule: serve_step.induct) (auto simp: serving_defs Let_def split: option.splits)
  qed
  then have "spinning (accepted tls t i ec new (server_stop False st))"
    using inv assms(5) accepted_fields [of "server_stop False st" i new tls t ec]
    by (auto simp: spinning_def server_stop_def intro!: exI [of _ new])
  then have spin: "spinning st'" using spinning_reachable [OF assms(6)] by blast
  then obtain j where j: "stages st' j = Some (Accepting_conn False)" "\<not> halted st'" "io_running st'" "\<not> listening st'"
    by (auto simp: spinning_def)
  have "serve_step tls t False st' (accepted tls t j (Some bad_descriptor) new' st')
    \<and> stages (accepted tls t j (Some bad_descriptor) new' st') new' = Some (Accepting_conn False)" if "stages st' new' = None" for new'
  proof -
    have "j \<noteq> new'" using j(1) that by auto
    then show ?thesis
      using serve_step.accepted [OF j(3,1) _ that, of "Some bad_descriptor" tls t False] j
      by (auto simp: accept_ends_def bad_descriptor_def accepted_fields)
  qed
  then show ?thesis using j(1) by blast
qed

section \<open>A server of two connections\<close>

definition ex_started :: serving where
  "ex_started = server_start 1 serving_new"

lemma ex_started_fields:
  "stages ex_started i = (if i = 1 then Some (Accepting_conn True) else None)" "listening ex_started" "io_running ex_started"
  "\<not> halted ex_started" "server_trace ex_started = []"
  by (simp_all add: ex_started_def server_start_def serving_new_def serving_defs)

lemma ex_served:
  "(serve_step True 5 False)\<^sup>*\<^sup>* (server_start 1 serving_new) (hands_shaken 5 1 None (accepted True 5 1 None 2 ex_started))"
proof -
  have "serve_step True 5 False ex_started (accepted True 5 1 None 2 ex_started)"
    by (rule serve_step.accepted [where opn = True]) (simp_all add: ex_started_fields accept_ends_def)
  moreover have "serve_step True 5 False (accepted True 5 1 None 2 ex_started)
      (hands_shaken 5 1 None (accepted True 5 1 None 2 ex_started))"
    by (rule serve_step.hands_shaken) (simp_all add: ex_started_fields accepted_fields)
  ultimately show ?thesis unfolding ex_started_def by (meson converse_rtranclp_into_rtranclp rtranclp.rtrancl_refl)
qed

theorem server_keeps_accepting_witness:
  "(\<exists>!i. i \<in> pending_accepts (hands_shaken 5 1 None (accepted True 5 1 None 2 ex_started))) \<and> Handshake_done 1 \<in> set [Handshake_done 1]"
proof -
  have "stages (accepted True 5 1 None 2 ex_started) 1 = Some Shaking_hands" by (simp add: accepted_fields ex_started_fields)
  then have "listening (hands_shaken 5 1 None (accepted True 5 1 None 2 ex_started))"
    "server_trace (hands_shaken 5 1 None (accepted True 5 1 None 2 ex_started)) = [] @ First_read 1 # [Handshake_done 1]"
    by (simp_all add: hands_shaken_fields accepted_fields ex_started_fields)
  then show ?thesis using server_keeps_accepting [OF ex_served, of "[]" 1 "[Handshake_done 1]"] by simp
qed

theorem stopped_server_spins_witness:
  "\<exists>j. stages (accepted False 5 1 None 2 (server_stop False ex_started)) j = Some (Accepting_conn False)"
proof -
  have "(serve_step False 5 False)\<^sup>*\<^sup>* (server_start 1 serving_new) ex_started" by (simp add: ex_started_def)
  from stopped_server_spins [OF this _ _ _ _ rtranclp.rtrancl_refl, of 1 2 None] show ?thesis
    by (auto simp: ex_started_fields)
qed

end
