(* ===== verification/Crypto.thy ===== *)
theory Crypto
  imports CppText DoubleOrder
begin

text \<open>
  \<open>include/crypto.hpp\<close>: Base64, hexadecimal texts, hashes of strings and streams and the derivation of
  keys. The functions of OpenSSL are parameters: the one-shot hash and the three calls of the incremental
  one, the Base64 filter over a memory buffer, and the derivation of a key. What they are documented to do
  is the hypothesis of the theorems that rely on it. A buffer is a string whose bytes a call overwrites
  from the front.
\<close>

definition NUL :: char where "NUL = CHR 0x00"

definition overwrite :: "string \<Rightarrow> string \<Rightarrow> string" where
  "overwrite buf bytes = bytes @ drop (length bytes) buf"

section \<open>Hashes\<close>

record 'c digest =
  one_shot :: "string \<Rightarrow> string"
  ctx_init :: 'c
  ctx_update :: "'c \<Rightarrow> string \<Rightarrow> 'c"
  ctx_final :: "'c \<Rightarrow> string"

record ('a, 'b, 'c, 'd) openssl =
  MD5 :: "'a digest"
  SHA1 :: "'b digest"
  SHA256 :: "'c digest"
  SHA512 :: "'d digest"

text \<open>The loop \<open>for (c = 1; c < iterations; ++c)\<close> over the buffer of the hash.\<close>

function rehash :: "'c digest \<Rightarrow> nat \<Rightarrow> nat \<Rightarrow> string \<Rightarrow> string" where
  "rehash D c iterations hash =
     (if c < iterations then rehash D (c + 1) iterations (overwrite hash (one_shot D hash)) else hash)"
  by pat_completeness auto
termination by (relation "measure (\<lambda>(D, c, iterations, hash). iterations - c)") auto

declare rehash.simps [simp del]

definition hash_string :: "'c digest \<Rightarrow> nat \<Rightarrow> string \<Rightarrow> nat \<Rightarrow> string" where
  "hash_string D bytes input iterations = rehash D 1 iterations (overwrite (replicate bytes NUL) (one_shot D input))"

definition crypto_buffer_size :: nat where
  "crypto_buffer_size = 131072"

text \<open>\<open>stream.read(buffer, n).gcount()\<close>: a stream that is not good gives nothing, and one that ends too early
  is not good any more.\<close>

definition read_bytes :: "nat \<Rightarrow> istream \<Rightarrow> string \<times> istream" where
  "read_bytes n st = (case st of (s, good) \<Rightarrow>
     if \<not> good then ([], st) else (take n s, (drop n s, n \<le> length s)))"

function update_loop :: "'c digest \<Rightarrow> istream \<Rightarrow> 'c \<Rightarrow> 'c" where
  "update_loop D st context =
     (case read_bytes crypto_buffer_size st of (piece, st') \<Rightarrow>
        if 0 < length piece then update_loop D st' (ctx_update D context piece) else context)"
  by pat_completeness auto
termination
  by (relation "measure (\<lambda>(D, st, context). length (fst st))")
     (auto simp: read_bytes_def crypto_buffer_size_def split: prod.splits if_splits)

declare update_loop.simps [simp del]

definition hash_stream :: "'c digest \<Rightarrow> nat \<Rightarrow> istream \<Rightarrow> nat \<Rightarrow> string" where
  "hash_stream D bytes st iterations =
     rehash D 1 iterations (overwrite (replicate bytes NUL) (ctx_final D (update_loop D st (ctx_init D))))"

definition md5 :: "('a, 'b, 'c, 'd) openssl \<Rightarrow> string \<Rightarrow> nat \<Rightarrow> string" where
  "md5 lib = hash_string (MD5 lib) (128 div 8)"

definition md5_stream :: "('a, 'b, 'c, 'd) openssl \<Rightarrow> istream \<Rightarrow> nat \<Rightarrow> string" where
  "md5_stream lib = hash_stream (MD5 lib) (128 div 8)"

definition sha1 :: "('a, 'b, 'c, 'd) openssl \<Rightarrow> string \<Rightarrow> nat \<Rightarrow> string" where
  "sha1 lib = hash_string (SHA1 lib) (160 div 8)"

definition sha1_stream :: "('a, 'b, 'c, 'd) openssl \<Rightarrow> istream \<Rightarrow> nat \<Rightarrow> string" where
  "sha1_stream lib = hash_stream (SHA1 lib) (160 div 8)"

definition sha256 :: "('a, 'b, 'c, 'd) openssl \<Rightarrow> string \<Rightarrow> nat \<Rightarrow> string" where
  "sha256 lib = hash_string (SHA256 lib) (256 div 8)"

definition sha256_stream :: "('a, 'b, 'c, 'd) openssl \<Rightarrow> istream \<Rightarrow> nat \<Rightarrow> string" where
  "sha256_stream lib = hash_stream (SHA256 lib) (256 div 8)"

definition sha512 :: "('a, 'b, 'c, 'd) openssl \<Rightarrow> string \<Rightarrow> nat \<Rightarrow> string" where
  "sha512 lib = hash_string (SHA512 lib) (512 div 8)"

definition sha512_stream :: "('a, 'b, 'c, 'd) openssl \<Rightarrow> istream \<Rightarrow> nat \<Rightarrow> string" where
  "sha512_stream lib = hash_stream (SHA512 lib) (512 div 8)"

text \<open>What is documented of a hash of so many bytes: the incremental calls hash the bytes put together.\<close>

definition documented_digest :: "nat \<Rightarrow> 'c digest \<Rightarrow> bool" where
  "documented_digest bytes D \<longleftrightarrow> (\<forall>s. length (one_shot D s) = bytes)
     \<and> (\<forall>ps. ctx_final D (foldl (ctx_update D) (ctx_init D) ps) = one_shot D (concat ps))"

fun documented :: "('a, 'b, 'c, 'd) openssl \<Rightarrow> bool" where
  "documented lib \<longleftrightarrow> documented_digest 16 (MD5 lib) \<and> documented_digest 20 (SHA1 lib)
     \<and> documented_digest 32 (SHA256 lib) \<and> documented_digest 64 (SHA512 lib)"

lemma overwrite_all [simp]: "length bytes = length buf \<Longrightarrow> overwrite buf bytes = bytes"
  by (simp add: overwrite_def)

lemma rehash_power:
  assumes "documented_digest n D" and "length hash = n"
  shows "rehash D c iterations hash = (one_shot D ^^ (iterations - c)) hash"
  using assms(2)
proof (induction "iterations - c" arbitrary: c hash)
  case 0
  then show ?case by (subst rehash.simps) simp
next
  case (Suc k)
  have len: "length (one_shot D hash) = n" using assms(1) by (simp add: documented_digest_def)
  have "c < iterations" using Suc.hyps(2) by linarith
  then have "rehash D c iterations hash = rehash D (c + 1) iterations (one_shot D hash)"
    using len Suc.prems by (subst rehash.simps) simp
  also have "\<dots> = (one_shot D ^^ k) (one_shot D hash)" using Suc.hyps(1) [of "c + 1"] Suc.hyps(2) len
    by (metis Suc_diff_Suc Suc_eq_plus1 \<open>c < iterations\<close> diff_Suc_1)
  finally show ?case using Suc.hyps(2) [symmetric] by (simp add: funpow_swap1)
qed

lemma update_loop_pieces: "\<exists>ps. concat ps = s \<and> update_loop D (s, True) ctx = foldl (ctx_update D) ctx ps"
proof (induction "length s" arbitrary: s ctx rule: less_induct)
  case less
  show ?case
  proof (cases "crypto_buffer_size \<le> length s")
    case True
    let ?p = "take crypto_buffer_size s"
    have "length (drop crypto_buffer_size s) < length s" using True by (auto simp: crypto_buffer_size_def)
    from less [OF this] obtain ps where "concat ps = drop crypto_buffer_size s"
      "update_loop D (drop crypto_buffer_size s, True) (ctx_update D ctx ?p) = foldl (ctx_update D) (ctx_update D ctx ?p) ps" by blast
    moreover have "update_loop D (s, True) ctx = update_loop D (drop crypto_buffer_size s, True) (ctx_update D ctx ?p)"
      using True by (subst update_loop.simps) (auto simp: read_bytes_def crypto_buffer_size_def)
    ultimately show ?thesis by (intro exI [of _ "?p # ps"]) simp
  next
    case False
    have dead: "update_loop D (r, False) c = c" for r c by (subst update_loop.simps) (simp add: read_bytes_def)
    show ?thesis
    proof (cases "s = []")
      case True
      then show ?thesis by (intro exI [of _ "[]"], subst update_loop.simps) (simp add: read_bytes_def)
    next
      case s: False
      then have "update_loop D (s, True) ctx = ctx_update D ctx s"
        using False by (subst update_loop.simps) (simp add: read_bytes_def dead)
      then show ?thesis by (intro exI [of _ "[s]"]) simp
    qed
  qed
qed

lemma hash_string_iterates:
  assumes "documented_digest n D"
  shows "hash_string D n s k = (one_shot D ^^ max 1 k) s"
proof -
  have len: "length (one_shot D s) = n" using assms by (simp add: documented_digest_def)
  then have "overwrite (replicate n NUL) (one_shot D s) = one_shot D s" by simp
  then have "hash_string D n s k = (one_shot D ^^ (k - 1)) (one_shot D s)"
    by (simp only: hash_string_def rehash_power [OF assms len])
  also have "\<dots> = (one_shot D ^^ Suc (k - 1)) s" by (simp only: funpow_Suc_right comp_apply)
  also have "Suc (k - 1) = max 1 k" by simp
  finally show ?thesis .
qed

lemma hash_stream_string:
  assumes "documented_digest n D"
  shows "hash_stream D n (s, True) k = hash_string D n s k"
proof -
  obtain ps where "concat ps = s" "update_loop D (s, True) (ctx_init D) = foldl (ctx_update D) (ctx_init D) ps"
    using update_loop_pieces [of s D "ctx_init D"] by (elim exE conjE)
  moreover have "ctx_final D (foldl (ctx_update D) (ctx_init D) ps) = one_shot D (concat ps)"
    using assms by (simp add: documented_digest_def)
  ultimately have "ctx_final D (update_loop D (s, True) (ctx_init D)) = one_shot D s" by (simp only:)
  then show ?thesis by (simp add: hash_stream_def hash_string_def)
qed

text \<open>A stream that is not good is hashed like an empty one.\<close>

lemma hash_dead_stream: "hash_stream D n (s, False) k = hash_stream D n ([], True) k"
  by (simp add: hash_stream_def update_loop.simps [of D "(s, False)"] update_loop.simps [of D "([], True)"] read_bytes_def)

text \<open>Each hash of a stream, read in pieces of 131072 bytes, is the hash of the string the stream holds, and a
  number of iterations applies the hash that many times, at least once.\<close>

theorem hashes_agree:
  assumes "documented lib"
  shows "md5_stream lib (s, True) k = md5 lib s k \<and> md5 lib s k = (one_shot (MD5 lib) ^^ max 1 k) s
    \<and> sha1_stream lib (s, True) k = sha1 lib s k \<and> sha1 lib s k = (one_shot (SHA1 lib) ^^ max 1 k) s
    \<and> sha256_stream lib (s, True) k = sha256 lib s k \<and> sha256 lib s k = (one_shot (SHA256 lib) ^^ max 1 k) s
    \<and> sha512_stream lib (s, True) k = sha512 lib s k \<and> sha512 lib s k = (one_shot (SHA512 lib) ^^ max 1 k) s"
  using assms
  by (simp add: md5_stream_def md5_def sha1_stream_def sha1_def sha256_stream_def sha256_def sha512_stream_def sha512_def
      hash_stream_string hash_string_iterates)

definition ex_digest :: "nat \<Rightarrow> string digest" where
  "ex_digest n = \<lparr>one_shot = (\<lambda>s. replicate n (char_of (length s))), ctx_init = [], ctx_update = (@),
     ctx_final = (\<lambda>s. replicate n (char_of (length s)))\<rparr>"

lemma ex_digest_documented: "documented_digest n (ex_digest n)"
proof -
  have "foldl (@) xs ps = xs @ concat ps" for xs and ps :: "string list" by (induction ps arbitrary: xs) auto
  then show ?thesis by (simp add: documented_digest_def ex_digest_def)
qed

definition ex_openssl :: "(string, string, string, string) openssl" where
  "ex_openssl = \<lparr>MD5 = ex_digest 16, SHA1 = ex_digest 20, SHA256 = ex_digest 32, SHA512 = ex_digest 64\<rparr>"

theorem hashes_agree_witness:
  "sha1_stream ex_openssl (''abc'', True) 2 = sha1 ex_openssl ''abc'' 2 \<and> sha1 ex_openssl ''abc'' 2 = replicate 20 (char_of (20 :: nat))"
proof -
  have "documented ex_openssl" by (simp add: ex_openssl_def ex_digest_documented)
  moreover have "(one_shot (SHA1 ex_openssl) ^^ max 1 2) ''abc'' = replicate 20 (char_of (20 :: nat))"
    by (simp add: ex_openssl_def ex_digest_def numeral_2_eq_2)
  ultimately show ?thesis using hashes_agree [of ex_openssl "''abc''" 2] by simp
qed

section \<open>Hexadecimal texts\<close>

text \<open>An integer in lower case as \<open>std::hex\<close> prints it, without a prefix, filled up to the width.\<close>

definition hex_lower :: string where
  "hex_lower = ''0123456789abcdef''"

fun show_hex :: "nat \<Rightarrow> string" where
  "show_hex n = (if n < 16 then [hex_lower ! n] else show_hex (n div 16) @ [hex_lower ! (n mod 16)])"

declare show_hex.simps [simp del]

definition put_filled :: "nat \<Rightarrow> char \<Rightarrow> string \<Rightarrow> string" where
  "put_filled width fill text = replicate (width - length text) fill @ text"

definition to_hex_string :: "string \<Rightarrow> string" where
  "to_hex_string input = concat (map (\<lambda>byte. put_filled 2 CHR ''0'' (show_hex (of_char byte))) input)"

text \<open>Reading pairs of digits back.\<close>

fun from_hex :: "string \<Rightarrow> string option" where
  "from_hex [] = Some []"
| "from_hex [_] = None"
| "from_hex (a # b # rest) =
     (case (hex_val a, hex_val b, from_hex rest) of
        (Some h, Some l, Some s) \<Rightarrow> Some (char_of (16 * h + l) # s)
      | _ \<Rightarrow> None)"

lemma hex_lower_val: "n < 16 \<Longrightarrow> hex_val (hex_lower ! n) = Some n"
proof -
  have "list_all (\<lambda>n. hex_val (hex_lower ! n) = Some n) [0..<16]"
    by (simp add: upt_rec hex_lower_def hex_val_def)
  then show "n < 16 \<Longrightarrow> hex_val (hex_lower ! n) = Some n" by (simp add: list_all_iff)
qed

lemma hex_byte: "n < 256 \<Longrightarrow> put_filled 2 CHR ''0'' (show_hex n) = [hex_lower ! (n div 16), hex_lower ! (n mod 16)]"
  by (subst show_hex.simps) (auto simp: put_filled_def show_hex.simps [of "n div 16"] hex_lower_def)

text \<open>The hexadecimal text of a string has two digits for each byte, and reading them back gives the string.\<close>

theorem hex_round_trip: "length (to_hex_string s) = 2 * length s \<and> from_hex (to_hex_string s) = Some s"
proof (induction s)
  case (Cons c s)
  have c: "(of_char c :: nat) < 256" by simp
  then have "16 * (of_char c div 16) + of_char c mod 16 = (of_char c :: nat)" "(of_char c :: nat) div 16 < 16"
    by (simp_all add: less_mult_imp_div_less)
  then show ?case using Cons by (simp add: to_hex_string_def hex_byte [OF c] hex_lower_val)
qed (simp add: to_hex_string_def)

section \<open>Base64\<close>

text \<open>\<open>ceil\<close> and \<open>round\<close>, which rounds halves away from zero, and the conversion to \<open>size_t\<close>.\<close>

fun dceil :: "double \<Rightarrow> double" where
  "dceil (DFin s m e) =
     (if 0 \<le> e then DFin s m e
      else let c = - ((- signed s m) div 2 ^ nat (- e)) in if c = 0 then DFin s 0 (- 1074) else double_of_int c)"
| "dceil a = a"

fun dround :: "double \<Rightarrow> double" where
  "dround (DFin s m e) =
     (if 0 \<le> e then DFin s m e
      else let r = (2 * m + 2 ^ nat (- e)) div (2 * 2 ^ nat (- e))
        in if r = 0 then DFin s 0 (- 1074) else double_of_int (signed s r))"
| "dround a = a"

fun size_of_double :: "double \<Rightarrow> nat result" where
  "size_of_double (DFin s m e) =
     (let v = (if 0 \<le> e then shl m e else m div 2 ^ nat (- e))
      in if s \<and> v \<noteq> 0 \<or> 2 ^ 64 \<le> v then Inl Undefined_behaviour else Inr (nat v))"
| "size_of_double _ = Inl Undefined_behaviour"

definition base64_length :: "nat \<Rightarrow> nat result" where
  "base64_length n =
     size_of_double (dround (dmul (double_of_int 4) (dceil (ddiv (double_of_int (int n)) (double_of_int 3)))))"

lemma negative_exponent: "\<not> 0 \<le> e \<Longrightarrow> real_of_int m * two_pow e = real_of_int m / real_of_int (2 ^ nat (- e))"
proof -
  assume "\<not> 0 \<le> e"
  then have "real_of_int (2 ^ nat (- e)) = two_pow (- e)" by (simp add: two_pow_nat)
  moreover have "two_pow e = 1 / two_pow (- e)" using two_pow_quotient [of 0 "- e"] by simp
  ultimately show ?thesis by (metis mult.right_neutral times_divide_eq_right)
qed

lemma nonneg_dceil:
  assumes "nonneg a x" and "x \<le> 2 ^ 52"
  shows "nonneg (dceil a) (real_of_int \<lceil>x\<rceil>)"
proof -
  obtain m e where a: "a = DFin False m e" "0 \<le> m" "real_of_int m * two_pow e = x" using assms(1) by (auto simp: nonneg_def)
  show ?thesis
  proof (cases "0 \<le> e")
    case True
    then have "x = real_of_int (shl m e)" using a(3) by (simp add: shl_real)
    with True a show ?thesis by (auto simp: nonneg_def)
  next
    case False
    then have "x = real_of_int m / real_of_int (2 ^ nat (- e))" using a(3) negative_exponent by simp
    then have "- x = real_of_int (- m) / real_of_int (2 ^ nat (- e))" by simp
    then have c: "- ((- m) div 2 ^ nat (- e)) = \<lceil>x\<rceil>" by (simp only: ceiling_def floor_divide_of_int_eq)
    have x: "0 \<le> \<lceil>x\<rceil>" "\<lceil>x\<rceil> < 2 ^ 53" using nonnegD [OF assms(1)] ceiling_mono [OF assms(2)] by simp_all
    then have "nonneg (double_of_int \<lceil>x\<rceil>) (real_of_int \<lceil>x\<rceil>)" using nonneg_int [of "\<lceil>x\<rceil>"] rval_int [OF x] by simp
    with False show ?thesis using c by (auto simp: a(1) signed_def Let_def nonneg_def)
  qed
qed

text \<open>A double that is an integer.\<close>

lemma nonneg_integer:
  assumes "nonneg a (real_of_int i)"
  obtains m e where "a = DFin False m e" "0 \<le> i" "if 0 \<le> e then shl m e = i else m = i * 2 ^ nat (- e)"
proof -
  obtain m e where a: "a = DFin False m e" "0 \<le> m" "real_of_int m * two_pow e = real_of_int i"
    using assms by (auto simp: nonneg_def)
  have "if 0 \<le> e then shl m e = i else m = i * 2 ^ nat (- e)"
  proof (cases "0 \<le> e")
    case True
    then have "real_of_int (shl m e) = real_of_int i" using a(3) by (simp add: shl_real)
    with True show ?thesis by simp
  next
    case False
    then have "real_of_int m = real_of_int (i * 2 ^ nat (- e))" using a(3) negative_exponent [OF False, of m] by (simp add: field_simps)
    then show ?thesis using False by (simp only: of_int_eq_iff if_False)
  qed
  then show thesis using that a(1) nonnegD [OF assms] by simp
qed

lemma size_of_integer:
  assumes "nonneg a (real_of_int i)" and "i < 2 ^ 53"
  shows "size_of_double a = Inr (nat i)"
proof -
  obtain m e where a: "a = DFin False m e" "0 \<le> i" and m: "if 0 \<le> e then shl m e = i else m = i * 2 ^ nat (- e)"
    using nonneg_integer [OF assms(1)] .
  have "(if 0 \<le> e then shl m e else m div 2 ^ nat (- e)) = i" using m by (cases "0 \<le> e") simp_all
  then show ?thesis using assms(2) by (simp add: a(1) Let_def)
qed

lemma size_of_rounded:
  assumes "nonneg a (real_of_int i)" and "i < 2 ^ 53"
  shows "size_of_double (dround a) = Inr (nat i)"
proof -
  obtain m e where a: "a = DFin False m e" "0 \<le> i" and m: "if 0 \<le> e then shl m e = i else m = i * 2 ^ nat (- e)"
    using nonneg_integer [OF assms(1)] .
  show ?thesis
  proof (cases "0 \<le> e")
    case True
    then show ?thesis using size_of_integer [OF assms] a(1) by simp
  next
    case False
    let ?k = "2 ^ nat (- e) :: int"
    have "2 * m + ?k = ?k + i * (2 * ?k)" using False m by simp
    then have r: "(2 * m + ?k) div (2 * ?k) = i" by (simp only: div_mult_self3) simp
    have "nonneg (double_of_int i) (real_of_int i)" using nonneg_int [OF a(2)] rval_int [OF a(2) assms(2)] assms(2) by simp
    from size_of_integer [OF this assms(2)] False r show ?thesis by (simp add: a(1) signed_def Let_def)
  qed
qed

lemma rval_quarters:
  assumes "0 \<le> m" and "m < 2 ^ 53"
  shows "rval m 4 = real_of_int m / 4"
proof (cases "m = 0")
  case True
  then show ?thesis by (simp add: rval_def)
next
  case False
  have "real_of_int m < real_of_int (2 ^ 53)" using assms(2) by (simp only: of_int_less_iff)
  then have "real_of_int m / real_of_int 4 < two_pow 51" by (simp add: power_int_def)
  then have "ilog2 m 4 < 51" using False assms(1) by (intro ilog2_less) simp_all
  then have e: "rexp m 4 \<le> - 2" by (simp add: rexp_def)
  then have "nat (- rexp m 4) = nat (- 2 - rexp m 4) + 2" by simp
  then have s: "shl 4 (rexp m 4) = 4" "shl m (- rexp m 4) = (m * 2 ^ nat (- 2 - rexp m 4)) * 4"
    using e by (simp_all add: shl_def power_add)
  have "rval m 4 = real_of_int m * (real_of_int (2 ^ nat (- 2 - rexp m 4)) * two_pow (rexp m 4))"
    using False unfolding rval_def s by (subst round_even_exact) simp_all
  also have "\<dots> = real_of_int m * two_pow (- 2)" by (simp only: grid_real [OF e])
  finally show ?thesis by (simp add: power_int_def power2_eq_square)
qed

text \<open>A third of a number of bytes is not rounded across an integer.\<close>

lemma third_ceiling:
  assumes "0 \<le> n" and "n < 2 ^ 50" and "0 \<le> p" "0 < q" and r: "real_of_int p / real_of_int q = real_of_int n / 3"
  shows "\<lceil>rval p q\<rceil> = (n + 2) div 3" and "rval p q \<le> 2 ^ 52"
proof -
  let ?k = "(n + 2) div 3"
  have "n \<le> 3 * ?k" "3 * ?k \<le> n + 2" by simp_all
  then have k: "real_of_int n / 3 \<le> real_of_int ?k" "0 \<le> ?k" "?k < 2 ^ 50"
    using assms(1,2) by (simp_all add: field_simps)
  have "rval p q \<le> rval ?k 1" using k(1) assms(3,4) by (intro rval_mono) (simp_all add: r)
  moreover have "rval ?k 1 = real_of_int ?k" using k by (intro rval_int) simp_all
  ultimately have up: "rval p q \<le> real_of_int ?k" by simp
  have "real_of_int ?k - 1 < rval p q"
  proof (cases "n = 0")
    case True
    then show ?thesis using rval_nonneg [OF assms(3,4)] by simp
  next
    case False
    then have "1 \<le> ?k" using assms(1) by simp
    have "real_of_int (4 * ?k - 3) / real_of_int 4 \<le> real_of_int p / real_of_int q"
      using \<open>3 * ?k \<le> n + 2\<close> by (simp add: r field_simps)
    then have "rval (4 * ?k - 3) 4 \<le> rval p q" using \<open>1 \<le> ?k\<close> assms(4) by (intro rval_mono) simp_all
    moreover have "rval (4 * ?k - 3) 4 = real_of_int (4 * ?k - 3) / 4" using k \<open>1 \<le> ?k\<close> by (intro rval_quarters) simp_all
    ultimately show ?thesis by simp
  qed
  with up show "\<lceil>rval p q\<rceil> = ?k" by (intro ceiling_unique)
  have "real_of_int ?k \<le> real_of_int (2 ^ 50)" using k(3) by (simp only: of_int_le_iff)
  with up show "rval p q \<le> 2 ^ 52" by simp
qed

lemma base64_length_exact:
  assumes "n < 2 ^ 50"
  shows "base64_length n = Inr (4 * ((n + 2) div 3))"
proof -
  let ?k = "(int n + 2) div 3"
  have n: "0 \<le> int n" "int n < 2 ^ 50" using assms by simp_all
  have nn: "nonneg (double_of_int (int n)) (real_of_int (int n))" "nonneg (double_of_int 3) (real_of_int 3)"
    "nonneg (double_of_int 4) (real_of_int 4)"
    using nonneg_int [of "int n"] nonneg_int [of 3] nonneg_int [of 4] rval_int [of "int n"] rval_int [of 3] rval_int [of 4] n
    by simp_all
  have "real_of_int (int n) < real_of_int (2 ^ 50)" using n(2) by (simp only: of_int_less_iff)
  moreover have big: "(2 :: real) ^ 60 < two_pow 1000" using power_strict_increasing [of 60 1000 "2 :: real"] by (simp add: power_int_def)
  ultimately have lt: "real_of_int (int n) / real_of_int 3 < two_pow 1000" by simp
  obtain p q where pq: "0 \<le> p" "0 < q" "real_of_int p / real_of_int q = real_of_int (int n) / real_of_int 3"
    and d: "nonneg (ddiv (double_of_int (int n)) (double_of_int 3)) (rval p q)"
    by (rule nonneg_ddiv [OF nn(1,2) _ lt]) (simp, blast)
  have c: "nonneg (dceil (ddiv (double_of_int (int n)) (double_of_int 3))) (real_of_int ?k)"
    using nonneg_dceil [OF d] third_ceiling [OF n pq(1,2)] pq(3) by simp
  have k: "0 \<le> ?k" "?k < 2 ^ 50" using n by simp_all
  then have "real_of_int ?k < real_of_int (2 ^ 50)" by (simp only: of_int_less_iff)
  then have lt4: "real_of_int 4 * real_of_int ?k < two_pow 1000" using big by simp
  obtain a b where ab: "0 \<le> a" "0 < b" "real_of_int a / real_of_int b = real_of_int 4 * real_of_int ?k"
    and m: "nonneg (dmul (double_of_int 4) (dceil (ddiv (double_of_int (int n)) (double_of_int 3)))) (rval a b)"
    by (rule nonneg_dmul [OF nn(3) c lt4]) blast
  have "rval a b = rval (4 * ?k) 1" using ab k by (intro antisym rval_mono) simp_all
  also have "\<dots> = real_of_int (4 * ?k)" using k by (intro rval_int) simp_all
  finally have "base64_length n = Inr (nat (4 * ?k))" using size_of_rounded [of _ "4 * ?k"] m k by (simp add: base64_length_def)
  also have "nat (4 * ?k) = 4 * ((n + 2) div 3)" by (simp add: nat_mult_distrib nat_div_distrib nat_add_distrib)
  finally show ?thesis .
qed

definition int_of_size :: "nat \<Rightarrow> int" where
  "int_of_size n = (int n + 2 ^ 31) mod 2 ^ 32 - 2 ^ 31"

text \<open>\<open>bio_write\<close> is what writing bytes to the filter and flushing it puts into the memory buffer, or \<open>None\<close> if a
  call fails, as it does for a length that is not positive; the buffer is the string itself.\<close>

definition base64_encode :: "(string \<Rightarrow> string option) \<Rightarrow> string \<Rightarrow> string result" where
  "base64_encode bio_write ascii = bindE (base64_length (length ascii)) (\<lambda>len.
     if int_of_size (length ascii) \<le> 0 then Inr []
     else (case bio_write (take (nat (int_of_size (length ascii))) ascii) of
         None \<Rightarrow> Inr []
       | Some text \<Rightarrow> if length text \<le> len then Inr (overwrite (replicate len NUL) text) else Inl Undefined_behaviour))"

text \<open>\<open>bio_read\<close> is what reading so many bytes from the filter over a text gives, nothing if the call fails. A
  length that is no \<open>int\<close> is taken for something else.\<close>

definition base64_decode :: "(string \<Rightarrow> nat \<Rightarrow> string) \<Rightarrow> string \<Rightarrow> string result" where
  "base64_decode bio_read base64 =
     (let ascii = replicate (6 * length base64 mod 2 ^ 64 div 8) NUL in
      if int_of_size (length base64) < 0 then Inl Undefined_behaviour
      else if int_of_size (length ascii) \<le> 0 then Inr []
      else let bytes = bio_read base64 (nat (int_of_size (length ascii)))
        in Inr (if 0 < length bytes then take (length bytes) (overwrite ascii bytes) else []))"

text \<open>What is documented of the filter: four characters for three bytes or a part of three, and reading gives the
  bytes back.\<close>

definition documented_base64 :: "(string \<Rightarrow> string option) \<Rightarrow> (string \<Rightarrow> nat \<Rightarrow> string) \<Rightarrow> bool" where
  "documented_base64 bio_write bio_read \<longleftrightarrow> (\<forall>s. s \<noteq> [] \<longrightarrow>
     (\<exists>text. bio_write s = Some text \<and> length text = 4 * ((length s + 2) div 3) \<and> (\<forall>n. bio_read text n = take n s)))"

lemma int_of_size_small: "n < 2 ^ 31 \<Longrightarrow> int_of_size n = int n"
proof -
  assume "n < 2 ^ 31"
  then have "int n < 2 ^ 31" by simp
  then show ?thesis by (simp add: int_of_size_def)
qed

text \<open>C27: The buffer that \<open>encode\<close> takes, its size computed with \<open>double\<close>s, has exactly the size of the Base64 text, and
  the one that \<open>decode\<close> takes has room for all the bytes: up to the size at which the length of the text is no
  longer an \<open>int\<close>, decoding gives back what was encoded.\<close>

theorem base64_round_trip:
  assumes "documented_base64 bio_write bio_read" and "length s \<le> 1610612733"
  shows "bindE (base64_encode bio_write s) (base64_decode bio_read) = Inr s"
proof (cases "s = []")
  case True
  have "base64_length 0 = Inr 0" using base64_length_exact [of 0] by simp
  with True show ?thesis by (simp add: base64_encode_def base64_decode_def int_of_size_small)
next
  case False
  let ?k = "(length s + 2) div 3"
  obtain base64 where t: "bio_write s = Some base64" "length base64 = 4 * ?k" "\<And>n. bio_read base64 n = take n s"
    using assms(1) False by (auto simp: documented_base64_def)
  have room: "length s \<le> 3 * ?k" by simp
  have "?k \<le> 536870911" using assms(2) by simp
  have mod: "6 * (4 * ?k) mod 2 ^ 64 div 8 = 3 * ?k" using \<open>?k \<le> 536870911\<close> by simp
  have small: "int_of_size m = int m" if "m \<le> 4 * ?k" for m
    using that \<open>?k \<le> 536870911\<close> by (intro int_of_size_small) simp
  have "int_of_size (length s) = int (length s)" "int_of_size (4 * ?k) = int (4 * ?k)" "int_of_size (3 * ?k) = int (3 * ?k)"
    by (rule small, simp)+
  moreover have "base64_length (length s) = Inr (4 * ?k)" using assms(2) by (intro base64_length_exact) simp
  moreover have "0 < ?k" using False by (cases s) simp_all
  ultimately show ?thesis using t False mod room
    by (simp add: base64_encode_def base64_decode_def Let_def overwrite_def nat_mult_distrib)
qed

definition ex_bio_write :: "string \<Rightarrow> string option" where
  "ex_bio_write s = Some (s @ CHR ''1'' # replicate (4 * ((length s + 2) div 3) - length s - 1) CHR ''0'')"

definition ex_bio_read :: "string \<Rightarrow> nat \<Rightarrow> string" where
  "ex_bio_read text n = take n (butlast (rev (dropWhile (\<lambda>c. c = CHR ''0'') (rev text))))"

theorem base64_round_trip_witness:
  "bindE (base64_encode ex_bio_write ''cpu'') (base64_decode ex_bio_read) = Inr ''cpu''"
proof -
  have "documented_base64 ex_bio_write ex_bio_read"
    unfolding documented_base64_def
  proof (intro allI impI)
    fix s :: string assume "s \<noteq> []"
    then have "0 < length s" by simp
    then have "length s < 4 * ((length s + 2) div 3)" by linarith
    moreover have "dropWhile (\<lambda>c. c = CHR ''0'') (replicate k (CHR ''0'') @ xs) = dropWhile (\<lambda>c. c = CHR ''0'') xs" for k xs
      by (induction k) simp_all
    ultimately show "\<exists>text. ex_bio_write s = Some text \<and> length text = 4 * ((length s + 2) div 3) \<and> (\<forall>n. ex_bio_read text n = take n s)"
      by (simp add: ex_bio_write_def ex_bio_read_def)
  qed
  from base64_round_trip [OF this, of "''cpu''"] show ?thesis by simp
qed

section \<open>Keys\<close>

text \<open>\<open>kdf\<close> writes the key or fails; the result of the call is not looked at. \<open>None\<close> is \<open>std::length_error\<close>,
  for a negative size.\<close>

definition pbkdf2 :: "(string \<Rightarrow> string \<Rightarrow> int \<Rightarrow> nat \<Rightarrow> string option) \<Rightarrow> string \<Rightarrow> string \<Rightarrow> int \<Rightarrow> int \<Rightarrow> string option" where
  "pbkdf2 kdf password salt iterations key_size =
     (if key_size < 0 then None
      else let key = replicate (nat key_size) NUL
        in Some (case kdf password salt iterations (nat key_size) of None \<Rightarrow> key | Some bytes \<Rightarrow> overwrite key bytes))"

text \<open>A failure gives a key of zero bytes, whatever the password.\<close>

lemma pbkdf2_failure_unnoticed:
  "kdf password salt iterations (nat key_size) = None \<Longrightarrow> 0 \<le> key_size \<Longrightarrow>
    pbkdf2 kdf password salt iterations key_size = Some (replicate (nat key_size) NUL)"
  by (simp add: pbkdf2_def)

end
