(* ===== verification/Spec2Isabelle.thy ===== *)
theory Spec2Isabelle
  imports FlexStack UnfinishedLines UnitTestRuns HttpService HttpClient Attributes LinuxRes WindowsRes ScopeRunner SamplerThread SmtpClient
    ConnectingSafety Accepting Crypto
begin

text \<open>
  A model of ResMonitor, a resource monitor in C++14: it reads a configuration of triggers and logs,
  samples the processor, the memory and the disk once a second, keeps thinned-out logs of the samples,
  and mails the subscribers of a trigger when its condition has held for its duration. A small web
  server shows the logs and takes the subscriptions. Paths are relative to the root of the repository.

  \<^bold>\<open>How the parts interact.\<close> \<open>src/main.cpp\<close> reads the configuration with \<open>ConfigurationParser\<close> (a
  scanner generated by flex whose actions build the lists of triggers and logs), makes a resource
  provider, a \<open>PredicateEngine\<close> and a \<open>SamplingManager\<close> for the parsed lists, connects the engine to
  the manager, and serves HTTP. The polling thread of the manager takes a sample from the provider,
  advances the counter of every trigger, calls the activation and deactivation callbacks, which are
  the engine's, and feeds the logs. The engine passes a signal on to the predicates registered for the
  trigger; a predicate whose formula becomes true calls its callback, which sends a mail with
  \<open>SMTPClient\<close>. The handlers of the web server register predicates and print the logs.

  \<^bold>\<open>Conventions\<close> (\<open>Prelude\<close>, \<open>CppText\<close>, \<open>CFiles\<close>, \<open>DoubleArith\<close>, \<open>DoubleOrder\<close>). What can throw returns
  a sum whose left side is the exception, the failed assertion, \<open>std::terminate\<close>, \<open>exit\<close>, or
  undefined behaviour; \<open>long\<close> is an integer in whose operations the overflow is written out, as undefined
  behaviour in the parser and as the wrap-around of the usual compilers in the readings of the counters; unsigned
  counters are
  words; strings are lists of characters; a \<open>double\<close> is IEEE binary64 with round to nearest even,
  defined on integers so that it evaluates. A hash map is a list of pairs in the order of iteration
  wherever that order can be seen, and a map where it cannot. \<open>DoubleOrder\<close> shows that rounding is
  monotone and bounds percentages.

  \<^bold>\<open>Theories and code.\<close>

  \<^item> \<open>ConfigData\<close>: \<open>include/configrawdata.hpp\<close>, \<open>src/library_src/configrawdata.cpp\<close>. The structs, their
    equalities and hashes (shown to fit each other, for any \<open>hash_combine\<close>) and their printed form.

  \<^item> \<open>FlexTables\<close>, \<open>Automaton\<close>: the seven tables of \<open>src/library_src/flex.cpp\<close>, entry for entry; every
    lookup of the scanner is in bounds and ends in a state.

  \<^item> \<open>Scanner\<close>, \<open>ScannerRefinement\<close>: \<open>yylex\<close> and what it calls (\<open>yy_get_next_buffer\<close>,
    \<open>yy_get_previous_state\<close>, \<open>yy_try_NUL_trans\<close>, \<open>LexerInput\<close>, \<open>yyrestart\<close>) as a machine with the buffer,
    its two end-of-buffer characters, refills and rescans. It is shown to terminate and to compute the
    longest-match scan of the text, up to an action that fails. The machine is a
    partial function whose value \<open>None\<close> is a run without end; it has another value on every input.

  \<^item> \<open>FlexBuffers\<close>, \<open>FlexMemory\<close>, \<open>FlexReading\<close>, \<open>FlexStack\<close>: the memory behind the scanner: allocated buffers,
    pointers, the held character, the stack of buffers, \<open>yyinput\<close>, \<open>yyunput\<close>, \<open>switch_streams\<close>, constructor and
    destructor. A bad access is undefined behaviour. A refill in memory is shown to do what the refill of
    \<open>Scanner\<close> does; reading gives the stream character by character and pushing back undoes it; no sequence of
    operations on the stack goes wrong, and a buffer that was left is resumed where it was.

  \<^item> \<open>ParserActions\<close>, \<open>ConfigParser\<close>: the 69 actions with the stack of start conditions and the
    cross products; \<open>ConfigurationParser::run\<close>. A sum of time spans that overflows is undefined behaviour. Every
    well-formed configuration, in any layout the grammar allows, is parsed back from its text.

  \<^item> \<open>UnfinishedLines\<close>: what the parser does with a last line that has no end.

  \<^item> \<open>ResStates\<close>: \<open>CpuState\<close>, \<open>RamState\<close>, \<open>HddState\<close>. The comparison with a trigger follows one contract,
    the locale \<open>threshold\<close>, of which the three classes are instances (\<open>TriggerCounting\<close>).

  \<^item> \<open>LinuxRes\<close>: \<open>LinuxResProvider\<close>. A reading takes the texts of the files under \<open>/proc\<close> and \<open>/sys\<close>, the
    answers of \<open>times\<close> and \<open>sysinfo\<close>, and the clock at that moment. The files are shown to be read
    right, the processor usage to be a percentage from 0 to 100 when the counters advance, the disk usage to be
    the rate even if the byte counters wrap, and the constructor to use no uninitialised member.

  \<^item> \<open>WindowsRes\<close>: \<open>WindowsResProvider\<close> on the answers of the Windows calls. The usage of the monitor is a
    percentage from 0 to 100 when the counters advance; the disk counters may wrap; the members that the
    constructor initialises, and those it does not when the drive cannot be opened.

  \<^item> \<open>Predicates\<close>, \<open>Engine\<close>: \<open>Predicate\<close>, the three \<open>Predicate_*\<close> classes, and \<open>PredicateEngine\<close>. Weak
    pointers are addresses into a heap of predicates. Over any sequence of signals the engine treats
    a predicate as if the signals about its operands had been sent to it alone, and the states it keeps
    are those of a board that records the last signal of each trigger.

  \<^item> \<open>Sampling\<close>, \<open>TriggerCounting\<close>, \<open>SamplingLogs\<close>, \<open>SamplerRun\<close>: \<open>SamplingManager\<close>. The circular buffer of
    Boost is an interface, the locale \<open>circular_buffer\<close>, with a ring as its instance; the callbacks are
    functions on a world of any type. A trigger is shown to fire once per full duration of consecutive
    polls, each log to hold one entry per completed block of samples, and a run not to throw. An entry is what
    the running division of the code gives, which is the mean for short resolutions only.

  \<^item> \<open>SignalSchedule\<close>: which signals a run sends, told by the readings alone, without counters; also for a part
    of a run, across a change of the callbacks.

  \<^item> \<open>SamplerThread\<close>: \<open>startSampling\<close>, \<open>stopSampling\<close>, the destructor and the loop of the polling thread,
    interleaved. No order of calls by one owner breaks the thread object, and \<open>stopSampling\<close> returns.

  \<^item> \<open>Percent\<close>, \<open>QueryStrings\<close>, \<open>HttpMessages\<close>, \<open>Attributes\<close>, \<open>StatusCodes\<close>, \<open>ScopeRunner\<close>:
    \<open>include/utility.hpp\<close> and \<open>include/status_code.hpp\<close>. Parsing is shown to agree with splitting, to give rendered texts back
    and never to throw on a request line; the scope runner counts its locks in all interleavings.

  \<^item> \<open>HttpBodies\<close>, \<open>HttpServer\<close>: the session of \<open>include/server_http.hpp\<close>. A connection is the list of the
    pieces that its reads bring; reading up to a delimiter, a number of bytes or the end of a chunked content
    takes pieces off it. A conversation is shown to end whatever the bytes are (how it can end with an exception or
    undefined behaviour is part of the statement), and to do what calling the
    handlers for the requests in order does, however these are cut into pieces.

  \<^item> \<open>HttpClient\<close>: the request text, the reading of a response and the pool of connections of
    \<open>include/client_http.hpp\<close>. What a client sends arrives at the handler, what the handler writes is what the
    caller gets, and no two sessions share a connection.

  \<^item> \<open>Connecting\<close>, \<open>ConnectingSafety\<close>: the sessions of \<open>client_http.hpp\<close> and \<open>client_https.hpp\<close> from
    \<open>get_connection\<close> over resolving, connecting, the proxy and the handshake to the response, as a machine whose
    steps are the handlers. How an operation of Boost.Asio ends is not determined. A request goes
    over a secured connection only, the callback is called at most once, a session ends without it only when the
    client is destroyed or an exception leaves the reading of a response, every operation on a socket is timed and
    answered when its time is over, and the pool moves as in \<open>HttpClient\<close>.

  \<^item> \<open>Accepting\<close>: the contexts that the constructors of \<open>client_https.hpp\<close> and \<open>server_https.hpp\<close> set up, and
    \<open>start\<close>, \<open>accept\<close> and \<open>stop\<close> of the servers. A listening server has one accept pending at any time.

  \<^item> \<open>Crypto\<close>: \<open>include/crypto.hpp\<close> over the documented functions of OpenSSL. Streams hash like strings, buffers
    have the right size although it is computed with \<open>double\<close>s, and hexadecimal texts can be read back.

  \<^item> \<open>HttpService\<close>: the server with the handlers of \<open>src/main.cpp\<close>, and the life of the program as a sequence of
    polls, the connecting of the engine and connections of clients, from the text of the configuration and the
    bytes of a browser to the calls that send mails.

  \<^item> \<open>UnitTests\<close>, \<open>UnitTestRuns\<close>: the doubles, the configurations and the fifteen cases of \<open>tests_src/\<close>. All
    checks hold if the trigger map visits the disk trigger last; two of the cases need that order.

  \<^item> \<open>WebHandlers\<close>, \<open>SmtpClient\<close>: the handlers of \<open>src/main.cpp\<close>, and \<open>include/smtp_client.hpp\<close>, of which the
    theorems describe the bytes that are written, line by line. The mail server is not modelled.

  \<^item> \<open>Monitor\<close>: the start of \<open>main\<close>, where sampling begins before the engine is connected, and what the schedule
    of signals does to an engine with one subscription.

  \<^bold>\<open>Parameters.\<close> Code that is not in the repository is an argument: \<open>boost::hash_combine\<close>, the circular
  buffer, the Base64 encoder, how a stream prints a \<open>double\<close>, the iteration order of a multimap of query
  fields and the order of its equal keys, the iteration order of the set of connections and of the trigger
  map, the address of a new object, the answers of the calls of Linux and Windows, and the functions
  of OpenSSL. Their laws are hypotheses where a theorem needs them; the
  witnesses give concrete functions.

  \<^bold>\<open>What the proofs showed to be wrong in the code\<close> is stated by theorems as well, among them: the means
  for the logs divide at every step (\<open>constant_load_logged_low\<close>), the deactivation callback is never
  called (\<open>deactivation_is_dead\<close>), memory triggers in MB look at the installed memory
  (\<open>memory_trigger_ignores_usage\<close>), a last line without an end loses its definition
  (\<open>unfinished_last_line\<close>), usage that is not a number (\<open>unchanged_counters_give_NaN\<close>), a chunk size that ends
  the server (\<open>chunk_size_ends_server\<close>), a pipelined request that becomes the content of the one before
  (\<open>pipelined_request_is_content\<close>), responses delimited by the end of the stream that lose their rest
  (\<open>close_delimited_response_lost\<close>), mails cut at a line with a dot (\<open>mail_on_the_wire\<close>), a size line
  without characters (\<open>empty_size_line_undefined\<close>), a stopped server that keeps
  its \<open>io_service\<close> busy (\<open>stopped_server_spins\<close>), and tests that
  rely on the order of an unordered map (\<open>two_tests_need_order\<close>). The header parser alone does not return on
  a header without an end (\<open>header_parse_returns_iff\<close>); the server and the client only give it headers that
  have one (\<open>server_never_hangs\<close>).

  \<^bold>\<open>Not modelled.\<close> Of \<open>server_http.hpp\<close> and \<open>client_http.hpp\<close>: the upgrade of a connection, the options of
  sockets, and, where the bytes of the messages are concerned, timeouts, writes that
  fail and the limit of the buffer, which \<open>Connecting\<close> has as ways for an operation to end; what OpenSSL computes;
  the base class \<open>ResUsageProvider\<close>, whose bodies are empty; the main function of the tests, which
  Boost.Test provides; the sleep between two polls and the debug output; what happens when a poll, \<open>connectPredicateEngine\<close> and a
  connection of a client overlap, which nothing in the code prevents (the theorems have them in any order, one
  after the other); reading errors of a stream; and running out of memory.
\<close>

end
